(* ===== verification/Prelude.thy ===== *)
theory Prelude
  imports Complex_Main "HOL-Library.AList"
begin

text \<open>
  Shared vocabulary of the development: how Python values, dictionaries, exceptions and loops
  are represented, and the generic lemmas the component theories use.

  \<^item> Python integers are \<open>int\<close>; microsecond floats are exact rationals (\<open>time\<close>), so no
    statement depends on floating point rounding.
  \<^item> A Python \<open>dict\<close> keeps insertion order: it is an association list, written with
    \<open>AList.update\<close> (overwrite in place, or append), \<open>AList.delete\<close> and \<open>map_of\<close>.
  \<^item> A function that may raise returns \<open>err + 'a\<close>; \<open>Inl e\<close> is the exception.
  \<^item> \<open>bindE\<close> sequences raising statements and \<open>foldE\<close> is a \<open>for\<close> loop whose body may raise.
\<close>

section \<open>Values, errors and loops\<close>

type_synonym time = rat
type_synonym ('k, 'v) dict = "('k \<times> 'v) list"

datatype err =
    ValueError string
  | KeyError string
  | IndexError
  | TypeError
  | AttributeError string
  | RuntimeError string
  | AssertionError string
  | LedgerError string
  | SlabError string
  | ServiceError string
  | PlacementError string
  | TransferError string
  | ExecutionError string
  | DeadlockError string
  | CancelledRun
  | TaskFailure string
  | OutOfFuel

type_synonym 'a res = "err + 'a"

definition bindE :: "'a res \<Rightarrow> ('a \<Rightarrow> 'b res) \<Rightarrow> 'b res" where
  "bindE m f = (case m of Inl e \<Rightarrow> Inl e | Inr a \<Rightarrow> f a)"

fun foldE :: "('a \<Rightarrow> 's \<Rightarrow> 's res) \<Rightarrow> 'a list \<Rightarrow> 's \<Rightarrow> 's res" where
  "foldE f [] s = Inr s"
| "foldE f (x # xs) s = bindE (f x s) (foldE f xs)"

fun mapE :: "('a \<Rightarrow> 'b res) \<Rightarrow> 'a list \<Rightarrow> 'b list res" where
  "mapE f [] = Inr []"
| "mapE f (x # xs) = bindE (f x) (\<lambda>y. bindE (mapE f xs) (\<lambda>ys. Inr (y # ys)))"

text \<open>\<open>assert\<close> and \<open>if cond: raise\<close>.\<close>

definition guardE :: "bool \<Rightarrow> err \<Rightarrow> unit res" where
  "guardE b e = (if b then Inr () else Inl e)"

named_theorems inv_intros \<open>preservation rules of the component invariants\<close>

lemma bindE_simps [simp]:
  "bindE (Inl e) f = Inl e"
  "bindE (Inr a) f = f a"
  by (simp_all add: bindE_def)

lemma bindE_eq_Inr: "bindE m f = Inr b \<longleftrightarrow> (\<exists>a. m = Inr a \<and> f a = Inr b)"
  by (cases m) auto

lemma bindE_eq_Inl: "bindE m f = Inl e \<longleftrightarrow> m = Inl e \<or> (\<exists>a. m = Inr a \<and> f a = Inl e)"
  by (cases m) auto

lemma bindE_assoc: "bindE (bindE m f) g = bindE m (\<lambda>x. bindE (f x) g)"
  by (cases m) auto

lemma guardE_simps [simp]:
  "guardE b e = Inr u \<longleftrightarrow> b"
  "guardE b e = Inl e' \<longleftrightarrow> \<not> b \<and> e' = e"
  by (auto simp: guardE_def)

lemma bindE_guardE [simp]: "bindE (guardE b e) f = (if b then f () else Inl e)"
  by (simp add: guardE_def)

lemmas bindE_elims = bindE_eq_Inr bindE_eq_Inl

lemma foldE_append: "foldE f (xs @ ys) s = bindE (foldE f xs s) (foldE f ys)"
proof (induction xs arbitrary: s)
  case Nil
  show ?case by simp
next
  case (Cons x xs)
  show ?case by (cases "f x s") (simp_all add: Cons.IH)
qed

text \<open>Loop invariants for \<open>for\<close> loops: kept by the body on success.\<close>

lemma foldE_invariant:
  assumes "foldE f xs s = Inr s'" and "P s"
    and "\<And>x s s'. x \<in> set xs \<Longrightarrow> P s \<Longrightarrow> f x s = Inr s' \<Longrightarrow> P s'"
  shows "P s'"
  using assms
proof (induction xs arbitrary: s)
  case Nil
  then show ?case by simp
next
  case (Cons x xs)
  from Cons.prems(1) obtain s1 where s1: "f x s = Inr s1" and rest: "foldE f xs s1 = Inr s'"
    by (auto simp: bindE_eq_Inr)
  have "P s1" using Cons.prems(2,3) s1 by (meson list.set_intros(1))
  then show ?case using Cons.IH [OF rest] Cons.prems(3) by (meson list.set_intros(2))
qed

text \<open>Errors a loop can raise: only those its body raises in a state where the invariant holds.\<close>

lemma foldE_error:
  assumes "foldE f xs s = Inl e" and "P s"
    and "\<And>x s s'. x \<in> set xs \<Longrightarrow> P s \<Longrightarrow> f x s = Inr s' \<Longrightarrow> P s'"
    and "\<And>x s. x \<in> set xs \<Longrightarrow> P s \<Longrightarrow> f x s = Inl e \<Longrightarrow> Q e"
  shows "Q e"
  using assms
proof (induction xs arbitrary: s)
  case Nil
  then show ?case by simp
next
  case (Cons x xs)
  show ?case
  proof (cases "f x s")
    case (Inl e')
    then show ?thesis using Cons.prems by (metis bindE_simps(1) foldE.simps(2) list.set_intros(1) sum.inject(1))
  next
    case (Inr s1)
    then have "foldE f xs s1 = Inl e" using Cons.prems(1) by simp
    moreover have "P s1" using Inr Cons.prems(2,3) by (meson list.set_intros(1))
    ultimately show ?thesis using Cons.IH [of s1] Cons.prems(3,4) by (meson list.set_intros(2))
  qed
qed

text \<open>A loop with one body that always raises raises.\<close>

lemma foldE_raises:
  assumes "x \<in> set xs" and "\<And>s. f x s = Inl e" and "\<And>y s e'. f y s = Inl e' \<Longrightarrow> e' = e"
  shows "foldE f xs s = Inl e"
  using assms(1)
proof (induction xs arbitrary: s)
  case Nil
  then show ?case by simp
next
  case (Cons y ys)
  show ?case
  proof (cases "f y s")
    case (Inl e')
    then show ?thesis using assms(3) by simp
  next
    case (Inr s1)
    then have "x \<noteq> y" using assms(2) by auto
    with Cons Inr show ?thesis by simp
  qed
qed

section \<open>Reasoning about results\<close>

text \<open>\<open>outcome E Q m\<close>: the computation \<open>m\<close> either raises an error satisfying \<open>E\<close> or returns a value
  satisfying \<open>Q\<close>. The rules below are the proof rules for straight-line code and loops.\<close>

definition outcome :: "(err \<Rightarrow> bool) \<Rightarrow> ('a \<Rightarrow> bool) \<Rightarrow> 'a res \<Rightarrow> bool" where
  "outcome E Q m = (case m of Inl e \<Rightarrow> E e | Inr a \<Rightarrow> Q a)"

lemma outcome_simps [simp]:
  "outcome E Q (Inl e) = E e"
  "outcome E Q (Inr a) = Q a"
  by (simp_all add: outcome_def)

lemma outcomeI: "(\<And>e. m = Inl e \<Longrightarrow> E e) \<Longrightarrow> (\<And>a. m = Inr a \<Longrightarrow> Q a) \<Longrightarrow> outcome E Q m"
  by (cases m) auto

lemma outcome_Inr: "outcome E Q m \<Longrightarrow> m = Inr a \<Longrightarrow> Q a"
  by simp

lemma outcome_Inl: "outcome E Q m \<Longrightarrow> m = Inl e \<Longrightarrow> E e"
  by simp

lemma outcome_weaken: "outcome E Q m \<Longrightarrow> (\<And>a. Q a \<Longrightarrow> Q' a) \<Longrightarrow> (\<And>e. E e \<Longrightarrow> E' e) \<Longrightarrow> outcome E' Q' m"
  by (cases m) auto

lemma outcome_conj: "outcome E Q m \<Longrightarrow> outcome E Q' m \<Longrightarrow> outcome E (\<lambda>a. Q a \<and> Q' a) m"
  by (cases m) auto

lemma outcome_bind: "outcome E Q m \<Longrightarrow> (\<And>a. m = Inr a \<Longrightarrow> Q a \<Longrightarrow> outcome E R (f a)) \<Longrightarrow> outcome E R (bindE m f)"
  by (cases m) auto

lemma outcome_bind_eq:
  "(\<And>e. m = Inl e \<Longrightarrow> E e) \<Longrightarrow> (\<And>a. m = Inr a \<Longrightarrow> outcome E R (f a)) \<Longrightarrow> outcome E R (bindE m f)"
  by (cases m) auto

lemma outcome_guard: "(\<not> b \<Longrightarrow> E e) \<Longrightarrow> (b \<Longrightarrow> outcome E R (f ())) \<Longrightarrow> outcome E R (bindE (guardE b e) f)"
  by (cases b) auto

lemma outcome_foldE:
  assumes "P [] s"
    and "\<And>done x todo s. xs = done @ x # todo \<Longrightarrow> P done s \<Longrightarrow> outcome E (P (done @ [x])) (f x s)"
  shows "outcome E (P xs) (foldE f xs s)"
proof -
  have "outcome E (P xs) (foldE f todo s)" if "xs = done @ todo" "P done s" for todo "done" s
    using that
  proof (induction todo arbitrary: "done" s)
    case Nil
    then show ?case by simp
  next
    case (Cons x todo)
    show ?case unfolding foldE.simps
    proof (rule outcome_bind)
      show "outcome E (P (done @ [x])) (f x s)" using assms(2) Cons.prems by blast
      show "outcome E (P xs) (foldE f todo s')" if "P (done @ [x]) s'" for s'
        using Cons.IH [of "done @ [x]" s'] Cons.prems that by simp
    qed
  qed
  then show ?thesis using assms(1) by blast
qed

text \<open>The common case of an invariant that does not mention the elements already seen.\<close>

lemma outcome_foldE_inv:
  assumes "P s" and "\<And>x s. x \<in> set xs \<Longrightarrow> P s \<Longrightarrow> outcome E P (f x s)"
  shows "outcome E P (foldE f xs s)"
  using outcome_foldE [of "\<lambda>_. P" s xs E f] assms by simp

lemma mapE_Inr_iff: "mapE f xs = Inr ys \<longleftrightarrow> list_all2 (\<lambda>x y. f x = Inr y) xs ys"
proof (induction xs arbitrary: ys)
  case Nil
  then show ?case by auto
next
  case (Cons x xs)
  then show ?case by (cases ys) (auto simp: bindE_eq_Inr)
qed

lemma mapE_map: "(\<And>x. x \<in> set xs \<Longrightarrow> f (g x) = Inr (h x)) \<Longrightarrow> mapE f (map g xs) = Inr (map h xs)"
  by (induction xs) auto

section \<open>Dictionaries\<close>

abbreviation dget :: "('k, 'v) dict \<Rightarrow> 'k \<Rightarrow> 'v option" where
  "dget d k \<equiv> map_of d k"

abbreviation dset :: "'k \<Rightarrow> 'v \<Rightarrow> ('k, 'v) dict \<Rightarrow> ('k, 'v) dict" where
  "dset \<equiv> AList.update"

abbreviation ddel :: "'k \<Rightarrow> ('k, 'v) dict \<Rightarrow> ('k, 'v) dict" where
  "ddel \<equiv> AList.delete"

abbreviation dkeys :: "('k, 'v) dict \<Rightarrow> 'k list" where
  "dkeys d \<equiv> map fst d"

text \<open>Equality of dictionaries as Python compares them: the same items, in any order.\<close>

definition dict_eq :: "('k, 'v) dict \<Rightarrow> ('k, 'v) dict \<Rightarrow> bool" where
  "dict_eq d e \<longleftrightarrow> list_all (\<lambda>k. dget d k = dget e k) (dkeys d @ dkeys e)"

lemma dict_eq_iff: "dict_eq d e \<longleftrightarrow> (\<forall>k. dget d k = dget e k)"
proof
  assume eq: "dict_eq d e"
  show "\<forall>k. dget d k = dget e k"
  proof
    fix k
    show "dget d k = dget e k"
    proof (cases "k \<in> set (dkeys d @ dkeys e)")
      case True
      with eq show ?thesis unfolding dict_eq_def list_all_iff by blast
    next
      case False
      then have "dget d k = None" "dget e k = None" by (auto simp: map_of_eq_None_iff)
      then show ?thesis by simp
    qed
  qed
qed (simp add: dict_eq_def list_all_iff)

definition dget_or :: "('k, 'v) dict \<Rightarrow> 'k \<Rightarrow> 'v \<Rightarrow> 'v" where
  "dget_or d k v = (case map_of d k of None \<Rightarrow> v | Some w \<Rightarrow> w)"

text \<open>\<open>d.setdefault(k, []).append(v)\<close>.\<close>

definition dappend :: "'k \<Rightarrow> 'v \<Rightarrow> ('k, 'v list) dict \<Rightarrow> ('k, 'v list) dict" where
  "dappend k v d = dset k (dget_or d k [] @ [v]) d"

text \<open>Total of an integer measure over the values of a dictionary.\<close>

definition dsum :: "('v \<Rightarrow> int) \<Rightarrow> ('k, 'v) dict \<Rightarrow> int" where
  "dsum f d = (\<Sum>p \<leftarrow> d. f (snd p))"

lemma dsum_simps [simp]:
  "dsum f [] = 0"
  "dsum f (p # d) = f (snd p) + dsum f d"
  by (simp_all add: dsum_def)

lemma dget_dset [simp]: "map_of (AList.update k v d) j = (if j = k then Some v else map_of d j)"
  by (simp add: update_conv)

lemma dget_ddel [simp]: "map_of (AList.delete k d) j = (if j = k then None else map_of d j)"
  by (simp add: delete_conv)

lemma distinct_dset [simp, intro]: "distinct (map fst d) \<Longrightarrow> distinct (map fst (AList.update k v d))"
  by (rule distinct_update)

lemma distinct_ddel [simp, intro]: "distinct (map fst d) \<Longrightarrow> distinct (map fst (AList.delete k d))"
  by (rule distinct_delete)

lemma dsum_dset:
  "dsum f (AList.update k v d) =
     dsum f d - (case map_of d k of None \<Rightarrow> 0 | Some w \<Rightarrow> f w) + f v"
  by (induction d) (auto simp: dsum_def)

lemma dsum_ddel:
  "distinct (map fst d) \<Longrightarrow>
   dsum f (AList.delete k d) = dsum f d - (case map_of d k of None \<Rightarrow> 0 | Some w \<Rightarrow> f w)"
proof (induction d)
  case Nil
  then show ?case by simp
next
  case (Cons p d)
  then show ?case
  proof (cases "fst p = k")
    case True
    then have "AList.delete k d = d" using Cons.prems by (auto simp: delete_id)
    with True show ?thesis by simp
  next
    case False
    with Cons show ?thesis by auto
  qed
qed

lemma dsum_nonneg: "(\<And>k v. map_of d k = Some v \<Longrightarrow> 0 \<le> f v) \<Longrightarrow> distinct (map fst d) \<Longrightarrow> 0 \<le> dsum f d"
proof (induction d)
  case Nil
  then show ?case by simp
next
  case (Cons p d)
  have "0 \<le> f (snd p)" using Cons.prems(1) [of "fst p" "snd p"] by simp
  moreover have "0 \<le> dsum f d"
  proof (rule Cons.IH)
    fix k v assume kv: "map_of d k = Some v"
    then have "k \<noteq> fst p" using Cons.prems(2) by (auto simp: image_iff dest!: map_of_SomeD)
    then show "0 \<le> f v" using Cons.prems(1) [of k v] kv by simp
  qed (use Cons.prems(2) in simp)
  ultimately show ?case by simp
qed

lemma dsum_member_le:
  assumes "distinct (map fst d)" and "map_of d k = Some v"
    and "\<And>k v. map_of d k = Some v \<Longrightarrow> 0 \<le> f v"
  shows "f v \<le> dsum f d"
proof -
  have "0 \<le> dsum f (AList.delete k d)"
    by (rule dsum_nonneg) (use assms in \<open>auto split: if_splits\<close>)
  then show ?thesis using dsum_ddel [OF assms(1), of f k] assms(2) by simp
qed

lemma dget_or_simps [simp]:
  "map_of d k = Some w \<Longrightarrow> dget_or d k v = w"
  "map_of d k = None \<Longrightarrow> dget_or d k v = v"
  by (simp_all add: dget_or_def)

lemma dappend_get: "map_of (dappend k v d) j = (if j = k then Some (dget_or d k [] @ [v]) else map_of d j)"
  by (simp add: dappend_def)

lemma distinct_dappend [simp, intro]: "distinct (map fst d) \<Longrightarrow> distinct (map fst (dappend k v d))"
  by (simp add: dappend_def)

text \<open>The last entry written for a key wins, as for a dict comprehension.\<close>

lemma fold_dset_get:
  "dget (fold (\<lambda>x. dset (k x) (v x)) xs d) i =
     (case map_of (rev (map (\<lambda>x. (k x, v x)) xs)) i of None \<Rightarrow> dget d i | Some w \<Rightarrow> Some w)"
proof (induction xs arbitrary: d)
  case Nil
  show ?case by simp
next
  case (Cons x xs)
  show ?case by (simp add: Cons.IH map_add_def split: option.splits)
qed

lemma fold_dset_get_notin:
  "i \<notin> k ` set xs \<Longrightarrow> dget (fold (\<lambda>x. dset (k x) (v x)) xs d) i = dget d i"
  by (induction xs arbitrary: d) auto

lemma fold_dset_get_unique:
  assumes x: "x \<in> set xs" and uniq: "\<And>y. y \<in> set xs \<Longrightarrow> k y = k x \<Longrightarrow> v y = v x"
  shows "dget (fold (\<lambda>x. dset (k x) (v x)) xs d) (k x) = Some (v x)"
proof -
  let ?l = "rev (map (\<lambda>x. (k x, v x)) xs)"
  have "k x \<in> fst ` set ?l" using x by force
  then obtain w where w: "map_of ?l (k x) = Some w"
    by (metis map_of_eq_None_iff not_None_eq)
  then have "(k x, w) \<in> set ?l" by (rule map_of_SomeD)
  then have "w = v x" using uniq by auto
  with w show ?thesis by (simp add: fold_dset_get)
qed

section \<open>Decimal rendering of counters\<close>

fun show_nat :: "nat \<Rightarrow> string" where
  "show_nat n =
     (if n < 10 then [char_of (48 + n)] else show_nat (n div 10) @ [char_of (48 + n mod 10)])"

declare show_nat.simps [simp del]

section \<open>Rounding up to an alignment\<close>

text \<open>\<open>(n + a - 1) // a * a\<close>, the idiom of the allocators.\<close>

definition align_up :: "int \<Rightarrow> int \<Rightarrow> int" where
  "align_up a n = (n + a - 1) div a * a"

lemma align_up_dvd: "a dvd align_up a n"
  by (simp add: align_up_def)

lemma align_up_ge: "0 < a \<Longrightarrow> n \<le> align_up a n"
proof -
  assume a: "0 < a"
  have "n + a - 1 = (n + a - 1) div a * a + (n + a - 1) mod a" by simp
  moreover have "(n + a - 1) mod a < a" using a by simp
  ultimately show ?thesis unfolding align_up_def by linarith
qed

lemma align_up_less: "0 < a \<Longrightarrow> align_up a n < n + a"
proof -
  assume a: "0 < a"
  have "n + a - 1 = (n + a - 1) div a * a + (n + a - 1) mod a" by simp
  moreover have "0 \<le> (n + a - 1) mod a" using a by simp
  ultimately show ?thesis unfolding align_up_def by linarith
qed

lemma align_up_pos: "0 < a \<Longrightarrow> 0 < n \<Longrightarrow> 0 < align_up a n"
  using align_up_ge [of a n] by linarith

lemma align_up_id: "0 < a \<Longrightarrow> a dvd n \<Longrightarrow> align_up a n = n"
proof -
  assume a: "0 < a" and "a dvd n"
  then obtain k where "n = a * k" by blast
  moreover have "(a * k + (a - 1)) div a = k"
    using a by (subst mult.commute) (simp add: div_pos_pos_trivial)
  then have "(a * k + a - 1) div a = k" by (simp add: algebra_simps)
  ultimately show ?thesis by (simp add: align_up_def)
qed

section \<open>Lists updated by index\<close>

text \<open>\<open>xs.insert(i, v)\<close>, \<open>del xs[i]\<close> and \<open>bisect.bisect_left\<close>.\<close>

definition list_insert :: "nat \<Rightarrow> 'a \<Rightarrow> 'a list \<Rightarrow> 'a list" where
  "list_insert i v xs = take i xs @ v # drop i xs"

definition list_del :: "nat \<Rightarrow> 'a list \<Rightarrow> 'a list" where
  "list_del i xs = take i xs @ drop (Suc i) xs"

function bisect_go :: "'a::linorder list \<Rightarrow> 'a \<Rightarrow> nat \<Rightarrow> nat \<Rightarrow> nat" where
  "bisect_go xs x lo hi =
     (if lo < hi then
        let mid = (lo + hi) div 2
        in if xs ! mid < x then bisect_go xs x (mid + 1) hi else bisect_go xs x lo mid
      else lo)"
  by auto

termination
  by (relation "measure (\<lambda>(xs, x, lo, hi). hi - lo)") auto

declare bisect_go.simps [simp del]

definition bisect_left :: "'a::linorder list \<Rightarrow> 'a \<Rightarrow> nat" where
  "bisect_left xs x = bisect_go xs x 0 (length xs)"

lemma bisect_go_spec:
  assumes "sorted xs" and "lo \<le> hi" and "hi \<le> length xs"
    and "\<forall>j < lo. xs ! j < x" and "\<forall>j. hi \<le> j \<and> j < length xs \<longrightarrow> x \<le> xs ! j"
  shows "bisect_go xs x lo hi \<le> length xs \<and> (\<forall>j < bisect_go xs x lo hi. xs ! j < x) \<and>
    (\<forall>j. bisect_go xs x lo hi \<le> j \<and> j < length xs \<longrightarrow> x \<le> xs ! j)"
  using assms
proof (induction xs x lo hi rule: bisect_go.induct)
  case (1 xs x lo hi)
  show ?case
  proof (cases "lo < hi")
    case False
    then show ?thesis using "1.prems" by (simp add: bisect_go.simps)
  next
    case True
    let ?m = "(lo + hi) div 2"
    have m: "lo \<le> ?m" "?m < hi" using True by auto
    show ?thesis
    proof (cases "xs ! ?m < x")
      case below: True
      have "\<forall>j < ?m + 1. xs ! j < x"
      proof (intro allI impI)
        fix j assume "j < ?m + 1"
        then have "xs ! j \<le> xs ! ?m" using m "1.prems"(1,3) by (intro sorted_nth_mono) auto
        with below show "xs ! j < x" by simp
      qed
      with "1.IH"(1) [OF True refl below] "1.prems" m below True show ?thesis
        by (simp add: bisect_go.simps [of xs x lo hi] Let_def)
    next
      case above: False
      have "\<forall>j. ?m \<le> j \<and> j < length xs \<longrightarrow> x \<le> xs ! j"
      proof (intro allI impI)
        fix j assume j: "?m \<le> j \<and> j < length xs"
        then have "xs ! ?m \<le> xs ! j" using "1.prems"(1) by (intro sorted_nth_mono) auto
        with above show "x \<le> xs ! j" by simp
      qed
      with "1.IH"(2) [OF True refl above] "1.prems" m above True show ?thesis
        by (simp add: bisect_go.simps [of xs x lo hi] Let_def)
    qed
  qed
qed

text \<open>Binary search splits a sorted list at the first element not below the key.\<close>

lemma bisect_left_spec:
  assumes "sorted xs"
  shows "bisect_left xs x \<le> length xs" and "j < bisect_left xs x \<Longrightarrow> xs ! j < x"
    and "bisect_left xs x \<le> j \<Longrightarrow> j < length xs \<Longrightarrow> x \<le> xs ! j"
proof -
  have "\<forall>j. length xs \<le> j \<and> j < length xs \<longrightarrow> x \<le> xs ! j" by auto
  note spec = bisect_go_spec [OF assms _ _ _ this, of 0, folded bisect_left_def, simplified]
  show "bisect_left xs x \<le> length xs" and "j < bisect_left xs x \<Longrightarrow> xs ! j < x"
    and "bisect_left xs x \<le> j \<Longrightarrow> j < length xs \<Longrightarrow> x \<le> xs ! j"
    using spec by blast+
qed

lemma zip_list_insert:
  "length xs = length ys \<Longrightarrow> zip (list_insert i a xs) (list_insert i b ys) = list_insert i (a, b) (zip xs ys)"
  by (simp add: list_insert_def take_zip drop_zip)

lemma zip_list_del:
  "length xs = length ys \<Longrightarrow> zip (list_del i xs) (list_del i ys) = list_del i (zip xs ys)"
  by (simp add: list_del_def take_zip drop_zip)

lemma length_list_insert [simp]: "length (list_insert i a xs) = Suc (length xs)"
  by (simp add: list_insert_def)

lemma length_list_del: "i < length xs \<Longrightarrow> length (list_del i xs) = length xs - 1"
  by (simp add: list_del_def)

section \<open>Fuel\<close>

text \<open>\<open>fuel_le m1 m2\<close>: \<open>m1\<close> ran out of fuel or \<open>m2\<close> is the same outcome.\<close>

definition fuel_le :: "'a res \<Rightarrow> 'a res \<Rightarrow> bool" where
  "fuel_le m1 m2 \<longleftrightarrow> m1 = Inl OutOfFuel \<or> m2 = m1"

lemma fuel_le_refl [simp]: "fuel_le m m"
  by (simp add: fuel_le_def)

lemma fuel_le_out [simp]: "fuel_le (Inl OutOfFuel) m"
  by (simp add: fuel_le_def)

lemma fuel_le_bind: "fuel_le m1 m2 \<Longrightarrow> (\<And>a. fuel_le (f1 a) (f2 a)) \<Longrightarrow> fuel_le (bindE m1 f1) (bindE m2 f2)"
  by (cases m1) (auto simp: fuel_le_def)

lemma fuel_le_foldE: "(\<And>x s. fuel_le (f1 x s) (f2 x s)) \<Longrightarrow> fuel_le (foldE f1 xs s) (foldE f2 xs s)"
  by (induction xs arbitrary: s) (auto intro: fuel_le_bind)

text \<open>A loop with fuel: \<open>body\<close> is one round with the rest of the loop as its argument.\<close>

locale fuelled_loop =
  fixes body :: "('s \<Rightarrow> 'r res) \<Rightarrow> 's \<Rightarrow> 'r res" and loop :: "nat \<Rightarrow> 's \<Rightarrow> 'r res"
  assumes body_mono: "(\<And>s. fuel_le (f s) (g s)) \<Longrightarrow> fuel_le (body f s) (body g s)"
    and loop_0: "fuel_le (loop 0 s) (body f s)"
    and loop_Suc: "loop (Suc n) s = body (loop n) s"
begin

lemma loop_mono: "n \<le> m \<Longrightarrow> fuel_le (loop n s) (loop m s)"
proof (induction n arbitrary: m s)
  case 0
  then show ?case by (cases m) (simp_all add: loop_Suc loop_0)
next
  case (Suc n)
  then obtain m' where "m = Suc m'" "n \<le> m'" by (cases m) auto
  then show ?case by (simp add: loop_Suc body_mono Suc.IH)
qed

end

end
