(* ===== verification/Program_IR.thy ===== *)
theory Program_IR
  imports Prelude
begin

text \<open>
  The program IR of \<open>src/dataflow/core\<close>: scalar types and tensor sizes (\<open>types.py\<close>) and the
  frozen dataclasses \<open>ObjectSpec\<close>, \<open>OutputSpec\<close>, \<open>TransferDirective\<close>, \<open>TaskSpec\<close>,
  \<open>RecomputeOption\<close>, \<open>RecomputeRewrite\<close> and \<open>Program\<close> (\<open>program.py\<close>) with their lookups.
  Locations, roles and dtypes stay strings, as in the source, because validation is what rejects
  unknown ones. \<open>Mapping[str, Any]\<close> fields hold JSON values.
\<close>

section \<open>Scalar types\<close>

datatype json =
    JNull
  | JBool bool
  | JInt int
  | JFloat rat
  | JStr string
  | JList "json list"
  | JObj "(string \<times> json) list"

definition LOCATIONS :: "string list" where
  "LOCATIONS = [''fast'', ''backing'']"

definition ROLES :: "string list" where
  "ROLES = [''parameter'', ''gradient'', ''optimizer_state'', ''activation'', ''input'',
            ''output'', ''temp'', ''other'']"

definition DTYPE_BITS :: "(string, int) dict" where
  "DTYPE_BITS =
    [(''fp64'', 64), (''fp32'', 32), (''tf32'', 32), (''fp16'', 16), (''bf16'', 16),
     (''fp8_e4m3'', 8), (''fp8_e5m2'', 8), (''fp4'', 4), (''int64'', 64), (''int32'', 32),
     (''int16'', 16), (''int8'', 8), (''uint8'', 8), (''bool'', 8)]"

definition dtype_nbytes :: "int list \<Rightarrow> string \<Rightarrow> int res" where
  "dtype_nbytes shape dtype =
     (case dget DTYPE_BITS dtype of
        None \<Rightarrow> Inl (ValueError ''unknown dtype'')
      | Some bits \<Rightarrow> (let n = prod_list shape in Inr ((n * bits + 7) div 8)))"

record tensor_meta =
  tm_dtype :: "string option"
  tm_shape :: "int list option"
  tm_strides :: "int list option"

definition tensor_nbytes :: "tensor_meta \<Rightarrow> int option res" where
  "tensor_nbytes t =
     (case (tm_dtype t, tm_shape t) of
        (Some dtype, Some shape) \<Rightarrow>
          (if tm_strides t \<noteq> None then Inr None
           else bindE (dtype_nbytes shape dtype) (\<lambda>n. Inr (Some n)))
      | _ \<Rightarrow> Inr None)"

section \<open>Objects, tasks, programs\<close>

record object_spec =
  os_id :: string
  os_size_bytes :: int
  os_location :: string
  os_role :: string
  os_tensor :: "tensor_meta option"
  os_persistent :: bool

record output_spec =
  ou_id :: string
  ou_size_bytes :: int
  ou_location :: string
  ou_role :: string
  ou_tensor :: "tensor_meta option"

record transfer_directive =
  td_object_id :: string
  td_runtime_us :: "time option"

record task_spec =
  ts_id :: string
  ts_inputs :: "string list"
  ts_outputs :: "output_spec list"
  ts_mutates :: "string list"
  ts_runtime_us :: time
  ts_workspace_bytes :: int
  ts_group :: string
  ts_compute_block_key :: "string option"
  ts_block_params :: "(string, json) dict"
  ts_comm_groups :: "(string, string) dict"
  ts_releases_after :: "string list"
  ts_offload_after :: "transfer_directive list"
  ts_prefetch_after :: "transfer_directive list"
  ts_label :: "string option"
  ts_metadata :: "(string, json) dict"
  ts_host :: bool

definition with_directives ::
  "task_spec \<Rightarrow> string list option \<Rightarrow> transfer_directive list option \<Rightarrow>
   transfer_directive list option \<Rightarrow> task_spec" where
  "with_directives t releases offloads prefetches =
     t\<lparr>ts_releases_after := (case releases of None \<Rightarrow> ts_releases_after t | Some x \<Rightarrow> x),
       ts_offload_after := (case offloads of None \<Rightarrow> ts_offload_after t | Some x \<Rightarrow> x),
       ts_prefetch_after := (case prefetches of None \<Rightarrow> ts_prefetch_after t | Some x \<Rightarrow> x)\<rparr>"

record recompute_option =
  ro_level :: int
  ro_saved_bytes :: int
  ro_recompute_us :: time
  ro_label :: string

record recompute_rewrite =
  rw_object_id :: string
  rw_f_task_id :: string
  rw_r_task_id :: string
  rw_options :: "recompute_option list"
  rw_f_compute_block_key :: string
  rw_r_compute_block_key :: string
  rw_group_key :: string

definition SCHEMA_VERSION :: string where
  "SCHEMA_VERSION = ''dataflow-rt/v1''"

record program =
  pr_name :: string
  pr_initial_objects :: "object_spec list"
  pr_tasks :: "task_spec list"
  pr_final_locations :: "(string, string) dict"
  pr_fast_memory_capacity :: "int option"
  pr_backing_memory_capacity :: "int option"
  pr_bandwidth_from_slow :: "int option"
  pr_bandwidth_to_slow :: "int option"
  pr_recompute_rewrites :: "recompute_rewrite list"
  pr_metadata :: "(string, json) dict"
  pr_schema_version :: string

definition object_sizes :: "program \<Rightarrow> (string, int) dict" where
  "object_sizes p =
     fold (\<lambda>t d. fold (\<lambda>out. dset (ou_id out) (ou_size_bytes out)) (ts_outputs t) d) (pr_tasks p)
       (fold (\<lambda>ob. dset (os_id ob) (os_size_bytes ob)) (pr_initial_objects p) [])"

definition producers :: "program \<Rightarrow> (string, string) dict" where
  "producers p =
     fold (\<lambda>t d. fold (\<lambda>out. dset (ou_id out) (ts_id t)) (ts_outputs t) d) (pr_tasks p) []"

definition task_by_id :: "program \<Rightarrow> (string, task_spec) dict" where
  "task_by_id p = fold (\<lambda>t. dset (ts_id t) t) (pr_tasks p) []"

definition is_annotated :: "program \<Rightarrow> bool" where
  "is_annotated p \<longleftrightarrow>
     (\<exists>t \<in> set (pr_tasks p).
        ts_releases_after t \<noteq> [] \<or> ts_offload_after t \<noteq> [] \<or> ts_prefetch_after t \<noteq> [])"

section \<open>Sizes of dense tensors\<close>

lemma dtype_bits_pos: "dget DTYPE_BITS d = Some b \<Longrightarrow> 0 < b"
  by (auto simp: DTYPE_BITS_def split: if_splits)

text \<open>The byte size is the bit size rounded up: no byte is missing and less than one is spare.\<close>

lemma dtype_nbytes_rounds_up:
  assumes "dtype_nbytes shape dtype = Inr n"
  shows "\<exists>b. dget DTYPE_BITS dtype = Some b \<and> prod_list shape * b \<le> 8 * n \<and>
    8 * n < prod_list shape * b + 8"
proof -
  from assms obtain b where b: "dget DTYPE_BITS dtype = Some b"
    and n: "n = (prod_list shape * b + 7) div 8"
    by (auto simp: dtype_nbytes_def Let_def split: option.splits)
  have "prod_list shape * b \<le> 8 * n \<and> 8 * n < prod_list shape * b + 8"
    unfolding n by linarith
  with b show ?thesis by blast
qed

lemma tensor_nbytes_strided: "tm_strides t \<noteq> None \<Longrightarrow> tensor_nbytes t = Inr None"
  by (auto simp: tensor_nbytes_def split: option.splits)

end
