(* ===== verification/Json_IO.thy ===== *)
theory Json_IO
  imports Program_IR
begin

text \<open>
  Serialisation of programs to JSON dictionaries, \<open>src/dataflow/core/jsonio.py\<close>. A JSON object
  is an insertion-ordered dictionary; the optional fields are appended only under the source's
  conditions. Decoding raises \<open>KeyError\<close> for a missing required key and \<open>ValueError\<close> for a
  foreign schema version. The IR is typed, so a JSON value of the wrong type for a typed field is
  a \<open>TypeError\<close> here (Python would store it unchecked). The text layer (\<open>json.dumps\<close>,
  \<open>json.loads\<close>, file access) is not modelled.
\<close>

section \<open>Encoding\<close>

definition field :: "string \<Rightarrow> bool \<Rightarrow> json \<Rightarrow> (string, json) dict" where
  "field k present v = (if present then [(k, v)] else [])"

definition field_opt :: "string \<Rightarrow> json option \<Rightarrow> (string, json) dict" where
  "field_opt k v = (case v of None \<Rightarrow> [] | Some x \<Rightarrow> [(k, x)])"

definition jstrs :: "string list \<Rightarrow> json" where
  "jstrs xs = JList (map JStr xs)"

definition jints :: "int list \<Rightarrow> json" where
  "jints xs = JList (map JInt xs)"

definition tensor_to_dict :: "tensor_meta option \<Rightarrow> json option" where
  "tensor_to_dict t =
     (case t of
        None \<Rightarrow> None
      | Some t \<Rightarrow>
          (let d = field_opt ''dtype'' (map_option JStr (tm_dtype t))
                 @ field_opt ''shape'' (map_option jints (tm_shape t))
                 @ field_opt ''strides'' (map_option jints (tm_strides t))
           in if d = [] then None else Some (JObj d)))"

definition obj_to_dict :: "object_spec \<Rightarrow> json" where
  "obj_to_dict ob = JObj
     ([(''id'', JStr (os_id ob)), (''size_bytes'', JInt (os_size_bytes ob)),
       (''location'', JStr (os_location ob)), (''role'', JStr (os_role ob))]
      @ field ''persistent'' (os_persistent ob) (JBool True)
      @ field_opt ''tensor'' (tensor_to_dict (os_tensor ob)))"

definition out_to_dict :: "output_spec \<Rightarrow> json" where
  "out_to_dict ou = JObj
     ([(''id'', JStr (ou_id ou)), (''size_bytes'', JInt (ou_size_bytes ou)),
       (''location'', JStr (ou_location ou)), (''role'', JStr (ou_role ou))]
      @ field_opt ''tensor'' (tensor_to_dict (ou_tensor ou)))"

definition trigger_to_dict :: "transfer_directive \<Rightarrow> json" where
  "trigger_to_dict t = JObj
     ((''object_id'', JStr (td_object_id t)) # field_opt ''runtime_us'' (map_option JFloat (td_runtime_us t)))"

definition task_to_dict :: "task_spec \<Rightarrow> json" where
  "task_to_dict t = JObj
     ([(''id'', JStr (ts_id t)), (''runtime_us'', JFloat (ts_runtime_us t))]
      @ field ''workspace_bytes'' (ts_workspace_bytes t \<noteq> 0) (JInt (ts_workspace_bytes t))
      @ field ''inputs'' (ts_inputs t \<noteq> []) (jstrs (ts_inputs t))
      @ field ''outputs'' (ts_outputs t \<noteq> []) (JList (map out_to_dict (ts_outputs t)))
      @ field ''mutates'' (ts_mutates t \<noteq> []) (jstrs (ts_mutates t))
      @ field ''group'' (ts_group t \<noteq> ''compute'') (JStr (ts_group t))
      @ field_opt ''compute_block_key'' (map_option JStr (ts_compute_block_key t))
      @ field ''block_params'' (ts_block_params t \<noteq> []) (JObj (ts_block_params t))
      @ field ''comm_groups'' (ts_comm_groups t \<noteq> [])
          (JObj (map (\<lambda>(k, v). (k, JStr v)) (ts_comm_groups t)))
      @ field ''releases_after'' (ts_releases_after t \<noteq> []) (jstrs (ts_releases_after t))
      @ field ''offload_after'' (ts_offload_after t \<noteq> []) (JList (map trigger_to_dict (ts_offload_after t)))
      @ field ''prefetch_after'' (ts_prefetch_after t \<noteq> []) (JList (map trigger_to_dict (ts_prefetch_after t)))
      @ field_opt ''label'' (map_option JStr (ts_label t))
      @ field ''metadata'' (ts_metadata t \<noteq> []) (JObj (ts_metadata t))
      @ field ''host'' (ts_host t) (JBool True))"

definition option_to_dict :: "recompute_option \<Rightarrow> json" where
  "option_to_dict x = JObj
     [(''level'', JInt (ro_level x)), (''saved_bytes'', JInt (ro_saved_bytes x)),
      (''recompute_us'', JFloat (ro_recompute_us x)), (''label'', JStr (ro_label x))]"

definition rewrite_to_dict :: "recompute_rewrite \<Rightarrow> json" where
  "rewrite_to_dict rw = JObj
     [(''object_id'', JStr (rw_object_id rw)), (''f_task_id'', JStr (rw_f_task_id rw)),
      (''r_task_id'', JStr (rw_r_task_id rw)), (''options'', JList (map option_to_dict (rw_options rw))),
      (''f_compute_block_key'', JStr (rw_f_compute_block_key rw)),
      (''r_compute_block_key'', JStr (rw_r_compute_block_key rw)),
      (''group_key'', JStr (rw_group_key rw))]"

definition program_to_dict :: "program \<Rightarrow> (string, json) dict" where
  "program_to_dict p =
     [(''schema_version'', JStr (pr_schema_version p)), (''name'', JStr (pr_name p)),
      (''initial_objects'', JList (map obj_to_dict (pr_initial_objects p))),
      (''tasks'', JList (map task_to_dict (pr_tasks p)))]
     @ field ''final_locations'' (pr_final_locations p \<noteq> [])
         (JObj (map (\<lambda>(k, v). (k, JStr v)) (pr_final_locations p)))
     @ field_opt ''fast_memory_capacity'' (map_option JInt (pr_fast_memory_capacity p))
     @ field_opt ''backing_memory_capacity'' (map_option JInt (pr_backing_memory_capacity p))
     @ field_opt ''bandwidth_from_slow'' (map_option JInt (pr_bandwidth_from_slow p))
     @ field_opt ''bandwidth_to_slow'' (map_option JInt (pr_bandwidth_to_slow p))
     @ field ''recompute_rewrites'' (pr_recompute_rewrites p \<noteq> [])
         (JList (map rewrite_to_dict (pr_recompute_rewrites p)))
     @ field ''metadata'' (pr_metadata p \<noteq> []) (JObj (pr_metadata p))"

section \<open>Decoding\<close>

text \<open>\<open>d[k]\<close>, \<open>d.get(k, default)\<close> and the conversions \<open>int\<close>, \<open>float\<close>, \<open>bool\<close>, \<open>tuple\<close>, \<open>dict\<close>.\<close>

definition jneed :: "(string, json) dict \<Rightarrow> string \<Rightarrow> json res" where
  "jneed d k = (case dget d k of None \<Rightarrow> Inl (KeyError k) | Some v \<Rightarrow> Inr v)"

fun as_str :: "json \<Rightarrow> string res" where
  "as_str (JStr s) = Inr s"
| "as_str _ = Inl TypeError"

fun py_int :: "json \<Rightarrow> int res" where
  "py_int (JInt i) = Inr i"
| "py_int (JFloat r) = Inr (if 0 \<le> r then \<lfloor>r\<rfloor> else \<lceil>r\<rceil>)"
| "py_int (JBool b) = Inr (if b then 1 else 0)"
| "py_int _ = Inl TypeError"

fun py_float :: "json \<Rightarrow> time res" where
  "py_float (JInt i) = Inr (of_int i)"
| "py_float (JFloat r) = Inr r"
| "py_float (JBool b) = Inr (if b then 1 else 0)"
| "py_float _ = Inl TypeError"

fun truthy :: "json \<Rightarrow> bool" where
  "truthy JNull = False"
| "truthy (JBool b) = b"
| "truthy (JInt i) = (i \<noteq> 0)"
| "truthy (JFloat r) = (r \<noteq> 0)"
| "truthy (JStr s) = (s \<noteq> [])"
| "truthy (JList xs) = (xs \<noteq> [])"
| "truthy (JObj d) = (d \<noteq> [])"

fun as_list :: "json \<Rightarrow> json list res" where
  "as_list (JList xs) = Inr xs"
| "as_list _ = Inl TypeError"

fun as_dict :: "json \<Rightarrow> (string, json) dict res" where
  "as_dict (JObj d) = Inr d"
| "as_dict _ = Inl TypeError"

fun as_int_raw :: "json \<Rightarrow> int res" where
  "as_int_raw (JInt i) = Inr i"
| "as_int_raw _ = Inl TypeError"

definition as_strs :: "json \<Rightarrow> string list res" where
  "as_strs j = bindE (as_list j) (mapE as_str)"

definition as_ints :: "json \<Rightarrow> int list res" where
  "as_ints j = bindE (as_list j) (mapE as_int_raw)"

definition as_str_dict :: "json \<Rightarrow> (string, string) dict res" where
  "as_str_dict j = bindE (as_dict j) (mapE (\<lambda>(k, v). bindE (as_str v) (\<lambda>s. Inr (k, s))))"

text \<open>\<open>d.get(k)\<close> where both absence and \<open>null\<close> mean \<open>None\<close>.\<close>

definition jopt_val :: "(json \<Rightarrow> 'a res) \<Rightarrow> json option \<Rightarrow> 'a option res" where
  "jopt_val conv j = (case j of
      None \<Rightarrow> Inr None | Some v \<Rightarrow> if v = JNull then Inr None else bindE (conv v) (\<lambda>x. Inr (Some x)))"

definition jopt :: "(json \<Rightarrow> 'a res) \<Rightarrow> (string, json) dict \<Rightarrow> string \<Rightarrow> 'a option res" where
  "jopt conv d k = jopt_val conv (dget d k)"

definition jdef :: "(json \<Rightarrow> 'a res) \<Rightarrow> (string, json) dict \<Rightarrow> string \<Rightarrow> 'a \<Rightarrow> 'a res" where
  "jdef conv d k dflt = (case dget d k of None \<Rightarrow> Inr dflt | Some v \<Rightarrow> conv v)"

definition tensor_from_dict :: "json option \<Rightarrow> tensor_meta option res" where
  "tensor_from_dict j =
     (case j of
        None \<Rightarrow> Inr None
      | Some v \<Rightarrow>
          (if \<not> truthy v then Inr None
           else bindE (as_dict v) (\<lambda>d.
                bindE (jopt as_str d ''dtype'') (\<lambda>dtype.
                bindE (jopt as_ints d ''shape'') (\<lambda>shape.
                bindE (jopt as_ints d ''strides'') (\<lambda>strides.
                Inr (Some \<lparr>tm_dtype = dtype, tm_shape = shape, tm_strides = strides\<rparr>)))))))"

definition object_from_dict :: "json \<Rightarrow> object_spec res" where
  "object_from_dict j =
     bindE (as_dict j) (\<lambda>d.
     bindE (bindE (jneed d ''id'') as_str) (\<lambda>i.
     bindE (bindE (jneed d ''size_bytes'') py_int) (\<lambda>size.
     bindE (jdef as_str d ''location'' ''backing'') (\<lambda>loc.
     bindE (jdef as_str d ''role'' ''other'') (\<lambda>role.
     bindE (tensor_from_dict (dget d ''tensor'')) (\<lambda>tensor.
     bindE (jdef (\<lambda>v. Inr (truthy v)) d ''persistent'' False) (\<lambda>pers.
     Inr \<lparr>os_id = i, os_size_bytes = size, os_location = loc, os_role = role, os_tensor = tensor,
          os_persistent = pers\<rparr>)))))))"

definition output_from_dict :: "json \<Rightarrow> output_spec res" where
  "output_from_dict j =
     bindE (as_dict j) (\<lambda>d.
     bindE (bindE (jneed d ''id'') as_str) (\<lambda>i.
     bindE (bindE (jneed d ''size_bytes'') py_int) (\<lambda>size.
     bindE (jdef as_str d ''location'' ''fast'') (\<lambda>loc.
     bindE (jdef as_str d ''role'' ''other'') (\<lambda>role.
     bindE (tensor_from_dict (dget d ''tensor'')) (\<lambda>tensor.
     Inr \<lparr>ou_id = i, ou_size_bytes = size, ou_location = loc, ou_role = role, ou_tensor = tensor\<rparr>))))))"

definition trigger_from_dict :: "json \<Rightarrow> transfer_directive res" where
  "trigger_from_dict j =
     bindE (as_dict j) (\<lambda>d.
     bindE (bindE (jneed d ''object_id'') as_str) (\<lambda>i.
     bindE (jopt py_float d ''runtime_us'') (\<lambda>r.
     Inr \<lparr>td_object_id = i, td_runtime_us = r\<rparr>)))"

definition task_from_dict :: "json \<Rightarrow> task_spec res" where
  "task_from_dict j =
     bindE (as_dict j) (\<lambda>d.
     bindE (bindE (jneed d ''id'') as_str) (\<lambda>i.
     bindE (jdef as_strs d ''inputs'' []) (\<lambda>inputs.
     bindE (jdef (\<lambda>v. bindE (as_list v) (mapE output_from_dict)) d ''outputs'' []) (\<lambda>outputs.
     bindE (jdef as_strs d ''mutates'' []) (\<lambda>mutates.
     bindE (jdef py_float d ''runtime_us'' 1) (\<lambda>runtime.
     bindE (jdef py_int d ''workspace_bytes'' 0) (\<lambda>workspace.
     bindE (jdef as_str d ''group'' ''compute'') (\<lambda>group.
     bindE (jopt as_str d ''compute_block_key'') (\<lambda>key.
     bindE (jdef as_dict d ''block_params'' []) (\<lambda>params.
     bindE (jdef as_str_dict d ''comm_groups'' []) (\<lambda>comm.
     bindE (jdef as_strs d ''releases_after'' []) (\<lambda>releases.
     bindE (jdef (\<lambda>v. bindE (as_list v) (mapE trigger_from_dict)) d ''offload_after'' []) (\<lambda>offloads.
     bindE (jdef (\<lambda>v. bindE (as_list v) (mapE trigger_from_dict)) d ''prefetch_after'' []) (\<lambda>prefetches.
     bindE (jopt as_str d ''label'') (\<lambda>label.
     bindE (jdef as_dict d ''metadata'' []) (\<lambda>metadata.
     bindE (jdef (\<lambda>v. Inr (truthy v)) d ''host'' False) (\<lambda>host.
     Inr \<lparr>ts_id = i, ts_inputs = inputs, ts_outputs = outputs, ts_mutates = mutates,
          ts_runtime_us = runtime, ts_workspace_bytes = workspace, ts_group = group,
          ts_compute_block_key = key, ts_block_params = params, ts_comm_groups = comm,
          ts_releases_after = releases, ts_offload_after = offloads,
          ts_prefetch_after = prefetches, ts_label = label, ts_metadata = metadata,
          ts_host = host\<rparr>)))))))))))))))))"

definition option_from_dict :: "json \<Rightarrow> recompute_option res" where
  "option_from_dict j =
     bindE (as_dict j) (\<lambda>d.
     bindE (bindE (jneed d ''level'') py_int) (\<lambda>level.
     bindE (bindE (jneed d ''saved_bytes'') py_int) (\<lambda>saved.
     bindE (bindE (jneed d ''recompute_us'') py_float) (\<lambda>us.
     bindE (jdef as_str d ''label'' []) (\<lambda>label.
     Inr \<lparr>ro_level = level, ro_saved_bytes = saved, ro_recompute_us = us, ro_label = label\<rparr>)))))"

definition rewrite_from_dict :: "json \<Rightarrow> recompute_rewrite res" where
  "rewrite_from_dict j =
     bindE (as_dict j) (\<lambda>d.
     bindE (bindE (jneed d ''object_id'') as_str) (\<lambda>i.
     bindE (bindE (jneed d ''f_task_id'') as_str) (\<lambda>f.
     bindE (bindE (jneed d ''r_task_id'') as_str) (\<lambda>r.
     bindE (bindE (bindE (jneed d ''options'') as_list) (mapE option_from_dict)) (\<lambda>opts.
     bindE (jdef as_str d ''f_compute_block_key'' []) (\<lambda>fk.
     bindE (jdef as_str d ''r_compute_block_key'' []) (\<lambda>rk.
     bindE (jdef as_str d ''group_key'' []) (\<lambda>gk.
     Inr \<lparr>rw_object_id = i, rw_f_task_id = f, rw_r_task_id = r, rw_options = opts,
          rw_f_compute_block_key = fk, rw_r_compute_block_key = rk, rw_group_key = gk\<rparr>))))))))"

definition program_from_dict :: "(string, json) dict \<Rightarrow> program res" where
  "program_from_dict d =
     bindE (jdef as_str d ''schema_version'' SCHEMA_VERSION) (\<lambda>version.
     if version \<noteq> SCHEMA_VERSION then Inl (ValueError ''unsupported schema_version'') else
     bindE (bindE (jneed d ''name'') as_str) (\<lambda>name.
     bindE (jdef (\<lambda>v. bindE (as_list v) (mapE object_from_dict)) d ''initial_objects'' []) (\<lambda>objs.
     bindE (jdef (\<lambda>v. bindE (as_list v) (mapE task_from_dict)) d ''tasks'' []) (\<lambda>tasks.
     bindE (jdef as_str_dict d ''final_locations'' []) (\<lambda>finals.
     bindE (jopt as_int_raw d ''fast_memory_capacity'') (\<lambda>fast.
     bindE (jopt as_int_raw d ''backing_memory_capacity'') (\<lambda>backing.
     bindE (jopt as_int_raw d ''bandwidth_from_slow'') (\<lambda>bw_from.
     bindE (jopt as_int_raw d ''bandwidth_to_slow'') (\<lambda>bw_to.
     bindE (jdef (\<lambda>v. bindE (as_list v) (mapE rewrite_from_dict)) d ''recompute_rewrites'' []) (\<lambda>rws.
     bindE (jdef as_dict d ''metadata'' []) (\<lambda>metadata.
     Inr \<lparr>pr_name = name, pr_initial_objects = objs, pr_tasks = tasks, pr_final_locations = finals,
          pr_fast_memory_capacity = fast, pr_backing_memory_capacity = backing,
          pr_bandwidth_from_slow = bw_from, pr_bandwidth_to_slow = bw_to,
          pr_recompute_rewrites = rws, pr_metadata = metadata, pr_schema_version = version\<rparr>)))))))))))"

section \<open>Round trip\<close>

text \<open>The one thing the wire format forgets: a \<open>TensorMeta\<close> with no field set is encoded like no
  tensor at all.\<close>

definition norm_tensor :: "tensor_meta option \<Rightarrow> tensor_meta option" where
  "norm_tensor t = (case t of None \<Rightarrow> None | Some m \<Rightarrow>
     if tm_dtype m = None \<and> tm_shape m = None \<and> tm_strides m = None then None else Some m)"

definition norm_task :: "task_spec \<Rightarrow> task_spec" where
  "norm_task t = t\<lparr>ts_outputs := map (\<lambda>ou. ou\<lparr>ou_tensor := norm_tensor (ou_tensor ou)\<rparr>) (ts_outputs t)\<rparr>"

definition norm_program :: "program \<Rightarrow> program" where
  "norm_program p =
     p\<lparr>pr_initial_objects := map (\<lambda>ob. ob\<lparr>os_tensor := norm_tensor (os_tensor ob)\<rparr>) (pr_initial_objects p),
       pr_tasks := map norm_task (pr_tasks p)\<rparr>"

declare map_of_append [simp del]

definition opt_or :: "'a option \<Rightarrow> 'a option \<Rightarrow> 'a option" where
  "opt_or v w = (case v of None \<Rightarrow> w | Some x \<Rightarrow> Some x)"

lemma opt_or_None [simp]: "opt_or v None = v"
  by (simp add: opt_or_def split: option.splits)

lemma dget_field [simp]:
  "dget (field k b v @ d) j = (if j = k then opt_or (if b then Some v else None) (dget d j) else dget d j)"
  "dget (field k b v) j = (if j = k then (if b then Some v else None) else None)"
  by (simp_all add: field_def opt_or_def)

lemma dget_field_opt [simp]:
  "dget (field_opt k v @ d) j = (if j = k then opt_or v (dget d j) else dget d j)"
  "dget (field_opt k v) j = (if j = k then v else None)"
  by (simp_all add: field_opt_def opt_or_def split: option.splits)

lemma case_if_option [simp]:
  "(case (if b then Some v else None) of None \<Rightarrow> x | Some w \<Rightarrow> f w) = (if b then f v else x)"
  by simp

text \<open>A field left out exactly when it has its default value decodes to its value.\<close>

lemma default_elided [simp]:
  "(if x = c then Inr c else Inr x) = (Inr x :: 'a res)"
  "(if xs = [] then Inr [] else Inr (map f xs)) = (Inr (map f xs) :: 'b list res)"
  "(if b then Inr True else Inr False) = (Inr b :: bool res)"
  by simp_all

lemma as_strs_jstrs [simp]: "as_strs (jstrs xs) = Inr xs"
  by (simp add: as_strs_def jstrs_def mapE_map [where h = id, simplified])

lemma as_ints_jints [simp]: "as_ints (jints xs) = Inr xs"
  by (simp add: as_ints_def jints_def mapE_map [where h = id, simplified])

lemma as_str_dict_map [simp]: "as_str_dict (JObj (map (\<lambda>(k, v). (k, JStr v)) d)) = Inr d"
proof -
  have "mapE (\<lambda>(k, v). bindE (as_str v) (\<lambda>s. Inr (k, s))) (map (\<lambda>(k, v). (k, JStr v)) d) = Inr (map id d)"
    by (rule mapE_map) auto
  then show ?thesis by (simp add: as_str_dict_def)
qed

lemma jopt_val_simps [simp]:
  "jopt_val as_str (map_option JStr v) = Inr v"
  "jopt_val as_ints (map_option jints w) = Inr w"
  "jopt_val as_int_raw (map_option JInt n) = Inr n"
  "jopt_val py_float (map_option JFloat r) = Inr r"
  by (simp_all add: jopt_val_def jints_def split: option.splits)
    (simp_all add: as_ints_jints [unfolded jints_def])

lemmas codec_defs = jneed_def jdef_def jopt_def

lemma tensor_roundtrip [simp]: "tensor_from_dict (tensor_to_dict t) = Inr (norm_tensor t)"
proof (cases t)
  case None
  then show ?thesis by (simp add: tensor_to_dict_def tensor_from_dict_def norm_tensor_def)
next
  case (Some m)
  let ?d = "field_opt ''dtype'' (map_option JStr (tm_dtype m))
          @ field_opt ''shape'' (map_option jints (tm_shape m))
          @ field_opt ''strides'' (map_option jints (tm_strides m))"
  have empty: "?d = [] \<longleftrightarrow> tm_dtype m = None \<and> tm_shape m = None \<and> tm_strides m = None"
    by (auto simp: field_opt_def split: option.splits)
  show ?thesis
  proof (cases "?d = []")
    case True
    then show ?thesis using empty
      by (simp only: Some tensor_to_dict_def tensor_from_dict_def norm_tensor_def Let_def) simp
  next
    case False
    then have "tensor_to_dict t = Some (JObj ?d)" and "norm_tensor t = Some m"
      using empty by (simp_all only: Some tensor_to_dict_def norm_tensor_def Let_def option.simps if_False)
    moreover have "truthy (JObj ?d)" using False by simp
    ultimately show ?thesis by (simp add: tensor_from_dict_def codec_defs del: truthy.simps)
  qed
qed

lemma object_roundtrip:
  "object_from_dict (obj_to_dict ob) = Inr (ob\<lparr>os_tensor := norm_tensor (os_tensor ob)\<rparr>)"
  by (simp add: object_from_dict_def obj_to_dict_def codec_defs)

lemma output_roundtrip:
  "output_from_dict (out_to_dict ou) = Inr (ou\<lparr>ou_tensor := norm_tensor (ou_tensor ou)\<rparr>)"
  by (simp add: output_from_dict_def out_to_dict_def codec_defs)

lemma trigger_roundtrip: "trigger_from_dict (trigger_to_dict t) = Inr t"
  by (simp add: trigger_from_dict_def trigger_to_dict_def codec_defs)

lemma option_roundtrip: "option_from_dict (option_to_dict x) = Inr x"
  by (simp add: option_from_dict_def option_to_dict_def codec_defs)

lemma rewrite_roundtrip: "rewrite_from_dict (rewrite_to_dict rw) = Inr rw"
  by (simp add: rewrite_from_dict_def rewrite_to_dict_def codec_defs
      mapE_map [where h = id, simplified] option_roundtrip)

lemma decode_lists [simp]:
  "mapE object_from_dict (map obj_to_dict obs) =
     Inr (map (\<lambda>ob. ob\<lparr>os_tensor := norm_tensor (os_tensor ob)\<rparr>) obs)"
  "mapE output_from_dict (map out_to_dict ous) =
     Inr (map (\<lambda>ou. ou\<lparr>ou_tensor := norm_tensor (ou_tensor ou)\<rparr>) ous)"
  "mapE trigger_from_dict (map trigger_to_dict ts) = Inr ts"
  "mapE rewrite_from_dict (map rewrite_to_dict rws) = Inr rws"
  by (simp_all add: mapE_map object_roundtrip output_roundtrip
      mapE_map [where h = id, simplified] trigger_roundtrip rewrite_roundtrip)

text \<open>Looking up one key of an encoded task.\<close>

lemma task_lookups:
  assumes "as_dict (task_to_dict t) = Inr d"
  shows "dget d ''id'' = Some (JStr (ts_id t))"
    and "dget d ''runtime_us'' = Some (JFloat (ts_runtime_us t))"
    and "dget d ''workspace_bytes'' =
           (if ts_workspace_bytes t \<noteq> 0 then Some (JInt (ts_workspace_bytes t)) else None)"
    and "dget d ''inputs'' = (if ts_inputs t \<noteq> [] then Some (jstrs (ts_inputs t)) else None)"
    and "dget d ''outputs'' =
           (if ts_outputs t \<noteq> [] then Some (JList (map out_to_dict (ts_outputs t))) else None)"
    and "dget d ''mutates'' = (if ts_mutates t \<noteq> [] then Some (jstrs (ts_mutates t)) else None)"
    and "dget d ''group'' = (if ts_group t \<noteq> ''compute'' then Some (JStr (ts_group t)) else None)"
    and "dget d ''compute_block_key'' = map_option JStr (ts_compute_block_key t)"
  using assms by (auto simp: task_to_dict_def)

lemma task_lookups_2:
  assumes "as_dict (task_to_dict t) = Inr d"
  shows "dget d ''block_params'' = (if ts_block_params t \<noteq> [] then Some (JObj (ts_block_params t)) else None)"
    and "dget d ''comm_groups'' =
           (if ts_comm_groups t \<noteq> []
            then Some (JObj (map (\<lambda>(k, v). (k, JStr v)) (ts_comm_groups t))) else None)"
    and "dget d ''releases_after'' =
           (if ts_releases_after t \<noteq> [] then Some (jstrs (ts_releases_after t)) else None)"
    and "dget d ''offload_after'' =
           (if ts_offload_after t \<noteq> [] then Some (JList (map trigger_to_dict (ts_offload_after t))) else None)"
    and "dget d ''prefetch_after'' =
           (if ts_prefetch_after t \<noteq> [] then Some (JList (map trigger_to_dict (ts_prefetch_after t))) else None)"
    and "dget d ''label'' = map_option JStr (ts_label t)"
    and "dget d ''metadata'' = (if ts_metadata t \<noteq> [] then Some (JObj (ts_metadata t)) else None)"
    and "dget d ''host'' = (if ts_host t then Some (JBool True) else None)"
  using assms by (auto simp: task_to_dict_def)

lemma jdef_elided:
  assumes "dget d k = (if b then Some v else None)"
    and "b \<Longrightarrow> conv v = Inr x" and "\<not> b \<Longrightarrow> x = dflt"
  shows "jdef conv d k dflt = Inr x"
  using assms by (cases b) (simp_all add: jdef_def)

lemma jdef_present: "dget d k = Some v \<Longrightarrow> conv v = Inr x \<Longrightarrow> jdef conv d k dflt = Inr x"
  by (simp add: jdef_def)

lemma jopt_present:
  assumes "dget d k = map_option f v" and "jopt_val conv (map_option f v) = Inr v"
  shows "jopt conv d k = Inr v"
  using assms by (simp add: jopt_def)

lemma task_roundtrip: "task_from_dict (task_to_dict t) = Inr (norm_task t)"
proof -
  obtain d where d: "as_dict (task_to_dict t) = Inr d" by (simp add: task_to_dict_def)
  note L = task_lookups [OF d] task_lookups_2 [OF d]
  have "jneed d ''id'' = Inr (JStr (ts_id t))" by (simp add: jneed_def L)
  moreover have "jdef as_strs d ''inputs'' [] = Inr (ts_inputs t)"
    by (rule jdef_elided [OF L(4)]) simp_all
  moreover have "jdef (\<lambda>v. bindE (as_list v) (mapE output_from_dict)) d ''outputs'' [] =
      Inr (ts_outputs (norm_task t))"
    by (rule jdef_elided [OF L(5)]) (simp_all add: norm_task_def)
  moreover have "jdef as_strs d ''mutates'' [] = Inr (ts_mutates t)"
    by (rule jdef_elided [OF L(6)]) simp_all
  moreover have "jdef py_float d ''runtime_us'' 1 = Inr (ts_runtime_us t)"
    by (rule jdef_present [OF L(2)]) simp
  moreover have "jdef py_int d ''workspace_bytes'' 0 = Inr (ts_workspace_bytes t)"
    by (rule jdef_elided [OF L(3)]) simp_all
  moreover have "jdef as_str d ''group'' ''compute'' = Inr (ts_group t)"
    by (rule jdef_elided [OF L(7)]) simp_all
  moreover have "jopt as_str d ''compute_block_key'' = Inr (ts_compute_block_key t)"
    by (rule jopt_present [OF L(8)]) simp
  moreover have "jdef as_dict d ''block_params'' [] = Inr (ts_block_params t)"
    by (rule jdef_elided [OF L(9)]) simp_all
  moreover have "jdef as_str_dict d ''comm_groups'' [] = Inr (ts_comm_groups t)"
    by (rule jdef_elided [OF L(10)]) simp_all
  moreover have "jdef as_strs d ''releases_after'' [] = Inr (ts_releases_after t)"
    by (rule jdef_elided [OF L(11)]) simp_all
  moreover have "jdef (\<lambda>v. bindE (as_list v) (mapE trigger_from_dict)) d ''offload_after'' [] =
      Inr (ts_offload_after t)"
    by (rule jdef_elided [OF L(12)]) simp_all
  moreover have "jdef (\<lambda>v. bindE (as_list v) (mapE trigger_from_dict)) d ''prefetch_after'' [] =
      Inr (ts_prefetch_after t)"
    by (rule jdef_elided [OF L(13)]) simp_all
  moreover have "jopt as_str d ''label'' = Inr (ts_label t)"
    by (rule jopt_present [OF L(14)]) simp
  moreover have "jdef as_dict d ''metadata'' [] = Inr (ts_metadata t)"
    by (rule jdef_elided [OF L(15)]) simp_all
  moreover have "jdef (\<lambda>v. Inr (truthy v)) d ''host'' False = Inr (ts_host t)"
    by (rule jdef_elided [OF L(16)]) simp_all
  ultimately show ?thesis by (simp add: task_from_dict_def d norm_task_def)
qed

text \<open>The tensor descriptions of a program, in all its objects and outputs.\<close>

definition empty_tensor :: tensor_meta where
  "empty_tensor = \<lparr>tm_dtype = None, tm_shape = None, tm_strides = None\<rparr>"

definition tensors :: "program \<Rightarrow> tensor_meta option list" where
  "tensors p = map os_tensor (pr_initial_objects p) @ concat (map (\<lambda>t. map ou_tensor (ts_outputs t)) (pr_tasks p))"

lemma norm_tensor_same: "norm_tensor t = t \<longleftrightarrow> t \<noteq> Some empty_tensor"
  by (auto simp: norm_tensor_def empty_tensor_def split: option.splits)

lemma map_same: "map f xs = xs \<longleftrightarrow> (\<forall>x \<in> set xs. f x = x)"
  by (induction xs) auto

lemma update_same:
  "ob\<lparr>os_tensor := x\<rparr> = ob \<longleftrightarrow> x = os_tensor ob" "ou\<lparr>ou_tensor := x\<rparr> = ou \<longleftrightarrow> x = ou_tensor ou"
  "t\<lparr>ts_outputs := outs\<rparr> = t \<longleftrightarrow> outs = ts_outputs t"
  "p\<lparr>pr_initial_objects := objs, pr_tasks := tasks\<rparr> = p \<longleftrightarrow> objs = pr_initial_objects p \<and> tasks = pr_tasks p"
  by (cases ob; cases ou; cases t; cases p; auto)+

lemma norm_program_same: "norm_program p = p \<longleftrightarrow> Some empty_tensor \<notin> set (tensors p)"
  by (simp add: norm_program_def norm_task_def update_same map_same norm_tensor_same tensors_def image_iff) metis

text \<open>C36. Decoding an encoded program. A program of another schema version is refused. One of the current version is
  read back field by field, every optional field present or elided, except that a \<open>TensorMeta\<close> with no field
  set becomes no tensor at all; so the program itself comes back exactly when it has no such description.\<close>

theorem program_roundtrip:
  "program_from_dict (program_to_dict p) =
     (if pr_schema_version p = SCHEMA_VERSION then Inr (norm_program p) else Inl (ValueError ''unsupported schema_version'')) \<and>
   (norm_program p = p \<longleftrightarrow> Some empty_tensor \<notin> set (tensors p))"
  unfolding norm_program_same
  by (simp add: program_from_dict_def program_to_dict_def codec_defs norm_program_def mapE_map task_roundtrip)

definition sample_program :: program where
  "sample_program =
     \<lparr>pr_name = ''p'',
      pr_initial_objects =
        [\<lparr>os_id = ''x'', os_size_bytes = 8, os_location = ''fast'', os_role = ''activation'',
          os_tensor = Some \<lparr>tm_dtype = Some ''fp32'', tm_shape = Some [2], tm_strides = None\<rparr>, os_persistent = True\<rparr>],
      pr_tasks =
        [\<lparr>ts_id = ''a'', ts_inputs = [''x''],
          ts_outputs = [\<lparr>ou_id = ''y'', ou_size_bytes = 8, ou_location = ''fast'', ou_role = ''activation'', ou_tensor = None\<rparr>],
          ts_mutates = [], ts_runtime_us = 10, ts_workspace_bytes = 0, ts_group = ''compute'', ts_compute_block_key = Some ''k'',
          ts_block_params = [], ts_comm_groups = [], ts_releases_after = [''x''],
          ts_offload_after = [\<lparr>td_object_id = ''y'', td_runtime_us = None\<rparr>], ts_prefetch_after = [], ts_label = None,
          ts_metadata = [], ts_host = False\<rparr>],
      pr_final_locations = [(''y'', ''backing'')], pr_fast_memory_capacity = Some 4096, pr_backing_memory_capacity = None,
      pr_bandwidth_from_slow = Some 16, pr_bandwidth_to_slow = None, pr_recompute_rewrites = [],
      pr_metadata = [], pr_schema_version = SCHEMA_VERSION\<rparr>"

theorem program_roundtrip_witness:
  "program_from_dict (program_to_dict sample_program) = Inr sample_program"
proof -
  have "pr_schema_version sample_program = SCHEMA_VERSION" "Some empty_tensor \<notin> set (tensors sample_program)"
    by (simp_all add: sample_program_def tensors_def empty_tensor_def)
  then show ?thesis using program_roundtrip [of sample_program] by simp
qed

end
