(* ===== verification/Device_Fake.thy ===== *)
theory Device_Fake
  imports Prelude "HOL-Library.Multiset" "HOL-Library.Product_Lexorder"
begin

text \<open>
  The device interface and its virtual-clock implementation, \<open>src/dataflow/runtime/device/base.py\<close>
  and \<open>fake.py\<close>. Streams and events are values carrying their virtual clocks; the backend keeps
  the host clock, the sequence counter, the pending completion tokens and the allocation counters.
  Python's \<open>heapq\<close> is the list of pending tokens kept sorted by (time, priority, sequence number):
  only pushing and popping the least entry are used, and sequence numbers never repeat, so tokens
  themselves are never compared.

  \<open>raw\<close> of a buffer says who carved it (\<open>None\<close> for a vendor allocation), and buffers carry the
  identity \<open>bf_ref\<close> that Python's \<open>id()\<close> distinguishes. The locale \<open>completion_queue\<close> is the
  ordering contract of \<open>next_completion\<close> in \<open>base.py\<close>.
\<close>

section \<open>Streams, events, buffers\<close>

definition PRIORITY_H2D_DONE :: int where "PRIORITY_H2D_DONE = 0"
definition PRIORITY_D2H_DONE :: int where "PRIORITY_D2H_DONE = 1"
definition PRIORITY_TASK_DONE :: int where "PRIORITY_TASK_DONE = 2"

record stream =
  st_id :: string
  st_kind :: string
  st_clock_us :: time

record event =
  ev_id :: string
  ev_time_us :: time

text \<open>Identity of a buffer object: created by the backend, carved from a slab, placed at a planned
  offset, or handed in by the caller.\<close>

datatype buffer_ref =
    BackendBuf int
  | SlabBuf string int
  | PlacedBuf string int
  | CallerBuf string

text \<open>\<open>raw\<close>: nothing, a slab offset with its owning allocator (main slab or overflow arena), or the
  mark of a placed instance.\<close>

datatype slab_owner = MainSlab | OverflowSlab

datatype raw = NoRaw | SlabRaw int slab_owner | PlacedRaw

record buffer =
  bf_ref :: buffer_ref
  bf_location :: string
  bf_size_bytes :: int
  bf_ptr :: int
  bf_raw :: raw
  bf_guard_event :: "event list"
  bf_tag :: "(string \<times> int) option"

section \<open>The fake backend\<close>

record 'tok pending_entry =
  pe_time :: time
  pe_priority :: int
  pe_seq :: int
  pe_token :: 'tok

record 'tok fake_backend =
  fb_physical :: bool
  fb_time_scale :: "(string \<Rightarrow> time \<Rightarrow> time) option"
  fb_host_us :: time
  fb_seq :: int
  fb_pending :: "'tok pending_entry list"
  fb_alloc_bytes :: "(string, int) dict"
  fb_next_ptr :: int

definition new_backend :: "bool \<Rightarrow> (string \<Rightarrow> time \<Rightarrow> time) option \<Rightarrow> 'tok fake_backend" where
  "new_backend physical scale =
     \<lparr>fb_physical = physical, fb_time_scale = scale, fb_host_us = 0, fb_seq = 0, fb_pending = [],
      fb_alloc_bytes = [(''fast'', 0), (''backing'', 0)], fb_next_ptr = 16\<rparr>"

definition create_stream :: "'tok fake_backend \<Rightarrow> string \<Rightarrow> stream \<times> 'tok fake_backend" where
  "create_stream b kind =
     (let seq = fb_seq b + 1
      in (\<lparr>st_id = kind @ '':'' @ show_nat (nat seq), st_kind = kind, st_clock_us = 0\<rparr>,
          b\<lparr>fb_seq := seq\<rparr>))"

definition record_event :: "'tok fake_backend \<Rightarrow> stream \<Rightarrow> event \<times> 'tok fake_backend" where
  "record_event b s =
     (let seq = fb_seq b + 1
      in (\<lparr>ev_id = ''ev'' @ show_nat (nat seq), ev_time_us = st_clock_us s\<rparr>, b\<lparr>fb_seq := seq\<rparr>))"

definition stream_wait_event :: "stream \<Rightarrow> event \<Rightarrow> stream" where
  "stream_wait_event s e = s\<lparr>st_clock_us := max (st_clock_us s) (ev_time_us e)\<rparr>"

definition event_complete :: "'tok fake_backend \<Rightarrow> event \<Rightarrow> bool" where
  "event_complete b e \<longleftrightarrow> ev_time_us e \<le> fb_host_us b"

definition align_stream_to_host :: "'tok fake_backend \<Rightarrow> stream \<Rightarrow> stream" where
  "align_stream_to_host b s = s\<lparr>st_clock_us := max (st_clock_us s) (fb_host_us b)\<rparr>"

definition event_time_us :: "event \<Rightarrow> time" where
  "event_time_us e = ev_time_us e"

definition alloc :: "'tok fake_backend \<Rightarrow> string \<Rightarrow> int \<Rightarrow> (buffer \<times> 'tok fake_backend) res" where
  "alloc b location size_bytes =
     (let seq = fb_seq b + 1; ptr = fb_next_ptr b
      in case dget (fb_alloc_bytes b) location of
           None \<Rightarrow> Inl (KeyError location)
         | Some n \<Rightarrow>
             Inr (\<lparr>bf_ref = BackendBuf seq, bf_location = location, bf_size_bytes = size_bytes,
                   bf_ptr = ptr, bf_raw = NoRaw, bf_guard_event = [], bf_tag = None\<rparr>,
                  b\<lparr>fb_seq := seq, fb_next_ptr := ptr + max size_bytes 1,
                    fb_alloc_bytes := dset location (n + size_bytes) (fb_alloc_bytes b)\<rparr>))"

definition free_buffer :: "'tok fake_backend \<Rightarrow> buffer \<Rightarrow> 'tok fake_backend res" where
  "free_buffer b buf =
     (case dget (fb_alloc_bytes b) (bf_location buf) of
        None \<Rightarrow> Inl (KeyError (bf_location buf))
      | Some n \<Rightarrow>
          Inr (b\<lparr>fb_alloc_bytes := dset (bf_location buf) (n - bf_size_bytes buf) (fb_alloc_bytes b)\<rparr>))"

definition advance_stream :: "'tok fake_backend \<Rightarrow> stream \<Rightarrow> time \<Rightarrow> (time \<times> time) \<times> stream" where
  "advance_stream b s duration_us =
     (let duration = (case fb_time_scale b of None \<Rightarrow> duration_us | Some f \<Rightarrow> f (st_kind s) duration_us);
          start = max (st_clock_us s) (fb_host_us b)
      in ((start, start + duration), s\<lparr>st_clock_us := start + duration\<rparr>))"

definition memcpy_async ::
  "'tok fake_backend \<Rightarrow> stream \<Rightarrow> time option \<Rightarrow> ((time \<times> time) \<times> stream) res" where
  "memcpy_async b s duration_us =
     (case duration_us of
        None \<Rightarrow> Inl (ValueError ''fake backend requires duration_us for memcpy_async'')
      | Some d \<Rightarrow> Inr (advance_stream b s d))"

text \<open>The heap order: time, then priority, then sequence number.\<close>

definition entry_le :: "'tok pending_entry \<Rightarrow> 'tok pending_entry \<Rightarrow> bool" where
  "entry_le e f \<longleftrightarrow>
     pe_time e < pe_time f \<or>
     (pe_time e = pe_time f \<and>
       (pe_priority e < pe_priority f \<or>
        (pe_priority e = pe_priority f \<and> pe_seq e \<le> pe_seq f)))"

fun heappush :: "'tok pending_entry \<Rightarrow> 'tok pending_entry list \<Rightarrow> 'tok pending_entry list" where
  "heappush e [] = [e]"
| "heappush e (f # fs) = (if entry_le e f then e # f # fs else f # heappush e fs)"

definition notify_after :: "'tok fake_backend \<Rightarrow> event \<Rightarrow> 'tok \<Rightarrow> int \<Rightarrow> 'tok fake_backend" where
  "notify_after b e token priority =
     (let seq = fb_seq b + 1
      in b\<lparr>fb_seq := seq,
           fb_pending := heappush \<lparr>pe_time = ev_time_us e, pe_priority = priority, pe_seq = seq,
             pe_token = token\<rparr> (fb_pending b)\<rparr>)"

definition next_completion :: "'tok fake_backend \<Rightarrow> 'tok option \<times> 'tok fake_backend" where
  "next_completion b =
     (case fb_pending b of
        [] \<Rightarrow> (None, b)
      | e # es \<Rightarrow>
          (Some (pe_token e), b\<lparr>fb_pending := es, fb_host_us := max (fb_host_us b) (pe_time e)\<rparr>))"

function sync_all :: "'tok fake_backend \<Rightarrow> 'tok fake_backend" where
  "sync_all b = (if fb_pending b = [] then b else sync_all (snd (next_completion b)))"
  by auto

termination
  by (relation "measure (\<lambda>b. length (fb_pending b))")
    (auto simp: next_completion_def split: list.splits)

declare sync_all.simps [simp del]

definition drain_aborted :: "'tok fake_backend \<Rightarrow> int \<times> 'tok fake_backend" where
  "drain_aborted b = (int (length (fb_pending b)), b\<lparr>fb_pending := []\<rparr>)"

section \<open>The ordering contract of completions\<close>

lemma entry_le_refl [simp]: "entry_le e e"
  by (simp add: entry_le_def)

lemma entry_le_total: "\<not> entry_le e f \<Longrightarrow> entry_le f e"
  by (auto simp: entry_le_def)

lemma entry_le_trans: "entry_le e f \<Longrightarrow> entry_le f g \<Longrightarrow> entry_le e g"
  by (auto simp: entry_le_def)

lemma entry_le_time: "entry_le e f \<Longrightarrow> pe_time e \<le> pe_time f"
  by (auto simp: entry_le_def)

lemma mset_heappush [simp]: "mset (heappush e fs) = add_mset e (mset fs)"
  by (induction fs) auto

lemma set_heappush [simp]: "set (heappush e fs) = insert e (set fs)"
  by (induction fs) auto

lemma length_heappush [simp]: "length (heappush e fs) = Suc (length fs)"
  by (induction fs) auto

lemma sorted_heappush: "sorted_wrt entry_le fs \<Longrightarrow> sorted_wrt entry_le (heappush e fs)"
  by (induction fs) (auto intro: entry_le_trans dest: entry_le_total)

locale completion_queue =
  fixes inv :: "'s \<Rightarrow> bool"
    and pending :: "'s \<Rightarrow> 'e multiset"
    and le :: "'e \<Rightarrow> 'e \<Rightarrow> bool"
    and clock :: "'s \<Rightarrow> time"
    and stamp :: "'e \<Rightarrow> time"
    and pop :: "'s \<Rightarrow> ('e \<times> 's) option"
  assumes pop_None: "inv s \<Longrightarrow> pop s = None \<longleftrightarrow> pending s = {#}"
    and pop_min: "\<lbrakk>inv s; pop s = Some (e, s')\<rbrakk> \<Longrightarrow> e \<in># pending s \<and> (\<forall>f \<in># pending s. le e f)"
    and pop_rest: "\<lbrakk>inv s; pop s = Some (e, s')\<rbrakk> \<Longrightarrow> pending s' = pending s - {#e#}"
    and pop_inv: "\<lbrakk>inv s; pop s = Some (e, s')\<rbrakk> \<Longrightarrow> inv s'"
    and pop_clock: "\<lbrakk>inv s; pop s = Some (e, s')\<rbrakk> \<Longrightarrow> clock s' = max (clock s) (stamp e)"
begin

text \<open>Popping \<open>n\<close> times: the entries delivered, in order, and the state reached.\<close>

fun pops :: "nat \<Rightarrow> 's \<Rightarrow> 'e list \<times> 's" where
  "pops 0 s = ([], s)"
| "pops (Suc n) s = (case pop s of None \<Rightarrow> ([], s) | Some (e, s') \<Rightarrow>
     (let (es, s'') = pops n s' in (e # es, s'')))"

lemma pops_inv: "inv s \<Longrightarrow> inv (snd (pops n s))"
proof (induction n arbitrary: s)
  case 0
  then show ?case by simp
next
  case (Suc n)
  then show ?case by (auto simp: case_prod_beta split: option.splits dest: pop_inv)
qed

lemma pops_mset: "inv s \<Longrightarrow> mset (fst (pops n s)) + pending (snd (pops n s)) = pending s"
proof (induction n arbitrary: s)
  case 0
  show ?case by simp
next
  case (Suc n)
  show ?case
  proof (cases "pop s")
    case None
    then show ?thesis by simp
  next
    case (Some p)
    obtain e s' where p: "p = (e, s')" by (cases p)
    have IH: "mset (fst (pops n s')) + pending (snd (pops n s')) = pending s'"
      using Suc Some p pop_inv by blast
    have "add_mset e (pending s') = pending s"
      using pop_min pop_rest Suc.prems Some p by (metis insert_DiffM)
    moreover have "pops (Suc n) s = (e # fst (pops n s'), snd (pops n s'))"
      using Some p by (simp add: case_prod_beta)
    ultimately show ?thesis using IH by simp
  qed
qed

text \<open>Completions are delivered in heap order, and the host clock never runs backwards.\<close>

lemma pops_sorted: "inv s \<Longrightarrow> sorted_wrt le (fst (pops n s))"
proof (induction n arbitrary: s)
  case 0
  show ?case by simp
next
  case (Suc n)
  show ?case
  proof (cases "pop s")
    case None
    then show ?thesis by simp
  next
    case (Some p)
    obtain e s' where p: "p = (e, s')" by (cases p)
    have "inv s'" using Suc.prems Some p pop_inv by blast
    then have "set (fst (pops n s')) \<subseteq> set_mset (pending s')"
      using pops_mset [of s' n] by (metis mset_subset_eq_add_left set_mset_mono set_mset_mset)
    also have "\<dots> \<subseteq> set_mset (pending s)"
      using pop_rest Suc.prems Some p by (metis diff_subset_eq_self set_mset_mono)
    finally have "\<forall>f \<in> set (fst (pops n s')). le e f"
      using pop_min Suc.prems Some p by blast
    then show ?thesis
      using Suc.IH [OF \<open>inv s'\<close>] Some p by (cases "pops n s'") auto
  qed
qed

lemma pops_clock_mono: "inv s \<Longrightarrow> clock s \<le> clock (snd (pops n s))"
proof (induction n arbitrary: s)
  case 0
  show ?case by simp
next
  case (Suc n)
  show ?case
  proof (cases "pop s")
    case None
    then show ?thesis by simp
  next
    case (Some p)
    obtain e s' where p: "p = (e, s')" by (cases p)
    then have "clock s \<le> clock s'" using pop_clock Suc.prems Some by simp
    also have "\<dots> \<le> clock (snd (pops n s'))" using Suc pop_inv Some p by blast
    finally show ?thesis using Some p by (cases "pops n s'") auto
  qed
qed

lemma pops_all: "inv s \<Longrightarrow> size (pending s) \<le> n \<Longrightarrow> pending (snd (pops n s)) = {#}"
proof (induction n arbitrary: s)
  case 0
  then show ?case by simp
next
  case (Suc n)
  show ?case
  proof (cases "pop s")
    case None
    with pop_None Suc.prems(1) have "pending s = {#}" by blast
    with None show ?thesis by simp
  next
    case (Some p)
    obtain e s' where p: "p = (e, s')" by (cases p)
    have "size (pending s') < size (pending s)"
      using pop_min pop_rest Suc.prems(1) Some p by (metis size_Diff1_less)
    then have "pending (snd (pops n s')) = {#}"
      using Suc.prems(2) by (intro Suc.IH pop_inv [OF Suc.prems(1)]) (use Some p in auto)
    then show ?thesis using Some p by (cases "pops n s'") auto
  qed
qed

end

section \<open>The fake backend implements it\<close>

definition backend_inv :: "'tok fake_backend \<Rightarrow> bool" where
  "backend_inv b \<longleftrightarrow>
     sorted_wrt entry_le (fb_pending b) \<and> (\<forall>e \<in> set (fb_pending b). pe_seq e \<le> fb_seq b) \<and>
     distinct (map pe_seq (fb_pending b))"

definition pop_entry :: "'tok fake_backend \<Rightarrow> ('tok pending_entry \<times> 'tok fake_backend) option" where
  "pop_entry b = (case fb_pending b of [] \<Rightarrow> None | e # _ \<Rightarrow> Some (e, snd (next_completion b)))"

lemma next_completion_pop:
  "next_completion b = (case pop_entry b of None \<Rightarrow> (None, b) | Some (e, b') \<Rightarrow> (Some (pe_token e), b'))"
  by (simp add: next_completion_def pop_entry_def split: list.splits)

interpretation fake: completion_queue backend_inv "\<lambda>b. mset (fb_pending b)" entry_le fb_host_us pe_time pop_entry
  by unfold_locales
    (auto simp: backend_inv_def pop_entry_def next_completion_def split: list.splits)

lemma notify_after_inv [inv_intros]: "backend_inv b \<Longrightarrow> backend_inv (notify_after b e t p)"
proof -
  assume inv: "backend_inv b"
  let ?e = "\<lparr>pe_time = ev_time_us e, pe_priority = p, pe_seq = fb_seq b + 1, pe_token = t\<rparr>"
  have "distinct (map pe_seq (heappush ?e fs))"
    if "distinct (map pe_seq fs)" "\<forall>f \<in> set fs. pe_seq f \<le> fb_seq b" for fs
    using that by (induction fs) auto
  then show ?thesis
    using inv by (force simp: backend_inv_def notify_after_def Let_def intro: sorted_heappush)
qed

lemma next_completion_inv [inv_intros]: "backend_inv b \<Longrightarrow> backend_inv (snd (next_completion b))"
  by (auto simp: backend_inv_def next_completion_def split: list.splits)

lemma advance_stream_clock:
  assumes "advance_stream b s d = ((t0, t1), s')"
  shows "st_clock_us s' = t1" and "st_clock_us s \<le> t0" and "fb_host_us b \<le> t0"
  using assms by (auto simp: advance_stream_def Let_def)

text \<open>The first \<open>n\<close> completions a client of the backend observes.\<close>

fun deliver :: "nat \<Rightarrow> 'tok fake_backend \<Rightarrow> 'tok pending_entry list \<times> 'tok fake_backend" where
  "deliver 0 b = ([], b)"
| "deliver (Suc n) b =
     (case fb_pending b of
        [] \<Rightarrow> ([], b)
      | e # _ \<Rightarrow> (let (es, b') = deliver n (snd (next_completion b)) in (e # es, b')))"

lemma deliver_pops: "deliver n b = fake.pops n b"
  by (induction n arbitrary: b) (auto simp: pop_entry_def split: list.splits)

text \<open>Deliveries from a backend that keeps its queue in order.\<close>

lemma deliveries_ordered:
  assumes "backend_inv b"
  shows "sorted_wrt entry_le (fst (deliver n b)) \<and>
    mset (fst (deliver n b)) + mset (fb_pending (snd (deliver n b))) = mset (fb_pending b) \<and>
    fb_host_us b \<le> fb_host_us (snd (deliver n b)) \<and>
    (length (fb_pending b) \<le> n \<longrightarrow> fb_pending (snd (deliver n b)) = [])"
  unfolding deliver_pops
  using fake.pops_sorted [OF assms] fake.pops_mset [OF assms] fake.pops_clock_mono [OF assms]
    fake.pops_all [OF assms] by simp

section \<open>Clients of the backend\<close>

text \<open>What a client does with completions: register a token behind an event, or take the next one. The answer to
  the latter is the token and the host clock after it.\<close>

datatype 'tok completion_call = Notify event 'tok int | Take

fun serve :: "'tok completion_call list \<Rightarrow> 'tok fake_backend \<Rightarrow> ('tok option \<times> time) list" where
  "serve [] b = []"
| "serve (Notify e tok priority # cs) b = serve cs (notify_after b e tok priority)"
| "serve (Take # cs) b = (let (r, b) = next_completion b in (r, fb_host_us b) # serve cs b)"

text \<open>The contract: registrations wait in the order of completion time and then priority; \<open>sort_key\<close> is stable, so
  equal ones stay in the order of registration.\<close>

definition rank :: "time \<times> int \<times> 'tok \<Rightarrow> time \<times> int" where
  "rank r = (fst r, fst (snd r))"

fun contract :: "'tok completion_call list \<Rightarrow> (time \<times> int \<times> 'tok) list \<Rightarrow> time \<Rightarrow> ('tok option \<times> time) list" where
  "contract [] q now = []"
| "contract (Notify e tok priority # cs) q now = contract cs (sort_key rank (q @ [(ev_time_us e, priority, tok)])) now"
| "contract (Take # cs) [] now = (None, now) # contract cs [] now"
| "contract (Take # cs) ((t, priority, tok) # q) now = (Some tok, max now t) # contract cs q (max now t)"

definition registration :: "'tok pending_entry \<Rightarrow> time \<times> int \<times> 'tok" where
  "registration e = (pe_time e, pe_priority e, pe_token e)"

lemma entry_le_rank: "entry_le e f \<Longrightarrow> rank (registration e) \<le> rank (registration f)"
  by (auto simp: rank_def registration_def entry_le_def)

lemma sorted_ranks: "sorted_wrt entry_le fs \<Longrightarrow> sorted (map rank (map registration fs))"
  by (induction fs) (auto intro: entry_le_rank)

lemma sort_key_snoc_le: "sorted (map f (x # xs)) \<Longrightarrow> f x \<le> f y \<Longrightarrow> sort_key f (x # xs @ [y]) = x # sort_key f (xs @ [y])"
proof -
  assume srt: "sorted (map f (x # xs))" and le: "f x \<le> f y"
  have "\<forall>z \<in> set (sort_key f (xs @ [y])). f x \<le> f z" using srt le by auto
  then show ?thesis by (cases "sort_key f (xs @ [y])") auto
qed

lemma sort_key_snoc_less: "sorted (map f (x # xs)) \<Longrightarrow> f y < f x \<Longrightarrow> sort_key f (x # xs @ [y]) = y # x # xs"
proof -
  assume srt: "sorted (map f (x # xs))" and less: "f y < f x"
  have "filter (\<lambda>z. f y = f z) xs = []" using srt less by (auto simp: filter_empty_conv)
  then have "sort_key f ((x # xs) @ [y]) = y # x # xs"
    using srt less by (intro properties_for_sort_key) auto
  then show ?thesis by simp
qed

text \<open>Pushing an entry newer than the pending ones is inserting it behind those of its rank.\<close>

lemma push_registers:
  assumes "sorted_wrt entry_le fs" and "\<forall>f \<in> set fs. pe_seq f < pe_seq e"
  shows "sort_key rank (map registration fs @ [registration e]) = map registration (heappush e fs)"
  using assms
proof (induction fs)
  case (Cons f fs)
  have srt: "sorted (map rank (registration f # map registration fs))"
    using sorted_ranks [OF Cons.prems(1)] by simp
  have seq: "pe_seq f < pe_seq e" using Cons.prems(2) by simp
  show ?case
  proof (cases "entry_le e f")
    case True
    then have "rank (registration e) < rank (registration f)"
      using seq by (auto simp: rank_def registration_def entry_le_def)
    from sort_key_snoc_less [OF srt this] True show ?thesis by simp
  next
    case False
    then have "rank (registration f) \<le> rank (registration e)"
      by (auto simp: rank_def registration_def entry_le_def)
    from sort_key_snoc_le [OF srt this] False Cons show ?thesis by simp
  qed
qed simp

lemma serve_contract:
  "backend_inv b \<Longrightarrow> serve cs b = contract cs (map registration (fb_pending b)) (fb_host_us b)"
proof (induction cs b rule: serve.induct)
  case (1 b)
  show ?case by simp
next
  case (2 e tok priority cs b)
  let ?e = "\<lparr>pe_time = ev_time_us e, pe_priority = priority, pe_seq = fb_seq b + 1, pe_token = tok\<rparr>"
  have "sort_key rank (map registration (fb_pending b) @ [registration ?e]) = map registration (heappush ?e (fb_pending b))"
    using "2.prems" by (intro push_registers) (auto simp: backend_inv_def)
  moreover have "registration ?e = (ev_time_us e, priority, tok)" by (simp add: registration_def)
  moreover have "map registration (fb_pending (notify_after b e tok priority)) = map registration (heappush ?e (fb_pending b))"
    "fb_host_us (notify_after b e tok priority) = fb_host_us b" by (simp_all add: notify_after_def Let_def)
  ultimately show ?case using 2 notify_after_inv [OF "2.prems"] by simp
next
  case (3 cs b)
  then show ?case using next_completion_inv [OF "3.prems"]
    by (cases "fb_pending b") (auto simp: next_completion_def registration_def)
qed

text \<open>C21. Ordering contract of completion tokens: whatever a client of a fresh backend registers and takes, in any
  interleaving, each call of \<open>next_completion\<close> returns the registered token that is least by completion time,
  then priority, then order of registration, once, or nothing when none is pending, and the host clock is the
  greatest completion time delivered so far.\<close>

theorem completion_order: "serve cs (new_backend physical scale) = contract cs [] 0"
  using serve_contract [of "new_backend physical scale" cs] by (simp add: backend_inv_def new_backend_def)

end
