(* ===== verification/Objects.thy ===== *)
theory Objects
  imports Program_IR Device_Fake
begin

text \<open>
  The object table, \<open>src/dataflow/runtime/objects.py\<close>, and the execution trace,
  \<open>src/dataflow/runtime/trace.py\<close>. Slots and records are values; a handler that mutates a slot in
  place returns the table with the record replaced. The table is keyed by object id in insertion
  order.
\<close>

section \<open>Objects\<close>

datatype slot_state = Reserved | Live | PendingOutbound | Outbound | PendingInbound | Inbound

record slot =
  sl_buffer :: buffer
  sl_state :: slot_state
  sl_version :: int
  sl_ready_event :: "event option"

record object_record =
  ob_id :: string
  ob_size_bytes :: int
  ob_role :: string
  ob_tensor :: "tensor_meta option"
  ob_version :: int
  ob_fast :: "slot option"
  ob_backing :: "slot option"

definition new_record :: "string \<Rightarrow> int \<Rightarrow> string \<Rightarrow> tensor_meta option \<Rightarrow> object_record" where
  "new_record i sz role tensor =
     \<lparr>ob_id = i, ob_size_bytes = sz, ob_role = role, ob_tensor = tensor, ob_version = 0,
      ob_fast = None, ob_backing = None\<rparr>"

definition slot_at :: "object_record \<Rightarrow> string \<Rightarrow> slot option" where
  "slot_at rec location = (if location = ''fast'' then ob_fast rec else ob_backing rec)"

definition set_slot :: "object_record \<Rightarrow> string \<Rightarrow> slot option \<Rightarrow> object_record" where
  "set_slot rec location s =
     (if location = ''fast'' then rec\<lparr>ob_fast := s\<rparr> else rec\<lparr>ob_backing := s\<rparr>)"

type_synonym object_table = "(string, object_record) dict"

definition table_get :: "object_table \<Rightarrow> string \<Rightarrow> object_record res" where
  "table_get tb i = (case dget tb i of None \<Rightarrow> Inl (KeyError i) | Some rec \<Rightarrow> Inr rec)"

definition table_add :: "object_table \<Rightarrow> object_record \<Rightarrow> object_record \<times> object_table" where
  "table_add tb rec =
     (case dget tb (ob_id rec) of
        Some existing \<Rightarrow> (existing, tb)
      | None \<Rightarrow> (rec, dset (ob_id rec) rec tb))"

definition fast_state :: "object_table \<Rightarrow> string \<Rightarrow> slot_state option" where
  "fast_state tb i =
     (case dget tb i of
        None \<Rightarrow> None
      | Some rec \<Rightarrow> (case ob_fast rec of None \<Rightarrow> None | Some s \<Rightarrow> Some (sl_state s)))"

lemma slot_at_set_slot:
  assumes "l \<in> {''fast'', ''backing''}" and "k \<in> {''fast'', ''backing''}"
  shows "slot_at (set_slot rec l s) k = (if k = l then s else slot_at rec k)"
  using assms by (auto simp: slot_at_def set_slot_def)

lemma set_slot_frame [simp]:
  "ob_id (set_slot rec l s) = ob_id rec"
  "ob_size_bytes (set_slot rec l s) = ob_size_bytes rec"
  "ob_version (set_slot rec l s) = ob_version rec"
  by (simp_all add: set_slot_def)

section \<open>Trace\<close>

record interval =
  iv_task_id :: string
  iv_start :: time
  iv_end :: time
  iv_track :: string

record trace_event =
  te_t :: time
  te_kind :: string
  te_object_id :: "string option"
  te_task_id :: "string option"
  te_detail :: string

record run_trace =
  rt_intervals :: "interval list"
  rt_events :: "trace_event list"
  rt_memory_trace :: "(time \<times> int) list"
  rt_peak_fast_bytes :: int

definition new_trace :: run_trace where
  "new_trace = \<lparr>rt_intervals = [], rt_events = [], rt_memory_trace = [], rt_peak_fast_bytes = 0\<rparr>"

definition add_interval :: "string \<Rightarrow> time \<Rightarrow> time \<Rightarrow> string \<Rightarrow> run_trace \<Rightarrow> run_trace" where
  "add_interval task start end track tr =
     tr\<lparr>rt_intervals := rt_intervals tr @
        [\<lparr>iv_task_id = task, iv_start = start, iv_end = end, iv_track = track\<rparr>]\<rparr>"

definition add_event ::
  "time \<Rightarrow> string \<Rightarrow> string option \<Rightarrow> string option \<Rightarrow> string \<Rightarrow> run_trace \<Rightarrow> run_trace" where
  "add_event t kind object_id task_id detail tr =
     tr\<lparr>rt_events := rt_events tr @
        [\<lparr>te_t = t, te_kind = kind, te_object_id = object_id, te_task_id = task_id, te_detail = detail\<rparr>]\<rparr>"

text \<open>\<open>max(ends, default=0.0)\<close>.\<close>

definition makespan_us :: "run_trace \<Rightarrow> time" where
  "makespan_us tr =
     (case map iv_end (rt_intervals tr) of [] \<Rightarrow> 0 | e # es \<Rightarrow> fold max es e)"

record parity_diff =
  pd_missing :: "(string \<times> string \<times> time \<times> time) set"
  pd_extra :: "(string \<times> string \<times> time \<times> time) set"
  pd_peak_sim :: int
  pd_peak_runtime :: int

definition parity_ok :: "parity_diff \<Rightarrow> bool" where
  "parity_ok d \<longleftrightarrow> pd_missing d = {} \<and> pd_extra d = {} \<and> pd_peak_sim d = pd_peak_runtime d"

text \<open>\<open>compare_to_sim_eventlog\<close> at its default exact tolerance: interval sets and peaks.\<close>

definition compare_to_sim_eventlog ::
  "run_trace \<Rightarrow> (string \<times> string \<times> time \<times> time) list \<Rightarrow> int \<Rightarrow> parity_diff" where
  "compare_to_sim_eventlog tr sim_intervals sim_peak =
     (let sim = set sim_intervals;
          ours = set (map (\<lambda>iv. (iv_task_id iv, iv_track iv, iv_start iv, iv_end iv)) (rt_intervals tr))
      in \<lparr>pd_missing = sim - ours, pd_extra = ours - sim, pd_peak_sim = sim_peak,
          pd_peak_runtime = rt_peak_fast_bytes tr\<rparr>)"

lemma parity_ok_iff:
  "parity_ok (compare_to_sim_eventlog tr sim peak) \<longleftrightarrow>
     set sim = (\<lambda>iv. (iv_task_id iv, iv_track iv, iv_start iv, iv_end iv)) ` set (rt_intervals tr) \<and>
     peak = rt_peak_fast_bytes tr"
  by (auto simp: parity_ok_def compare_to_sim_eventlog_def Let_def)

end
