(* ===== verification/Slab.thy ===== *)
theory Slab
  imports Device_Fake
begin

text \<open>
  The slab sub-allocator, \<open>src/dataflow/runtime/slab.py\<close>: one backing allocation, free holes as two
  parallel lists sorted by offset, best-fit carving and immediate coalescing on both sides.

  \<open>slab_inv\<close> is the canonical form of the hole lists (positive, aligned, inside the slab, sorted and
  never adjacent). The locale \<open>byte_allocator\<close> is the contract the buffer pool relies on, over the
  abstract state "set of free bytes"; the interpretation \<open>slab\<close> shows the hole lists implement it.
\<close>

section \<open>Model\<close>

definition ALIGN :: int where "ALIGN = 512"

record slab =
  sl_location :: string
  sl_capacity_bytes :: int
  sl_base :: "buffer option"
  sl_hole_offsets :: "int list"
  sl_hole_sizes :: "int list"
  sl_used_bytes :: int
  sl_owner :: slab_owner

text \<open>\<open>__post_init__\<close>; \<open>int(capacity * factor)\<close> truncates (the factor is never negative).\<close>

definition new_slab ::
  "'tok fake_backend \<Rightarrow> string \<Rightarrow> int \<Rightarrow> rat \<Rightarrow> slab_owner \<Rightarrow> (slab \<times> 'tok fake_backend) res" where
  "new_slab b location capacity_bytes headroom_factor owner =
     (let headroom = min \<lfloor>of_int capacity_bytes * headroom_factor\<rfloor> (2 * 1024 ^ 3);
          padded = capacity_bytes + headroom;
          cap = align_up ALIGN padded
      in bindE (alloc b location cap) (\<lambda>(base, b').
           Inr (\<lparr>sl_location = location, sl_capacity_bytes = cap, sl_base = Some base,
                 sl_hole_offsets = [0], sl_hole_sizes = [cap], sl_used_bytes = 0,
                 sl_owner = owner\<rparr>, b')))"

text \<open>The scan for the best hole: the smallest that fits, the first of equals, stopping at an exact
  fit.\<close>

fun best_hole :: "int \<Rightarrow> nat \<Rightarrow> (nat \<times> int) option \<Rightarrow> int list \<Rightarrow> (nat \<times> int) option" where
  "best_hole sz i best [] = best"
| "best_hole sz i best (hole # holes) =
     (if sz \<le> hole \<and> (case best of None \<Rightarrow> True | Some (_, best_size) \<Rightarrow> hole < best_size)
      then if hole = sz then Some (i, hole) else best_hole sz (Suc i) (Some (i, hole)) holes
      else best_hole sz (Suc i) best holes)"

definition slab_allocate :: "slab \<Rightarrow> int \<Rightarrow> int option \<times> slab" where
  "slab_allocate s size_bytes =
     (let size = align_up ALIGN size_bytes
      in case best_hole size 0 None (sl_hole_sizes s) of
           None \<Rightarrow> (None, s)
         | Some (best, hole) \<Rightarrow>
             (let offset = sl_hole_offsets s ! best;
                  remaining = sl_hole_sizes s ! best - size;
                  s1 = (if remaining \<noteq> 0
                        then s\<lparr>sl_hole_offsets := (sl_hole_offsets s)[best := offset + size],
                               sl_hole_sizes := (sl_hole_sizes s)[best := remaining]\<rparr>
                        else s\<lparr>sl_hole_offsets := list_del best (sl_hole_offsets s),
                               sl_hole_sizes := list_del best (sl_hole_sizes s)\<rparr>)
              in (Some offset, s1\<lparr>sl_used_bytes := sl_used_bytes s + size\<rparr>)))"

definition slab_free :: "slab \<Rightarrow> int \<Rightarrow> int \<Rightarrow> slab" where
  "slab_free s offset size_bytes =
     (let size = align_up ALIGN size_bytes;
          i = bisect_left (sl_hole_offsets s) offset;
          (offs, szs) =
            (if i < length (sl_hole_offsets s) \<and> offset + size = sl_hole_offsets s ! i
             then ((sl_hole_offsets s)[i := offset], (sl_hole_sizes s)[i := sl_hole_sizes s ! i + size])
             else (list_insert i offset (sl_hole_offsets s), list_insert i size (sl_hole_sizes s)));
          (offs, szs) =
            (if 0 < i \<and> offs ! (i - 1) + szs ! (i - 1) = offs ! i
             then (list_del i offs, list_del i (szs[i - 1 := szs ! (i - 1) + szs ! i]))
             else (offs, szs))
      in s\<lparr>sl_hole_offsets := offs, sl_hole_sizes := szs, sl_used_bytes := sl_used_bytes s - size\<rparr>)"

definition make_buffer :: "slab \<Rightarrow> int \<Rightarrow> int \<Rightarrow> int \<Rightarrow> buffer res" where
  "make_buffer s offset size_bytes seq =
     (case sl_base s of
        None \<Rightarrow> Inl (AssertionError ''slab closed'')
      | Some base \<Rightarrow>
          Inr \<lparr>bf_ref = SlabBuf (sl_location s) seq, bf_location = sl_location s,
               bf_size_bytes = size_bytes, bf_ptr = bf_ptr base + offset,
               bf_raw = SlabRaw offset (sl_owner s), bf_guard_event = [], bf_tag = None\<rparr>)"

definition slab_close :: "'tok fake_backend \<Rightarrow> slab \<Rightarrow> (slab \<times> 'tok fake_backend) res" where
  "slab_close b s =
     (case sl_base s of
        None \<Rightarrow> Inr (s, b)
      | Some base \<Rightarrow> bindE (free_buffer b base) (\<lambda>b'. Inr (s\<lparr>sl_base := None\<rparr>, b')))"

section \<open>Allocators of byte ranges as an interface\<close>

locale byte_allocator =
  fixes inv :: "'s \<Rightarrow> bool"
    and avail :: "'s \<Rightarrow> int set"
    and extent :: "'s \<Rightarrow> int"
    and width :: "int \<Rightarrow> int"
    and take_range :: "'s \<Rightarrow> int \<Rightarrow> int option \<times> 's"
    and give_range :: "'s \<Rightarrow> int \<Rightarrow> int \<Rightarrow> 's"
  assumes avail_bound: "inv s \<Longrightarrow> avail s \<subseteq> {0..<extent s}"
    and width_ge: "n \<le> width n"
    and take_fail: "\<lbrakk>inv s; 0 < n; take_range s n = (None, s')\<rbrakk> \<Longrightarrow> s' = s"
    and take_inv: "\<lbrakk>inv s; 0 < n; take_range s n = (Some off, s')\<rbrakk> \<Longrightarrow> inv s'"
    and take_extent: "\<lbrakk>inv s; 0 < n; take_range s n = (Some off, s')\<rbrakk> \<Longrightarrow> extent s' = extent s"
    and take_range_free: "\<lbrakk>inv s; 0 < n; take_range s n = (Some off, s')\<rbrakk> \<Longrightarrow> {off..<off + width n} \<subseteq> avail s"
    and take_avail: "\<lbrakk>inv s; 0 < n; take_range s n = (Some off, s')\<rbrakk> \<Longrightarrow> avail s' = avail s - {off..<off + width n}"
    and take_aligned: "\<lbrakk>inv s; 0 < n; take_range s n = (Some off, s')\<rbrakk> \<Longrightarrow> width off = off"
    and give_inv: "\<lbrakk>inv s; 0 < n; width off = off; {off..<off + width n} \<subseteq> {0..<extent s};
      {off..<off + width n} \<inter> avail s = {}\<rbrakk> \<Longrightarrow> inv (give_range s off n)"
    and give_extent: "\<lbrakk>inv s; 0 < n; width off = off; {off..<off + width n} \<subseteq> {0..<extent s};
      {off..<off + width n} \<inter> avail s = {}\<rbrakk> \<Longrightarrow> extent (give_range s off n) = extent s"
    and give_avail: "\<lbrakk>inv s; 0 < n; width off = off; {off..<off + width n} \<subseteq> {0..<extent s};
      {off..<off + width n} \<inter> avail s = {}\<rbrakk> \<Longrightarrow> avail (give_range s off n) = avail s \<union> {off..<off + width n}"
begin

text \<open>The blocks a client holds, with their requested sizes: disjoint, aligned, and together with the
  free bytes exactly the extent.\<close>

definition block :: "int \<times> int \<Rightarrow> int set" where
  "block b = {fst b..<fst b + width (snd b)}"

definition owns :: "'s \<Rightarrow> (int \<times> int) list \<Rightarrow> bool" where
  "owns s live \<longleftrightarrow> inv s \<and> (\<forall>b \<in> set live. 0 < snd b \<and> width (fst b) = fst b \<and> block b \<inter> avail s = {}) \<and>
     sorted_wrt (\<lambda>a b. block a \<inter> block b = {}) live \<and>
     avail s \<union> (\<Union>b \<in> set live. block b) = {0..<extent s}"

lemma owns_take:
  assumes "owns s live" and "0 < n" and t: "take_range s n = (Some off, s')"
  shows "owns s' ((off, n) # live)"
proof -
  have inv: "inv s" using assms(1) by (simp add: owns_def)
  note facts = take_inv [OF inv assms(2) t] take_extent [OF inv assms(2) t]
    take_range_free [OF inv assms(2) t] take_avail [OF inv assms(2) t] take_aligned [OF inv assms(2) t]
  have blk: "block (off, n) = {off..<off + width n}" by (simp add: block_def)
  have "block (off, n) \<subseteq> avail s" using facts(3) blk by simp
  then have "\<forall>b \<in> set live. block (off, n) \<inter> block b = {}"
    using assms(1) unfolding owns_def by blast
  moreover have "avail s' \<union> block (off, n) = avail s" using facts(3,4) blk by auto
  then have "avail s' \<union> (\<Union>b \<in> set ((off, n) # live). block b) = {0..<extent s'}"
    using assms(1) facts(2) unfolding owns_def by auto
  moreover have "\<forall>b \<in> set ((off, n) # live). 0 < snd b \<and> width (fst b) = fst b \<and> block b \<inter> avail s' = {}"
    using assms(1,2) facts(4,5) blk unfolding owns_def by auto
  ultimately show ?thesis using facts(1) assms(1) unfolding owns_def by auto
qed

lemma owns_give:
  assumes "owns s (xs @ (off, n) # ys)"
  shows "owns (give_range s off n) (xs @ ys)"
proof -
  let ?b = "(off, n)"
  have blk: "block ?b = {off..<off + width n}" by (simp add: block_def)
  have inv: "inv s" and n: "0 < n" and al: "width off = off" and dis: "{off..<off + width n} \<inter> avail s = {}"
    using assms blk by (auto simp: owns_def)
  have "block ?b \<subseteq> {0..<extent s}" using assms unfolding owns_def by auto
  then have sub: "{off..<off + width n} \<subseteq> {0..<extent s}" unfolding blk .
  note g = give_inv [OF inv n al sub dis] give_extent [OF inv n al sub dis] give_avail [OF inv n al sub dis]
  have others: "\<forall>c \<in> set (xs @ ys). block c \<inter> block ?b = {}"
    using assms by (auto simp: owns_def sorted_wrt_append)
  have sorted: "sorted_wrt (\<lambda>a b. block a \<inter> block b = {}) (xs @ ys)"
    using assms by (auto simp: owns_def sorted_wrt_append)
  have cover: "avail (give_range s off n) \<union> (\<Union>b \<in> set (xs @ ys). block b) = {0..<extent (give_range s off n)}"
    using assms g(2,3) blk by (auto simp: owns_def)
  have sep: "\<forall>c \<in> set (xs @ ys). block c \<inter> avail (give_range s off n) = {}"
    using assms others g(3) blk by (fastforce simp: owns_def)
  have pos: "\<forall>c \<in> set (xs @ ys). 0 < snd c \<and> width (fst c) = fst c"
    using assms by (auto simp: owns_def)
  show ?thesis using g(1) pos sep sorted cover unfolding owns_def by blast
qed

end

section \<open>Canonical hole lists\<close>

definition holes :: "slab \<Rightarrow> (int \<times> int) list" where
  "holes s = zip (sl_hole_offsets s) (sl_hole_sizes s)"

definition hole_bytes :: "(int \<times> int) list \<Rightarrow> int set" where
  "hole_bytes hs = (\<Union>(off, n) \<in> set hs. {off..<off + n})"

text \<open>Holes from \<open>lo\<close> on: positive, and each starts strictly after the end of the one before.\<close>

fun canon :: "int \<Rightarrow> (int \<times> int) list \<Rightarrow> bool" where
  "canon lo [] \<longleftrightarrow> True"
| "canon lo ((off, n) # hs) \<longleftrightarrow> lo \<le> off \<and> 0 < n \<and> canon (off + n + 1) hs"

definition hole_total :: "(int \<times> int) list \<Rightarrow> int" where
  "hole_total hs = (\<Sum>h \<leftarrow> hs. snd h)"

definition slab_inv :: "slab \<Rightarrow> bool" where
  "slab_inv s \<longleftrightarrow>
     length (sl_hole_offsets s) = length (sl_hole_sizes s) \<and> canon 0 (holes s) \<and>
     (\<forall>(off, n) \<in> set (holes s). ALIGN dvd off \<and> ALIGN dvd n \<and> off + n \<le> sl_capacity_bytes s) \<and>
     ALIGN dvd sl_capacity_bytes s \<and>
     sl_used_bytes s = sl_capacity_bytes s - hole_total (holes s)"

abbreviation slab_avail :: "slab \<Rightarrow> int set" where
  "slab_avail s \<equiv> hole_bytes (holes s)"

lemma hole_bytes_simps [simp]:
  "hole_bytes [] = {}"
  "hole_bytes ((off, n) # hs) = {off..<off + n} \<union> hole_bytes hs"
  "hole_bytes (xs @ ys) = hole_bytes xs \<union> hole_bytes ys"
  by (auto simp: hole_bytes_def)

lemma hole_total_simps [simp]:
  "hole_total [] = 0"
  "hole_total ((off, n) # hs) = n + hole_total hs"
  "hole_total (xs @ ys) = hole_total xs + hole_total ys"
  by (auto simp: hole_total_def)

lemma canon_mono: "canon lo hs \<Longrightarrow> lo' \<le> lo \<Longrightarrow> canon lo' hs"
  by (cases hs) auto

lemma canon_bytes_ge: "canon lo hs \<Longrightarrow> x \<in> hole_bytes hs \<Longrightarrow> lo \<le> x"
  by (induction hs arbitrary: lo) (auto, fastforce)

lemma canon_member: "canon lo hs \<Longrightarrow> (off, n) \<in> set hs \<Longrightarrow> lo \<le> off \<and> 0 < n"
  by (induction hs arbitrary: lo) (auto, fastforce)

text \<open>The end of the last hole plus one, below which the following holes may not start.\<close>

fun hole_end :: "int \<Rightarrow> (int \<times> int) list \<Rightarrow> int" where
  "hole_end lo [] = lo"
| "hole_end lo ((off, n) # hs) = hole_end (off + n + 1) hs"

lemma canon_append: "canon lo (xs @ ys) \<longleftrightarrow> canon lo xs \<and> canon (hole_end lo xs) ys"
  by (induction lo xs rule: hole_end.induct) auto

lemma hole_end_append [simp]: "hole_end lo (xs @ ys) = hole_end (hole_end lo xs) ys"
  by (induction lo xs rule: hole_end.induct) auto

lemma hole_end_ge: "canon lo xs \<Longrightarrow> lo \<le> hole_end lo xs"
  by (induction lo xs rule: hole_end.induct) auto

lemma canon_sorted: "canon lo hs \<Longrightarrow> sorted (map fst hs)"
  by (induction lo hs rule: canon.induct) (auto dest: canon_member)

text \<open>All bytes of the holes before a point lie below it when the point is at or after their end.\<close>

lemma canon_bytes_less: "canon lo xs \<Longrightarrow> x \<in> hole_bytes xs \<Longrightarrow> x < hole_end lo xs"
proof (induction lo xs rule: hole_end.induct)
  case 1
  then show ?case by simp
next
  case (2 lo off n hs)
  have "off + n + 1 \<le> hole_end (off + n + 1) hs" using 2 by (intro hole_end_ge) simp
  with 2 show ?case by auto
qed

text \<open>Canonical form: the hole list is determined by the set of free bytes.\<close>

lemma canon_unique:
  assumes "canon lo xs" and "canon lo ys" and "hole_bytes xs = hole_bytes ys"
  shows "xs = ys"
  using assms
proof (induction xs arbitrary: lo ys)
  case Nil
  have "ys = []"
  proof (cases ys)
    case (Cons h hs)
    obtain off n where h: "h = (off, n)" by (cases h)
    with Nil Cons have "off \<in> hole_bytes ys" by auto
    with Nil show ?thesis by simp
  qed simp
  then show ?case by simp
next
  case (Cons h xs)
  obtain a n where h: "h = (a, n)" by (cases h)
  have a: "a \<in> hole_bytes ys" "0 < n" using Cons.prems h by auto
  then obtain b m zs where ys: "ys = (b, m) # zs" by (cases ys) auto
  have cx: "canon (a + n + 1) xs" and cy: "canon (b + m + 1) zs" and m: "0 < m"
    using Cons.prems h ys by auto
  have b: "b \<in> hole_bytes (h # xs)" using Cons.prems(3) ys m by auto
  have lowx: "x \<in> hole_bytes xs \<Longrightarrow> a + n < x" for x using canon_bytes_ge [OF cx, of x] by linarith
  have lowy: "x \<in> hole_bytes zs \<Longrightarrow> b + m < x" for x using canon_bytes_ge [OF cy, of x] by linarith
  have "a = b" using a b h ys m lowx [of b] lowy [of a] by fastforce
  moreover have "n = m"
  proof (rule ccontr)
    assume "n \<noteq> m"
    then consider "n < m" | "m < n" by linarith
    then show False
    proof cases
      case 1
      then have "a + n \<in> hole_bytes ys" using ys \<open>a = b\<close> a(2) by auto
      then show False using Cons.prems(3) h lowx [of "a + n"] by auto
    next
      case 2
      then have "b + m \<in> hole_bytes (h # xs)" using h \<open>a = b\<close> m by auto
      then show False using Cons.prems(3) ys lowy [of "b + m"] by auto
    qed
  qed
  moreover have "hole_bytes xs = hole_bytes zs"
  proof -
    have "hole_bytes xs = hole_bytes (h # xs) \<inter> {a + n + 1..}"
      using h lowx by fastforce
    also have "\<dots> = hole_bytes ys \<inter> {b + m + 1..}" using Cons.prems(3) \<open>a = b\<close> \<open>n = m\<close> by simp
    also have "\<dots> = hole_bytes zs" using ys lowy by fastforce
    finally show ?thesis .
  qed
  ultimately show ?case using Cons.IH [OF cx] cy h ys by auto
qed

section \<open>Carving\<close>

lemma best_hole_None: "best_hole sz i best hs = None \<longleftrightarrow> best = None \<and> (\<forall>h \<in> set hs. h < sz)"
  by (induction sz i best hs rule: best_hole.induct) (auto split: option.splits)

lemma best_hole_Some:
  assumes "best_hole sz i best hs = Some (j, h)" and "\<forall>k b. best = Some (k, b) \<longrightarrow> sz \<le> b"
  shows "(best = Some (j, h) \<or> (i \<le> j \<and> j < i + length hs \<and> hs ! (j - i) = h)) \<and> sz \<le> h \<and>
    (\<forall>h' \<in> set hs. sz \<le> h' \<longrightarrow> h \<le> h') \<and> (\<forall>k b. best = Some (k, b) \<longrightarrow> h \<le> b)"
  using assms
proof (induction sz i best hs rule: best_hole.induct)
  case (1 sz i best)
  then show ?case by auto
next
  case (2 sz i best hole holes)
  have shift: "(j - i) = Suc (j - Suc i)" if "Suc i \<le> j" for j using that by simp
  show ?case
  proof (cases "sz \<le> hole \<and> (case best of None \<Rightarrow> True | Some (_, best_size) \<Rightarrow> hole < best_size)")
    case True
    show ?thesis
    proof (cases "hole = sz")
      case exact: True
      then have "j = i" "h = sz" using 2(3) True by auto
      with exact True show ?thesis by (auto split: option.splits)
    next
      case False
      have "best_hole sz (Suc i) (Some (i, hole)) holes = Some (j, h)" using 2(3) True False by simp
      from 2(1) [OF True False this] True show ?thesis
        by (auto simp: shift split: option.splits)
    qed
  next
    case False
    then have "best_hole sz (Suc i) best holes = Some (j, h)" using 2(3) by auto
    from 2(2) [OF False this 2(4)] False 2(4) show ?thesis
      by (cases best) (auto simp: shift not_le not_less)
  qed
qed

lemma take_nth_drop_zip:
  assumes "length xs = length ys" and "i < length xs"
  shows "zip xs ys = take i (zip xs ys) @ (xs ! i, ys ! i) # drop (Suc i) (zip xs ys)"
  using id_take_nth_drop [of i "zip xs ys"] assms by simp

text \<open>What carving does to the list of holes.\<close>

lemma slab_allocate_Some:
  assumes inv: "slab_inv s" and run: "slab_allocate s n = (Some off, s')"
  obtains xs m ys where "holes s = xs @ (off, m) # ys" and "align_up ALIGN n \<le> m"
    and "holes s' = xs @ (if m = align_up ALIGN n then [] else [(off + align_up ALIGN n, m - align_up ALIGN n)]) @ ys"
    and "length (sl_hole_offsets s') = length (sl_hole_sizes s')"
    and "sl_used_bytes s' = sl_used_bytes s + align_up ALIGN n"
    and "sl_capacity_bytes s' = sl_capacity_bytes s"
    and "\<forall>(o', m') \<in> set (holes s). align_up ALIGN n \<le> m' \<longrightarrow> m \<le> m'"
proof -
  let ?n = "align_up ALIGN n"
  have len: "length (sl_hole_offsets s) = length (sl_hole_sizes s)" using inv by (simp add: slab_inv_def)
  obtain j h where bh: "best_hole ?n 0 None (sl_hole_sizes s) = Some (j, h)"
    using run by (cases "best_hole ?n 0 None (sl_hole_sizes s)") (auto simp: slab_allocate_def Let_def)
  from best_hole_Some [OF bh] have j: "j < length (sl_hole_sizes s)" "sl_hole_sizes s ! j = h" "?n \<le> h"
    and min: "\<forall>h' \<in> set (sl_hole_sizes s). ?n \<le> h' \<longrightarrow> h \<le> h'" by auto
  have off: "off = sl_hole_offsets s ! j" using run bh by (simp add: slab_allocate_def Let_def)
  let ?xs = "take j (holes s)" and ?ys = "drop (Suc j) (holes s)"
  have hs: "holes s = ?xs @ (off, h) # ?ys"
    using take_nth_drop_zip [OF len, of j] j len off by (simp add: holes_def)
  have "holes s' = ?xs @ (if h = ?n then [] else [(off + ?n, h - ?n)]) @ ?ys"
  proof (cases "h = ?n")
    case True
    then have "s' = s\<lparr>sl_hole_offsets := list_del j (sl_hole_offsets s),
        sl_hole_sizes := list_del j (sl_hole_sizes s), sl_used_bytes := sl_used_bytes s + ?n\<rparr>"
      using run bh j by (simp add: slab_allocate_def Let_def)
    with True len show ?thesis by (simp add: holes_def zip_list_del) (simp add: list_del_def)
  next
    case False
    then have "s' = s\<lparr>sl_hole_offsets := (sl_hole_offsets s)[j := off + ?n],
        sl_hole_sizes := (sl_hole_sizes s)[j := h - ?n], sl_used_bytes := sl_used_bytes s + ?n\<rparr>"
      using run bh j off by (simp add: slab_allocate_def Let_def)
    then have "holes s' = (holes s)[j := (off + ?n, h - ?n)]" by (simp add: holes_def update_zip)
    then show ?thesis using False j len by (simp add: upd_conv_take_nth_drop holes_def)
  qed
  moreover have "length (sl_hole_offsets s') = length (sl_hole_sizes s')"
    using run bh len j by (auto simp: slab_allocate_def Let_def length_list_del split: if_splits)
  moreover have "sl_used_bytes s' = sl_used_bytes s + ?n" "sl_capacity_bytes s' = sl_capacity_bytes s"
    using run bh by (auto simp: slab_allocate_def Let_def split: if_splits)
  moreover have "\<forall>(o', m') \<in> set (holes s). ?n \<le> m' \<longrightarrow> h \<le> m'"
    using min by (auto simp: holes_def dest: set_zip_rightD)
  ultimately show thesis using that hs j(3) by blast
qed

lemma slab_allocate_None:
  "slab_allocate s n = (None, s') \<Longrightarrow> s' = s \<and> (\<forall>m \<in> set (sl_hole_sizes s). m < align_up ALIGN n)"
  by (auto simp: slab_allocate_def Let_def best_hole_None split: option.splits prod.splits)

lemma ALIGN_pos [simp]: "0 < ALIGN"
  by (simp add: ALIGN_def)

text \<open>Carving a prefix out of one hole.\<close>

lemma carve_canon:
  assumes "canon lo (xs @ (off, m) # ys)" and "0 < n" and "n \<le> m"
  shows "canon lo (xs @ (if m = n then [] else [(off + n, m - n)]) @ ys)"
    and "{off..<off + n} \<subseteq> hole_bytes (xs @ (off, m) # ys)"
    and "hole_bytes (xs @ (if m = n then [] else [(off + n, m - n)]) @ ys) =
      hole_bytes (xs @ (off, m) # ys) - {off..<off + n}"
proof -
  have c: "canon lo xs" "hole_end lo xs \<le> off" "0 < m" "canon (off + m + 1) ys"
    using assms(1) by (auto simp: canon_append)
  have low: "x < off" if "x \<in> hole_bytes xs" for x using canon_bytes_less [OF c(1) that] c(2) by linarith
  have high: "off + m < x" if "x \<in> hole_bytes ys" for x using canon_bytes_ge [OF c(4) that] by linarith
  show "canon lo (xs @ (if m = n then [] else [(off + n, m - n)]) @ ys)"
    using c assms(2,3) by (auto simp: canon_append intro: canon_mono)
  show "{off..<off + n} \<subseteq> hole_bytes (xs @ (off, m) # ys)" using assms(3) by auto
  show "hole_bytes (xs @ (if m = n then [] else [(off + n, m - n)]) @ ys) =
      hole_bytes (xs @ (off, m) # ys) - {off..<off + n}"
  proof (rule set_eqI)
    fix x
    show "x \<in> hole_bytes (xs @ (if m = n then [] else [(off + n, m - n)]) @ ys) \<longleftrightarrow>
      x \<in> hole_bytes (xs @ (off, m) # ys) - {off..<off + n}"
      using low [of x] high [of x] assms(2,3)
      by (cases "x \<in> hole_bytes xs"; cases "x \<in> hole_bytes ys"; cases "m = n") (simp_all, linarith)
  qed
qed

lemma slab_allocate_inv:
  assumes inv: "slab_inv s" and n: "0 < n" and run: "slab_allocate s n = (Some off, s')"
  shows "slab_inv s'" and "{off..<off + align_up ALIGN n} \<subseteq> slab_avail s"
    and "slab_avail s' = slab_avail s - {off..<off + align_up ALIGN n}"
    and "ALIGN dvd off" and "sl_capacity_bytes s' = sl_capacity_bytes s"
proof -
  let ?n = "align_up ALIGN n"
  have npos: "0 < ?n" using align_up_pos [of ALIGN n] n by simp
  obtain xs m ys where hs: "holes s = xs @ (off, m) # ys"
    and le: "?n \<le> m"
    and hs': "holes s' = xs @ (if m = ?n then [] else [(off + ?n, m - ?n)]) @ ys"
    and rest: "length (sl_hole_offsets s') = length (sl_hole_sizes s')"
      "sl_used_bytes s' = sl_used_bytes s + ?n" "sl_capacity_bytes s' = sl_capacity_bytes s"
    by (rule slab_allocate_Some [OF inv run])
  have can: "canon 0 (xs @ (off, m) # ys)" using inv hs by (simp add: slab_inv_def)
  note cc = carve_canon [OF can npos le, folded hs hs']
  show "{off..<off + ?n} \<subseteq> slab_avail s" and "slab_avail s' = slab_avail s - {off..<off + ?n}"
    using cc by blast+
  show "sl_capacity_bytes s' = sl_capacity_bytes s" by (rule rest)
  have al: "\<forall>(o', m') \<in> set (holes s). ALIGN dvd o' \<and> ALIGN dvd m' \<and> o' + m' \<le> sl_capacity_bytes s"
    using inv by (simp add: slab_inv_def)
  then show "ALIGN dvd off" using hs by simp
  have "\<forall>(o', m') \<in> set (holes s'). ALIGN dvd o' \<and> ALIGN dvd m' \<and> o' + m' \<le> sl_capacity_bytes s'"
    using al hs hs' rest(3) align_up_dvd [of ALIGN n] by (auto split: if_splits)
  moreover have "hole_total (holes s') = hole_total (holes s) - ?n" by (simp add: hs hs')
  ultimately show "slab_inv s'" using cc(1) inv rest by (simp add: slab_inv_def)
qed

section \<open>Returning and coalescing\<close>

text \<open>What returning a range does to the list of holes, split at the insertion point.\<close>

definition merge_next :: "int \<Rightarrow> int \<Rightarrow> (int \<times> int) list \<Rightarrow> (int \<times> int) list" where
  "merge_next off n ys = (case ys of
      (o', m) # zs \<Rightarrow> if off + n = o' then (off, m + n) # zs else (off, n) # ys
    | [] \<Rightarrow> [(off, n)])"

definition merge_prev :: "(int \<times> int) list \<Rightarrow> (int \<times> int) list \<Rightarrow> (int \<times> int) list" where
  "merge_prev xs ys = (case (xs, ys) of
      (_ # _, (o', m) # zs) \<Rightarrow>
        (case last xs of (p, k) \<Rightarrow> if p + k = o' then butlast xs @ (p, k + m) # zs else xs @ ys)
    | _ \<Rightarrow> xs @ ys)"

lemma merge_prev_simps [simp]:
  "merge_prev [] ys = ys"
  "merge_prev (xs @ [(p, k)]) ((o', m) # zs) =
     (if p + k = o' then xs @ (p, k + m) # zs else xs @ (p, k) # (o', m) # zs)"
  by (simp add: merge_prev_def) (cases xs; simp add: merge_prev_def)

lemma slab_free_holes:
  assumes len: "length (sl_hole_offsets s) = length (sl_hole_sizes s)"
    and i: "i = bisect_left (sl_hole_offsets s) off" and le: "i \<le> length (sl_hole_offsets s)"
  shows "holes (slab_free s off n) =
      merge_prev (take i (holes s)) (merge_next off (align_up ALIGN n) (drop i (holes s)))"
    and "length (sl_hole_offsets (slab_free s off n)) = length (sl_hole_sizes (slab_free s off n))"
proof -
  let ?n = "align_up ALIGN n" and ?os = "sl_hole_offsets s" and ?ss = "sl_hole_sizes s"
  define os1 where "os1 = (if i < length ?os \<and> off + ?n = ?os ! i then ?os[i := off] else list_insert i off ?os)"
  define ss1 where "ss1 = (if i < length ?os \<and> off + ?n = ?os ! i then ?ss[i := ?ss ! i + ?n] else list_insert i ?n ?ss)"
  have l1: "length os1 = length ss1" "i < length os1" using len le by (auto simp: os1_def ss1_def)
  have z1: "zip os1 ss1 = take i (holes s) @ merge_next off ?n (drop i (holes s))"
  proof (cases "i < length ?os")
    case True
    then have d: "drop i (holes s) = (?os ! i, ?ss ! i) # drop (Suc i) (holes s)"
      using len by (simp add: holes_def Cons_nth_drop_Suc [symmetric])
    show ?thesis
    proof (cases "off + ?n = ?os ! i")
      case merge: True
      then have "zip os1 ss1 = (holes s)[i := (off, ?ss ! i + ?n)]"
        using True by (simp add: os1_def ss1_def holes_def update_zip)
      then show ?thesis using True merge len d
        by (simp add: merge_next_def upd_conv_take_nth_drop holes_def add.commute)
    next
      case False
      then show ?thesis using True len d
        by (simp add: os1_def ss1_def zip_list_insert holes_def [symmetric] merge_next_def)
          (simp add: list_insert_def)
    qed
  next
    case False
    then show ?thesis using len le
      by (simp add: os1_def ss1_def zip_list_insert holes_def [symmetric] merge_next_def)
        (simp add: list_insert_def holes_def)
  qed
  have ti: "take i (zip os1 ss1) = take i (holes s)" using z1 le len by (simp add: holes_def)
  have run: "slab_free s off n =
    (if 0 < i \<and> os1 ! (i - 1) + ss1 ! (i - 1) = os1 ! i
     then s\<lparr>sl_hole_offsets := list_del i os1, sl_hole_sizes := list_del i (ss1[i - 1 := ss1 ! (i - 1) + ss1 ! i]),
            sl_used_bytes := sl_used_bytes s - ?n\<rparr>
     else s\<lparr>sl_hole_offsets := os1, sl_hole_sizes := ss1, sl_used_bytes := sl_used_bytes s - ?n\<rparr>)"
    unfolding slab_free_def Let_def os1_def ss1_def i by (simp split: if_splits)
  show "length (sl_hole_offsets (slab_free s off n)) = length (sl_hole_sizes (slab_free s off n))"
    unfolding run using l1 by (simp add: length_list_del)
  have new: "merge_next off ?n (drop i (holes s)) = (os1 ! i, ss1 ! i) # drop (Suc i) (zip os1 ss1)"
  proof -
    have "merge_next off ?n (drop i (holes s)) = drop i (zip os1 ss1)"
      using z1 ti by (metis append_eq_conv_conj append_take_drop_id same_append_eq)
    also have "\<dots> = (os1 ! i, ss1 ! i) # drop (Suc i) (zip os1 ss1)"
      using l1 by (simp add: Cons_nth_drop_Suc [symmetric])
    finally show ?thesis .
  qed
  show "holes (slab_free s off n) =
      merge_prev (take i (holes s)) (merge_next off ?n (drop i (holes s)))"
  proof (cases "0 < i")
    case False
    then have h: "holes (slab_free s off n) = zip os1 ss1" unfolding run by (simp add: holes_def)
    show ?thesis unfolding h z1 using False by simp
  next
    case True
    let ?p = "(os1 ! (i - 1), ss1 ! (i - 1))"
    have tk: "take i (zip os1 ss1) = take (i - 1) (zip os1 ss1) @ [?p]"
      using True l1 take_Suc_conv_app_nth [of "i - 1" "zip os1 ss1"] by simp
    show ?thesis
    proof (cases "os1 ! (i - 1) + ss1 ! (i - 1) = os1 ! i")
      case merge: True
      then have "holes (slab_free s off n) = zip (list_del i os1) (list_del i (ss1[i - 1 := ss1 ! (i - 1) + ss1 ! i]))"
        unfolding run using True by (simp add: holes_def)
      also have "\<dots> = list_del i (zip os1 (ss1[i - 1 := ss1 ! (i - 1) + ss1 ! i]))"
        using l1 by (simp add: zip_list_del)
      also have "zip os1 (ss1[i - 1 := ss1 ! (i - 1) + ss1 ! i]) =
          (zip os1 ss1)[i - 1 := (os1 ! (i - 1), ss1 ! (i - 1) + ss1 ! i)]"
        by (simp add: update_zip)
      also have "list_del i \<dots> = take (i - 1) (zip os1 ss1) @ (os1 ! (i - 1), ss1 ! (i - 1) + ss1 ! i) # drop (Suc i) (zip os1 ss1)"
        using True l1 by (simp add: list_del_def upd_conv_take_nth_drop drop_update_cancel take_Cons')
      finally show ?thesis
        unfolding new ti [symmetric] tk using merge by simp
    next
      case False
      then have h: "holes (slab_free s off n) = zip os1 ss1" unfolding run by (simp add: holes_def)
      have "merge_prev (take i (holes s)) (merge_next off ?n (drop i (holes s))) =
          take (i - 1) (zip os1 ss1) @ ?p # (os1 ! i, ss1 ! i) # drop (Suc i) (zip os1 ss1)"
        unfolding new ti [symmetric] tk using False by simp
      also have "\<dots> = take i (zip os1 ss1) @ merge_next off ?n (drop i (holes s))"
        unfolding tk new by simp
      also have "\<dots> = holes (slab_free s off n)" using ti h z1 by simp
      finally show ?thesis by simp
    qed
  qed
qed

lemma bisect_split:
  assumes inv: "slab_inv s" and i: "i = bisect_left (sl_hole_offsets s) off"
  shows "i \<le> length (sl_hole_offsets s)" and "\<forall>(o', m) \<in> set (take i (holes s)). o' < off"
    and "\<forall>(o', m) \<in> set (drop i (holes s)). off \<le> o'"
proof -
  let ?os = "sl_hole_offsets s"
  have len: "length ?os = length (sl_hole_sizes s)" using inv by (simp add: slab_inv_def)
  have "map fst (holes s) = ?os" using len by (simp add: holes_def)
  then have sorted: "sorted ?os" using canon_sorted [of 0 "holes s"] inv by (simp add: slab_inv_def)
  show "i \<le> length ?os" unfolding i by (rule bisect_left_spec [OF sorted])
  show "\<forall>(o', m) \<in> set (take i (holes s)). o' < off"
    using bisect_left_spec(2) [OF sorted, of _ off] i len
    by (auto simp: holes_def in_set_conv_nth)
  show "\<forall>(o', m) \<in> set (drop i (holes s)). off \<le> o'"
    using bisect_left_spec(3) [OF sorted, of off] i len
    by (auto simp: holes_def in_set_conv_nth)
qed

text \<open>Inserting a range between two canonical lists and merging on both sides.\<close>

lemma merge_next_canon:
  assumes "canon (off + n) ys" and "0 < n"
  shows "\<exists>m zs. merge_next off n ys = (off, m) # zs \<and> n \<le> m \<and> canon (off + m + 1) zs \<and>
    hole_bytes ((off, m) # zs) = {off..<off + n} \<union> hole_bytes ys \<and> hole_total ((off, m) # zs) = n + hole_total ys"
proof (cases ys)
  case Nil
  then show ?thesis using assms by (auto simp: merge_next_def)
next
  case (Cons h zs)
  obtain o' k where h: "h = (o', k)" by (cases h)
  show ?thesis
  proof (cases "off + n = o'")
    case True
    then have "merge_next off n ys = (off, k + n) # zs" using Cons h by (simp add: merge_next_def)
    moreover have "{off..<off + (k + n)} = {off..<off + n} \<union> {o'..<o' + k}"
      using True assms Cons h by auto
    moreover have "canon (off + (k + n) + 1) zs" using assms Cons h True by (auto simp: algebra_simps)
    moreover have "0 < k" using assms Cons h by simp
    ultimately show ?thesis using Cons h by auto
  next
    case False
    then have "merge_next off n ys = (off, n) # ys" using Cons h by (simp add: merge_next_def)
    moreover have "canon (off + n + 1) ys" using assms False Cons h by auto
    ultimately show ?thesis by auto
  qed
qed

lemma merge_prev_canon:
  assumes xs: "canon lo xs" and gap: "\<forall>(p, k) \<in> set xs. p + k \<le> off" and "lo \<le> off" and "0 < m"
    and zs: "canon (off + m + 1) zs"
  shows "canon lo (merge_prev xs ((off, m) # zs)) \<and>
    hole_bytes (merge_prev xs ((off, m) # zs)) = hole_bytes xs \<union> hole_bytes ((off, m) # zs) \<and>
    hole_total (merge_prev xs ((off, m) # zs)) = hole_total xs + hole_total ((off, m) # zs)"
proof (cases xs rule: rev_cases)
  case Nil
  then show ?thesis using assms by simp
next
  case (snoc us u)
  obtain p k where u: "u = (p, k)" by (cases u)
  have c: "canon lo us" "hole_end lo us \<le> p" "0 < k" "p + k \<le> off"
    using xs gap snoc u by (auto simp: canon_append)
  show ?thesis
  proof (cases "p + k = off")
    case True
    then have "{p..<p + (k + m)} = {p..<p + k} \<union> {off..<off + m}" using c assms(4) by auto
    then show ?thesis using True c zs assms(4) snoc u
      by (auto simp: canon_append algebra_simps)
  next
    case False
    then show ?thesis using c zs assms(4) snoc u by (auto simp: canon_append)
  qed
qed

lemma slab_free_used [simp]:
  "sl_used_bytes (slab_free s off n) = sl_used_bytes s - align_up ALIGN n"
  "sl_capacity_bytes (slab_free s off n) = sl_capacity_bytes s"
  by (simp_all add: slab_free_def Let_def split: prod.splits)

text \<open>Splitting the holes around a range that is not free.\<close>

lemma free_split:
  assumes inv: "slab_inv s" and i: "i = bisect_left (sl_hole_offsets s) off" and n: "0 < n"
    and dis: "{off..<off + n} \<inter> slab_avail s = {}"
  shows "canon 0 (take i (holes s))" and "\<forall>(p, k) \<in> set (take i (holes s)). p + k \<le> off"
    and "canon (off + n) (drop i (holes s))"
proof -
  have can: "canon 0 (take i (holes s) @ drop i (holes s))" using inv by (simp add: slab_inv_def)
  then show "canon 0 (take i (holes s))" by (simp only: canon_append)
  have dr: "canon (hole_end 0 (take i (holes s))) (drop i (holes s))" using can by (simp only: canon_append)
  have byte: "x \<notin> hole_bytes (holes s)" if "off \<le> x" "x < off + n" for x
    using dis that by auto
  have mem: "{p..<p + k} \<subseteq> hole_bytes (holes s) \<and> 0 < k" if "(p, k) \<in> set (holes s)" for p k
    using that canon_member [of 0 "holes s" p k] inv unfolding slab_inv_def hole_bytes_def by auto
  show "\<forall>(p, k) \<in> set (take i (holes s)). p + k \<le> off"
  proof clarify
    fix p k assume pk: "(p, k) \<in> set (take i (holes s))"
    then have "p < off" using bisect_split(2) [OF inv i] by auto
    moreover have "(p, k) \<in> set (holes s)" using pk by (rule in_set_takeD)
    then have "off \<notin> {p..<p + k}" using mem [of p k] byte [of off] n by auto
    ultimately show "p + k \<le> off" by auto
  qed
  show "canon (off + n) (drop i (holes s))"
  proof (cases "drop i (holes s)")
    case Nil
    then show ?thesis by simp
  next
    case (Cons h zs)
    obtain o' k where h: "h = (o', k)" by (cases h)
    have "off \<le> o'" using bisect_split(3) [OF inv i] Cons h by auto
    moreover have "(o', k) \<in> set (holes s)" using Cons h by (metis in_set_dropD list.set_intros(1))
    then have "o' \<in> hole_bytes (holes s)" using mem [of o' k] by auto
    ultimately have "off + n \<le> o'" using byte [of o'] by linarith
    then show ?thesis using dr Cons h by simp
  qed
qed

lemma slab_free_inv:
  assumes inv: "slab_inv s" and n: "0 < n" and al: "ALIGN dvd off"
    and sub: "{off..<off + align_up ALIGN n} \<subseteq> {0..<sl_capacity_bytes s}"
    and dis: "{off..<off + align_up ALIGN n} \<inter> slab_avail s = {}"
  shows "slab_inv (slab_free s off n)"
    and "slab_avail (slab_free s off n) = slab_avail s \<union> {off..<off + align_up ALIGN n}"
proof -
  let ?n = "align_up ALIGN n" and ?s = "slab_free s off n"
  define i where "i = bisect_left (sl_hole_offsets s) off"
  have npos: "0 < ?n" using align_up_pos [of ALIGN n] n by simp
  have off: "0 \<le> off" "off + ?n \<le> sl_capacity_bytes s" using sub npos by simp_all
  have len: "length (sl_hole_offsets s) = length (sl_hole_sizes s)" using inv by (simp add: slab_inv_def)
  note hs = slab_free_holes [OF len i_def bisect_split(1) [OF inv i_def], of n]
  note sp = free_split [OF inv i_def npos dis]
  obtain m zs where mn: "merge_next off ?n (drop i (holes s)) = (off, m) # zs" and "?n \<le> m"
    and zs: "canon (off + m + 1) zs"
    and mb: "hole_bytes ((off, m) # zs) = {off..<off + ?n} \<union> hole_bytes (drop i (holes s))"
    and mt: "hole_total ((off, m) # zs) = ?n + hole_total (drop i (holes s))"
    using merge_next_canon [OF sp(3) npos] by blast
  have "0 < m" using npos \<open>?n \<le> m\<close> by simp
  note mp = merge_prev_canon [OF sp(1,2) off(1) \<open>0 < m\<close> zs]
  show avail: "slab_avail ?s = slab_avail s \<union> {off..<off + ?n}"
  proof -
    have "slab_avail ?s = hole_bytes (take i (holes s)) \<union> ({off..<off + ?n} \<union> hole_bytes (drop i (holes s)))"
      unfolding hs(1) mn using mp mb by simp
    also have "\<dots> = hole_bytes (take i (holes s) @ drop i (holes s)) \<union> {off..<off + ?n}"
      by (simp only: hole_bytes_simps) blast
    finally show ?thesis by simp
  qed
  have total: "hole_total (holes ?s) = hole_total (holes s) + ?n"
  proof -
    have "hole_total (holes ?s) = hole_total (take i (holes s) @ drop i (holes s)) + ?n"
      unfolding hs(1) mn hole_total_simps using mp mt by simp
    then show ?thesis by simp
  qed
  have "\<forall>(p, k) \<in> set (holes ?s). ALIGN dvd p \<and> ALIGN dvd k \<and> p + k \<le> sl_capacity_bytes s"
  proof -
    let ?ok = "\<lambda>(p, k). ALIGN dvd p \<and> ALIGN dvd k \<and> p + k \<le> sl_capacity_bytes s"
    have old: "\<forall>h \<in> set (take i (holes s)) \<union> set (drop i (holes s)). ?ok h"
      using inv by (auto simp: slab_inv_def dest!: in_set_takeD in_set_dropD)
    have new: "\<forall>h \<in> set (merge_next off ?n (drop i (holes s))). ?ok h"
      using old al off(2) align_up_dvd [of ALIGN n]
      by (auto simp: merge_next_def split: list.splits if_splits)
    show ?thesis
    proof (cases "take i (holes s)" rule: rev_cases)
      case Nil
      show ?thesis unfolding hs(1) Nil using new by simp
    next
      case (snoc us u)
      obtain p k where u: "u = (p, k)" by (cases u)
      have "\<forall>h \<in> set us. ?ok h" "?ok (p, k)" using old snoc u by auto
      then show ?thesis using hs(1) new snoc u mn by (auto split: if_splits)
    qed
  qed
  then show "slab_inv ?s"
    using hs(2) mp inv total mn hs(1) by (simp add: slab_inv_def)
qed

interpretation slab: byte_allocator slab_inv slab_avail sl_capacity_bytes "align_up ALIGN" slab_allocate slab_free
proof unfold_locales
  have al: "ALIGN dvd off" if "align_up ALIGN off = off" for off :: int
    using that align_up_dvd [of ALIGN off] by simp
  fix s s' :: slab and n off :: int
  show "n \<le> align_up ALIGN n" by (rule align_up_ge) simp
  assume inv: "slab_inv s"
  show "slab_avail s \<subseteq> {0..<sl_capacity_bytes s}"
  proof
    fix x assume "x \<in> slab_avail s"
    then obtain o' m where "(o', m) \<in> set (holes s)" "o' \<le> x" "x < o' + m" by (auto simp: hole_bytes_def)
    moreover from this have "0 \<le> o'" using canon_member inv unfolding slab_inv_def by blast
    ultimately show "x \<in> {0..<sl_capacity_bytes s}" using inv by (fastforce simp: slab_inv_def)
  qed
  assume n: "0 < n"
  show "s' = s" if "slab_allocate s n = (None, s')" using slab_allocate_None that by blast
  show "slab_inv s'" and "sl_capacity_bytes s' = sl_capacity_bytes s"
    and "{off..<off + align_up ALIGN n} \<subseteq> slab_avail s"
    and "slab_avail s' = slab_avail s - {off..<off + align_up ALIGN n}"
    and "align_up ALIGN off = off" if "slab_allocate s n = (Some off, s')"
    using slab_allocate_inv [OF inv n that] by (simp_all add: align_up_id)
  assume "align_up ALIGN off = off" and "{off..<off + align_up ALIGN n} \<subseteq> {0..<sl_capacity_bytes s}"
    and "{off..<off + align_up ALIGN n} \<inter> slab_avail s = {}"
  then show "slab_inv (slab_free s off n)"
    and "slab_avail (slab_free s off n) = slab_avail s \<union> {off..<off + align_up ALIGN n}"
    and "sl_capacity_bytes (slab_free s off n) = sl_capacity_bytes s"
    using slab_free_inv [OF inv n al] by auto
qed

lemma new_slab_inv:
  assumes "new_slab b loc cap f owner = Inr (s, b')" and "0 < cap" and "0 \<le> f"
  shows "slab_inv s" and "slab_avail s = {0..<sl_capacity_bytes s}" and "cap \<le> sl_capacity_bytes s"
proof -
  let ?p = "cap + min \<lfloor>of_int cap * f\<rfloor> (2 * 1024 ^ 3)"
  from assms(1) have s: "holes s = [(0, align_up ALIGN ?p)]" "sl_capacity_bytes s = align_up ALIGN ?p"
    "length (sl_hole_offsets s) = length (sl_hole_sizes s)" "sl_used_bytes s = 0"
    by (auto simp: new_slab_def Let_def bindE_eq_Inr holes_def)
  have "0 \<le> \<lfloor>of_int cap * f\<rfloor>" using assms(2,3) by simp
  then have "cap \<le> ?p" by simp
  also have "\<dots> \<le> align_up ALIGN ?p" by (rule align_up_ge) simp
  finally show "cap \<le> sl_capacity_bytes s" using s by simp
  with s assms(2) show "slab_inv s" and "slab_avail s = {0..<sl_capacity_bytes s}"
    by (auto simp: slab_inv_def align_up_dvd)
qed

section \<open>What clients of the slab can rely on\<close>

text \<open>States reachable by carving and by returning blocks that are held, with the blocks held.\<close>

inductive slab_reach :: "slab \<Rightarrow> (int \<times> int) list \<Rightarrow> bool" where
  reach_new: "new_slab (b :: unit fake_backend) loc cap f owner = Inr (s, b') \<Longrightarrow> 0 < cap \<Longrightarrow> 0 \<le> f \<Longrightarrow> slab_reach s []"
| reach_carve: "slab_reach s live \<Longrightarrow> 0 < n \<Longrightarrow> slab_allocate s n = (Some off, s') \<Longrightarrow> slab_reach s' ((off, n) # live)"
| reach_miss: "slab_reach s live \<Longrightarrow> 0 < n \<Longrightarrow> slab_allocate s n = (None, s') \<Longrightarrow> slab_reach s' live"
| reach_return: "slab_reach s (xs @ (off, n) # ys) \<Longrightarrow> slab_reach (slab_free s off n) (xs @ ys)"

lemma slab_reach_owns:
  "slab_reach s live \<Longrightarrow> slab.owns s live \<and> sl_used_bytes s = (\<Sum>(off, n) \<leftarrow> live. align_up ALIGN n)"
proof (induction rule: slab_reach.induct)
  case (reach_new b loc cap f owner s b')
  have "sl_used_bytes s = 0" using reach_new(1) by (auto simp: new_slab_def Let_def bindE_eq_Inr)
  with new_slab_inv [OF reach_new] show ?case by (simp add: slab.owns_def)
next
  case (reach_carve s live n off s')
  have inv: "slab_inv s" using reach_carve by (simp add: slab.owns_def)
  have "sl_used_bytes s' = sl_used_bytes s + align_up ALIGN n"
    using slab_allocate_Some [OF inv reach_carve(3)] by metis
  then show ?case using slab.owns_take reach_carve by auto
next
  case (reach_miss s live n s')
  then show ?case using slab_allocate_None by metis
next
  case (reach_return s xs off n ys)
  then show ?case using slab.owns_give by auto
qed

text \<open>A contiguous free range lies inside one hole, because holes never touch.\<close>

lemma canon_contiguous:
  assumes "canon lo hs" and "0 < w" and "{x..<x + w} \<subseteq> hole_bytes hs"
  shows "\<exists>(off, m) \<in> set hs. off \<le> x \<and> x + w \<le> off + m"
  using assms
proof (induction lo hs rule: canon.induct)
  case (1 lo)
  then show ?case by auto
next
  case (2 lo off m hs)
  have can: "canon (off + m + 1) hs" and m: "0 < m" using 2(2) by auto
  have high: "off + m < y" if "y \<in> hole_bytes hs" for y using canon_bytes_ge [OF can that] by linarith
  have x: "x \<in> {x..<x + w}" using 2(3) by simp
  show ?case
  proof (cases "x < off + m")
    case True
    have "x + w \<le> off + m"
    proof (rule ccontr)
      assume "\<not> x + w \<le> off + m"
      then have "off + m \<in> {x..<x + w}" using True by auto
      then have "off + m \<in> hole_bytes ((off, m) # hs)" using 2(4) by blast
      then show False using high [of "off + m"] by auto
    qed
    moreover have "off \<le> x" using x 2(4) high [of x] True by fastforce
    ultimately show ?thesis by auto
  next
    case False
    then have "{x..<x + w} \<subseteq> hole_bytes hs" using 2(4) by fastforce
    from 2(1) [OF can 2(3) this] show ?thesis by auto
  qed
qed

text \<open>C19. Memory safety of the slab: however a client interleaves carving and returning, the blocks
  it holds are pairwise disjoint, aligned to 512 bytes and inside the slab; held blocks and free
  holes together are exactly the slab, and \<open>used_bytes\<close> is the sum of the rounded sizes held.\<close>

theorem slab_blocks_disjoint:
  assumes "slab_reach s live"
  shows "(\<forall>i < length live. \<forall>j < i.
       {fst (live ! j)..<fst (live ! j) + align_up ALIGN (snd (live ! j))} \<inter>
       {fst (live ! i)..<fst (live ! i) + align_up ALIGN (snd (live ! i))} = {}) \<and>
    (\<forall>(off, n) \<in> set live. ALIGN dvd off) \<and>
    slab_avail s \<union> (\<Union>(off, n) \<in> set live. {off..<off + align_up ALIGN n}) = {0..<sl_capacity_bytes s} \<and>
    (\<forall>(off, n) \<in> set live. {off..<off + align_up ALIGN n} \<inter> slab_avail s = {}) \<and>
    sl_used_bytes s = (\<Sum>(off, n) \<leftarrow> live. align_up ALIGN n)"
proof -
  note o = slab_reach_owns [OF assms]
  have al: "ALIGN dvd off" if "align_up ALIGN off = off" for off :: int
    using that align_up_dvd [of ALIGN off] by simp
  have "sorted_wrt (\<lambda>a b. slab.block a \<inter> slab.block b = {}) live" using o by (simp add: slab.owns_def)
  then have "\<forall>i < length live. \<forall>j < i. slab.block (live ! j) \<inter> slab.block (live ! i) = {}"
    by (simp add: sorted_wrt_iff_nth_less)
  moreover have "(\<Union>(off, n) \<in> set live. {off..<off + align_up ALIGN n}) = (\<Union>b \<in> set live. slab.block b)"
    by (auto simp: slab.block_def)
  moreover have "\<forall>(off, n) \<in> set live. ALIGN dvd off \<and> {off..<off + align_up ALIGN n} \<inter> slab_avail s = {}"
    using o al unfolding slab.owns_def slab.block_def by fastforce
  ultimately show ?thesis using o unfolding slab.owns_def slab.block_def by auto
qed

text \<open>A concrete slab of 2048 bytes with the first 512 bytes free and the second half free.\<close>

definition demo_slab :: slab where
  "demo_slab = \<lparr>sl_location = ''fast'', sl_capacity_bytes = 2048, sl_base = None,
     sl_hole_offsets = [0, 1024], sl_hole_sizes = [512, 1024], sl_used_bytes = 512, sl_owner = MainSlab\<rparr>"

lemma demo_slab_inv: "slab_inv demo_slab"
  by (simp add: slab_inv_def demo_slab_def holes_def ALIGN_def)

theorem slab_blocks_disjoint_witness:
  "\<exists>s. slab_reach s [(512, 600), (0, 100)] \<and> sl_used_bytes s = 1536"
proof -
  let ?b = "new_backend False None :: unit fake_backend"
  obtain s b' where new: "new_slab ?b ''fast'' 4096 0 MainSlab = Inr (s, b')"
    and s: "sl_hole_offsets s = [0]" "sl_hole_sizes s = [4096]" "sl_used_bytes s = 0"
    by (simp add: new_slab_def new_backend_def alloc_def align_up_def ALIGN_def)
  have r0: "slab_reach s []" by (rule reach_new [OF new]) simp_all
  obtain s1 where s1: "slab_allocate s 100 = (Some 0, s1)"
    and h1: "sl_hole_offsets s1 = [512]" "sl_hole_sizes s1 = [3584]"
    using s by (simp add: slab_allocate_def align_up_def ALIGN_def)
  have r1: "slab_reach s1 [(0, 100)]" using reach_carve [OF r0 _ s1] by simp
  obtain s2 where s2: "slab_allocate s1 600 = (Some 512, s2)"
    using h1 by (simp add: slab_allocate_def align_up_def ALIGN_def)
  have r2: "slab_reach s2 [(512, 600), (0, 100)]" using reach_carve [OF r1 _ s2] by simp
  have "sl_used_bytes s2 = 1536"
    using slab_blocks_disjoint [OF r2] by (simp add: align_up_def ALIGN_def)
  with r2 show ?thesis by blast
qed

text \<open>Best fit: carving succeeds exactly when some contiguous range of the rounded size is
  free, and it cuts the smallest hole that fits.\<close>

theorem slab_allocate_best_fit:
  assumes "slab_inv s" and "0 < n"
  shows "(fst (slab_allocate s n) \<noteq> None \<longleftrightarrow> (\<exists>x. {x..<x + align_up ALIGN n} \<subseteq> slab_avail s)) \<and>
    (\<forall>off. fst (slab_allocate s n) = Some off \<longrightarrow>
       (\<exists>m. (off, m) \<in> set (holes s) \<and> align_up ALIGN n \<le> m \<and>
          (\<forall>(o', m') \<in> set (holes s). align_up ALIGN n \<le> m' \<longrightarrow> m \<le> m')))"
proof -
  have npos: "0 < align_up ALIGN n" using align_up_pos [of ALIGN n] assms(2) by simp
  obtain r s' where run: "slab_allocate s n = (r, s')" by (cases "slab_allocate s n")
  have len: "length (sl_hole_offsets s) = length (sl_hole_sizes s)" and can: "canon 0 (holes s)"
    using assms(1) by (auto simp: slab_inv_def)
  show ?thesis
  proof (cases r)
    case None
    have "\<not> {x..<x + align_up ALIGN n} \<subseteq> slab_avail s" for x
    proof
      assume "{x..<x + align_up ALIGN n} \<subseteq> slab_avail s"
      from canon_contiguous [OF can npos this] obtain off m
        where m: "(off, m) \<in> set (holes s)" "off \<le> x" "x + align_up ALIGN n \<le> off + m" by blast
      then have "m \<in> set (sl_hole_sizes s)" by (auto simp: holes_def dest: set_zip_rightD)
      with m slab_allocate_None run None show False by fastforce
    qed
    with None run show ?thesis by simp
  next
    case (Some off)
    obtain xs m ys where "holes s = xs @ (off, m) # ys" "align_up ALIGN n \<le> m"
      "\<forall>(o', m') \<in> set (holes s). align_up ALIGN n \<le> m' \<longrightarrow> m \<le> m'"
      by (rule slab_allocate_Some [OF assms(1) run [unfolded Some]])
    moreover have "{off..<off + align_up ALIGN n} \<subseteq> slab_avail s"
      using slab_allocate_inv(2) [OF assms run [unfolded Some]] .
    ultimately show ?thesis using Some run by auto
  qed
qed

theorem slab_allocate_best_fit_witness:
  "fst (slab_allocate demo_slab 100) = Some 0 \<and> (\<exists>x. {x..<x + align_up ALIGN 100} \<subseteq> slab_avail demo_slab)"
proof -
  have "fst (slab_allocate demo_slab 100) = Some 0"
    by (simp add: slab_allocate_def demo_slab_def align_up_def ALIGN_def)
  then show ?thesis using slab_allocate_best_fit [OF demo_slab_inv, of 100] by simp
qed

text \<open>Coalescing restores the slab: returning a block just carved gives back exactly the hole
  lists and the counter there were before, whichever hole was cut.\<close>

theorem slab_carve_return:
  assumes "slab_inv s" and "0 < n" and "slab_allocate s n = (Some off, s')"
  shows "slab_free s' off n = s"
proof -
  let ?w = "{off..<off + align_up ALIGN n}"
  note a = slab_allocate_inv [OF assms]
  have sub: "?w \<subseteq> {0..<sl_capacity_bytes s'}"
    unfolding a(5) using a(2) slab.avail_bound [OF assms(1)] by (rule subset_trans)
  have dis: "?w \<inter> slab_avail s' = {}" using a(3) by auto
  note f = slab_free_inv [OF a(1) assms(2) a(4) sub dis]
  have "slab_avail (slab_free s' off n) = slab_avail s" using f(2) a(2,3) by blast
  then have hs: "holes (slab_free s' off n) = holes s"
    using canon_unique f(1) assms(1) unfolding slab_inv_def by blast
  have len: "length (sl_hole_offsets s) = length (sl_hole_sizes s)"
    "length (sl_hole_offsets (slab_free s' off n)) = length (sl_hole_sizes (slab_free s' off n))"
    using f(1) assms(1) by (auto simp: slab_inv_def)
  have "sl_hole_offsets (slab_free s' off n) = sl_hole_offsets s"
    and "sl_hole_sizes (slab_free s' off n) = sl_hole_sizes s"
    using hs len unfolding holes_def by (metis map_fst_zip, metis map_snd_zip)
  moreover have "sl_used_bytes (slab_free s' off n) = sl_used_bytes s"
    using f(1) assms(1) hs a(5) by (simp add: slab_inv_def)
  moreover have "slab_free s' off n = s\<lparr>sl_hole_offsets := sl_hole_offsets (slab_free s' off n),
      sl_hole_sizes := sl_hole_sizes (slab_free s' off n), sl_used_bytes := sl_used_bytes (slab_free s' off n)\<rparr>"
    using assms(3) by (auto simp: slab_free_def slab_allocate_def Let_def split: if_splits option.splits prod.splits)
  ultimately show ?thesis by simp
qed

theorem slab_carve_return_witness:
  "slab_free (snd (slab_allocate demo_slab 600)) 1024 600 = demo_slab"
proof -
  have "slab_allocate demo_slab 600 = (Some 1024, snd (slab_allocate demo_slab 600))"
    by (simp add: slab_allocate_def demo_slab_def align_up_def ALIGN_def)
  from slab_carve_return [OF demo_slab_inv _ this] show ?thesis by simp
qed

end
