(* ===== verification/Placement.thy ===== *)
theory Placement
  imports Slab "HOL-Library.Product_Lexorder" "HOL-Library.List_Lexorder" "HOL-Library.Char_ord"
begin

text \<open>
  Static placement, \<open>src/dataflow/runtime/placement.py\<close>: the recorder of a dry run's fast-memory
  instances, the interval packing \<open>_pack\<close> and \<open>compute_placement\<close>. Python's \<open>sorted\<close> is the
  stable \<open>sort_key\<close> over the lexicographic orders. \<open>random.Random(0).shuffle\<close> is a parameter: the
  \<open>k\<close>-th shuffle of the base list, of which only that it permutes its argument is used.
\<close>

section \<open>Recording instances\<close>

type_synonym instance_key = "string \<times> int"

record instance_record =
  ir_key :: instance_key
  ir_size_bytes :: int
  ir_birth :: int
  ir_death :: int

record placement_recorder =
  pc_ordinal :: int
  pc_live :: "(instance_key, instance_record) dict"
  pc_done :: "instance_record list"

definition new_recorder :: placement_recorder where
  "new_recorder = \<lparr>pc_ordinal = 0, pc_live = [], pc_done = []\<rparr>"

definition on_get :: "placement_recorder \<Rightarrow> instance_key \<Rightarrow> int \<Rightarrow> placement_recorder" where
  "on_get r key size_bytes =
     (let ord = pc_ordinal r + 1
      in r\<lparr>pc_ordinal := ord,
           pc_live := dset key \<lparr>ir_key = key, ir_size_bytes = size_bytes, ir_birth = ord,
             ir_death = 2 ^ 62\<rparr> (pc_live r)\<rparr>)"

definition on_put :: "placement_recorder \<Rightarrow> instance_key \<Rightarrow> placement_recorder" where
  "on_put r key =
     (let ord = pc_ordinal r + 1; r1 = r\<lparr>pc_ordinal := ord\<rparr>
      in case dget (pc_live r) key of
           None \<Rightarrow> r1
         | Some rec \<Rightarrow> r1\<lparr>pc_live := ddel key (pc_live r), pc_done := pc_done r @ [rec\<lparr>ir_death := ord\<rparr>]\<rparr>)"

definition instances :: "placement_recorder \<Rightarrow> instance_record list" where
  "instances r = pc_done r @ map snd (pc_live r)"

section \<open>Packing\<close>

record placement =
  pl_offsets :: "(instance_key, int) dict"
  pl_sizes :: "(instance_key, int) dict"
  pl_extent_bytes :: int
  pl_load_bytes :: int
  pl_physical_limit_bytes :: int

definition overhead :: "placement \<Rightarrow> rat" where
  "overhead p = of_int (pl_extent_bytes p) / of_int (max (pl_load_bytes p) 1)"

definition time_conflict :: "instance_record \<Rightarrow> instance_record \<Rightarrow> bool" where
  "time_conflict other rec \<longleftrightarrow> \<not> (ir_death other \<le> ir_birth rec \<or> ir_death rec \<le> ir_birth other)"

text \<open>The inner loop of \<open>_pack\<close> over the conflicting ranges in order.\<close>

fun first_fit :: "int \<Rightarrow> int \<Rightarrow> (int \<times> int) list \<Rightarrow> int" where
  "first_fit sz candidate [] = candidate"
| "first_fit sz candidate ((off, end) # conflicts) =
     (if candidate + sz \<le> off then candidate else first_fit sz (max candidate end) conflicts)"

type_synonym pack_state = "(int \<times> int \<times> instance_record) list \<times> (instance_key, int) dict \<times> int"

definition pack_one :: "instance_record \<Rightarrow> pack_state \<Rightarrow> pack_state" where
  "pack_one rec st = (case st of (placed, offsets, extent) \<Rightarrow>
     (let sz = align_up ALIGN (ir_size_bytes rec);
          conflicts = sort (map (\<lambda>(off, end, other). (off, end))
            (filter (\<lambda>(off, end, other). time_conflict other rec) placed));
          candidate = first_fit sz 0 conflicts
      in (placed @ [(candidate, candidate + sz, rec)], dset (ir_key rec) candidate offsets,
          max extent (candidate + sz))))"

definition pack :: "instance_record list \<Rightarrow> int \<times> (instance_key, int) dict" where
  "pack recs = (case fold pack_one recs ([], [], 0) of (placed, offsets, extent) \<Rightarrow> (extent, offsets))"

text \<open>Peak concurrent load: a sweep over births and deaths in time order, deaths first.\<close>

definition load_events :: "instance_record list \<Rightarrow> (int \<times> int) list" where
  "load_events base =
     concat (map (\<lambda>r. [(ir_birth r, ir_size_bytes r), (ir_death r, - ir_size_bytes r)]) base)"

fun sweep :: "int \<Rightarrow> int \<Rightarrow> (int \<times> int) list \<Rightarrow> int" where
  "sweep load cur [] = load"
| "sweep load cur ((t, delta) # es) = sweep (max load (cur + delta)) (cur + delta) es"

definition peak_load :: "instance_record list \<Rightarrow> int" where
  "peak_load base = sweep 0 0 (sort (load_events base))"

definition orders :: "(nat \<Rightarrow> instance_record list \<Rightarrow> instance_record list) \<Rightarrow> nat \<Rightarrow>
    instance_record list \<Rightarrow> instance_record list list" where
  "orders shuffle restarts base =
     [sort_key (\<lambda>r. (- ir_size_bytes r, ir_birth r, ir_key r)) base,
      sort_key (\<lambda>r. (- (ir_death r - ir_birth r) * ir_size_bytes r, ir_key r)) base,
      sort_key (\<lambda>r. (ir_birth r, - ir_size_bytes r, ir_key r)) base]
     @ map (\<lambda>k. shuffle k base) [0..<restarts]"

fun best_pack :: "(int \<times> (instance_key, int) dict) option \<Rightarrow> instance_record list list \<Rightarrow>
    (int \<times> (instance_key, int) dict) option" where
  "best_pack best [] = best"
| "best_pack best (order # os) =
     (let (extent, offsets) = pack order
      in if (case best of None \<Rightarrow> True | Some (e, _) \<Rightarrow> extent < e)
         then best_pack (Some (extent, offsets)) os else best_pack best os)"

definition compute_placement ::
  "(nat \<Rightarrow> instance_record list \<Rightarrow> instance_record list) \<Rightarrow> nat \<Rightarrow> placement_recorder \<Rightarrow> int \<Rightarrow>
   placement res" where
  "compute_placement shuffle restarts recorder physical_limit_bytes =
     (let base = instances recorder
      in case best_pack None (orders shuffle restarts base) of
           None \<Rightarrow> Inl (AssertionError ''no packing'')
         | Some (extent, offsets) \<Rightarrow>
             (if physical_limit_bytes < extent
              then Inl (PlacementError ''not packable'')
              else Inr \<lparr>pl_offsets = offsets,
                        pl_sizes = fold (\<lambda>r. dset (ir_key r) (ir_size_bytes r)) base [],
                        pl_extent_bytes = extent, pl_load_bytes = peak_load base,
                        pl_physical_limit_bytes = physical_limit_bytes\<rparr>))"

section \<open>Soundness of first fit\<close>

text \<open>The candidate is clear of every range of a list sorted by start, and aligned when they are.\<close>

lemma first_fit_ge: "candidate \<le> first_fit sz candidate cs"
  by (induction sz candidate cs rule: first_fit.induct) auto

lemma first_fit_clear:
  assumes "sorted (map fst cs)" and "(off, end) \<in> set cs" and "0 < sz"
  shows "first_fit sz candidate cs + sz \<le> off \<or> end \<le> first_fit sz candidate cs"
  using assms
proof (induction sz candidate cs rule: first_fit.induct)
  case (1 sz candidate)
  then show ?case by simp
next
  case (2 sz candidate o' e' cs)
  show ?case
  proof (cases "candidate + sz \<le> o'")
    case True
    then have "candidate + sz \<le> off" using 2(2,3) by auto
    with True show ?thesis by simp
  next
    case False
    show ?thesis
    proof (cases "(off, end) \<in> set cs")
      case True
      then show ?thesis using 2(1) [OF False _ True 2(4)] 2(2) False by simp
    next
      case here: False
      then have "end = e'" using 2(3) by auto
      then show ?thesis using False first_fit_ge [of "max candidate e'" sz cs] by auto
    qed
  qed
qed

lemma first_fit_dvd: "a dvd candidate \<Longrightarrow> \<forall>(off, end) \<in> set cs. a dvd end \<Longrightarrow> a dvd first_fit sz candidate cs"
proof (induction sz candidate cs rule: first_fit.induct)
  case (1 sz candidate)
  then show ?case by simp
next
  case (2 sz candidate o' e' cs)
  have "a dvd max candidate e'" using 2(2,3) by (auto simp: max_def)
  then show ?case using 2 by auto
qed

section \<open>Soundness of packing\<close>

abbreviation rounded :: "instance_record \<Rightarrow> int" where
  "rounded r \<equiv> align_up ALIGN (ir_size_bytes r)"

text \<open>Invariant of the packing loop, for a list of records already placed.\<close>

definition packed :: "instance_record list \<Rightarrow> pack_state \<Rightarrow> bool" where
  "packed recs st \<longleftrightarrow> (case st of (placed, offsets, extent) \<Rightarrow>
     map (\<lambda>(off, end, r). r) placed = recs \<and>
     (\<forall>(off, end, r) \<in> set placed. end = off + rounded r \<and> dget offsets (ir_key r) = Some off \<and>
        0 \<le> off \<and> ALIGN dvd off \<and> end \<le> extent) \<and>
     sorted_wrt (\<lambda>(o1, e1, r1) (o2, e2, r2). time_conflict r1 r2 \<longrightarrow> e1 \<le> o2 \<or> e2 \<le> o1) placed \<and> 0 \<le> extent)"

lemma pack_one_packed:
  assumes "packed recs st" and "0 < ir_size_bytes rec" and "ir_key rec \<notin> ir_key ` set recs"
  shows "packed (recs @ [rec]) (pack_one rec st)"
proof -
  obtain placed offsets extent where st: "st = (placed, offsets, extent)" by (cases st)
  let ?sz = "rounded rec"
  let ?cs = "sort (map (\<lambda>(off, end, other). (off, end)) (filter (\<lambda>(off, end, other). time_conflict other rec) placed))"
  let ?c = "first_fit ?sz 0 ?cs"
  have run: "pack_one rec st = (placed @ [(?c, ?c + ?sz, rec)], dset (ir_key rec) ?c offsets, max extent (?c + ?sz))"
    by (simp add: pack_one_def st Let_def)
  have inv: "map (\<lambda>(off, end, r). r) placed = recs" "0 \<le> extent"
    "\<And>off end r. (off, end, r) \<in> set placed \<Longrightarrow> end = off + rounded r \<and> dget offsets (ir_key r) = Some off \<and>
        0 \<le> off \<and> ALIGN dvd off \<and> end \<le> extent"
    "sorted_wrt (\<lambda>(o1, e1, r1) (o2, e2, r2). time_conflict r1 r2 \<longrightarrow> e1 \<le> o2 \<or> e2 \<le> o1) placed"
    using assms(1) unfolding packed_def st by auto
  have sz: "0 < ?sz" using align_up_pos [of ALIGN] assms(2) by simp
  have "sorted (map fst ?cs)" by (rule sorted_map_mono) (auto simp: mono_on_def less_eq_prod_def)
  then have clear: "?c + ?sz \<le> off \<or> end \<le> ?c"
    if "(off, end, r) \<in> set placed" "time_conflict r rec" for off "end" r
    using that by (intro first_fit_clear [OF _ _ sz]) force+
  have "\<forall>(off, end) \<in> set ?cs. ALIGN dvd end" using inv(3) align_up_dvd [of ALIGN] by fastforce
  then have al: "ALIGN dvd ?c" by (intro first_fit_dvd) auto
  have c0: "0 \<le> ?c" using first_fit_ge [of 0 ?sz ?cs] .
  have fresh: "ir_key r \<noteq> ir_key rec" if "(off, end, r) \<in> set placed" for off "end" r
  proof -
    have "r \<in> set recs" using that inv(1) by force
    then show ?thesis using assms(3) by (metis imageI)
  qed
  have entries: "end = off + rounded r \<and> dget (dset (ir_key rec) ?c offsets) (ir_key r) = Some off \<and>
      0 \<le> off \<and> ALIGN dvd off \<and> end \<le> max extent (?c + ?sz)"
    if "(off, end, r) \<in> set (placed @ [(?c, ?c + ?sz, rec)])" for off "end" r
  proof (cases "(off, end, r) \<in> set placed")
    case True
    then show ?thesis using inv(3) [OF True] fresh [OF True] by auto
  next
    case False
    then show ?thesis using that c0 al by auto
  qed
  have disjoint: "sorted_wrt (\<lambda>(o1, e1, r1) (o2, e2, r2). time_conflict r1 r2 \<longrightarrow> e1 \<le> o2 \<or> e2 \<le> o1)
      (placed @ [(?c, ?c + ?sz, rec)])"
  proof -
    have "(\<lambda>(o1, e1, r1) (o2, e2, r2). time_conflict r1 r2 \<longrightarrow> e1 \<le> o2 \<or> e2 \<le> o1) p (?c, ?c + ?sz, rec)"
      if p: "p \<in> set placed" for p
    proof -
      obtain o1 e1 r1 where p1: "p = (o1, e1, r1)" by (cases p)
      show ?thesis unfolding p1 prod.case using clear [of o1 e1 r1] p p1 by blast
    qed
    then show ?thesis using inv(4) unfolding sorted_wrt_append by (intro conjI ballI) (simp_all only: sorted_wrt1 set_simps singleton_iff)
  qed
  show ?thesis
    unfolding packed_def run prod.case
  proof (intro conjI)
    show "map (\<lambda>(off, end, r). r) (placed @ [(?c, ?c + ?sz, rec)]) = recs @ [rec]" using inv(1) by simp
    show "0 \<le> max extent (?c + ?sz)" using inv(2) by simp
  qed (use entries in blast, rule disjoint)
qed

lemma fold_pack_packed:
  assumes "packed recs st" and "distinct (map ir_key (recs @ rs))" and "\<forall>r \<in> set rs. 0 < ir_size_bytes r"
  shows "packed (recs @ rs) (fold pack_one rs st)"
  using assms
proof (induction rs arbitrary: recs st)
  case Nil
  then show ?case by simp
next
  case (Cons r rs)
  have "packed (recs @ [r]) (pack_one r st)" using Cons.prems by (intro pack_one_packed) auto
  from Cons.IH [OF this] Cons.prems show ?case by simp
qed

text \<open>An assignment of offsets is valid for a set of instances within an extent.\<close>

definition valid_offsets :: "instance_record set \<Rightarrow> (instance_key, int) dict \<Rightarrow> int \<Rightarrow> bool" where
  "valid_offsets rs offsets extent \<longleftrightarrow>
     (\<forall>r \<in> rs. \<exists>off. dget offsets (ir_key r) = Some off \<and> 0 \<le> off \<and> ALIGN dvd off \<and> off + rounded r \<le> extent) \<and>
     (\<forall>r1 \<in> rs. \<forall>r2 \<in> rs. r1 \<noteq> r2 \<and> time_conflict r1 r2 \<longrightarrow>
        (\<exists>o1 o2. dget offsets (ir_key r1) = Some o1 \<and> dget offsets (ir_key r2) = Some o2 \<and>
           {o1..<o1 + rounded r1} \<inter> {o2..<o2 + rounded r2} = {}))"

lemma time_conflict_sym: "time_conflict a b \<longleftrightarrow> time_conflict b a"
  by (auto simp: time_conflict_def)

lemma pack_valid:
  assumes "distinct (map ir_key recs)" and "\<forall>r \<in> set recs. 0 < ir_size_bytes r" and "pack recs = (extent, offsets)"
  shows "valid_offsets (set recs) offsets extent" and "0 \<le> extent"
proof -
  obtain placed where run: "fold pack_one recs ([], [], 0) = (placed, offsets, extent)"
    using assms(3) by (auto simp: pack_def split: prod.splits)
  have "packed ([] @ recs) (fold pack_one recs ([], [], 0))"
    using assms(1,2) by (intro fold_pack_packed) (auto simp: packed_def)
  then have inv: "map (\<lambda>(off, end, r). r) placed = recs" "0 \<le> extent"
    "\<And>off end r. (off, end, r) \<in> set placed \<Longrightarrow> end = off + rounded r \<and> dget offsets (ir_key r) = Some off \<and>
        0 \<le> off \<and> ALIGN dvd off \<and> end \<le> extent"
    "sorted_wrt (\<lambda>(o1, e1, r1) (o2, e2, r2). time_conflict r1 r2 \<longrightarrow> e1 \<le> o2 \<or> e2 \<le> o1) placed"
    unfolding packed_def run by auto
  show "0 \<le> extent" by (rule inv)
  have member: "\<exists>off end. (off, end, r) \<in> set placed" if "r \<in> set recs" for r
    using that inv(1) by force
  have "\<exists>o1 o2. dget offsets (ir_key r1) = Some o1 \<and> dget offsets (ir_key r2) = Some o2 \<and>
      {o1..<o1 + rounded r1} \<inter> {o2..<o2 + rounded r2} = {}"
    if r: "r1 \<in> set recs" "r2 \<in> set recs" "r1 \<noteq> r2" "time_conflict r1 r2" for r1 r2
  proof -
    obtain i j where i: "i < length placed" "(\<lambda>(off, end, r). r) (placed ! i) = r1"
      and j: "j < length placed" "(\<lambda>(off, end, r). r) (placed ! j) = r2"
      using r(1,2) inv(1) by (metis (no_types, lifting) in_set_conv_nth length_map nth_map)
    obtain o1 e1 where p1: "placed ! i = (o1, e1, r1)" using i(2) by (cases "placed ! i") auto
    obtain o2 e2 where p2: "placed ! j = (o2, e2, r2)" using j(2) by (cases "placed ! j") auto
    have "i \<noteq> j" using p1 p2 r(3) by auto
    then have "e1 \<le> o2 \<or> e2 \<le> o1"
      using inv(4) i(1) j(1) p1 p2 r(4) time_conflict_sym [of r1 r2]
      unfolding sorted_wrt_iff_nth_less by (metis (no_types, lifting) case_prod_conv linorder_neqE_nat)
    moreover have "e1 = o1 + rounded r1" "dget offsets (ir_key r1) = Some o1"
      using inv(3) [of o1 e1 r1] p1 i(1) by (metis nth_mem)+
    moreover have "e2 = o2 + rounded r2" "dget offsets (ir_key r2) = Some o2"
      using inv(3) [of o2 e2 r2] p2 j(1) by (metis nth_mem)+
    ultimately show ?thesis by auto
  qed
  then show "valid_offsets (set recs) offsets extent"
    unfolding valid_offsets_def using member inv(3) by fastforce
qed

section \<open>The load is a lower bound\<close>

text \<open>Bytes needed by the instances alive at a time.\<close>

definition load_at :: "instance_record list \<Rightarrow> int \<Rightarrow> int" where
  "load_at base t = (\<Sum>r \<leftarrow> base. if ir_birth r \<le> t \<and> t < ir_death r then ir_size_bytes r else 0)"

abbreviation upto_sum :: "int \<Rightarrow> (int \<times> int) list \<Rightarrow> int" where
  "upto_sum t es \<equiv> (\<Sum>e \<leftarrow> es. if fst e \<le> t then snd e else 0)"

lemma upto_sum_mset: "mset xs = mset ys \<Longrightarrow> upto_sum t xs = upto_sum t ys"
  unfolding sum_mset_sum_list [symmetric] mset_map by simp

lemma upto_sum_events:
  assumes "\<forall>r \<in> set base. ir_birth r < ir_death r"
  shows "upto_sum t (load_events base) = load_at base t"
  using assms by (induction base) (auto simp: load_events_def load_at_def)

text \<open>Every running total of the sweep is at most the load at some time, or zero: after a death drop
  it, after a birth complete the births of that time.\<close>

lemma prefix_sum_le:
  assumes "sorted (ps @ qs)" and "\<forall>e \<in> set (ps @ qs). snd e \<noteq> 0"
  shows "(\<Sum>e \<leftarrow> ps. snd e) \<le> 0 \<or> (\<exists>t. (\<Sum>e \<leftarrow> ps. snd e) \<le> upto_sum t (ps @ qs))"
  using assms
proof (induction ps arbitrary: qs rule: rev_induct)
  case Nil
  then show ?case by simp
next
  case (snoc e ps)
  show ?case
  proof (cases "snd e < 0")
    case True
    then show ?thesis using snoc.IH [of "e # qs"] snoc.prems by (auto, smt (verit))
  next
    case False
    then have pos: "0 < snd e" using snoc.prems(2) by force
    let ?t = "fst e"
    have "\<forall>f \<in> set (ps @ [e]). f \<le> e" using snoc.prems(1) by (simp add: sorted_append)
    then have before: "\<forall>f \<in> set (ps @ [e]). fst f \<le> ?t" by (auto simp: less_eq_prod_def)
    have "upto_sum ?t (ps @ [e]) = (\<Sum>f \<leftarrow> ps @ [e]. snd f)"
      using before by (intro arg_cong [where f = sum_list] map_cong) auto
    moreover have "0 \<le> upto_sum ?t qs"
    proof (rule sum_list_nonneg)
      fix x assume "x \<in> set (map (\<lambda>e. if fst e \<le> ?t then snd e else 0) qs)"
      then obtain f where f: "f \<in> set qs" "x = (if fst f \<le> ?t then snd f else 0)" by auto
      have "e \<le> f" using snoc.prems(1) f(1) by (simp add: sorted_append)
      then show "0 \<le> x" using f(2) pos by (auto simp: less_eq_prod_def)
    qed
    ultimately have "(\<Sum>f \<leftarrow> ps @ [e]. snd f) \<le> upto_sum ?t ((ps @ [e]) @ qs)" by simp
    then show ?thesis by blast
  qed
qed

lemma sweep_bound:
  assumes "load \<le> B" and "\<forall>ps qs. es = ps @ qs \<longrightarrow> cur + (\<Sum>e \<leftarrow> ps. snd e) \<le> B"
  shows "sweep load cur es \<le> B"
  using assms
proof (induction load cur es rule: sweep.induct)
  case (1 load cur)
  then show ?case by simp
next
  case (2 load cur t delta es)
  have first: "cur + delta \<le> B" using 2(3) [rule_format, of "[(t, delta)]" es] by simp
  have rest: "\<forall>ps qs. es = ps @ qs \<longrightarrow> (cur + delta) + (\<Sum>e \<leftarrow> ps. snd e) \<le> B"
  proof (intro allI impI)
    fix ps qs assume "es = ps @ qs"
    then show "(cur + delta) + (\<Sum>e \<leftarrow> ps. snd e) \<le> B"
      using 2(3) [rule_format, of "(t, delta) # ps" qs] by simp
  qed
  show ?case using 2(1) [OF _ rest] 2(2) first by simp
qed

lemma peak_load_le:
  assumes "\<forall>r \<in> set base. ir_birth r < ir_death r \<and> 0 < ir_size_bytes r"
    and "0 \<le> B" and "\<And>t. load_at base t \<le> B"
  shows "peak_load base \<le> B"
  unfolding peak_load_def
proof (rule sweep_bound [OF assms(2)], intro allI impI)
  fix ps qs assume es: "sort (load_events base) = ps @ qs"
  have sorted: "sorted (ps @ qs)" by (metis es sorted_sort)
  have set_es: "set (ps @ qs) = set (load_events base)" by (metis es set_sort)
  have nz: "\<forall>e \<in> set (ps @ qs). snd e \<noteq> 0"
    unfolding set_es using assms(1) by (auto simp: load_events_def)
  have "upto_sum t (ps @ qs) = load_at base t" for t
  proof -
    have "mset (ps @ qs) = mset (load_events base)" unfolding es [symmetric] by (rule mset_sort)
    from upto_sum_mset [OF this] show ?thesis using upto_sum_events [of base t] assms(1) by simp
  qed
  then have "(\<Sum>e \<leftarrow> ps. snd e) \<le> B"
    using prefix_sum_le [OF sorted nz] assms(2) assms(3) by (auto intro: order_trans)
  then show "0 + (\<Sum>e \<leftarrow> ps. snd e) \<le> B" by simp
qed

text \<open>Instances alive together occupy disjoint ranges, so their sizes fit in the extent.\<close>

lemma load_at_le_extent:
  assumes "valid_offsets (set base) offsets extent" and "distinct base"
    and "\<forall>r \<in> set base. 0 < ir_size_bytes r" and "0 \<le> extent"
  shows "load_at base t \<le> extent"
proof -
  let ?L = "filter (\<lambda>r. ir_birth r \<le> t \<and> t < ir_death r) base"
  let ?rng = "\<lambda>r. {the (dget offsets (ir_key r))..<the (dget offsets (ir_key r)) + rounded r}"
  have conflict: "time_conflict a b" if "a \<in> set ?L" "b \<in> set ?L" for a b
    using that by (auto simp: time_conflict_def)
  have disj: "?rng a \<inter> ?rng b = {}" if ab: "a \<in> set ?L" "b \<in> set ?L" "a \<noteq> b" for a b
  proof -
    have "a \<in> set base" "b \<in> set base" using ab by auto
    then obtain o1 o2 where "dget offsets (ir_key a) = Some o1" "dget offsets (ir_key b) = Some o2"
      "{o1..<o1 + rounded a} \<inter> {o2..<o2 + rounded b} = {}"
      using assms(1) ab(3) conflict [OF ab(1,2)] unfolding valid_offsets_def by blast
    then show ?thesis by simp
  qed
  have inside: "?rng a \<subseteq> {0..<extent}" if "a \<in> set ?L" for a
    using assms(1) that unfolding valid_offsets_def by fastforce
  have "(\<Sum>r \<in> set ?L. int (card (?rng r))) = int (card (\<Union>r \<in> set ?L. ?rng r))"
    by (subst card_UN_disjoint) (use disj in auto)
  also have "\<dots> \<le> int (card {0..<extent})"
    by (intro of_nat_mono card_mono finite_atLeastLessThan_int UN_least inside)
  also have "\<dots> = extent" using assms(4) by simp
  finally have total: "(\<Sum>r \<in> set ?L. int (card (?rng r))) \<le> extent" .
  have "load_at base t = (\<Sum>r \<leftarrow> ?L. ir_size_bytes r)"
    by (simp add: load_at_def sum_list_map_filter' )
  also have "\<dots> = (\<Sum>r \<in> set ?L. ir_size_bytes r)"
    using assms(2) by (intro sum_list_distinct_conv_sum_set) simp
  also have "\<dots> \<le> (\<Sum>r \<in> set ?L. int (card (?rng r)))"
  proof (rule sum_mono)
    fix r
    show "ir_size_bytes r \<le> int (card (?rng r))" using align_up_ge [of ALIGN "ir_size_bytes r"] by simp
  qed
  finally show ?thesis using total by simp
qed

section \<open>The planner\<close>

lemma best_pack_spec:
  "best_pack best os = Some (e, offs) \<Longrightarrow>
     (best = Some (e, offs) \<or> (\<exists>order \<in> set os. pack order = (e, offs))) \<and>
     (\<forall>order \<in> set os. e \<le> fst (pack order)) \<and> (\<forall>e' offs'. best = Some (e', offs') \<longrightarrow> e \<le> e')"
proof (induction best os rule: best_pack.induct)
  case (1 best)
  then show ?case by auto
next
  case (2 best order os)
  obtain ext offsets where p: "pack order = (ext, offsets)" by (cases "pack order")
  show ?case
  proof (cases "case best of None \<Rightarrow> True | Some (e, _) \<Rightarrow> ext < e")
    case True
    then have "best_pack (Some (ext, offsets)) os = Some (e, offs)" using 2(3) p by (simp add: Let_def)
    from 2(1) [OF p [symmetric] refl True this] p True show ?thesis
      by (auto split: option.splits)
  next
    case False
    then have "best_pack best os = Some (e, offs)" using 2(3) p by (auto simp: Let_def)
    from 2(2) [OF p [symmetric] refl False this] p False show ?thesis
      by (auto split: option.splits)
  qed
qed

lemma best_pack_exists: "os \<noteq> [] \<or> best \<noteq> None \<Longrightarrow> best_pack best os \<noteq> None"
proof (induction best os rule: best_pack.induct)
  case (1 best)
  then show ?case by simp
next
  case (2 best order os)
  obtain ext offsets where p: "pack order = (ext, offsets)" by (cases "pack order")
  show ?case
  proof (cases "case best of None \<Rightarrow> True | Some (e, _) \<Rightarrow> ext < e")
    case True
    from 2(1) [OF p [symmetric] refl True] show ?thesis using True p by (simp add: Let_def)
  next
    case False
    then have "best \<noteq> None" by (cases best) simp_all
    with 2(2) [OF p [symmetric] refl False] False p show ?thesis by (simp add: Let_def)
  qed
qed

lemma orders_mset:
  assumes "\<forall>k. mset (shuffle k base) = mset base" and "order \<in> set (orders shuffle restarts base)"
  shows "mset order = mset base"
  using assms by (auto simp: orders_def)

text \<open>C20. Static placement is sound: when planning succeeds, every instance recorded in the dry run
  has an aligned, non-negative offset inside the proven extent, the extent is within the physical
  limit, two instances whose lifetimes overlap never share a byte, the recorded sizes are the
  instances' own, and the reported load is a true lower bound of the extent.\<close>

theorem compute_placement_sound:
  assumes "compute_placement shuffle restarts recorder limit = Inr pl"
    and "\<forall>k. mset (shuffle k (instances recorder)) = mset (instances recorder)"
    and "distinct (map ir_key (instances recorder))"
    and "\<forall>r \<in> set (instances recorder). 0 < ir_size_bytes r \<and> ir_birth r < ir_death r"
  shows "valid_offsets (set (instances recorder)) (pl_offsets pl) (pl_extent_bytes pl) \<and>
    pl_extent_bytes pl \<le> limit \<and> pl_load_bytes pl \<le> pl_extent_bytes pl \<and>
    (\<forall>r \<in> set (instances recorder). dget (pl_sizes pl) (ir_key r) = Some (ir_size_bytes r))"
proof -
  let ?base = "instances recorder"
  obtain e offs where b: "best_pack None (orders shuffle restarts ?base) = Some (e, offs)"
    and lim: "e \<le> limit"
    and pl: "pl_offsets pl = offs" "pl_extent_bytes pl = e" "pl_load_bytes pl = peak_load ?base"
      "pl_sizes pl = fold (\<lambda>r. dset (ir_key r) (ir_size_bytes r)) ?base []"
    using assms(1) by (auto simp: compute_placement_def Let_def split: option.splits if_splits)
  from best_pack_spec [OF b] obtain order where o: "order \<in> set (orders shuffle restarts ?base)"
    and p: "pack order = (e, offs)" by auto
  have ms: "mset order = mset ?base" by (rule orders_mset [OF assms(2) o])
  then have set: "set order = set ?base" by (metis set_mset_mset)
  have "distinct (map ir_key order)" using ms assms(3) by (metis mset_eq_imp_distinct_iff mset_map)
  note v = pack_valid [OF this _ p, unfolded set]
  have valid: "valid_offsets (set ?base) offs e" and e0: "0 \<le> e" using v assms(4) by auto
  have dist: "distinct ?base" using assms(3) by (simp add: distinct_map)
  have "peak_load ?base \<le> e"
    using assms(4) load_at_le_extent [OF valid dist _ e0] by (intro peak_load_le [OF _ e0]) auto
  moreover have "dget (pl_sizes pl) (ir_key r) = Some (ir_size_bytes r)" if "r \<in> set ?base" for r
    unfolding pl using that assms(3)
    by (intro fold_dset_get_unique [where k = ir_key and v = ir_size_bytes]) (auto dest: eq_key_imp_eq_value inj_onD simp: distinct_map)
  ultimately show ?thesis using valid lim pl by simp
qed

text \<open>A small dry run: \<open>a\<close> and \<open>b\<close> overlap, then \<open>a\<close> dies and \<open>c\<close> may take its place.\<close>

definition demo_recorder :: placement_recorder where
  "demo_recorder =
     on_get (on_put (on_get (on_get new_recorder (''a'', 0) 100) (''b'', 0) 600) (''a'', 0)) (''c'', 0) 300"

theorem compute_placement_sound_witness:
  "\<exists>pl. compute_placement (\<lambda>k xs. xs) 1 demo_recorder 2048 = Inr pl \<and> pl_extent_bytes pl \<le> 2048 \<and>
     pl_load_bytes pl \<le> pl_extent_bytes pl"
proof -
  have "isl (compute_placement (\<lambda>k xs. xs) 1 demo_recorder 2048) = False" by code_simp
  then obtain pl where pl: "compute_placement (\<lambda>k xs. xs) 1 demo_recorder 2048 = Inr pl"
    by (cases "compute_placement (\<lambda>k xs. xs) 1 demo_recorder 2048") auto
  have insts: "instances demo_recorder =
    [\<lparr>ir_key = (''a'', 0), ir_size_bytes = 100, ir_birth = 1, ir_death = 3\<rparr>,
     \<lparr>ir_key = (''b'', 0), ir_size_bytes = 600, ir_birth = 2, ir_death = 2 ^ 62\<rparr>,
     \<lparr>ir_key = (''c'', 0), ir_size_bytes = 300, ir_birth = 4, ir_death = 2 ^ 62\<rparr>]"
    by (simp add: instances_def demo_recorder_def on_get_def on_put_def new_recorder_def)
  from compute_placement_sound [OF pl] show ?thesis using pl by (auto simp: insts)
qed

text \<open>Planning fails only for want of room: the planner always finds a packing to judge, and it
  raises \<open>PlacementError\<close> exactly when every ordering it tried needs more than the limit.\<close>

theorem compute_placement_fails_iff:
  "(compute_placement shuffle restarts recorder limit = Inl (PlacementError ''not packable'') \<longleftrightarrow>
      (\<forall>order \<in> set (orders shuffle restarts (instances recorder)). limit < fst (pack order))) \<and>
   (\<forall>e. compute_placement shuffle restarts recorder limit = Inl e \<longrightarrow> e = PlacementError ''not packable'')"
proof -
  let ?os = "orders shuffle restarts (instances recorder)"
  have "?os \<noteq> []" by (simp add: orders_def)
  then obtain e offs where b: "best_pack None ?os = Some (e, offs)"
    using best_pack_exists [of ?os None] by (cases "best_pack None ?os") auto
  have min: "\<forall>order \<in> set ?os. e \<le> fst (pack order)" and ex: "\<exists>order \<in> set ?os. pack order = (e, offs)"
    using best_pack_spec [OF b] by auto
  have "(\<forall>order \<in> set ?os. limit < fst (pack order)) \<longleftrightarrow> limit < e"
    using min ex by (metis fst_conv order_less_le_trans)
  then show ?thesis using b by (auto simp: compute_placement_def Let_def)
qed

theorem compute_placement_fails_iff_witness:
  "compute_placement (\<lambda>k xs. xs) 1 demo_recorder 512 = Inl (PlacementError ''not packable'')"
proof -
  have "\<forall>order \<in> set (orders (\<lambda>k xs. xs) 1 (instances demo_recorder)). 512 < fst (pack order)" by code_simp
  then show ?thesis using compute_placement_fails_iff [of "\<lambda>k xs. xs" 1 demo_recorder 512] by blast
qed

end
