(* ===== verification/Pool.thy ===== *)
theory Pool
  imports Objects Placement
begin

text \<open>
  The buffer pool, \<open>src/dataflow/runtime/pool.py\<close>: exact-size free lists over slabs with an overflow
  arena, recording mode for dry runs and assigned mode for static placement. Every operation takes
  and returns the backend and the pool. The VMM arena (\<open>device/vmm.py\<close>), external allocators of the
  service's store and the optional allocation log are not modelled: those branches of \<open>get\<close>, \<open>put\<close>,
  \<open>prewarm\<close> and \<open>drain\<close> are the ones a pool without them never takes.

  A guard of several events is a tuple in the source; passing it to \<open>event_complete\<close> raises
  \<open>AttributeError\<close>, which the model keeps.
\<close>

section \<open>Model\<close>

record pool =
  po_slabs :: "(string, slab) dict"
  po_overflow_slabs :: "(string, slab) dict"
  po_free_lists :: "(string \<times> int, buffer list) dict"
  po_allocated_count :: int
  po_reused_count :: int
  po_slab_overflows :: int
  po_arena_carves :: int
  po_placement_escapes :: int
  po_seq :: int
  po_recorder :: "placement_recorder option"
  po_placement :: "placement option"
  po_placement_base :: "buffer option"
  po_incarnations :: "(string, int) dict"
  po_live_ranges :: "(instance_key, int \<times> int) dict"
  po_allocated_by_key :: "(string \<times> int, int) dict"
  po_placed_pending_guards :: "(int \<times> int \<times> event) list"

definition new_pool :: pool where
  "new_pool =
     \<lparr>po_slabs = [], po_overflow_slabs = [], po_free_lists = [], po_allocated_count = 0,
      po_reused_count = 0, po_slab_overflows = 0, po_arena_carves = 0, po_placement_escapes = 0,
      po_seq = 0, po_recorder = None, po_placement = None, po_placement_base = None,
      po_incarnations = [], po_live_ranges = [], po_allocated_by_key = [],
      po_placed_pending_guards = []\<rparr>"

type_synonym 'tok pool_backend = "pool \<times> 'tok fake_backend"

definition add_slab :: "string \<Rightarrow> int \<Rightarrow> int \<Rightarrow> 'tok pool_backend \<Rightarrow> 'tok pool_backend res" where
  "add_slab location capacity_bytes overflow_bytes pb = (case pb of (p, b) \<Rightarrow>
     bindE (new_slab b location capacity_bytes (1 / 8) MainSlab) (\<lambda>(s, b).
       let p = p\<lparr>po_slabs := dset location s (po_slabs p)\<rparr>
       in if 0 < overflow_bytes
          then bindE (new_slab b location overflow_bytes 0 OverflowSlab) (\<lambda>(ov, b).
                 Inr (p\<lparr>po_overflow_slabs := dset location ov (po_overflow_slabs p)\<rparr>, b))
          else Inr (p, b)))"

definition reset_placement_epoch :: "pool \<Rightarrow> pool" where
  "reset_placement_epoch p = p\<lparr>po_incarnations := [], po_live_ranges := []\<rparr>"

definition enable_placement :: "placement \<Rightarrow> 'tok pool_backend \<Rightarrow> 'tok pool_backend res" where
  "enable_placement pl pb = (case pb of (p, b) \<Rightarrow>
     bindE (alloc b ''fast'' (pl_extent_bytes pl)) (\<lambda>(base, b).
       Inr (reset_placement_epoch (p\<lparr>po_placement := Some pl, po_placement_base := Some base\<rparr>), b)))"

definition next_key :: "pool \<Rightarrow> string \<Rightarrow> instance_key" where
  "next_key p tag = (tag, dget_or (po_incarnations p) tag 0)"

definition bump_incarnation :: "string \<Rightarrow> pool \<Rightarrow> pool" where
  "bump_incarnation tag p =
     p\<lparr>po_incarnations := dset tag (snd (next_key p tag) + 1) (po_incarnations p)\<rparr>"

definition can_get :: "pool \<Rightarrow> string \<Rightarrow> int \<Rightarrow> string option \<Rightarrow> bool" where
  "can_get p location size_bytes tag =
     (case (po_placement p, tag) of
        (Some pl, Some tg) \<Rightarrow>
          (if location \<noteq> ''fast'' then True
           else case dget (pl_offsets pl) (next_key p tg) of
                  None \<Rightarrow> True
                | Some offset \<Rightarrow>
                    list_all (\<lambda>(key, lo, hi). \<not> (lo < offset + size_bytes \<and> offset < hi)) (po_live_ranges p))
      | _ \<Rightarrow> True)"

text \<open>\<open>event_complete\<close> on the guard of a buffer, single or tuple.\<close>

definition guard_complete :: "'tok fake_backend \<Rightarrow> event list \<Rightarrow> bool res" where
  "guard_complete b g =
     (case g of
        [e] \<Rightarrow> Inr (event_complete b e)
      | _ \<Rightarrow> Inl (AttributeError ''time_us''))"

text \<open>\<open>raw[2].free(raw[1], size)\<close>: the range goes back to the allocator that carved it.\<close>

definition return_to_slab :: "string \<Rightarrow> slab_owner \<Rightarrow> int \<Rightarrow> int \<Rightarrow> pool \<Rightarrow> pool" where
  "return_to_slab location owner offset size_bytes p =
     (case owner of
        MainSlab \<Rightarrow>
          (case dget (po_slabs p) location of
             None \<Rightarrow> p
           | Some s \<Rightarrow> p\<lparr>po_slabs := dset location (slab_free s offset size_bytes) (po_slabs p)\<rparr>)
      | OverflowSlab \<Rightarrow>
          (case dget (po_overflow_slabs p) location of
             None \<Rightarrow> p
           | Some s \<Rightarrow> p\<lparr>po_overflow_slabs := dset location (slab_free s offset size_bytes) (po_overflow_slabs p)\<rparr>))"

text \<open>One free list of the flush in \<open>_carve\<close>: what is kept, and the pool with the rest returned.\<close>

definition flush_buffer ::
  "'tok fake_backend \<Rightarrow> buffer \<Rightarrow> buffer list \<times> pool \<Rightarrow> (buffer list \<times> pool) res" where
  "flush_buffer b buf st = (case st of (keep, p) \<Rightarrow>
     (case bf_raw buf of
        SlabRaw offset owner \<Rightarrow>
          (if bf_guard_event buf = []
           then Inr (keep, return_to_slab (bf_location buf) owner offset (bf_size_bytes buf) p)
           else bindE (guard_complete b (bf_guard_event buf)) (\<lambda>done.
                if done
                then Inr (keep, return_to_slab (bf_location buf) owner offset (bf_size_bytes buf) p)
                else Inr (keep @ [buf], p)))
      | _ \<Rightarrow> Inr (keep @ [buf], p)))"

definition flush_list ::
  "'tok fake_backend \<Rightarrow> string \<Rightarrow> string \<times> int \<Rightarrow> pool \<Rightarrow> pool res" where
  "flush_list b location key p =
     (if fst key \<noteq> location then Inr p
      else bindE (foldE (flush_buffer b) (dget_or (po_free_lists p) key []) ([], p)) (\<lambda>(keep, p).
             Inr (p\<lparr>po_free_lists := dset key keep (po_free_lists p)\<rparr>)))"

definition flush_pooled :: "'tok fake_backend \<Rightarrow> string \<Rightarrow> pool \<Rightarrow> pool res" where
  "flush_pooled b location p = foldE (flush_list b location) (dkeys (po_free_lists p)) p"

definition carve_main :: "string \<Rightarrow> int \<Rightarrow> pool \<Rightarrow> int option \<times> pool" where
  "carve_main location size_bytes p =
     (case dget (po_slabs p) location of
        None \<Rightarrow> (None, p)
      | Some s \<Rightarrow> (let (off, s') = slab_allocate s size_bytes
                   in (off, p\<lparr>po_slabs := dset location s' (po_slabs p)\<rparr>)))"

definition slab_buffer :: "slab option \<Rightarrow> int \<Rightarrow> int \<Rightarrow> int \<Rightarrow> buffer res" where
  "slab_buffer s offset size_bytes seq =
     (case s of None \<Rightarrow> Inl (KeyError ''slab'') | Some s \<Rightarrow> make_buffer s offset size_bytes seq)"

definition carve_overflow ::
  "string \<Rightarrow> int \<Rightarrow> 'tok pool_backend \<Rightarrow> (buffer \<times> 'tok pool_backend) res" where
  "carve_overflow location size_bytes pb = (case pb of (p, b) \<Rightarrow>
     let vendor = bindE (alloc b location size_bytes) (\<lambda>(buf, b).
           Inr (buf, p\<lparr>po_slab_overflows := po_slab_overflows p + 1\<rparr>, b))
     in case dget (po_overflow_slabs p) location of
          None \<Rightarrow> vendor
        | Some over \<Rightarrow>
            (case slab_allocate over size_bytes of
               (None, _) \<Rightarrow> vendor
             | (Some off, over') \<Rightarrow>
                 (let seq = po_seq p + 1
                  in bindE (make_buffer over' off size_bytes seq) (\<lambda>buf.
                       Inr (buf, p\<lparr>po_overflow_slabs := dset location over' (po_overflow_slabs p),
                                   po_arena_carves := po_arena_carves p + 1, po_seq := seq\<rparr>, b)))))"

definition carve ::
  "string \<Rightarrow> int \<Rightarrow> 'tok pool_backend \<Rightarrow> (buffer \<times> 'tok pool_backend) res" where
  "carve location size_bytes pb = (case pb of (p, b) \<Rightarrow>
     bindE (case carve_main location size_bytes p of
              (Some off, p) \<Rightarrow> Inr (Some off, p)
            | (None, p) \<Rightarrow>
                bindE (flush_pooled b location p) (\<lambda>p. Inr (carve_main location size_bytes p)))
       (\<lambda>(off, p).
          case off of
            None \<Rightarrow> carve_overflow location size_bytes (p, b)
          | Some off \<Rightarrow>
              (let seq = po_seq p + 1
               in bindE (slab_buffer (dget (po_slabs p) location) off size_bytes seq) (\<lambda>buf.
                    Inr (buf, p\<lparr>po_seq := seq\<rparr>, b)))))"

definition count_alloc :: "string \<times> int \<Rightarrow> pool \<Rightarrow> pool" where
  "count_alloc key p =
     p\<lparr>po_allocated_count := po_allocated_count p + 1,
       po_allocated_by_key := dset key (dget_or (po_allocated_by_key p) key 0 + 1) (po_allocated_by_key p)\<rparr>"

definition get_dynamic ::
  "string \<Rightarrow> int \<Rightarrow> 'tok pool_backend \<Rightarrow> (buffer \<times> 'tok pool_backend) res" where
  "get_dynamic location size_bytes pb = (case pb of (p, b) \<Rightarrow>
     let key = (location, size_bytes); stack = dget_or (po_free_lists p) key []
     in if stack \<noteq> []
        then Inr (last stack,
                  p\<lparr>po_reused_count := po_reused_count p + 1,
                    po_free_lists := dset key (butlast stack) (po_free_lists p)\<rparr>, b)
        else
          let p = count_alloc key p
          in case dget (po_slabs p) location of
               None \<Rightarrow> bindE (alloc b location size_bytes) (\<lambda>(buf, b). Inr (buf, p, b))
             | Some _ \<Rightarrow> carve location size_bytes (p, b))"

definition get_escaped ::
  "string \<Rightarrow> int \<Rightarrow> string \<Rightarrow> 'tok pool_backend \<Rightarrow> (buffer \<times> 'tok pool_backend) res" where
  "get_escaped location size_bytes tag pb = (case pb of (p, b) \<Rightarrow>
     (let p = bump_incarnation tag p;
          p = p\<lparr>po_placement_escapes := po_placement_escapes p + 1\<rparr>
      in get_dynamic location size_bytes (p, b)))"

text \<open>Guards of freed placed ranges that are still pending re-attach to the range's next owner.\<close>

definition inherit_guards :: "'tok fake_backend \<Rightarrow> buffer \<Rightarrow> pool \<Rightarrow> buffer \<times> pool" where
  "inherit_guards b buf p =
     (let start = bf_ptr buf; stop = bf_ptr buf + bf_size_bytes buf;
          live = filter (\<lambda>(s0, e0, ev). \<not> event_complete b ev) (po_placed_pending_guards p);
          mine = map (\<lambda>(s0, e0, ev). ev) (filter (\<lambda>(s0, e0, ev). s0 < stop \<and> start < e0) live)
      in (buf\<lparr>bf_guard_event := mine\<rparr>, p\<lparr>po_placed_pending_guards := live\<rparr>))"

definition get_placed ::
  "placement \<Rightarrow> string \<Rightarrow> int \<Rightarrow> int \<Rightarrow> 'tok pool_backend \<Rightarrow> (buffer \<times> 'tok pool_backend) res" where
  "get_placed pl tag offset size_bytes pb = (case pb of (p, b) \<Rightarrow>
     let key = next_key p tag
     in case dget (pl_sizes pl) key of
          None \<Rightarrow> Inl (KeyError tag)
        | Some placed_size \<Rightarrow>
            (if size_bytes \<noteq> placed_size then Inl (RuntimeError ''placed instance size changed'')
             else if \<not> can_get p ''fast'' size_bytes (Some tag)
             then Inl (AssertionError ''assigned-mode get while offset range is live'')
             else case po_placement_base p of
                    None \<Rightarrow> Inl (AttributeError ''ptr'')
                  | Some base \<Rightarrow>
                      (let p = bump_incarnation tag p;
                           p = p\<lparr>po_live_ranges := dset key (offset, offset + size_bytes) (po_live_ranges p),
                                 po_seq := po_seq p + 1\<rparr>;
                           buf = \<lparr>bf_ref = PlacedBuf (fst key) (snd key), bf_location = ''fast'',
                                  bf_size_bytes = size_bytes, bf_ptr = bf_ptr base + offset,
                                  bf_raw = PlacedRaw, bf_guard_event = [], bf_tag = Some key\<rparr>
                       in if po_placed_pending_guards p = [] then Inr (buf, p, b)
                          else (let (buf, p) = inherit_guards b buf p in Inr (buf, p, b)))))"

definition pool_get ::
  "string \<Rightarrow> int \<Rightarrow> string option \<Rightarrow> 'tok pool_backend \<Rightarrow> (buffer \<times> 'tok pool_backend) res" where
  "pool_get location size_bytes tag pb = (case pb of (p, b) \<Rightarrow>
     (case (po_recorder p, tag) of
        (Some r, Some tg) \<Rightarrow>
          (if location = ''fast''
           then let key = next_key p tg;
                    p = (bump_incarnation tg p)\<lparr>po_recorder := Some (on_get r key size_bytes)\<rparr>
                in bindE (get_dynamic location size_bytes (p, b)) (\<lambda>(buf, pb).
                     Inr (buf\<lparr>bf_tag := Some key\<rparr>, pb))
           else get_dynamic location size_bytes (p, b))
      | _ \<Rightarrow>
          (case (po_placement p, tag) of
             (Some pl, Some tg) \<Rightarrow>
               (if location = ''fast''
                then case dget (pl_offsets pl) (next_key p tg) of
                       Some offset \<Rightarrow> get_placed pl tg offset size_bytes (p, b)
                     | None \<Rightarrow> get_dynamic location size_bytes (p, b)
                else get_dynamic location size_bytes (p, b))
           | _ \<Rightarrow> get_dynamic location size_bytes (p, b))))"

definition pool_put :: "'tok fake_backend \<Rightarrow> buffer \<Rightarrow> pool \<Rightarrow> pool res" where
  "pool_put b buf p =
     (let p = (case (po_recorder p, bf_tag buf) of
                 (Some r, Some key) \<Rightarrow> p\<lparr>po_recorder := Some (on_put r key)\<rparr>
               | _ \<Rightarrow> p)
      in if bf_raw buf = PlacedRaw
         then
           let p = (case bf_tag buf of None \<Rightarrow> p
                    | Some key \<Rightarrow> p\<lparr>po_live_ranges := ddel key (po_live_ranges p)\<rparr>)
           in if bf_guard_event buf = [] then Inr p
              else bindE (guard_complete b (bf_guard_event buf)) (\<lambda>done.
                     if done then Inr p
                     else Inr (p\<lparr>po_placed_pending_guards := po_placed_pending_guards p @
                          [(bf_ptr buf, bf_ptr buf + bf_size_bytes buf, hd (bf_guard_event buf))]\<rparr>))
         else Inr (p\<lparr>po_free_lists := dappend (bf_location buf, bf_size_bytes buf) buf (po_free_lists p)\<rparr>))"

fun prewarm_fill :: "nat \<Rightarrow> string \<times> int \<Rightarrow> 'tok pool_backend \<Rightarrow> 'tok pool_backend res" where
  "prewarm_fill 0 key pb = Inr pb"
| "prewarm_fill (Suc n) key (p, b) =
     bindE (alloc b (fst key) (snd key)) (\<lambda>(buf, b).
       prewarm_fill n key
         ((count_alloc key p)\<lparr>po_free_lists := dappend key buf (po_free_lists p)\<rparr>, b))"

definition prewarm_one :: "(string \<times> int) \<times> int \<Rightarrow> 'tok pool_backend \<Rightarrow> 'tok pool_backend res" where
  "prewarm_one d pb = (case d of (key, demanded) \<Rightarrow> case pb of (p, b) \<Rightarrow>
     if dget (po_slabs p) (fst key) \<noteq> None then Inr (p, b)
     else if fst key = ''fast'' \<and> po_placement p \<noteq> None then Inr (p, b)
     else
       let stack = dget_or (po_free_lists p) key [];
           p = p\<lparr>po_free_lists := dset key stack (po_free_lists p)\<rparr>
       in prewarm_fill (nat (demanded - int (length stack))) key (p, b))"

definition prewarm :: "(string \<times> int, int) dict \<Rightarrow> 'tok pool_backend \<Rightarrow> 'tok pool_backend res" where
  "prewarm demand pb = foldE prewarm_one (sort demand) pb"

definition drain_buffer :: "buffer \<Rightarrow> 'tok pool_backend \<Rightarrow> 'tok pool_backend res" where
  "drain_buffer buf pb = (case pb of (p, b) \<Rightarrow>
     (case bf_raw buf of
        SlabRaw offset owner \<Rightarrow>
          Inr (return_to_slab (bf_location buf) owner offset (bf_size_bytes buf) p, b)
      | _ \<Rightarrow> bindE (free_buffer b buf) (\<lambda>b. Inr (p, b))))"

definition close_slabs :: "(string, slab) dict \<Rightarrow> 'tok fake_backend \<Rightarrow> 'tok fake_backend res" where
  "close_slabs slabs b = foldE (\<lambda>(l, s) b. bindE (slab_close b s) (\<lambda>(s, b). Inr b)) slabs b"

definition pool_drain :: "'tok pool_backend \<Rightarrow> 'tok pool_backend res" where
  "pool_drain pb = (case pb of (p, b) \<Rightarrow>
     bindE (foldE (\<lambda>(key, stack) pb. foldE drain_buffer (rev stack) pb) (po_free_lists p) (p, b)) (\<lambda>(p, b).
     bindE (close_slabs (po_slabs p) b) (\<lambda>b.
     bindE (close_slabs (po_overflow_slabs p) b) (\<lambda>b.
     let p = p\<lparr>po_free_lists := [], po_slabs := [], po_overflow_slabs := []\<rparr>
     in case po_placement_base p of
          None \<Rightarrow> Inr (p, b)
        | Some base \<Rightarrow> bindE (free_buffer b base) (\<lambda>b.
            Inr (p\<lparr>po_placement_base := None, po_placement := None\<rparr>, b))))))"

end
