(* ===== verification/Ledger.thy ===== *)
theory Ledger
  imports Prelude
begin

text \<open>
  The host-authoritative byte ledger, \<open>src/dataflow/runtime/ledger.py\<close>: one counter per location,
  admission (\<open>can_reserve\<close>), charging and releasing. The observer \<open>on_change\<close> is the engine's
  memory trace; it is called by the run-time state of \<open>Transfers\<close>, which owns the trace.

  The locale \<open>byte_account\<close> states the contract between a counter of bytes and its clients: an
  admitted charge succeeds and moves the counter by exactly its size, a covered release succeeds.
  Its lemmas about sequences of charges are what the task dispatcher relies on.
\<close>

section \<open>Model\<close>

record ledger =
  lg_fast_capacity :: "int option"
  lg_backing_capacity :: "int option"
  lg_used :: "(string, int) dict"
  lg_peak_fast_bytes :: int
  lg_peak_backing_bytes :: int

definition new_ledger :: "int option \<Rightarrow> int option \<Rightarrow> ledger" where
  "new_ledger fast backing =
     \<lparr>lg_fast_capacity = fast, lg_backing_capacity = backing,
      lg_used = [(''fast'', 0), (''backing'', 0)], lg_peak_fast_bytes = 0, lg_peak_backing_bytes = 0\<rparr>"

definition capacity :: "ledger \<Rightarrow> string \<Rightarrow> int option" where
  "capacity l location = (if location = ''fast'' then lg_fast_capacity l else lg_backing_capacity l)"

definition used_at :: "ledger \<Rightarrow> string \<Rightarrow> int res" where
  "used_at l location =
     (case dget (lg_used l) location of None \<Rightarrow> Inl (KeyError location) | Some u \<Rightarrow> Inr u)"

definition free_bytes :: "ledger \<Rightarrow> string \<Rightarrow> int option res" where
  "free_bytes l location =
     (case capacity l location of
        None \<Rightarrow> Inr None
      | Some cap \<Rightarrow> bindE (used_at l location) (\<lambda>u. Inr (Some (cap - u))))"

definition can_reserve :: "ledger \<Rightarrow> string \<Rightarrow> int \<Rightarrow> bool res" where
  "can_reserve l location size_bytes =
     (if size_bytes \<le> 0 then Inr True
      else case capacity l location of
             None \<Rightarrow> Inr True
           | Some cap \<Rightarrow> bindE (used_at l location) (\<lambda>u. Inr (u + size_bytes \<le> cap)))"

definition charge :: "ledger \<Rightarrow> string \<Rightarrow> int \<Rightarrow> ledger res" where
  "charge l location size_bytes =
     (if size_bytes \<le> 0 then Inr l
      else bindE (used_at l location) (\<lambda>u.
           if (case capacity l location of None \<Rightarrow> False | Some cap \<Rightarrow> cap < u + size_bytes)
           then Inl (LedgerError ''over-commit'')
           else
             let used = dset location (u + size_bytes) (lg_used l);
                 l1 = l\<lparr>lg_used := used\<rparr>;
                 l2 = (if location = ''fast''
                       then l1\<lparr>lg_peak_fast_bytes := max (lg_peak_fast_bytes l) (u + size_bytes)\<rparr> else l1);
                 l3 = (if location = ''backing''
                       then l2\<lparr>lg_peak_backing_bytes := max (lg_peak_backing_bytes l) (u + size_bytes)\<rparr> else l2)
             in Inr l3))"

definition release :: "ledger \<Rightarrow> string \<Rightarrow> int \<Rightarrow> ledger res" where
  "release l location size_bytes =
     (if size_bytes \<le> 0 then Inr l
      else bindE (used_at l location) (\<lambda>u.
           if u - size_bytes < 0 then Inl (LedgerError ''negative usage'')
           else Inr (l\<lparr>lg_used := dset location (u - size_bytes) (lg_used l)\<rparr>)))"

section \<open>Counters of bytes as an interface\<close>

locale byte_account =
  fixes inv :: "'s \<Rightarrow> bool"
    and used :: "'s \<Rightarrow> 'l \<Rightarrow> int"
    and limit :: "'s \<Rightarrow> 'l \<Rightarrow> int option"
    and locs :: "'l set"
    and add :: "'s \<Rightarrow> 'l \<Rightarrow> int \<Rightarrow> 's res"
    and remove :: "'s \<Rightarrow> 'l \<Rightarrow> int \<Rightarrow> 's res"
  assumes add_ok: "\<lbrakk>inv s; l \<in> locs; 0 < n; \<forall>c. limit s l = Some c \<longrightarrow> used s l + n \<le> c\<rbrakk> \<Longrightarrow> \<exists>s'. add s l n = Inr s'"
    and add_inv: "\<lbrakk>inv s; l \<in> locs; 0 < n; add s l n = Inr s'\<rbrakk> \<Longrightarrow> inv s'"
    and add_used: "\<lbrakk>inv s; l \<in> locs; 0 < n; add s l n = Inr s'; k \<in> locs\<rbrakk>
      \<Longrightarrow> used s' k = (if k = l then used s l + n else used s k)"
    and add_limit: "\<lbrakk>inv s; l \<in> locs; 0 < n; add s l n = Inr s'\<rbrakk> \<Longrightarrow> limit s' = limit s"
    and remove_ok: "\<lbrakk>inv s; l \<in> locs; 0 < n; n \<le> used s l\<rbrakk> \<Longrightarrow> \<exists>s'. remove s l n = Inr s'"
    and remove_inv: "\<lbrakk>inv s; l \<in> locs; 0 < n; n \<le> used s l; remove s l n = Inr s'\<rbrakk> \<Longrightarrow> inv s'"
    and remove_used: "\<lbrakk>inv s; l \<in> locs; 0 < n; n \<le> used s l; remove s l n = Inr s'; k \<in> locs\<rbrakk>
      \<Longrightarrow> used s' k = (if k = l then used s l - n else used s k)"
    and remove_limit: "\<lbrakk>inv s; l \<in> locs; 0 < n; n \<le> used s l; remove s l n = Inr s'\<rbrakk> \<Longrightarrow> limit s' = limit s"
    and inv_limit: "\<lbrakk>inv s; l \<in> locs; limit s l = Some c\<rbrakk> \<Longrightarrow> used s l \<le> c"
    and inv_nonneg: "\<lbrakk>inv s; l \<in> locs\<rbrakk> \<Longrightarrow> 0 \<le> used s l"
begin

definition demand :: "('l \<times> int) list \<Rightarrow> 'l \<Rightarrow> int" where
  "demand reqs l = (\<Sum>(k, n) \<leftarrow> reqs. if k = l then n else 0)"

lemma demand_simps [simp]:
  "demand [] l = 0"
  "demand ((k, n) # reqs) l = (if k = l then n else 0) + demand reqs l"
  by (simp_all add: demand_def)

lemma demand_nonneg: "\<forall>(k, n) \<in> set reqs. 0 < n \<Longrightarrow> 0 \<le> demand reqs l"
  by (induction reqs) auto

text \<open>Admitting the total admits every charge of the sequence, and the sequence moves each counter
  by exactly the total.\<close>

lemma adds_ok:
  assumes "inv s" and "\<forall>(k, n) \<in> set reqs. k \<in> locs \<and> 0 < n"
    and "\<forall>l \<in> locs. \<forall>c. limit s l = Some c \<longrightarrow> used s l + demand reqs l \<le> c"
  shows "\<exists>s'. foldE (\<lambda>(l, n) s. add s l n) reqs s = Inr s' \<and> inv s' \<and> limit s' = limit s \<and>
    (\<forall>l \<in> locs. used s' l = used s l + demand reqs l)"
  using assms
proof (induction reqs arbitrary: s)
  case Nil
  then show ?case by simp
next
  case (Cons r reqs)
  obtain k n where r: "r = (k, n)" by (cases r)
  have k: "k \<in> locs" "0 < n" using Cons.prems(2) r by auto
  have nn: "0 \<le> demand reqs l" for l by (rule demand_nonneg) (use Cons.prems(2) in auto)
  have "\<forall>c. limit s k = Some c \<longrightarrow> used s k + n \<le> c"
    using Cons.prems(3) k r nn [of k] by fastforce
  then obtain s1 where s1: "add s k n = Inr s1" using add_ok Cons.prems(1) k by blast
  note u = add_used [OF Cons.prems(1) k s1] and lim = add_limit [OF Cons.prems(1) k s1]
  have "\<exists>s'. foldE (\<lambda>(l, n) s. add s l n) reqs s1 = Inr s' \<and> inv s' \<and> limit s' = limit s1 \<and>
    (\<forall>l \<in> locs. used s' l = used s1 l + demand reqs l)"
  proof (rule Cons.IH)
    show "inv s1" by (rule add_inv [OF Cons.prems(1) k s1])
    show "\<forall>(k, n) \<in> set reqs. k \<in> locs \<and> 0 < n" using Cons.prems(2) by simp
    show "\<forall>l \<in> locs. \<forall>c. limit s1 l = Some c \<longrightarrow> used s1 l + demand reqs l \<le> c"
      using Cons.prems(3) r by (auto simp: u lim)
  qed
  with s1 r u lim show ?case by (auto simp: add.assoc)
qed

text \<open>A release undoes a charge.\<close>

lemma add_remove:
  assumes "inv s" "l \<in> locs" "0 < n" "add s l n = Inr s'"
  shows "\<exists>s''. remove s' l n = Inr s'' \<and> (\<forall>k \<in> locs. used s'' k = used s k)"
proof -
  have inv': "inv s'" and u: "used s' l = used s l + n" and nn: "0 \<le> used s l"
    using assms add_inv add_used inv_nonneg by auto
  then have le: "n \<le> used s' l" by simp
  obtain s'' where s'': "remove s' l n = Inr s''" using remove_ok inv' assms(2,3) le by blast
  then show ?thesis
    using remove_used [OF inv' assms(2,3) le s''] add_used [OF assms] by auto
qed

end

section \<open>The ledger implements it\<close>

definition used_of :: "ledger \<Rightarrow> string \<Rightarrow> int" where
  "used_of l location = dget_or (lg_used l) location 0"

text \<open>Both counters exist, are non-negative, within capacity, and the peaks dominate them.\<close>

definition ledger_inv :: "ledger \<Rightarrow> bool" where
  "ledger_inv l \<longleftrightarrow>
     (\<exists>f b. lg_used l = [(''fast'', f), (''backing'', b)] \<and> 0 \<le> f \<and> 0 \<le> b \<and>
        (\<forall>c. lg_fast_capacity l = Some c \<longrightarrow> f \<le> c \<and> lg_peak_fast_bytes l \<le> c) \<and>
        (\<forall>c. lg_backing_capacity l = Some c \<longrightarrow> b \<le> c \<and> lg_peak_backing_bytes l \<le> c) \<and>
        f \<le> lg_peak_fast_bytes l \<and> b \<le> lg_peak_backing_bytes l)"

abbreviation ledger_locs :: "string set" where
  "ledger_locs \<equiv> {''fast'', ''backing''}"

lemma new_ledger_inv:
  assumes "\<forall>c. fast = Some c \<longrightarrow> 0 \<le> c" and "\<forall>c. backing = Some c \<longrightarrow> 0 \<le> c"
  shows "ledger_inv (new_ledger fast backing)"
  using assms by (simp add: ledger_inv_def new_ledger_def)

lemma used_at_known: "ledger_inv l \<Longrightarrow> k \<in> ledger_locs \<Longrightarrow> used_at l k = Inr (used_of l k)"
  by (auto simp: ledger_inv_def used_at_def used_of_def)

lemma can_reserve_iff:
  assumes "ledger_inv l" and "k \<in> ledger_locs"
  shows "can_reserve l k n = Inr (n \<le> 0 \<or> (\<forall>c. capacity l k = Some c \<longrightarrow> used_of l k + n \<le> c))"
  using used_at_known [OF assms] by (auto simp: can_reserve_def split: option.splits)

lemma charge_nonpos: "n \<le> 0 \<Longrightarrow> charge l k n = Inr l"
  by (simp add: charge_def)

lemma release_nonpos: "n \<le> 0 \<Longrightarrow> release l k n = Inr l"
  by (simp add: release_def)

lemma charge_caps:
  assumes "charge l k n = Inr l'"
  shows "lg_fast_capacity l' = lg_fast_capacity l" and "lg_backing_capacity l' = lg_backing_capacity l"
  using assms by (auto simp: charge_def bindE_eq_Inr Let_def split: if_splits)

lemma release_caps:
  assumes "release l k n = Inr l'"
  shows "lg_fast_capacity l' = lg_fast_capacity l" and "lg_backing_capacity l' = lg_backing_capacity l"
  using assms by (auto simp: release_def bindE_eq_Inr Let_def split: if_splits)

lemma charge_fast:
  assumes "lg_used l = [(''fast'', f), (''backing'', b)]" and "0 < n"
  shows "charge l ''fast'' n =
    (if (case lg_fast_capacity l of None \<Rightarrow> False | Some cap \<Rightarrow> cap < f + n)
     then Inl (LedgerError ''over-commit'')
     else Inr (l\<lparr>lg_used := [(''fast'', f + n), (''backing'', b)],
                lg_peak_fast_bytes := max (lg_peak_fast_bytes l) (f + n)\<rparr>))"
  using assms by (cases "lg_fast_capacity l") (simp_all add: charge_def used_at_def capacity_def)

lemma charge_backing:
  assumes "lg_used l = [(''fast'', f), (''backing'', b)]" and "0 < n"
  shows "charge l ''backing'' n =
    (if (case lg_backing_capacity l of None \<Rightarrow> False | Some cap \<Rightarrow> cap < b + n)
     then Inl (LedgerError ''over-commit'')
     else Inr (l\<lparr>lg_used := [(''fast'', f), (''backing'', b + n)],
                lg_peak_backing_bytes := max (lg_peak_backing_bytes l) (b + n)\<rparr>))"
  using assms by (cases "lg_backing_capacity l") (simp_all add: charge_def used_at_def capacity_def)

interpretation ledger: byte_account ledger_inv used_of capacity ledger_locs charge release
proof unfold_locales
  fix s s' :: ledger and l k :: string and n c :: int
  assume inv: "ledger_inv s"
  {
    assume l: "l \<in> ledger_locs"
    note u = used_at_known [OF inv l]
    show "\<exists>s'. charge s l n = Inr s'"
      if "0 < n" "\<forall>c. capacity s l = Some c \<longrightarrow> used_of s l + n \<le> c"
      using that by (auto simp: charge_def u Let_def split: option.splits)
    show "ledger_inv s'" if "0 < n" "charge s l n = Inr s'"
      using that inv l
      by (auto simp: ledger_inv_def charge_fast charge_backing split: if_splits option.splits)
    show "used_of s' k = (if k = l then used_of s l + n else used_of s k)"
      if "0 < n" "charge s l n = Inr s'" "k \<in> ledger_locs"
      using that inv l
      by (auto simp: ledger_inv_def charge_fast charge_backing used_of_def split: if_splits option.splits)
    show "capacity s' = capacity s" if "0 < n" "charge s l n = Inr s'"
      using that by (auto simp: capacity_def fun_eq_iff charge_caps release_caps)
    show "\<exists>s'. release s l n = Inr s'" if "0 < n" "n \<le> used_of s l"
      using that by (auto simp: release_def u)
    show "ledger_inv s'" if "0 < n" "n \<le> used_of s l" "release s l n = Inr s'"
      using that inv l
      by (auto simp: ledger_inv_def release_def used_at_def split: if_splits option.splits)
    show "used_of s' k = (if k = l then used_of s l - n else used_of s k)"
      if "0 < n" "n \<le> used_of s l" "release s l n = Inr s'" "k \<in> ledger_locs"
      using that inv l
      by (auto simp: ledger_inv_def release_def used_at_def used_of_def split: if_splits option.splits)
    show "capacity s' = capacity s" if "0 < n" "n \<le> used_of s l" "release s l n = Inr s'"
      using that by (auto simp: capacity_def fun_eq_iff charge_caps release_caps)
    show "used_of s l \<le> c" if "capacity s l = Some c"
      using that inv l by (auto simp: ledger_inv_def capacity_def used_of_def split: if_splits)
    show "0 \<le> used_of s l" using inv l by (auto simp: ledger_inv_def used_of_def)
  }
qed

text \<open>A release that is not covered by the counter is refused.\<close>

lemma release_uncovered:
  assumes "ledger_inv l" and "k \<in> ledger_locs" and "0 < n" and "used_of l k < n"
  shows "release l k n = Inl (LedgerError ''negative usage'')"
  using assms used_at_known [OF assms(1,2)] by (simp add: release_def)

lemma release_inv:
  assumes "ledger_inv l" and "k \<in> ledger_locs" and "release l k n = Inr l'"
  shows "ledger_inv l'"
proof (cases "0 < n")
  case True
  have "n \<le> used_of l k"
    using assms True release_uncovered [OF assms(1,2) True] by (cases "n \<le> used_of l k") auto
  then show ?thesis using ledger.remove_inv [OF assms(1,2) True _ assms(3)] by blast
next
  case False
  then show ?thesis using assms by (simp add: release_nonpos)
qed

lemma charge_inv:
  assumes "ledger_inv l" and "k \<in> ledger_locs" and "charge l k n = Inr l'"
  shows "ledger_inv l'"
  using assms ledger.add_inv [OF assms(1,2) _ assms(3)]
  by (cases "0 < n") (auto simp: charge_nonpos)

lemma charge_used:
  assumes "ledger_inv l" and "k \<in> ledger_locs" and "charge l k n = Inr l'" and "j \<in> ledger_locs"
  shows "used_of l' j = used_of l j + (if j = k then max n 0 else 0)"
  using assms ledger.add_used [OF assms(1,2) _ assms(3,4)]
  by (cases "0 < n") (auto simp: charge_nonpos)

lemma release_used:
  assumes "ledger_inv l" and "k \<in> ledger_locs" and "release l k n = Inr l'" and "j \<in> ledger_locs"
  shows "used_of l' j = used_of l j - (if j = k then max n 0 else 0)"
proof (cases "0 < n")
  case True
  have "n \<le> used_of l k"
    using assms True release_uncovered [OF assms(1,2) True] by (cases "n \<le> used_of l k") auto
  then show ?thesis using ledger.remove_used [OF assms(1,2) True _ assms(3,4)] True by simp
next
  case False
  then show ?thesis using assms by (simp add: release_nonpos)
qed

text \<open>Admission by total: when the ledger admits the fast and the backing totals of a task's
  outputs, the sequence of charges for the individual outputs succeeds, keeps the ledger within
  both capacities, and moves each counter by exactly the total for its location.\<close>

theorem charge_outputs_ok:
  assumes "ledger_inv l"
    and "\<forall>(k, n) \<in> set reqs. k \<in> {''fast'', ''backing''} \<and> 0 < n"
    and "\<forall>k \<in> {''fast'', ''backing''}. can_reserve l k (\<Sum>(j, n) \<leftarrow> reqs. if j = k then n else 0) = Inr True"
  shows "\<exists>l'. foldE (\<lambda>(k, n) l. charge l k n) reqs l = Inr l' \<and> ledger_inv l' \<and>
    (\<forall>k \<in> {''fast'', ''backing''}. used_of l' k = used_of l k + (\<Sum>(j, n) \<leftarrow> reqs. if j = k then n else 0))"
proof -
  have "used_of l k + ledger.demand reqs k \<le> c" if k: "k \<in> ledger_locs" and c: "capacity l k = Some c" for k c
  proof -
    have nn: "0 \<le> ledger.demand reqs k" by (rule ledger.demand_nonneg) (use assms(2) in auto)
    have "can_reserve l k (ledger.demand reqs k) = Inr True"
      using assms(3) k unfolding ledger.demand_def by blast
    then have "ledger.demand reqs k \<le> 0 \<or> used_of l k + ledger.demand reqs k \<le> c"
      using can_reserve_iff [OF assms(1) k] c by simp
    moreover have "used_of l k \<le> c" by (rule ledger.inv_limit [OF assms(1) k c])
    ultimately show ?thesis using nn by auto
  qed
  then have "\<forall>k \<in> ledger_locs. \<forall>c. capacity l k = Some c \<longrightarrow> used_of l k + ledger.demand reqs k \<le> c"
    by blast
  from ledger.adds_ok [OF assms(1,2) this] show ?thesis
    unfolding ledger.demand_def by auto
qed

theorem charge_outputs_ok_witness:
  "\<exists>l'. foldE (\<lambda>(k, n) l. charge l k n) [(''fast'', 40), (''backing'', 7), (''fast'', 60)]
      (new_ledger (Some 100) (Some 10)) = Inr l' \<and> ledger_inv l' \<and>
    (\<forall>k \<in> {''fast'', ''backing''}. used_of l' k = used_of (new_ledger (Some 100) (Some 10)) k
      + (\<Sum>(j, n) \<leftarrow> [(''fast'', 40), (''backing'', 7), (''fast'', 60)]. if j = k then n else 0))"
  by (rule charge_outputs_ok)
    (auto simp: new_ledger_inv [unfolded new_ledger_def] can_reserve_def capacity_def new_ledger_def used_at_def)

end
