(* ===== verification/Transfers.thy ===== *)
theory Transfers
  imports Pool Ledger
begin

text \<open>
  The per-direction transfer engines, \<open>src/dataflow/runtime/transfers.py\<close>, over the run state they
  share with the dispatcher. In the source the engines, the ledger, the pool, the table and the
  trace are objects referenced from several places; here they are the fields of one record
  \<open>run_state\<close> (the fields of \<open>_RunState\<close> in \<open>engine.py\<close> included), and a method takes and returns
  it. \<open>on_change\<close> of the ledger, the engine's memory trace, is part of \<open>rs_charge\<close> and
  \<open>rs_release\<close>. NVTX annotations are not modelled.
\<close>

section \<open>Jobs, engines, run state\<close>

datatype direction = FromSlow | ToSlow

fun direction_name :: "direction \<Rightarrow> string" where
  "direction_name FromSlow = ''from_slow''"
| "direction_name ToSlow = ''to_slow''"

record transfer_job =
  tj_object_id :: string
  tj_size_bytes :: int
  tj_runtime_override :: "time option"
  tj_anchor_event :: event
  tj_fired_by_task :: string
  tj_start_event :: "event option"
  tj_done_event :: "event option"
  tj_interval_name :: string
  tj_version :: int

datatype token =
    TaskDone task_spec event event
  | TransferDone direction transfer_job

record transfer_engine =
  tx_direction :: direction
  tx_stream :: stream
  tx_bandwidth :: "int option"
  tx_queue :: "transfer_job list"
  tx_inflight :: "transfer_job option"
  tx_name_seq :: "(string, int) dict"

record chain_index =
  ci_last_ref :: "(string, int) dict"
  ci_task_index :: "(string, int) dict"
  ci_uses_by_obj :: "(string, int list) dict"
  ci_directives_by_obj :: "(string, int list) dict"

record run_state =
  rs_backend :: "token fake_backend"
  rs_ledger :: ledger
  rs_pool :: pool
  rs_table :: object_table
  rs_trace :: run_trace
  rs_pending_intervals :: "(string \<times> event \<times> event \<times> string) list"
  rs_compute :: stream
  rs_poison :: bool
  rs_h2d :: transfer_engine
  rs_d2h :: transfer_engine
  rs_deferred :: "(string, transfer_job list) dict"
  rs_chain :: chain_index
  rs_final_locations :: "(string, string) dict"
  rs_provided :: "buffer_ref list"
  rs_outstanding_task :: "string option"
  rs_cursor :: int
  rs_current_task_id :: "string option"
  rs_pressure_evictions :: int
  rs_prefetch_override :: "(string, time option) dict"

definition new_engine :: "direction \<Rightarrow> stream \<Rightarrow> int option \<Rightarrow> transfer_engine" where
  "new_engine d s bw =
     \<lparr>tx_direction = d, tx_stream = s, tx_bandwidth = bw, tx_queue = [], tx_inflight = None,
      tx_name_seq = []\<rparr>"

definition new_job :: "string \<Rightarrow> int \<Rightarrow> time option \<Rightarrow> event \<Rightarrow> string \<Rightarrow> transfer_job" where
  "new_job oid sz override anchor by_task =
     \<lparr>tj_object_id = oid, tj_size_bytes = sz, tj_runtime_override = override,
      tj_anchor_event = anchor, tj_fired_by_task = by_task, tj_start_event = None,
      tj_done_event = None, tj_interval_name = [], tj_version = 0\<rparr>"

definition engine_of :: "direction \<Rightarrow> run_state \<Rightarrow> transfer_engine" where
  "engine_of d st = (case d of FromSlow \<Rightarrow> rs_h2d st | ToSlow \<Rightarrow> rs_d2h st)"

definition set_engine :: "direction \<Rightarrow> transfer_engine \<Rightarrow> run_state \<Rightarrow> run_state" where
  "set_engine d e st = (case d of FromSlow \<Rightarrow> st\<lparr>rs_h2d := e\<rparr> | ToSlow \<Rightarrow> st\<lparr>rs_d2h := e\<rparr>)"

definition host_now_us :: "run_state \<Rightarrow> time" where
  "host_now_us st = fb_host_us (rs_backend st)"

definition log_event :: "string \<Rightarrow> string option \<Rightarrow> string option \<Rightarrow> string \<Rightarrow> run_state \<Rightarrow> run_state" where
  "log_event kind oid task detail st =
     st\<lparr>rs_trace := add_event (host_now_us st) kind oid task detail (rs_trace st)\<rparr>"

definition on_ledger_change :: "string \<Rightarrow> run_state \<Rightarrow> run_state" where
  "on_ledger_change location st =
     (if location = ''fast''
      then st\<lparr>rs_trace := (rs_trace st)\<lparr>rt_memory_trace := rt_memory_trace (rs_trace st) @
             [(host_now_us st, dget_or (lg_used (rs_ledger st)) ''fast'' 0)]\<rparr>\<rparr>
      else st)"

definition rs_charge :: "string \<Rightarrow> int \<Rightarrow> run_state \<Rightarrow> run_state res" where
  "rs_charge location n st =
     bindE (charge (rs_ledger st) location n) (\<lambda>l.
       let st = st\<lparr>rs_ledger := l\<rparr> in Inr (if n \<le> 0 then st else on_ledger_change location st))"

definition rs_release :: "string \<Rightarrow> int \<Rightarrow> run_state \<Rightarrow> run_state res" where
  "rs_release location n st =
     bindE (release (rs_ledger st) location n) (\<lambda>l.
       let st = st\<lparr>rs_ledger := l\<rparr> in Inr (if n \<le> 0 then st else on_ledger_change location st))"

text \<open>The debug poison of \<open>engine.py\<close>: a memset on the compute stream whose event guards the bytes.\<close>

definition poison :: "buffer \<Rightarrow> run_state \<Rightarrow> buffer \<times> run_state" where
  "poison buf st =
     (if \<not> rs_poison st \<or> bf_location buf \<noteq> ''fast'' then (buf, st)
      else let (e, b) = record_event (rs_backend st) (rs_compute st)
           in (buf\<lparr>bf_guard_event := [e]\<rparr>, st\<lparr>rs_backend := b\<rparr>))"

definition rs_put :: "buffer \<Rightarrow> run_state \<Rightarrow> run_state res" where
  "rs_put buf st = bindE (pool_put (rs_backend st) buf (rs_pool st)) (\<lambda>p. Inr (st\<lparr>rs_pool := p\<rparr>))"

definition poison_put :: "buffer \<Rightarrow> run_state \<Rightarrow> run_state res" where
  "poison_put buf st = (let (buf, st) = poison buf st in rs_put buf st)"

definition rs_get :: "string \<Rightarrow> int \<Rightarrow> string option \<Rightarrow> run_state \<Rightarrow> (buffer \<times> run_state) res" where
  "rs_get location n tag st =
     bindE (pool_get location n tag (rs_pool st, rs_backend st)) (\<lambda>(buf, p, b).
       Inr (buf, st\<lparr>rs_pool := p, rs_backend := b\<rparr>))"

definition rs_get_escaped :: "string \<Rightarrow> int \<Rightarrow> string \<Rightarrow> run_state \<Rightarrow> (buffer \<times> run_state) res" where
  "rs_get_escaped location n tag st =
     bindE (get_escaped location n tag (rs_pool st, rs_backend st)) (\<lambda>(buf, p, b).
       Inr (buf, st\<lparr>rs_pool := p, rs_backend := b\<rparr>))"

definition put_record :: "string \<Rightarrow> object_record \<Rightarrow> run_state \<Rightarrow> run_state" where
  "put_record oid rec st = st\<lparr>rs_table := dset oid rec (rs_table st)\<rparr>"

text \<open>The four statements every retirement of a fast copy consists of: release its bytes, poison,
  return the buffer to the pool, clear the slot.\<close>

definition drop_fast :: "string \<Rightarrow> object_record \<Rightarrow> slot \<Rightarrow> int \<Rightarrow> run_state \<Rightarrow> run_state res" where
  "drop_fast oid rec s n st =
     bindE (rs_release ''fast'' n st) (\<lambda>st.
     bindE (poison_put (sl_buffer s) st) (\<lambda>st.
     Inr (put_record oid (rec\<lparr>ob_fast := None\<rparr>) st)))"

section \<open>Operations\<close>

definition transfer_runtime_us :: "transfer_engine \<Rightarrow> int \<Rightarrow> time option \<Rightarrow> time res" where
  "transfer_runtime_us e size_bytes override =
     (case override of
        Some r \<Rightarrow> Inr (max r 0)
      | None \<Rightarrow>
          (case tx_bandwidth e of
             None \<Rightarrow> Inl (TransferError ''transfer needs bandwidth'')
           | Some bw \<Rightarrow>
               (if bw \<le> 0 then Inl (TransferError ''transfer needs bandwidth'')
                else Inr (of_int (max ((size_bytes + bw - 1) div bw) 1)))))"

definition enqueue :: "direction \<Rightarrow> transfer_job \<Rightarrow> run_state \<Rightarrow> run_state" where
  "enqueue d job st =
     (let e = engine_of d st
      in log_event ''transfer_enqueue'' (Some (tj_object_id job)) (Some (tj_fired_by_task job))
           (direction_name d) (set_engine d (e\<lparr>tx_queue := tx_queue e @ [job]\<rparr>) st))"

definition interval_name :: "transfer_engine \<Rightarrow> string \<Rightarrow> string \<times> transfer_engine" where
  "interval_name e oid =
     (let seq = dget_or (tx_name_seq e) oid 0;
          base = direction_name (tx_direction e) @ '':'' @ oid
      in (if seq = 0 then base else base @ ''#'' @ show_nat (nat seq),
          e\<lparr>tx_name_seq := dset oid (seq + 1) (tx_name_seq e)\<rparr>))"

text \<open>The common tail of \<open>try_start\<close>: order the copy behind its anchor, its source and the guards of
  its destination, enqueue it, and register its completion token.\<close>

definition run_copy :: "direction \<Rightarrow> transfer_job \<Rightarrow> event list \<Rightarrow> event option \<Rightarrow> run_state \<Rightarrow> run_state res" where
  "run_copy d job guards src_ready st =
     (let e = engine_of d st;
          s = stream_wait_event (tx_stream e) (tj_anchor_event job);
          s = (case src_ready of None \<Rightarrow> s | Some ev \<Rightarrow> stream_wait_event s ev);
          s = fold (\<lambda>ev s. stream_wait_event s ev) guards s;
          s = align_stream_to_host (rs_backend st) s;
          (start_event, b) = record_event (rs_backend st) s
      in bindE (transfer_runtime_us e (tj_size_bytes job) (tj_runtime_override job)) (\<lambda>duration.
         bindE (memcpy_async b s (Some duration)) (\<lambda>(_, s).
         let (done_event, b) = record_event b s;
             (name, e) = interval_name e (tj_object_id job);
             job = job\<lparr>tj_start_event := Some start_event, tj_done_event := Some done_event,
                       tj_interval_name := name\<rparr>;
             priority = (case d of FromSlow \<Rightarrow> PRIORITY_H2D_DONE | ToSlow \<Rightarrow> PRIORITY_D2H_DONE);
             b = notify_after b done_event (TransferDone d job) priority
         in Inr (set_engine d (e\<lparr>tx_stream := s, tx_inflight := Some job\<rparr>) (st\<lparr>rs_backend := b\<rparr>)))))"

definition pop_queue :: "direction \<Rightarrow> run_state \<Rightarrow> run_state" where
  "pop_queue d st = (let e = engine_of d st in set_engine d (e\<lparr>tx_queue := tl (tx_queue e)\<rparr>) st)"

definition start_from_slow :: "bool \<Rightarrow> transfer_job \<Rightarrow> object_record \<Rightarrow> run_state \<Rightarrow> run_state res" where
  "start_from_slow escape job rec st =
     (let oid = tj_object_id job; n = tj_size_bytes job
      in case ob_backing rec of
           None \<Rightarrow> Inl (TransferError ''prefetch has no backing source at start'')
         | Some src \<Rightarrow>
             bindE (can_reserve (rs_ledger st) ''fast'' n) (\<lambda>ok.
               let blocked = \<not> can_get (rs_pool st) ''fast'' n (Some oid)
               in if \<not> ok \<or> (blocked \<and> \<not> escape) then Inr st
                  else
                    bindE (rs_charge ''fast'' n (pop_queue FromSlow st)) (\<lambda>st.
                    bindE ((if blocked then rs_get_escaped ''fast'' n oid else rs_get ''fast'' n (Some oid))
                             (log_event ''transfer_reserve'' (Some oid) None (direction_name FromSlow) st))
                      (\<lambda>(dst, st).
                    let slot = \<lparr>sl_buffer = dst\<lparr>bf_guard_event := []\<rparr>, sl_state = Inbound,
                                sl_version = sl_version src, sl_ready_event = None\<rparr>;
                        st = put_record oid (rec\<lparr>ob_fast := Some slot\<rparr>) st
                    in run_copy FromSlow (job\<lparr>tj_version := sl_version src\<rparr>) (bf_guard_event dst)
                         (sl_ready_event src) st))))"

definition start_to_slow :: "transfer_job \<Rightarrow> object_record \<Rightarrow> run_state \<Rightarrow> run_state res" where
  "start_to_slow job rec st =
     (let oid = tj_object_id job; n = tj_size_bytes job
      in case ob_fast rec of
           None \<Rightarrow> Inl (TransferError ''offload has no fast source at start'')
         | Some src \<Rightarrow>
             bindE (can_reserve (rs_ledger st) ''backing'' (if ob_backing rec = None then n else 0)) (\<lambda>ok.
               if \<not> ok then Inr st
               else
                 let st = pop_queue ToSlow st; job = job\<lparr>tj_version := sl_version src\<rparr>
                 in bindE (case ob_backing rec of
                        None \<Rightarrow>
                          bindE (rs_charge ''backing'' n st) (\<lambda>st.
                          bindE (rs_get ''backing'' n None st) (\<lambda>(dst, st).
                            Inr (\<lparr>sl_buffer = dst, sl_state = Inbound, sl_version = sl_version src,
                                  sl_ready_event = None\<rparr>, st)))
                      | Some existing \<Rightarrow>
                          Inr (existing\<lparr>sl_state := Inbound, sl_version := sl_version src\<rparr>, st))
                      (\<lambda>(dst_slot, st).
                    let guards = bf_guard_event (sl_buffer dst_slot);
                        dst_slot = dst_slot\<lparr>sl_buffer := (sl_buffer dst_slot)\<lparr>bf_guard_event := []\<rparr>\<rparr>;
                        rec = rec\<lparr>ob_backing := Some dst_slot, ob_fast := Some (src\<lparr>sl_state := Outbound\<rparr>)\<rparr>;
                        st = put_record oid rec st
                    in run_copy ToSlow job guards (sl_ready_event src) st)))"

definition try_start :: "direction \<Rightarrow> bool \<Rightarrow> run_state \<Rightarrow> run_state res" where
  "try_start d escape st =
     (let e = engine_of d st
      in case (tx_inflight e, tx_queue e) of
           (None, job # _) \<Rightarrow>
             bindE (table_get (rs_table st) (tj_object_id job)) (\<lambda>rec.
               case d of
                 FromSlow \<Rightarrow> start_from_slow escape job rec st
               | ToSlow \<Rightarrow> start_to_slow job rec st)
         | _ \<Rightarrow> Inr st)"

definition escape_blocked_head :: "run_state \<Rightarrow> (bool \<times> run_state) res" where
  "escape_blocked_head st =
     (case (tx_inflight (rs_h2d st), tx_queue (rs_h2d st)) of
        (None, job # _) \<Rightarrow>
          bindE (can_reserve (rs_ledger st) ''fast'' (tj_size_bytes job)) (\<lambda>ok.
            if \<not> ok \<or> can_get (rs_pool st) ''fast'' (tj_size_bytes job) (Some (tj_object_id job))
            then Inr (False, st)
            else bindE (try_start FromSlow True st) (\<lambda>st. Inr (tx_inflight (rs_h2d st) \<noteq> None, st)))
      | _ \<Rightarrow> Inr (False, st))"

text \<open>\<open>complete\<close>: the slots of the two sides, then the engine and the trace.\<close>

definition settle_slots :: "direction \<Rightarrow> transfer_job \<Rightarrow> object_record \<Rightarrow> run_state \<Rightarrow> run_state res" where
  "settle_slots d job rec st =
     (let oid = tj_object_id job
      in case (d, ob_fast rec) of
           (_, None) \<Rightarrow> Inl (AssertionError ''fast slot'')
         | (FromSlow, Some slot) \<Rightarrow>
             Inr (put_record oid (rec\<lparr>ob_fast := Some (slot\<lparr>sl_state := Live,
                    sl_ready_event := tj_done_event job\<rparr>)\<rparr>) st)
         | (ToSlow, Some fast) \<Rightarrow>
             (if sl_state fast \<noteq> Outbound then Inl (AssertionError ''fast slot'')
              else bindE (drop_fast oid rec fast (tj_size_bytes job) st) (\<lambda>st.
                   case ob_backing rec of
                     None \<Rightarrow> Inl (AssertionError ''backing slot'')
                   | Some backing \<Rightarrow>
                       Inr (put_record oid (rec\<lparr>ob_fast := None, ob_backing := Some (backing\<lparr>sl_state := Live,
                              sl_ready_event := tj_done_event job\<rparr>)\<rparr>) st))))"

definition close_transfer :: "direction \<Rightarrow> transfer_job \<Rightarrow> run_state \<Rightarrow> run_state res" where
  "close_transfer d job st =
     (case (tj_start_event job, tj_done_event job) of
        (Some start_event, Some done_event) \<Rightarrow>
          (let st = set_engine d ((engine_of d st)\<lparr>tx_inflight := None\<rparr>) st;
               st = st\<lparr>rs_pending_intervals := rs_pending_intervals st @
                    [(tj_interval_name job, start_event, done_event, direction_name d)]\<rparr>
           in Inr (log_event ''transfer_end'' (Some (tj_object_id job)) None (direction_name d) st))
      | _ \<Rightarrow> Inl (AssertionError ''transfer events''))"

definition complete :: "direction \<Rightarrow> transfer_job \<Rightarrow> run_state \<Rightarrow> run_state res" where
  "complete d job st =
     bindE (guardE (tx_inflight (engine_of d st) = Some job)
              (AssertionError ''completion for a job that is not in flight'')) (\<lambda>_.
     bindE (table_get (rs_table st) (tj_object_id job)) (\<lambda>rec.
     bindE (settle_slots d job rec st) (close_transfer d job)))"

end
