(* ===== verification/Program_Validate.thy ===== *)
theory Program_Validate
  imports Program_IR
begin

text \<open>
  Structural validation of programs, \<open>src/dataflow/core/validate.py\<close>. Every message the source
  appends to its error list is a value of \<open>verr\<close>; the loops thread the same local dictionaries
  (\<open>initial_seen\<close>, \<open>initial_by_id\<close>, \<open>created_at\<close>, \<open>task_ids\<close>). The outcome separates
  acceptance, the collected \<open>ValidationError\<close> and an exception that escapes the collection.
  \<open>wf_program\<close> states declaratively what an accepted program promises and
  \<open>validate_program_iff\<close> shows that the checker decides exactly that.
\<close>

section \<open>The checker\<close>

datatype site = AtInitial string | AtOutput string nat string

datatype verr =
    EmptyName
  | DuplicateInitial string string
  | InconsistentInitial string
  | SizeNotPositive site int
  | UnknownLocation site string
  | UnknownRole site string
  | UnknownDtype site string
  | SizeMismatch site int int
  | BadCommGroup string nat string string
  | DuplicateTaskId string
  | NegativeRuntime string nat
  | NegativeWorkspace string nat
  | UnknownInput string nat string
  | FutureInput string nat string
  | DuplicateInputs string nat
  | MutatesNonInput string nat string
  | OutputCollision string nat string
  | RepeatedRelease string nat string
  | RepeatedOffload string nat string
  | RepeatedPrefetch string nat string
  | UnknownRelease string nat string
  | UnknownOffload string nat string
  | UnknownPrefetch string nat string
  | NegativeOffload string nat string
  | NegativePrefetch string nat string
  | ReleasedAndOffloaded string nat
  | ReleasedAndPrefetched string nat
  | FinalUnknownObject string
  | FinalUnknownLocation string string
  | NonPositiveField string
  | NeedsBandwidthFromSlow
  | NeedsBandwidthToSlow
  | RewriteNoOptions string
  | RewriteFirstLevel string
  | RewriteLevels string
  | RewriteNoTask string

datatype validation = Valid | Invalid "verr list" | Escaped err

definition err_if :: "bool \<Rightarrow> verr \<Rightarrow> verr list" where
  "err_if b e = (if b then [e] else [])"

definition check_object ::
  "site \<Rightarrow> int \<Rightarrow> string \<Rightarrow> string \<Rightarrow> tensor_meta option \<Rightarrow> verr list res" where
  "check_object w size_bytes location role tensor =
     (let es = err_if (size_bytes < 1) (SizeNotPositive w size_bytes)
             @ err_if (location \<notin> set LOCATIONS) (UnknownLocation w location)
             @ err_if (role \<notin> set ROLES) (UnknownRole w role)
      in case tensor of
           None \<Rightarrow> Inr es
         | Some t \<Rightarrow>
             (let es = es @ (case tm_dtype t of
                  None \<Rightarrow> [] | Some d \<Rightarrow> err_if (dget DTYPE_BITS d = None) (UnknownDtype w d))
              in bindE (tensor_nbytes t) (\<lambda>expected.
                   Inr (es @ (case expected of
                      None \<Rightarrow> []
                    | Some n \<Rightarrow> err_if (n \<noteq> size_bytes) (SizeMismatch w size_bytes n))))))"

fun release_errs :: "string \<Rightarrow> nat \<Rightarrow> (string \<Rightarrow> bool) \<Rightarrow> string list \<Rightarrow> string list \<Rightarrow> verr list" where
  "release_errs tid i known seen [] = []"
| "release_errs tid i known seen (x # xs) =
     err_if (x \<in> set seen) (RepeatedRelease tid i x)
     @ err_if (\<not> known x) (UnknownRelease tid i x)
     @ release_errs tid i known (x # seen) xs"

fun trigger_errs ::
  "(string \<Rightarrow> verr) \<Rightarrow> (string \<Rightarrow> verr) \<Rightarrow> (string \<Rightarrow> verr) \<Rightarrow> (string \<Rightarrow> bool) \<Rightarrow> string list \<Rightarrow>
   transfer_directive list \<Rightarrow> verr list" where
  "trigger_errs twice unknown neg known seen [] = []"
| "trigger_errs twice unknown neg known seen (d # ds) =
     err_if (td_object_id d \<in> set seen) (twice (td_object_id d))
     @ err_if (\<not> known (td_object_id d)) (unknown (td_object_id d))
     @ err_if (case td_runtime_us d of None \<Rightarrow> False | Some r \<Rightarrow> r < 0) (neg (td_object_id d))
     @ trigger_errs twice unknown neg known (td_object_id d # seen) ds"

definition check_directives :: "nat \<Rightarrow> task_spec \<Rightarrow> (string, int) dict \<Rightarrow> verr list" where
  "check_directives i t created =
     (let tid = ts_id t;
          known = (\<lambda>x. case dget created x of None \<Rightarrow> False | Some c \<Rightarrow> c \<le> int i);
          released = ts_releases_after t;
          offloaded = map td_object_id (ts_offload_after t);
          prefetched = map td_object_id (ts_prefetch_after t)
      in release_errs tid i known [] released
       @ trigger_errs (RepeatedOffload tid i) (UnknownOffload tid i) (NegativeOffload tid i)
           known [] (ts_offload_after t)
       @ trigger_errs (RepeatedPrefetch tid i) (UnknownPrefetch tid i) (NegativePrefetch tid i)
           known [] (ts_prefetch_after t)
       @ err_if (set released \<inter> set offloaded \<noteq> {}) (ReleasedAndOffloaded tid i)
       @ err_if (set released \<inter> set prefetched \<noteq> {}) (ReleasedAndPrefetched tid i))"

type_synonym initial_scan =
  "verr list \<times> (string \<times> string) list \<times> (string, int \<times> string) dict \<times> (string, int) dict"

definition check_initial :: "object_spec \<Rightarrow> initial_scan \<Rightarrow> initial_scan res" where
  "check_initial ob st = (case st of (errs, seen, by_id, created) \<Rightarrow>
     let key = (os_id ob, os_location ob);
         errs = errs @ err_if (key \<in> set seen) (DuplicateInitial (os_id ob) (os_location ob))
              @ (case dget by_id (os_id ob) of
                   None \<Rightarrow> []
                 | Some prior \<Rightarrow>
                     err_if (prior \<noteq> (os_size_bytes ob, os_role ob)) (InconsistentInitial (os_id ob)))
     in bindE (check_object (AtInitial (os_id ob)) (os_size_bytes ob) (os_location ob)
                 (os_role ob) (os_tensor ob)) (\<lambda>es.
          Inr (errs @ es, key # seen, dset (os_id ob) (os_size_bytes ob, os_role ob) by_id,
               dset (os_id ob) (-1) created)))"

type_synonym task_state = "verr list \<times> (string, int) dict \<times> string list"

definition check_output ::
  "string \<Rightarrow> nat \<Rightarrow> output_spec \<Rightarrow> verr list \<times> (string, int) dict \<Rightarrow> (verr list \<times> (string, int) dict) res" where
  "check_output tid i out st = (case st of (errs, created) \<Rightarrow>
     let st' = (if dget created (ou_id out) \<noteq> None
                then (errs @ [OutputCollision tid i (ou_id out)], created)
                else (errs, dset (ou_id out) (int i) created))
     in bindE (check_object (AtOutput tid i (ou_id out)) (ou_size_bytes out) (ou_location out)
                 (ou_role out) (ou_tensor out)) (\<lambda>es. Inr (fst st' @ es, snd st')))"

definition check_inputs :: "nat \<Rightarrow> task_spec \<Rightarrow> (string, int) dict \<Rightarrow> verr list" where
  "check_inputs i t created =
     concat (map (\<lambda>inp. case dget created inp of
                 None \<Rightarrow> [UnknownInput (ts_id t) i inp]
               | Some c \<Rightarrow> err_if (int i \<le> c) (FutureInput (ts_id t) i inp)) (ts_inputs t))
     @ err_if (\<not> distinct (ts_inputs t)) (DuplicateInputs (ts_id t) i)
     @ concat (map (\<lambda>m. err_if (m \<notin> set (ts_inputs t)) (MutatesNonInput (ts_id t) i m))
                 (ts_mutates t))"

definition check_task :: "nat \<times> task_spec \<Rightarrow> task_state \<Rightarrow> task_state res" where
  "check_task it st = (case it of (i, t) \<Rightarrow> case st of (errs, created, task_ids) \<Rightarrow>
     let tid = ts_id t;
         errs = errs
           @ concat (map (\<lambda>(purpose, name).
                 err_if (purpose = [] \<or> name = []) (BadCommGroup tid i purpose name))
               (ts_comm_groups t))
           @ err_if (tid \<in> set task_ids) (DuplicateTaskId tid)
           @ err_if (ts_runtime_us t < 0) (NegativeRuntime tid i)
           @ err_if (ts_workspace_bytes t < 0) (NegativeWorkspace tid i)
           @ check_inputs i t created
     in bindE (foldE (check_output tid i) (ts_outputs t) (errs, created)) (\<lambda>(errs, created).
          Inr (errs @ check_directives i t created, created, tid # task_ids)))"

definition check_final_locations :: "(string, int) dict \<Rightarrow> (string, string) dict \<Rightarrow> verr list" where
  "check_final_locations created finals =
     concat (map (\<lambda>(oid, loc).
         err_if (dget created oid = None) (FinalUnknownObject oid)
         @ err_if (loc \<notin> set LOCATIONS) (FinalUnknownLocation oid loc)) finals)"

definition check_positive :: "string \<Rightarrow> int option \<Rightarrow> verr list" where
  "check_positive name v = (case v of None \<Rightarrow> [] | Some x \<Rightarrow> err_if (x \<le> 0) (NonPositiveField name))"

definition check_rewrite :: "string list \<Rightarrow> recompute_rewrite \<Rightarrow> verr list" where
  "check_rewrite task_ids rw =
     (case rw_options rw of
        [] \<Rightarrow> [RewriteNoOptions (rw_object_id rw)]
      | o0 # _ \<Rightarrow>
          err_if (ro_level o0 \<noteq> 0) (RewriteFirstLevel (rw_object_id rw))
          @ (let levels = map ro_level (rw_options rw)
             in err_if (\<not> sorted levels \<or> \<not> distinct levels) (RewriteLevels (rw_object_id rw)))
          @ err_if (rw_f_task_id rw \<notin> set task_ids \<and> rw_r_task_id rw \<notin> set task_ids)
              (RewriteNoTask (rw_object_id rw)))"

definition needs_override :: "transfer_directive list \<Rightarrow> bool" where
  "needs_override ds \<longleftrightarrow> (\<exists>d \<in> set ds. td_runtime_us d = None)"

definition check_closing :: "program \<Rightarrow> (string, int) dict \<Rightarrow> string list \<Rightarrow> verr list" where
  "check_closing p created task_ids =
       check_final_locations created (pr_final_locations p)
       @ check_positive ''fast_memory_capacity'' (pr_fast_memory_capacity p)
       @ check_positive ''backing_memory_capacity'' (pr_backing_memory_capacity p)
       @ check_positive ''bandwidth_from_slow'' (pr_bandwidth_from_slow p)
       @ check_positive ''bandwidth_to_slow'' (pr_bandwidth_to_slow p)
       @ err_if ((\<exists>t \<in> set (pr_tasks p). needs_override (ts_prefetch_after t))
                 \<and> pr_bandwidth_from_slow p = None) NeedsBandwidthFromSlow
       @ err_if ((\<exists>t \<in> set (pr_tasks p). needs_override (ts_offload_after t))
                 \<and> pr_bandwidth_to_slow p = None) NeedsBandwidthToSlow
       @ concat (map (check_rewrite task_ids) (pr_recompute_rewrites p))"

definition validation_errors :: "program \<Rightarrow> verr list res" where
  "validation_errors p =
     bindE (foldE check_initial (pr_initial_objects p)
              (err_if (pr_name p = []) EmptyName, [], [], []))
       (\<lambda>(errs, _, _, created).
     bindE (foldE check_task (enumerate 0 (pr_tasks p)) (errs, created, []))
       (\<lambda>(errs, created, task_ids).
     Inr (errs @ check_closing p created task_ids)))"

definition validate_program :: "program \<Rightarrow> validation" where
  "validate_program p =
     (case validation_errors p of
        Inl e \<Rightarrow> Escaped e
      | Inr errs \<Rightarrow> (if errs = [] then Valid else Invalid errs))"

section \<open>What an accepted program promises\<close>

definition object_ok :: "int \<Rightarrow> string \<Rightarrow> string \<Rightarrow> tensor_meta option \<Rightarrow> bool" where
  "object_ok size_bytes location role tensor \<longleftrightarrow>
     1 \<le> size_bytes \<and> location \<in> set LOCATIONS \<and> role \<in> set ROLES \<and>
     (\<forall>t. tensor = Some t \<longrightarrow>
        (\<forall>d. tm_dtype t = Some d \<longrightarrow> d \<in> fst ` set DTYPE_BITS) \<and>
        (\<forall>n. tensor_nbytes t = Inr (Some n) \<longrightarrow> n = size_bytes))"

definition directives_ok :: "string set \<Rightarrow> task_spec \<Rightarrow> bool" where
  "directives_ok known t \<longleftrightarrow>
     (let off = map td_object_id (ts_offload_after t); pre = map td_object_id (ts_prefetch_after t)
      in distinct (ts_releases_after t) \<and> distinct off \<and> distinct pre \<and>
         set (ts_releases_after t) \<union> set off \<union> set pre \<subseteq> known \<and>
         set (ts_releases_after t) \<inter> (set off \<union> set pre) = {} \<and>
         (\<forall>d \<in> set (ts_offload_after t) \<union> set (ts_prefetch_after t).
            \<forall>r. td_runtime_us d = Some r \<longrightarrow> 0 \<le> r))"

definition task_ok :: "string set \<Rightarrow> task_spec \<Rightarrow> bool" where
  "task_ok known t \<longleftrightarrow>
     (\<forall>(purpose, name) \<in> set (ts_comm_groups t). purpose \<noteq> [] \<and> name \<noteq> []) \<and>
     0 \<le> ts_runtime_us t \<and> 0 \<le> ts_workspace_bytes t \<and>
     distinct (ts_inputs t) \<and> set (ts_inputs t) \<subseteq> known \<and> set (ts_mutates t) \<subseteq> set (ts_inputs t) \<and>
     distinct (map ou_id (ts_outputs t)) \<and> ou_id ` set (ts_outputs t) \<inter> known = {} \<and>
     (\<forall>out \<in> set (ts_outputs t).
        object_ok (ou_size_bytes out) (ou_location out) (ou_role out) (ou_tensor out)) \<and>
     directives_ok (known \<union> ou_id ` set (ts_outputs t)) t"

text \<open>Ids that exist when task \<open>i\<close> is dispatched: initial objects and outputs of earlier tasks.\<close>

definition known_before :: "program \<Rightarrow> nat \<Rightarrow> string set" where
  "known_before p i = os_id ` set (pr_initial_objects p)
     \<union> ou_id ` set (concat (map ts_outputs (take i (pr_tasks p))))"

definition initial_ok :: "object_spec list \<Rightarrow> bool" where
  "initial_ok obs \<longleftrightarrow>
     distinct (map (\<lambda>ob. (os_id ob, os_location ob)) obs) \<and>
     (\<forall>a \<in> set obs. \<forall>b \<in> set obs. os_id a = os_id b \<longrightarrow>
        os_size_bytes a = os_size_bytes b \<and> os_role a = os_role b) \<and>
     (\<forall>ob \<in> set obs. object_ok (os_size_bytes ob) (os_location ob) (os_role ob) (os_tensor ob))"

definition rewrite_ok :: "string set \<Rightarrow> recompute_rewrite \<Rightarrow> bool" where
  "rewrite_ok task_ids rw \<longleftrightarrow>
     rw_options rw \<noteq> [] \<and> ro_level (hd (rw_options rw)) = 0 \<and>
     sorted (map ro_level (rw_options rw)) \<and> distinct (map ro_level (rw_options rw)) \<and>
     (rw_f_task_id rw \<in> task_ids \<or> rw_r_task_id rw \<in> task_ids)"

definition wf_program :: "program \<Rightarrow> bool" where
  "wf_program p \<longleftrightarrow>
     pr_name p \<noteq> [] \<and> initial_ok (pr_initial_objects p) \<and>
     distinct (map ts_id (pr_tasks p)) \<and>
     (\<forall>i < length (pr_tasks p). task_ok (known_before p i) (pr_tasks p ! i)) \<and>
     (\<forall>(oid, loc) \<in> set (pr_final_locations p).
        oid \<in> known_before p (length (pr_tasks p)) \<and> loc \<in> set LOCATIONS) \<and>
     (\<forall>x \<in> {pr_fast_memory_capacity p, pr_backing_memory_capacity p,
             pr_bandwidth_from_slow p, pr_bandwidth_to_slow p}. \<forall>c. x = Some c \<longrightarrow> 0 < c) \<and>
     ((\<exists>t \<in> set (pr_tasks p). needs_override (ts_prefetch_after t)) \<longrightarrow>
        pr_bandwidth_from_slow p \<noteq> None) \<and>
     ((\<exists>t \<in> set (pr_tasks p). needs_override (ts_offload_after t)) \<longrightarrow>
        pr_bandwidth_to_slow p \<noteq> None) \<and>
     (\<forall>rw \<in> set (pr_recompute_rewrites p). rewrite_ok (ts_id ` set (pr_tasks p)) rw)"

section \<open>The checker decides well-formedness\<close>

lemma err_if_Nil [simp]: "err_if b e = [] \<longleftrightarrow> \<not> b"
  by (simp add: err_if_def)

lemma dget_None_iff: "dget d k = None \<longleftrightarrow> k \<notin> fst ` set d"
  by (simp add: map_of_eq_None_iff)

lemma tensor_nbytes_known:
  assumes "\<And>d. tm_dtype t = Some d \<Longrightarrow> dget DTYPE_BITS d \<noteq> None"
  shows "\<exists>r. tensor_nbytes t = Inr r"
  using assms by (auto simp: tensor_nbytes_def dtype_nbytes_def Let_def split: option.splits)

lemma check_object_ok: "check_object w s l r t = Inr [] \<longleftrightarrow> object_ok s l r t"
proof (cases t)
  case None
  then show ?thesis by (auto simp: check_object_def object_ok_def)
next
  case (Some tm)
  show ?thesis
  proof (cases "\<forall>d. tm_dtype tm = Some d \<longrightarrow> dget DTYPE_BITS d \<noteq> None")
    case True
    then obtain n where n: "tensor_nbytes tm = Inr n" using tensor_nbytes_known by blast
    have "d \<in> fst ` set DTYPE_BITS" if "tm_dtype tm = Some d" for d
      using True that by (simp add: dget_None_iff)
    with Some n True show ?thesis
      by (auto simp: check_object_def object_ok_def split: option.splits)
  next
    case False
    then obtain d where d: "tm_dtype tm = Some d" "dget DTYPE_BITS d = None" by auto
    then have "\<not> object_ok s l r t" using Some by (auto simp: object_ok_def dget_None_iff)
    moreover have "check_object w s l r t \<noteq> Inr []"
      using Some d by (auto simp: check_object_def bindE_eq_Inr)
    ultimately show ?thesis by simp
  qed
qed

lemma release_errs_Nil:
  "release_errs tid i known seen xs = [] \<longleftrightarrow>
     distinct xs \<and> set xs \<inter> set seen = {} \<and> (\<forall>x \<in> set xs. known x)"
  by (induction xs arbitrary: seen) auto

lemma trigger_errs_Nil:
  "trigger_errs a b c known seen ds = [] \<longleftrightarrow>
     distinct (map td_object_id ds) \<and> td_object_id ` set ds \<inter> set seen = {} \<and>
     (\<forall>d \<in> set ds. known (td_object_id d)) \<and>
     (\<forall>d \<in> set ds. \<forall>r. td_runtime_us d = Some r \<longrightarrow> 0 \<le> r)"
  by (induction ds arbitrary: seen) (auto split: option.splits)

lemma check_directives_Nil:
  assumes "\<And>k c. dget created k = Some c \<Longrightarrow> c \<le> int i"
  shows "check_directives i t created = [] \<longleftrightarrow> directives_ok (dom (map_of created)) t"
proof -
  have known: "(case dget created x of None \<Rightarrow> False | Some c \<Rightarrow> c \<le> int i) \<longleftrightarrow> x \<in> dom (map_of created)"
    for x using assms by (auto split: option.splits)
  show ?thesis
    unfolding check_directives_def directives_ok_def Let_def known
    by (auto simp: release_errs_Nil trigger_errs_Nil)
qed

definition add_outputs :: "nat \<Rightarrow> output_spec list \<Rightarrow> (string, int) dict \<Rightarrow> (string, int) dict" where
  "add_outputs i outs c = fold (\<lambda>out. dset (ou_id out) (int i)) outs c"

lemma add_outputs_get:
  "dget (add_outputs i outs c) k = (if k \<in> ou_id ` set outs then Some (int i) else dget c k)"
  unfolding add_outputs_def by (induction outs arbitrary: c) auto

lemma add_outputs_dom: "dom (map_of (add_outputs i outs c)) = ou_id ` set outs \<union> dom (map_of c)"
  by (auto simp: add_outputs_get split: if_splits)

lemma check_output_step:
  "check_output tid i out (errs, c) =
     bindE (check_object (AtOutput tid i (ou_id out)) (ou_size_bytes out) (ou_location out)
              (ou_role out) (ou_tensor out))
       (\<lambda>es. Inr (if dget c (ou_id out) = None then (errs @ es, dset (ou_id out) (int i) c)
                  else (errs @ [OutputCollision tid i (ou_id out)] @ es, c)))"
  by (cases "dget c (ou_id out)") (simp_all add: check_output_def)

lemma check_outputs_Nil:
  "foldE (check_output tid i) outs (errs, c) = Inr ([], c') \<longleftrightarrow>
     errs = [] \<and> distinct (map ou_id outs) \<and> ou_id ` set outs \<inter> dom (map_of c) = {} \<and>
     (\<forall>out \<in> set outs. object_ok (ou_size_bytes out) (ou_location out) (ou_role out) (ou_tensor out)) \<and>
     c' = add_outputs i outs c"
proof (induction outs arbitrary: errs c)
  case Nil
  then show ?case by (auto simp: add_outputs_def)
next
  case (Cons out outs)
  let ?ck = "check_object (AtOutput tid i (ou_id out)) (ou_size_bytes out) (ou_location out)
    (ou_role out) (ou_tensor out)"
  show ?case
  proof (cases "?ck")
    case (Inl e)
    then have "\<not> object_ok (ou_size_bytes out) (ou_location out) (ou_role out) (ou_tensor out)"
      using check_object_ok by (metis Inl_Inr_False)
    with Inl show ?thesis by (auto simp: check_output_step)
  next
    case (Inr es)
    have ok: "es = [] \<longleftrightarrow> object_ok (ou_size_bytes out) (ou_location out) (ou_role out) (ou_tensor out)"
      using Inr check_object_ok by (metis sum.inject(2))
    show ?thesis
    proof (cases "dget c (ou_id out)")
      case None
      with Inr show ?thesis
        by (auto simp: check_output_step Cons.IH ok add_outputs_def dom_def image_iff)
    next
      case (Some v)
      with Inr show ?thesis by (auto simp: check_output_step Cons.IH)
    qed
  qed
qed

lemma check_inputs_Nil:
  assumes "\<And>k c. dget created k = Some c \<Longrightarrow> c < int i"
  shows "check_inputs i t created = [] \<longleftrightarrow>
    set (ts_inputs t) \<subseteq> dom (map_of created) \<and> distinct (ts_inputs t) \<and>
    set (ts_mutates t) \<subseteq> set (ts_inputs t)"
proof -
  have "(case dget created inp of None \<Rightarrow> [UnknownInput (ts_id t) i inp]
         | Some c \<Rightarrow> err_if (int i \<le> c) (FutureInput (ts_id t) i inp)) = [] \<longleftrightarrow>
        inp \<in> dom (map_of created)" for inp
    using assms [of inp] by (auto split: option.splits)
  then show ?thesis by (auto simp: check_inputs_def)
qed

lemma check_task_Nil:
  assumes "\<And>k c. dget created k = Some c \<Longrightarrow> c < int i"
  shows "check_task (i, t) (errs, created, ids) = Inr ([], created', ids') \<longleftrightarrow>
    errs = [] \<and> ts_id t \<notin> set ids \<and> task_ok (dom (map_of created)) t \<and>
    created' = add_outputs i (ts_outputs t) created \<and> ids' = ts_id t # ids"
proof -
  have bound: "c \<le> int i" if "dget (add_outputs i (ts_outputs t) created) k = Some c" for k c
    using that assms [of k c] by (auto simp: add_outputs_get split: if_splits)
  have split: "check_task (i, t) (errs, created, ids) = Inr ([], created', ids') \<longleftrightarrow>
    (\<exists>es c. foldE (check_output (ts_id t) i) (ts_outputs t)
        (errs @ concat (map (\<lambda>(purpose, name).
                 err_if (purpose = [] \<or> name = []) (BadCommGroup (ts_id t) i purpose name))
               (ts_comm_groups t))
           @ err_if (ts_id t \<in> set ids) (DuplicateTaskId (ts_id t))
           @ err_if (ts_runtime_us t < 0) (NegativeRuntime (ts_id t) i)
           @ err_if (ts_workspace_bytes t < 0) (NegativeWorkspace (ts_id t) i)
           @ check_inputs i t created, created) = Inr (es, c) \<and>
      es = [] \<and> check_directives i t c = [] \<and> created' = c \<and> ids' = ts_id t # ids)"
    by (auto simp: check_task_def Let_def bindE_eq_Inr split: prod.splits)
  have comm: "concat (map (\<lambda>(purpose, name).
        err_if (purpose = [] \<or> name = []) (BadCommGroup (ts_id t) i purpose name)) (ts_comm_groups t)) = []
      \<longleftrightarrow> (\<forall>(purpose, name) \<in> set (ts_comm_groups t). purpose \<noteq> [] \<and> name \<noteq> [])"
    by (auto simp: split: prod.splits)
  show ?thesis
    unfolding split task_ok_def
    using check_directives_Nil [OF bound]
    by (auto simp: check_outputs_Nil check_inputs_Nil [OF assms] comm add_outputs_dom Un_commute)
qed

text \<open>Errors are only ever appended.\<close>

lemma check_output_mono: "check_output tid i out st = Inr st' \<Longrightarrow> fst st \<noteq> [] \<Longrightarrow> fst st' \<noteq> []"
  by (auto simp: check_output_def Let_def bindE_eq_Inr split: prod.splits if_splits)

lemma check_outputs_mono:
  "foldE (check_output tid i) outs st = Inr st' \<Longrightarrow> fst st \<noteq> [] \<Longrightarrow> fst st' \<noteq> []"
  by (rule foldE_invariant [where P = "\<lambda>st. fst st \<noteq> []"]) (auto dest: check_output_mono)

lemma check_task_mono: "fst st \<noteq> [] \<Longrightarrow> check_task it st = Inr st' \<Longrightarrow> fst st' \<noteq> []"
proof -
  assume ne: "fst st \<noteq> []" and run: "check_task it st = Inr st'"
  obtain i t where it: "it = (i, t)" by (cases it)
  obtain errs c ids where st: "st = (errs, c, ids)" by (cases st)
  from run obtain es st1 where out: "foldE (check_output (ts_id t) i) (ts_outputs t) (errs @ es, c) = Inr st1"
    and st': "fst st' = fst st1 @ check_directives i t (snd st1)"
    by (auto simp: check_task_def it st Let_def bindE_eq_Inr split: prod.splits)
  have "fst st1 \<noteq> []" using check_outputs_mono [OF out] ne st by simp
  with st' show ?thesis by simp
qed

lemma check_tasks_Nil:
  assumes "\<And>k c. dget created k = Some c \<Longrightarrow> c < int n"
  shows "(\<exists>created' ids'. foldE check_task (enumerate n ts) (errs, created, ids) = Inr ([], created', ids') \<and>
       P (dom (map_of created')) (set ids')) \<longleftrightarrow>
    errs = [] \<and> distinct (map ts_id ts) \<and> set (map ts_id ts) \<inter> set ids = {} \<and>
    (\<forall>i < length ts. task_ok (dom (map_of created)
        \<union> ou_id ` set (concat (map ts_outputs (take i ts)))) (ts ! i)) \<and>
    P (dom (map_of created) \<union> ou_id ` set (concat (map ts_outputs ts))) (set (map ts_id ts) \<union> set ids)"
  using assms
proof (induction ts arbitrary: n errs created ids)
  case Nil
  then show ?case by auto
next
  case (Cons t ts)
  let ?c = "add_outputs n (ts_outputs t) created"
  have bound: "c < int (Suc n)" if "dget ?c k = Some c" for k c
    using that Cons.prems [of k c] by (auto simp: add_outputs_get split: if_splits)
  have nonempty: "fst st' \<noteq> []" if "foldE check_task its st = Inr st'" "fst st \<noteq> []" for its st st'
    using that by (rule foldE_invariant [where P = "\<lambda>st. fst st \<noteq> []"]) (rule check_task_mono)
  have step: "(\<exists>created' ids'. foldE check_task (enumerate n (t # ts)) (errs, created, ids) = Inr ([], created', ids') \<and>
       P (dom (map_of created')) (set ids')) \<longleftrightarrow>
    (\<exists>es c ids1. check_task (n, t) (errs, created, ids) = Inr (es, c, ids1) \<and>
       (\<exists>created' ids'. foldE check_task (enumerate (Suc n) ts) (es, c, ids1) = Inr ([], created', ids') \<and>
          P (dom (map_of created')) (set ids')))"
    by (auto simp: bindE_eq_Inr)
  also have "\<dots> \<longleftrightarrow> (\<exists>c ids1. check_task (n, t) (errs, created, ids) = Inr ([], c, ids1) \<and>
       (\<exists>created' ids'. foldE check_task (enumerate (Suc n) ts) ([], c, ids1) = Inr ([], created', ids') \<and>
          P (dom (map_of created')) (set ids')))"
    using nonempty by (metis fst_conv)
  also have "\<dots> \<longleftrightarrow> errs = [] \<and> ts_id t \<notin> set ids \<and> task_ok (dom (map_of created)) t \<and>
       (\<exists>created' ids'. foldE check_task (enumerate (Suc n) ts) ([], ?c, ts_id t # ids) = Inr ([], created', ids') \<and>
          P (dom (map_of created')) (set ids'))"
    using Cons.prems by (auto simp: check_task_Nil)
  also have "\<dots> \<longleftrightarrow> errs = [] \<and> ts_id t \<notin> set ids \<and> task_ok (dom (map_of created)) t \<and>
      (distinct (map ts_id ts) \<and> set (map ts_id ts) \<inter> set (ts_id t # ids) = {} \<and>
       (\<forall>i < length ts. task_ok (dom (map_of ?c)
          \<union> ou_id ` set (concat (map ts_outputs (take i ts)))) (ts ! i)) \<and>
       P (dom (map_of ?c) \<union> ou_id ` set (concat (map ts_outputs ts)))
         (set (map ts_id ts) \<union> set (ts_id t # ids)))"
    using Cons.IH [of ?c "Suc n" "[]" "ts_id t # ids", OF bound] by simp
  also have "\<dots> \<longleftrightarrow> errs = [] \<and> distinct (map ts_id (t # ts)) \<and> set (map ts_id (t # ts)) \<inter> set ids = {} \<and>
    (\<forall>i < length (t # ts). task_ok (dom (map_of created)
        \<union> ou_id ` set (concat (map ts_outputs (take i (t # ts))))) ((t # ts) ! i)) \<and>
    P (dom (map_of created) \<union> ou_id ` set (concat (map ts_outputs (t # ts))))
      (set (map ts_id (t # ts)) \<union> set ids)"
  proof -
    have all: "(\<forall>i < length (t # ts). Q i) \<longleftrightarrow> Q 0 \<and> (\<forall>i < length ts. Q (Suc i))" for Q
      by (auto simp: less_Suc_eq_0_disj)
    have s1: "dom (map_of ?c) \<union> ou_id ` set (concat (map ts_outputs ts)) =
      dom (map_of created) \<union> ou_id ` set (concat (map ts_outputs (t # ts)))"
      by (auto simp: add_outputs_dom)
    have s2: "set (map ts_id ts) \<union> set (ts_id t # ids) = set (map ts_id (t # ts)) \<union> set ids" by auto
    have s3: "dom (map_of ?c) \<union> ou_id ` set (concat (map ts_outputs (take i ts))) =
      dom (map_of created) \<union> ou_id ` set (concat (map ts_outputs (take (Suc i) (t # ts))))" for i
      by (auto simp: add_outputs_dom)
    show ?thesis
      unfolding all s1 s2 s3 by auto
  qed
  finally show ?case .
qed

definition add_initials :: "object_spec list \<Rightarrow> (string, int) dict \<Rightarrow> (string, int) dict" where
  "add_initials obs c = fold (\<lambda>ob. dset (os_id ob) (-1)) obs c"

lemma add_initials_get:
  "dget (add_initials obs c) k = (if k \<in> os_id ` set obs then Some (-1) else dget c k)"
  unfolding add_initials_def by (induction obs arbitrary: c) auto

lemma check_initial_step:
  "check_initial ob (errs, seen, by_id, created) =
     bindE (check_object (AtInitial (os_id ob)) (os_size_bytes ob) (os_location ob)
              (os_role ob) (os_tensor ob))
       (\<lambda>es. Inr (errs
            @ err_if ((os_id ob, os_location ob) \<in> set seen) (DuplicateInitial (os_id ob) (os_location ob))
            @ (case dget by_id (os_id ob) of
                 None \<Rightarrow> []
               | Some prior \<Rightarrow> err_if (prior \<noteq> (os_size_bytes ob, os_role ob)) (InconsistentInitial (os_id ob)))
            @ es,
          (os_id ob, os_location ob) # seen, dset (os_id ob) (os_size_bytes ob, os_role ob) by_id,
          dset (os_id ob) (-1) created))"
  by (simp add: check_initial_def Let_def)

definition agrees :: "object_spec list \<Rightarrow> (string, int \<times> string) dict \<Rightarrow> bool" where
  "agrees obs by_id \<longleftrightarrow>
     (\<forall>a \<in> set obs. \<forall>prior. dget by_id (os_id a) = Some prior \<longrightarrow> prior = (os_size_bytes a, os_role a))"

definition consistent :: "object_spec list \<Rightarrow> bool" where
  "consistent obs \<longleftrightarrow> (\<forall>a \<in> set obs. \<forall>b \<in> set obs. os_id a = os_id b \<longrightarrow>
     os_size_bytes a = os_size_bytes b \<and> os_role a = os_role b)"

lemma agrees_Cons:
  "agrees (ob # obs) by_id \<and> consistent (ob # obs) \<and> R \<longleftrightarrow>
     (\<forall>prior. dget by_id (os_id ob) = Some prior \<longrightarrow> prior = (os_size_bytes ob, os_role ob)) \<and>
     agrees obs (dset (os_id ob) (os_size_bytes ob, os_role ob) by_id) \<and> consistent obs \<and> R"
proof -
  let ?v = "(os_size_bytes ob, os_role ob)"
  let ?P = "\<forall>prior. dget by_id (os_id ob) = Some prior \<longrightarrow> prior = ?v"
  let ?S = "\<forall>a \<in> set obs. os_id a = os_id ob \<longrightarrow> ?v = (os_size_bytes a, os_role a)"
  have ag: "agrees (ob # obs) by_id \<longleftrightarrow> ?P \<and> agrees obs by_id"
    by (simp add: agrees_def)
  have con: "consistent (ob # obs) \<longleftrightarrow> ?S \<and> consistent obs"
    unfolding consistent_def set_simps ball_simps prod.inject by (intro iffI; metis)
  have upd: "agrees obs (dset (os_id ob) ?v by_id) \<longleftrightarrow>
      ?S \<and> (\<forall>a \<in> set obs. os_id a \<noteq> os_id ob \<longrightarrow>
         (\<forall>prior. dget by_id (os_id a) = Some prior \<longrightarrow> prior = (os_size_bytes a, os_role a)))"
    unfolding agrees_def dget_dset by (intro iffI; metis option.inject)
  have "?P \<Longrightarrow> ?S \<Longrightarrow> agrees obs by_id \<longleftrightarrow> (\<forall>a \<in> set obs. os_id a \<noteq> os_id ob \<longrightarrow>
         (\<forall>prior. dget by_id (os_id a) = Some prior \<longrightarrow> prior = (os_size_bytes a, os_role a)))"
    unfolding agrees_def by metis
  then show ?thesis unfolding ag con upd by blast
qed

lemma check_initials_Nil:
  "foldE check_initial obs (errs, seen, by_id, created) = Inr ([], seen', by_id', created') \<longleftrightarrow>
     errs = [] \<and> distinct (map (\<lambda>ob. (os_id ob, os_location ob)) obs) \<and>
     (\<lambda>ob. (os_id ob, os_location ob)) ` set obs \<inter> set seen = {} \<and>
     agrees obs by_id \<and> consistent obs \<and>
     (\<forall>ob \<in> set obs. object_ok (os_size_bytes ob) (os_location ob) (os_role ob) (os_tensor ob)) \<and>
     seen' = rev (map (\<lambda>ob. (os_id ob, os_location ob)) obs) @ seen \<and>
     by_id' = fold (\<lambda>ob. dset (os_id ob) (os_size_bytes ob, os_role ob)) obs by_id \<and>
     created' = add_initials obs created"
proof (induction obs arbitrary: errs seen by_id created)
  case Nil
  then show ?case by (auto simp: agrees_def consistent_def add_initials_def)
next
  case (Cons ob obs)
  let ?ck = "check_object (AtInitial (os_id ob)) (os_size_bytes ob) (os_location ob)
    (os_role ob) (os_tensor ob)"
  show ?case
  proof (cases "?ck")
    case (Inl e)
    then have "\<not> object_ok (os_size_bytes ob) (os_location ob) (os_role ob) (os_tensor ob)"
      using check_object_ok by (metis Inl_Inr_False)
    with Inl show ?thesis by (auto simp: check_initial_step)
  next
    case (Inr es)
    have ok: "es = [] \<longleftrightarrow> object_ok (os_size_bytes ob) (os_location ob) (os_role ob) (os_tensor ob)"
      using Inr check_object_ok by (metis sum.inject(2))
    have prior: "(case dget by_id (os_id ob) of
                 None \<Rightarrow> []
               | Some prior \<Rightarrow> err_if (prior \<noteq> (os_size_bytes ob, os_role ob)) (InconsistentInitial (os_id ob))) = []
        \<longleftrightarrow> (\<forall>prior. dget by_id (os_id ob) = Some prior \<longrightarrow> prior = (os_size_bytes ob, os_role ob))"
      by (auto split: option.splits)
    from Inr show ?thesis
      by (simp add: check_initial_step Cons.IH prior ok add_initials_def agrees_Cons) blast
  qed
qed

lemma check_initials_mono:
  "foldE check_initial obs st = Inr st' \<Longrightarrow> fst st \<noteq> [] \<Longrightarrow> fst st' \<noteq> []"
proof (erule foldE_invariant [where P = "\<lambda>st. fst st \<noteq> []"])
  fix ob st st'
  assume "fst st \<noteq> []" and "check_initial ob st = Inr st'"
  then show "fst st' \<noteq> []"
    by (cases st) (auto simp: check_initial_step bindE_eq_Inr)
qed

lemma check_final_locations_Nil:
  "check_final_locations created finals = [] \<longleftrightarrow>
     (\<forall>(oid, loc) \<in> set finals. oid \<in> dom (map_of created) \<and> loc \<in> set LOCATIONS)"
  by (auto simp: check_final_locations_def)

lemma check_positive_Nil: "check_positive f x = [] \<longleftrightarrow> (\<forall>c. x = Some c \<longrightarrow> 0 < c)"
  by (auto simp: check_positive_def split: option.splits)

lemma check_rewrite_Nil: "check_rewrite ids rw = [] \<longleftrightarrow> rewrite_ok (set ids) rw"
  by (auto simp: check_rewrite_def rewrite_ok_def Let_def split: list.splits)

text \<open>The tail of the checker, once the loops have produced no error.\<close>

definition closing_ok :: "program \<Rightarrow> string set \<Rightarrow> string set \<Rightarrow> bool" where
  "closing_ok p known ids \<longleftrightarrow>
     (\<forall>(oid, loc) \<in> set (pr_final_locations p). oid \<in> known \<and> loc \<in> set LOCATIONS) \<and>
     (\<forall>x \<in> {pr_fast_memory_capacity p, pr_backing_memory_capacity p,
             pr_bandwidth_from_slow p, pr_bandwidth_to_slow p}. \<forall>c. x = Some c \<longrightarrow> 0 < c) \<and>
     ((\<exists>t \<in> set (pr_tasks p). needs_override (ts_prefetch_after t)) \<longrightarrow>
        pr_bandwidth_from_slow p \<noteq> None) \<and>
     ((\<exists>t \<in> set (pr_tasks p). needs_override (ts_offload_after t)) \<longrightarrow>
        pr_bandwidth_to_slow p \<noteq> None) \<and>
     (\<forall>rw \<in> set (pr_recompute_rewrites p). rewrite_ok ids rw)"

lemma check_closing_Nil:
  "check_closing p created ids = [] \<longleftrightarrow> closing_ok p (dom (map_of created)) (set ids)"
  by (simp add: check_closing_def closing_ok_def check_final_locations_Nil check_positive_Nil
      check_rewrite_Nil) blast

lemma validation_errors_Nil:
  "validation_errors p = Inr [] \<longleftrightarrow>
     pr_name p \<noteq> [] \<and> initial_ok (pr_initial_objects p) \<and>
     (\<exists>created ids. foldE check_task (enumerate 0 (pr_tasks p))
          ([], add_initials (pr_initial_objects p) [], []) = Inr ([], created, ids) \<and>
        closing_ok p (dom (map_of created)) (set ids))"
    (is "?L \<longleftrightarrow> ?R")
proof -
  let ?start = "(err_if (pr_name p = []) EmptyName, [], [], [])"
  have "?L \<longleftrightarrow> (\<exists>es seen by_id c. foldE check_initial (pr_initial_objects p) ?start = Inr (es, seen, by_id, c) \<and>
      (\<exists>es1 created ids. foldE check_task (enumerate 0 (pr_tasks p)) (es, c, []) = Inr (es1, created, ids) \<and>
         es1 = [] \<and> closing_ok p (dom (map_of created)) (set ids)))"
    by (fastforce simp: validation_errors_def bindE_eq_Inr check_closing_Nil split: prod.splits)
  also have "\<dots> \<longleftrightarrow> (\<exists>seen by_id c. foldE check_initial (pr_initial_objects p) ?start = Inr ([], seen, by_id, c) \<and>
      (\<exists>created ids. foldE check_task (enumerate 0 (pr_tasks p)) ([], c, []) = Inr ([], created, ids) \<and>
         closing_ok p (dom (map_of created)) (set ids)))"
  proof -
    have "fst st' \<noteq> []" if "foldE check_task its st = Inr st'" "fst st \<noteq> []" for its st st'
      using that by (rule foldE_invariant [where P = "\<lambda>st. fst st \<noteq> []"]) (rule check_task_mono)
    then show ?thesis by (metis fst_conv)
  qed
  also have "\<dots> \<longleftrightarrow> ?R"
    by (auto simp: check_initials_Nil initial_ok_def agrees_def consistent_def)
  finally show ?thesis .
qed

lemma validate_decides: "validate_program p = Valid \<longleftrightarrow> wf_program p"
proof -
  have "validate_program p = Valid \<longleftrightarrow> validation_errors p = Inr []"
    by (simp add: validate_program_def split: sum.splits)
  also have "\<dots> \<longleftrightarrow> pr_name p \<noteq> [] \<and> initial_ok (pr_initial_objects p) \<and>
     (\<exists>created ids. foldE check_task (enumerate 0 (pr_tasks p))
          ([], add_initials (pr_initial_objects p) [], []) = Inr ([], created, ids) \<and>
        closing_ok p (dom (map_of created)) (set ids))"
    by (rule validation_errors_Nil)
  also have "\<dots> \<longleftrightarrow> wf_program p"
  proof -
    let ?c = "add_initials (pr_initial_objects p) []"
    have bound: "v < int 0" if "dget ?c k = Some v" for k v
      using that by (auto simp: add_initials_get split: if_splits)
    have tasks: "(\<exists>created ids. foldE check_task (enumerate 0 (pr_tasks p)) ([], ?c, []) = Inr ([], created, ids) \<and>
        closing_ok p (dom (map_of created)) (set ids)) \<longleftrightarrow>
      [] = ([] :: verr list) \<and> distinct (map ts_id (pr_tasks p)) \<and> set (map ts_id (pr_tasks p)) \<inter> set [] = {} \<and>
      (\<forall>i < length (pr_tasks p). task_ok (dom (map_of ?c)
          \<union> ou_id ` set (concat (map ts_outputs (take i (pr_tasks p))))) (pr_tasks p ! i)) \<and>
      closing_ok p (dom (map_of ?c) \<union> ou_id ` set (concat (map ts_outputs (pr_tasks p))))
        (set (map ts_id (pr_tasks p)) \<union> set [])"
      by (rule check_tasks_Nil) (rule bound)
    have dom: "dom (map_of ?c) = os_id ` set (pr_initial_objects p)"
      by (auto simp: add_initials_get split: if_splits)
    show ?thesis
      unfolding tasks by (simp add: dom wf_program_def known_before_def closing_ok_def)
  qed
  finally show ?thesis .
qed

text \<open>C18. The validator decides well-formedness: it accepts a program exactly when the name is
  non-empty, initial objects are unique per location and agree on size and role, every object
  has a positive exact size, task ids are unique, every task reads only objects that already
  exist, mutates only its inputs, creates only fresh ids, its directives are duplicate-free,
  refer to existing objects and never release what they also move, and final locations,
  capacities, bandwidths and recompute options are sound.\<close>

theorem validate_program_iff: "validate_program p = Valid \<longleftrightarrow> wf_program p"
  by (rule validate_decides)

text \<open>A dense initial tensor of an unknown dtype is not reported as a \<open>ValidationError\<close>: the
  size computation inside \<open>_check_object\<close> raises its own \<open>ValueError\<close>, which escapes the
  collection of messages and hides every other problem of the program.\<close>

theorem validate_program_escapes:
  assumes "ob \<in> set (pr_initial_objects p)" and "os_tensor ob = Some t"
    and "tm_dtype t = Some d" and "dget DTYPE_BITS d = None"
    and "tm_shape t = Some sh" and "tm_strides t = None"
  shows "validate_program p = Escaped (ValueError ''unknown dtype'')"
proof -
  have fails: "check_initial ob st = Inl (ValueError ''unknown dtype'')" for st
    using assms by (cases st) (simp add: check_initial_step check_object_def tensor_nbytes_def dtype_nbytes_def)
  have only: "check_initial ob' st = Inl e \<Longrightarrow> e = ValueError ''unknown dtype''" for ob' st e
    by (cases st)
      (auto simp: check_initial_step check_object_def bindE_eq_Inl tensor_nbytes_def dtype_nbytes_def Let_def
        split: option.splits if_splits)
  have "foldE check_initial (pr_initial_objects p) st = Inl (ValueError ''unknown dtype'')" for st
    using assms(1) by (rule foldE_raises) (auto intro: fails dest: only)
  then show ?thesis by (simp add: validate_program_def validation_errors_def)
qed

theorem validate_program_escapes_witness:
  "validate_program
     \<lparr>pr_name = ''p'', pr_initial_objects = [\<lparr>os_id = ''a'', os_size_bytes = 8, os_location = ''fast'',
        os_role = ''other'', os_tensor = Some \<lparr>tm_dtype = Some ''fp7'', tm_shape = Some [2, 4], tm_strides = None\<rparr>,
        os_persistent = False\<rparr>],
      pr_tasks = [], pr_final_locations = [], pr_fast_memory_capacity = None,
      pr_backing_memory_capacity = None, pr_bandwidth_from_slow = None, pr_bandwidth_to_slow = None,
      pr_recompute_rewrites = [], pr_metadata = [], pr_schema_version = SCHEMA_VERSION\<rparr>
   = Escaped (ValueError ''unknown dtype'')"
  by (rule validate_program_escapes [where t = "\<lparr>tm_dtype = Some ''fp7'', tm_shape = Some [2, 4],
          tm_strides = None\<rparr>" and d = "''fp7''" and sh = "[2, 4]"])
    (simp, simp_all add: DTYPE_BITS_def)

end
