(* ===== verification/Engine.thy ===== *)
theory Engine
  imports Transfers Program_Validate
begin

text \<open>
  The dataflow engine, \<open>src/dataflow/runtime/engine.py\<close>: dispatch indices, loading of initial memory,
  the token handlers of \<open>_RunState\<close>, the strict-paced dispatcher, the drain and the failure boundary
  \<open>execute\<close>. Wait loops (\<open>while ...: state.step(...)\<close>) take fuel; \<open>Engine_Progress\<close> shows how
  much always suffices. A task's executable is the parameter \<open>launch\<close>: it may only enqueue work on
  the compute stream, or raise; \<open>synthetic_launch\<close> is \<open>SyntheticExecutable\<close>. The cancel event is
  the predicate \<open>cancelled\<close> on task positions. The VMM mode, profiling, statistics and printing are
  not modelled; neither is the state left behind by a run that raised.
\<close>

section \<open>Dispatch indices\<close>

definition index_task :: "nat \<times> task_spec \<Rightarrow> chain_index \<Rightarrow> chain_index" where
  "index_task it ci = (case it of (i, t) \<Rightarrow>
     let idx = int i;
         ci = ci\<lparr>ci_task_index := dset (ts_id t) idx (ci_task_index ci)\<rparr>;
         ci = fold (\<lambda>o1 ci. ci\<lparr>ci_last_ref := dset o1 idx (ci_last_ref ci),
                  ci_uses_by_obj := dappend o1 idx (ci_uses_by_obj ci)\<rparr>) (ts_inputs t) ci;
         ci = fold (\<lambda>o1 ci. ci\<lparr>ci_directives_by_obj := dappend o1 idx (ci_directives_by_obj ci)\<rparr>)
                (ts_releases_after t) ci;
         ref = (\<lambda>trig ci. ci\<lparr>ci_last_ref := dset (td_object_id trig) idx (ci_last_ref ci),
                  ci_directives_by_obj := dappend (td_object_id trig) idx (ci_directives_by_obj ci)\<rparr>)
     in fold ref (ts_prefetch_after t) (fold ref (ts_offload_after t) ci))"

definition build_chain_index :: "program \<Rightarrow> chain_index" where
  "build_chain_index p =
     fold index_task (enumerate 0 (pr_tasks p))
       \<lparr>ci_last_ref = [], ci_task_index = [], ci_uses_by_obj = [], ci_directives_by_obj = []\<rparr>"

section \<open>Setup\<close>

definition load_initial :: "(string, buffer) dict \<Rightarrow> object_spec \<Rightarrow> run_state \<Rightarrow> run_state res" where
  "load_initial initial_buffers spec st =
     (let (rec, tb) = table_add (rs_table st)
            (new_record (os_id spec) (os_size_bytes spec) (os_role spec) (os_tensor spec));
          st = st\<lparr>rs_table := tb\<rparr>
      in bindE (guardE (slot_at rec (os_location spec) = None) (ExecutionError ''duplicate initial slot'')) (\<lambda>_.
         bindE (rs_charge (os_location spec) (os_size_bytes spec) st) (\<lambda>st.
         let provided = dget initial_buffers (os_id spec)
         in bindE (guardE (case provided of None \<Rightarrow> True | Some b \<Rightarrow> os_size_bytes spec \<le> bf_size_bytes b)
                     (ExecutionError ''initial buffer too small'')) (\<lambda>_.
            bindE (case provided of
                Some b \<Rightarrow> (if bf_location b = os_location spec then Inr (b, st)
                           else rs_get (os_location spec) (os_size_bytes spec) (Some (os_id spec)) st)
              | None \<Rightarrow> rs_get (os_location spec) (os_size_bytes spec) (Some (os_id spec)) st) (\<lambda>(buf, st).
            Inr (put_record (os_id spec)
                   (set_slot rec (os_location spec)
                      (Some \<lparr>sl_buffer = buf, sl_state = Live, sl_version = 0, sl_ready_event = None\<rparr>)) st))))))"

text \<open>Uploads of provided backing values into pre-placed fast copies, on a physical backend only: the
  copy carries no modelled duration.\<close>

definition needs_setup_copy :: "(string, buffer) dict \<Rightarrow> object_spec \<Rightarrow> bool" where
  "needs_setup_copy initial_buffers spec =
     (case dget initial_buffers (os_id spec) of
        None \<Rightarrow> False
      | Some b \<Rightarrow> os_location spec = ''fast'' \<and> bf_location b = ''backing'')"

definition upload_initial :: "(string, buffer) dict \<Rightarrow> program \<Rightarrow> run_state \<Rightarrow> run_state res" where
  "upload_initial initial_buffers p st =
     (let copies = filter (needs_setup_copy initial_buffers) (pr_initial_objects p)
      in if copies = [] \<or> \<not> fb_physical (rs_backend st) then Inr st
         else bindE (foldE (\<lambda>spec st.
                  bindE (memcpy_async (rs_backend st) (tx_stream (rs_h2d st)) None) (\<lambda>(_, s).
                    Inr (st\<lparr>rs_h2d := (rs_h2d st)\<lparr>tx_stream := s\<rparr>\<rparr>))) copies st) (\<lambda>st.
              Inr (st\<lparr>rs_backend := sync_all (rs_backend st)\<rparr>)))"

section \<open>Pressure eviction\<close>

text \<open>Next use of an object at or after the cursor, when it is a safe victim: clean, live on both
  sides, used again, and untouched by directives before that use.\<close>

definition evict_candidate :: "string list \<Rightarrow> run_state \<Rightarrow> string \<Rightarrow> object_record \<Rightarrow> int option" where
  "evict_candidate exclude st oid rec =
     (case (ob_fast rec, ob_backing rec) of
        (Some fast, Some backing) \<Rightarrow>
          (if oid \<in> set exclude \<or> sl_state fast \<noteq> Live \<or> sl_state backing \<noteq> Live
              \<or> sl_version fast \<noteq> ob_version rec \<or> sl_version backing \<noteq> ob_version rec
           then None
           else
             let uses = dget_or (ci_uses_by_obj (rs_chain st)) oid []
             in if uses = [] \<or> last uses < rs_cursor st then None
                else
                  let nxt = uses ! bisect_left uses (rs_cursor st);
                      dirs = dget_or (ci_directives_by_obj (rs_chain st)) oid []
                  in if dirs \<noteq> [] \<and> bisect_left dirs (rs_cursor st) < bisect_left dirs nxt
                     then None else Some nxt)
      | _ \<Rightarrow> None)"

fun pick_victim ::
  "string list \<Rightarrow> run_state \<Rightarrow> (int \<times> int \<times> string) option \<Rightarrow> object_table \<Rightarrow> (int \<times> int \<times> string) option" where
  "pick_victim exclude st best [] = best"
| "pick_victim exclude st best ((oid, rec) # tb) =
     pick_victim exclude st
       (case evict_candidate exclude st oid rec of
          None \<Rightarrow> best
        | Some nxt \<Rightarrow>
            (case best of
               None \<Rightarrow> Some (nxt, ob_size_bytes rec, oid)
             | Some (bn, bs, bo) \<Rightarrow>
                 if bn < nxt \<or> (bn = nxt \<and> bs < ob_size_bytes rec)
                 then Some (nxt, ob_size_bytes rec, oid) else best)) tb"

datatype evict_outcome = NoVictim | Evicted | EvictedPoke

text \<open>The bookkeeping after the victim's copy is dropped: count and log the eviction, queue the reload.\<close>

definition requeue_victim :: "int \<Rightarrow> int \<Rightarrow> string \<Rightarrow> run_state \<Rightarrow> run_state" where
  "requeue_victim nxt n oid st =
     (let st = st\<lparr>rs_pressure_evictions := rs_pressure_evictions st + 1\<rparr>;
          st = log_event ''pressure_evict'' (Some oid) (rs_current_task_id st)
                 (''next_use_task='' @ show_nat (nat nxt)) st;
          override = dget_or (rs_prefetch_override st) oid None;
          (anchor, b) = record_event (rs_backend st) (tx_stream (rs_h2d st));
          job = new_job oid n override anchor
                  (case rs_current_task_id st of
                     None \<Rightarrow> ''pressure_evict''
                   | Some t \<Rightarrow> if t = [] then ''pressure_evict'' else t)
      in enqueue FromSlow job (st\<lparr>rs_backend := b\<rparr>))"

definition evict_for_pressure :: "string list \<Rightarrow> run_state \<Rightarrow> (evict_outcome \<times> run_state) res" where
  "evict_for_pressure exclude st =
     (if 10 * int (length (ci_task_index (rs_chain st))) \<le> rs_pressure_evictions st then Inr (NoVictim, st)
      else case pick_victim exclude st None (rs_table st) of
             None \<Rightarrow> Inr (NoVictim, st)
           | Some (nxt, n, oid) \<Rightarrow>
               (let had_head = tx_queue (rs_h2d st) \<noteq> [] \<or> tx_inflight (rs_h2d st) \<noteq> None
                in bindE (table_get (rs_table st) oid) (\<lambda>rec.
                   case ob_fast rec of
                     None \<Rightarrow> Inl (AttributeError ''buffer'')
                   | Some slot \<Rightarrow>
                       bindE (drop_fast oid rec slot n st) (\<lambda>st.
                       Inr (if had_head then EvictedPoke else Evicted, requeue_victim nxt n oid st)))))"

section \<open>Token handlers\<close>

definition retire_output :: "event \<Rightarrow> output_spec \<Rightarrow> run_state \<Rightarrow> run_state res" where
  "retire_output done_event out st =
     bindE (table_get (rs_table st) (ou_id out)) (\<lambda>rec.
       case slot_at rec (ou_location out) of
         None \<Rightarrow> Inl (AssertionError ''output slot'')
       | Some s \<Rightarrow>
           (if sl_state s \<noteq> Reserved then Inl (AssertionError ''output slot'')
            else Inr (put_record (ou_id out) (set_slot rec (ou_location out)
                   (Some (s\<lparr>sl_state := Live, sl_ready_event := Some done_event\<rparr>))) st)))"

definition retire_mutate :: "event \<Rightarrow> string \<Rightarrow> string \<Rightarrow> run_state \<Rightarrow> run_state res" where
  "retire_mutate done_event tid obj st =
     bindE (table_get (rs_table st) obj) (\<lambda>rec.
       case ob_fast rec of
         None \<Rightarrow> Inl (AssertionError ''mutated object'')
       | Some s \<Rightarrow>
           (let v = ob_version rec + 1
            in Inr (log_event ''mutate'' (Some obj) (Some tid) []
                 (put_record obj (rec\<lparr>ob_version := v, ob_fast := Some (s\<lparr>sl_version := v,
                    sl_ready_event := Some done_event\<rparr>)\<rparr>) st))))"

text \<open>The dead-everywhere rule: nothing refers to the object later and it has no final location.\<close>

definition dead_everywhere :: "task_spec \<Rightarrow> string \<Rightarrow> run_state \<Rightarrow> bool res" where
  "dead_everywhere t obj st =
     (case dget (ci_task_index (rs_chain st)) (ts_id t) of
        None \<Rightarrow> Inl (KeyError (ts_id t))
      | Some i \<Rightarrow> Inr (dget_or (ci_last_ref (rs_chain st)) obj (-1) \<le> i \<and>
                       dget (rs_final_locations st) obj = None))"

definition free_dead_backing :: "task_spec \<Rightarrow> string \<Rightarrow> run_state \<Rightarrow> run_state res" where
  "free_dead_backing t obj st =
     bindE (table_get (rs_table st) obj) (\<lambda>rec.
     bindE (dead_everywhere t obj st) (\<lambda>dead.
       case ob_backing rec of
         None \<Rightarrow> Inr st
       | Some bk \<Rightarrow>
           (if dead \<and> sl_state bk = Live then
              bindE (rs_release ''backing'' (ob_size_bytes rec) st) (\<lambda>st.
              let st = put_record obj (rec\<lparr>ob_backing := None\<rparr>) st
              in if bf_ref (sl_buffer bk) \<in> set (rs_provided st) then Inr st
                 else rs_put (sl_buffer bk) st)
            else Inr st)))"

definition retire_release :: "task_spec \<Rightarrow> string \<Rightarrow> run_state \<Rightarrow> run_state res" where
  "retire_release t obj st =
     bindE (table_get (rs_table st) obj) (\<lambda>rec.
       case ob_fast rec of
         None \<Rightarrow> Inl (ExecutionError ''cannot release: fast state absent'')
       | Some s \<Rightarrow>
           (if sl_state s \<noteq> Live then Inl (ExecutionError ''cannot release: fast copy not live'')
            else
              bindE (drop_fast obj rec s (ob_size_bytes rec) st) (\<lambda>st.
              bindE (free_dead_backing t obj st) (\<lambda>st.
              Inr (log_event ''release'' (Some obj) (Some (ts_id t)) [] st)))))"

definition retire_offload :: "task_spec \<Rightarrow> event \<Rightarrow> transfer_directive \<Rightarrow> run_state \<Rightarrow> run_state res" where
  "retire_offload t done_event trig st =
     (let oid = td_object_id trig
      in bindE (table_get (rs_table st) oid) (\<lambda>rec.
         case ob_fast rec of
           None \<Rightarrow> Inl (ExecutionError ''cannot offload: fast state absent'')
         | Some src \<Rightarrow>
             (if sl_state src \<noteq> Live then Inl (ExecutionError ''cannot offload: fast copy not live'')
              else
                bindE (case ob_backing rec of
                    None \<Rightarrow> Inr ()
                  | Some bk \<Rightarrow>
                      (if sl_state bk \<noteq> Live then Inl (ExecutionError ''cannot offload: backing entry not live'')
                       else guardE (bf_size_bytes (sl_buffer bk) = ob_size_bytes rec)
                              (ExecutionError ''offload size mismatch''))) (\<lambda>_.
                Inr (enqueue ToSlow
                       (new_job oid (ob_size_bytes rec) (td_runtime_us trig) done_event (ts_id t))
                       (put_record oid (rec\<lparr>ob_fast := Some (src\<lparr>sl_state := PendingOutbound\<rparr>)\<rparr>) st))))))"

definition retire_prefetch :: "task_spec \<Rightarrow> event \<Rightarrow> transfer_directive \<Rightarrow> run_state \<Rightarrow> run_state res" where
  "retire_prefetch t done_event trig st =
     (let oid = td_object_id trig
      in bindE (table_get (rs_table st) oid) (\<lambda>rec.
         let dev = map_option sl_state (ob_fast rec); src = map_option sl_state (ob_backing rec)
         in if dev = Some Live \<or> dev = Some Inbound
            then Inl (ExecutionError ''cannot prefetch: fast copy already exists'')
            else
              let offload_in_flight =
                    (dev = Some PendingOutbound \<or> dev = Some Outbound
                     \<or> src = Some PendingInbound \<or> src = Some Inbound);
                  job = new_job oid (ob_size_bytes rec) (td_runtime_us trig) done_event (ts_id t);
                  st = st\<lparr>rs_prefetch_override := dset oid (td_runtime_us trig) (rs_prefetch_override st)\<rparr>
              in if offload_in_flight
                 then Inr (log_event ''transfer_deferred'' (Some oid) (Some (ts_id t)) []
                        (st\<lparr>rs_deferred := dappend oid job (rs_deferred st)\<rparr>))
                 else if src \<noteq> Some Live
                 then Inl (ExecutionError ''cannot prefetch: no recoverable backing source'')
                 else Inr (enqueue FromSlow job st)))"

definition on_task_done :: "task_spec \<Rightarrow> event \<Rightarrow> event \<Rightarrow> run_state \<Rightarrow> run_state res" where
  "on_task_done t start_event done_event st =
     (let st = (if rs_outstanding_task st = Some (ts_id t) then st\<lparr>rs_outstanding_task := None\<rparr> else st)
      in bindE (foldE (retire_output done_event) (ts_outputs t) st) (\<lambda>st.
         bindE (foldE (retire_mutate done_event (ts_id t)) (ts_mutates t) st) (\<lambda>st.
         let st = st\<lparr>rs_pending_intervals := rs_pending_intervals st @
                    [(ts_id t, start_event, done_event, ''compute'')]\<rparr>
         in bindE (foldE (retire_release t) (ts_releases_after t) st) (\<lambda>st.
            bindE (foldE (retire_offload t done_event) (ts_offload_after t) st) (\<lambda>st.
            bindE (foldE (retire_prefetch t done_event) (ts_prefetch_after t) st) (\<lambda>st.
            bindE (try_start FromSlow False st) (\<lambda>st.
            try_start ToSlow False st)))))))"

definition on_transfer_done :: "direction \<Rightarrow> transfer_job \<Rightarrow> run_state \<Rightarrow> run_state res" where
  "on_transfer_done d job st =
     (case d of
        FromSlow \<Rightarrow> bindE (complete FromSlow job st) (try_start FromSlow False)
      | ToSlow \<Rightarrow>
          bindE (complete ToSlow job st) (\<lambda>st.
          let waiting = dget_or (rs_deferred st) (tj_object_id job) [];
              st = st\<lparr>rs_deferred := ddel (tj_object_id job) (rs_deferred st)\<rparr>;
              st = fold (enqueue FromSlow) waiting st
          in bindE (try_start ToSlow False st) (try_start FromSlow False)))"

definition handle :: "token \<Rightarrow> run_state \<Rightarrow> run_state res" where
  "handle tok st =
     (case tok of
        TaskDone t start_event done_event \<Rightarrow> on_task_done t start_event done_event st
      | TransferDone d job \<Rightarrow> on_transfer_done d job st)"

definition take_token :: "run_state \<Rightarrow> token option \<times> run_state" where
  "take_token st = (let (tok, b) = next_completion (rs_backend st) in (tok, st\<lparr>rs_backend := b\<rparr>))"

definition step_quiescent :: "string list \<Rightarrow> run_state \<Rightarrow> run_state res" where
  "step_quiescent exclude st =
     bindE (escape_blocked_head st) (\<lambda>(escaped, st).
       if escaped
       then Inr (log_event ''placement_escape'' (map_option tj_object_id (tx_inflight (rs_h2d st))) None
                   ''from_slow head'' st)
       else bindE (evict_for_pressure exclude st) (\<lambda>(outcome, st).
              if outcome = NoVictim then Inl (DeadlockError ''no in-flight work can unblock it'')
              else Inr st))"

definition step :: "string list \<Rightarrow> bool \<Rightarrow> run_state \<Rightarrow> run_state res" where
  "step exclude pump_h2d st =
     (case take_token st of
        (Some tok, st) \<Rightarrow> handle tok st
      | (None, st) \<Rightarrow>
          (if pump_h2d \<and> tx_inflight (rs_h2d st) = None \<and> tx_queue (rs_h2d st) \<noteq> []
           then bindE (try_start FromSlow False st) (\<lambda>st.
                  if tx_inflight (rs_h2d st) \<noteq> None then Inr st else step_quiescent exclude st)
           else step_quiescent exclude st))"

section \<open>Dispatching one task\<close>

fun wait_retired :: "nat \<Rightarrow> string list \<Rightarrow> run_state \<Rightarrow> run_state res" where
  "wait_retired n protected st =
     (if rs_outstanding_task st = None then Inr st
      else case n of
             0 \<Rightarrow> Inl OutOfFuel
           | Suc n \<Rightarrow> bindE (step protected True st) (wait_retired n protected))"

definition waiting_inputs :: "task_spec \<Rightarrow> run_state \<Rightarrow> string list" where
  "waiting_inputs t st = filter (\<lambda>obj. fast_state (rs_table st) obj \<noteq> Some Live) (ts_inputs t)"

fun wait_inputs :: "nat \<Rightarrow> task_spec \<Rightarrow> run_state \<Rightarrow> run_state res" where
  "wait_inputs n t st =
     (if waiting_inputs t st = [] then Inr st
      else case n of
             0 \<Rightarrow> Inl OutOfFuel
           | Suc n \<Rightarrow> bindE (step (ts_inputs t) True st) (wait_inputs n t))"

definition fast_out :: "task_spec \<Rightarrow> int" where
  "fast_out t = (\<Sum>out \<leftarrow> filter (\<lambda>out. ou_location out = ''fast'') (ts_outputs t). ou_size_bytes out)"

definition backing_out :: "task_spec \<Rightarrow> int" where
  "backing_out t = (\<Sum>out \<leftarrow> filter (\<lambda>out. ou_location out = ''backing'') (ts_outputs t). ou_size_bytes out)"

definition busy_outputs :: "task_spec \<Rightarrow> string list \<Rightarrow> run_state \<Rightarrow> string list" where
  "busy_outputs t escaped st =
     map ou_id (filter (\<lambda>out. ou_location out = ''fast'' \<and> ou_id out \<notin> set escaped \<and>
         \<not> can_get (rs_pool st) (ou_location out) (ou_size_bytes out) (Some (ou_id out))) (ts_outputs t))"

text \<open>The reserve loop returns the outputs that escape their placed offsets, whether the dispatcher
  had to step while blocked, and the state.\<close>

fun wait_reserve ::
  "nat \<Rightarrow> task_spec \<Rightarrow> string list \<Rightarrow> bool \<Rightarrow> run_state \<Rightarrow> (string list \<times> bool \<times> run_state) res" where
  "wait_reserve n t escaped was_blocked st =
     bindE (can_reserve (rs_ledger st) ''fast'' (fast_out t)) (\<lambda>can_res.
       let busy = busy_outputs t escaped st
       in if can_res \<and> busy = [] then Inr (escaped, was_blocked, st)
          else case n of
                 0 \<Rightarrow> Inl OutOfFuel
               | Suc n \<Rightarrow>
                   (case take_token st of
                      (Some tok, st) \<Rightarrow> bindE (handle tok st) (wait_reserve n t escaped was_blocked)
                    | (None, st) \<Rightarrow>
                        (if can_res \<and> busy \<noteq> []
                         then wait_reserve n t (escaped @ busy) was_blocked
                                (fold (\<lambda>oid. log_event ''placement_escape'' (Some oid) (Some (ts_id t)) []) busy st)
                         else bindE (step (ts_inputs t) False st) (wait_reserve n t escaped True))))"

definition reserve_output :: "task_spec \<Rightarrow> string list \<Rightarrow> output_spec \<Rightarrow> run_state \<Rightarrow> run_state res" where
  "reserve_output t escaped out st =
     bindE (rs_charge (ou_location out) (ou_size_bytes out) st) (\<lambda>st.
     bindE ((if ou_id out \<in> set escaped
             then rs_get_escaped (ou_location out) (ou_size_bytes out) (ou_id out)
             else rs_get (ou_location out) (ou_size_bytes out) (Some (ou_id out))) st) (\<lambda>(buf, st).
     let (rec, tb) = table_add (rs_table st)
           (new_record (ou_id out) (ou_size_bytes out) (ou_role out) (ou_tensor out));
         st = st\<lparr>rs_table := tb\<rparr>
     in bindE (guardE (slot_at rec (ou_location out) = None)
                 (ExecutionError ''output collides with an existing slot'')) (\<lambda>_.
        Inr (log_event ''reserve'' (Some (ou_id out)) (Some (ts_id t)) []
              (put_record (ou_id out) (set_slot rec (ou_location out)
                 (Some \<lparr>sl_buffer = buf, sl_state = Reserved, sl_version = ob_version rec,
                        sl_ready_event = None\<rparr>)) st)))))"

definition synthetic_launch :: "task_spec \<Rightarrow> token fake_backend \<Rightarrow> stream \<Rightarrow> stream res" where
  "synthetic_launch t b s = Inr (snd (advance_stream b s (ts_runtime_us t)))"

text \<open>\<open>in_buffers\<close> and \<open>mut_buffers\<close> of the task context.\<close>

definition bind_inputs :: "task_spec \<Rightarrow> run_state \<Rightarrow> (string \<times> buffer) list res" where
  "bind_inputs t st =
     mapE (\<lambda>obj. bindE (table_get (rs_table st) obj) (\<lambda>rec.
       case ob_fast rec of None \<Rightarrow> Inl (AttributeError ''buffer'') | Some s \<Rightarrow> Inr (obj, sl_buffer s)))
       (ts_inputs t)"

definition launch_task ::
  "(task_spec \<Rightarrow> token fake_backend \<Rightarrow> stream \<Rightarrow> stream res) \<Rightarrow> task_spec \<Rightarrow> run_state \<Rightarrow> run_state res" where
  "launch_task launch t st =
     bindE (bind_inputs t st) (\<lambda>in_buffers.
     bindE (mapE (\<lambda>obj. case dget in_buffers obj of None \<Rightarrow> Inl (KeyError obj) | Some b \<Rightarrow> Inr (obj, b))
              (ts_mutates t)) (\<lambda>mut_buffers.
     let s = align_stream_to_host (rs_backend st) (rs_compute st);
         (start_event, b) = record_event (rs_backend st) s
     in bindE (launch t b s) (\<lambda>s.
        let (done_event, b) = record_event b s;
            b = notify_after b done_event (TaskDone t start_event done_event) PRIORITY_TASK_DONE
        in Inr (st\<lparr>rs_compute := s, rs_backend := b, rs_outstanding_task := Some (ts_id t)\<rparr>))))"

definition dispatch_task ::
  "nat \<Rightarrow> (task_spec \<Rightarrow> token fake_backend \<Rightarrow> stream \<Rightarrow> stream res) \<Rightarrow> (nat \<Rightarrow> bool) \<Rightarrow> nat \<times> task_spec \<Rightarrow>
   run_state \<Rightarrow> run_state res" where
  "dispatch_task n launch cancelled it st = (case it of (task_pos, t) \<Rightarrow>
     if cancelled task_pos then Inl CancelledRun
     else if ts_host t then Inl (ExecutionError ''host task in the engine'')
     else
       let st = st\<lparr>rs_cursor := int task_pos, rs_current_task_id := Some (ts_id t)\<rparr>
       in bindE (wait_retired n (ts_inputs t) st) (\<lambda>st.
          bindE (wait_inputs n t st) (\<lambda>st.
          bindE (wait_reserve n t [] False st) (\<lambda>(escaped, was_blocked, st).
          bindE (can_reserve (rs_ledger st) ''backing'' (backing_out t)) (\<lambda>ok.
          if \<not> ok then Inl (ExecutionError ''cannot allocate on backing'')
          else
            bindE (foldE (reserve_output t escaped) (ts_outputs t) st) (\<lambda>st.
            bindE (if was_blocked then try_start FromSlow False st else Inr st) (\<lambda>st.
            launch_task launch t st)))))))"

section \<open>A whole run\<close>

fun drain :: "nat \<Rightarrow> run_state \<Rightarrow> run_state res" where
  "drain n st =
     (case take_token st of
        (None, st) \<Rightarrow> Inr st
      | (Some tok, st) \<Rightarrow>
          (case n of 0 \<Rightarrow> Inl OutOfFuel | Suc n \<Rightarrow> bindE (handle tok st) (drain n)))"

declare wait_retired.simps [simp del] wait_inputs.simps [simp del] wait_reserve.simps [simp del] drain.simps [simp del]

definition materialize_intervals :: "run_state \<Rightarrow> run_state" where
  "materialize_intervals st =
     st\<lparr>rs_trace := fold (\<lambda>(name, e0, e1, track). add_interval name (event_time_us e0) (event_time_us e1) track)
          (rs_pending_intervals st) (rs_trace st),
        rs_pending_intervals := []\<rparr>"

definition final_location_violations :: "program \<Rightarrow> object_table \<Rightarrow> string list" where
  "final_location_violations p tb =
     concat (map (\<lambda>(oid, loc).
       case dget tb oid of
         None \<Rightarrow> [oid]
       | Some rec \<Rightarrow>
           (case slot_at rec loc of
              None \<Rightarrow> [oid]
            | Some s \<Rightarrow> (if sl_state s \<noteq> Live \<or> sl_version s \<noteq> ob_version rec then [oid] else [])))
       (pr_final_locations p))"

definition reclaim_slot :: "slot option \<Rightarrow> run_state \<Rightarrow> run_state res" where
  "reclaim_slot s st =
     (case s of
        None \<Rightarrow> Inr st
      | Some s \<Rightarrow> (if bf_ref (sl_buffer s) \<in> set (rs_provided st) then Inr st else rs_put (sl_buffer s) st))"

definition reclaim :: "run_state \<Rightarrow> run_state res" where
  "reclaim st =
     foldE (\<lambda>(oid, rec) st. bindE (reclaim_slot (ob_fast rec) st) (reclaim_slot (ob_backing rec)))
       (rs_table st) st"

record run_result =
  rr_trace :: run_trace
  rr_makespan_us :: time
  rr_peak_fast_bytes :: int
  rr_peak_backing_bytes :: int
  rr_final_location_violations :: "string list"
  rr_buffers_allocated :: int
  rr_buffers_reused :: int
  rr_slab_overflows :: int
  rr_placement_escapes :: int
  rr_pressure_evictions :: int
  rr_pool_demand :: "(string \<times> int, int) dict"
  rr_objects :: object_table

record engine_config =
  en_validate :: bool
  en_strict_final_locations :: bool
  en_poison_on_free :: bool

definition stuck_transfers :: "run_state \<Rightarrow> bool" where
  "stuck_transfers st \<longleftrightarrow>
     tx_queue (rs_h2d st) \<noteq> [] \<or> tx_queue (rs_d2h st) \<noteq> [] \<or> rs_deferred st \<noteq> []"

text \<open>After the dispatch loop: drain, intervals, the stuck and final-location checks, reclamation.\<close>

definition finish_run :: "nat \<Rightarrow> engine_config \<Rightarrow> program \<Rightarrow> run_state \<Rightarrow> (run_result \<times> run_state) res" where
  "finish_run n cfg p st =
     bindE (drain n st) (\<lambda>st.
     let st = materialize_intervals st
     in bindE (guardE (\<not> stuck_transfers st) (DeadlockError ''transfers still queued'')) (\<lambda>_.
        let violations = final_location_violations p (rs_table st)
        in bindE (guardE (violations = [] \<or> \<not> en_strict_final_locations cfg)
                    (ExecutionError ''final_locations violated'')) (\<lambda>_.
           bindE (reclaim st) (\<lambda>st.
           let st = st\<lparr>rs_trace := (rs_trace st)\<lparr>rt_peak_fast_bytes := lg_peak_fast_bytes (rs_ledger st)\<rparr>\<rparr>;
               pl = rs_pool st
           in Inr (\<lparr>rr_trace = rs_trace st, rr_makespan_us = makespan_us (rs_trace st),
                    rr_peak_fast_bytes = lg_peak_fast_bytes (rs_ledger st),
                    rr_peak_backing_bytes = lg_peak_backing_bytes (rs_ledger st),
                    rr_final_location_violations = violations,
                    rr_buffers_allocated = po_allocated_count pl,
                    rr_buffers_reused = po_reused_count pl,
                    rr_slab_overflows = po_slab_overflows pl,
                    rr_placement_escapes = po_placement_escapes pl,
                    rr_pressure_evictions = rs_pressure_evictions st,
                    rr_pool_demand = po_allocated_by_key pl,
                    rr_objects = rs_table st\<rparr>, st)))))"

text \<open>The pool of a run without a session: slabs only on a physical backend.\<close>

definition run_pool :: "program \<Rightarrow> bool \<Rightarrow> token pool_backend \<Rightarrow> token pool_backend res" where
  "run_pool p placed pb =
     (if \<not> fb_physical (snd pb) then Inr pb
      else
        bindE (case pr_fast_memory_capacity p of
            Some cap \<Rightarrow> (if placed then Inr pb else add_slab ''fast'' cap (min (3 * 1024 ^ 3) cap) pb)
          | None \<Rightarrow> Inr pb) (\<lambda>pb.
        case pr_backing_memory_capacity p of
          Some cap \<Rightarrow> add_slab ''backing'' cap 0 pb
        | None \<Rightarrow> Inr pb))"

definition attach_placement ::
  "placement option \<Rightarrow> placement_recorder option \<Rightarrow> token pool_backend \<Rightarrow> token pool_backend res" where
  "attach_placement placement recorder pb = (case pb of (p, b) \<Rightarrow>
     let p = p\<lparr>po_recorder := recorder\<rparr>
     in case (placement, po_placement p) of
          (Some pl, None) \<Rightarrow> enable_placement pl (p, b)
        | (_, Some _) \<Rightarrow> Inr (reset_placement_epoch p, b)
        | (None, None) \<Rightarrow> Inr (p, b))"

definition initial_state ::
  "engine_config \<Rightarrow> program \<Rightarrow> stream \<times> stream \<times> stream \<Rightarrow> (string, buffer) dict \<Rightarrow> token pool_backend \<Rightarrow> run_state" where
  "initial_state cfg p streams initial_buffers pb = (case streams of (compute, h2d, d2h) \<Rightarrow>
     \<lparr>rs_backend = snd pb,
      rs_ledger = new_ledger (pr_fast_memory_capacity p) (pr_backing_memory_capacity p),
      rs_pool = fst pb, rs_table = [], rs_trace = new_trace, rs_pending_intervals = [],
      rs_compute = compute, rs_poison = en_poison_on_free cfg,
      rs_h2d = new_engine FromSlow h2d (pr_bandwidth_from_slow p),
      rs_d2h = new_engine ToSlow d2h (pr_bandwidth_to_slow p),
      rs_deferred = [], rs_chain = build_chain_index p,
      rs_final_locations = pr_final_locations p,
      rs_provided = map (\<lambda>(k, b). bf_ref b) initial_buffers,
      rs_outstanding_task = None, rs_cursor = 0, rs_current_task_id = None,
      rs_pressure_evictions = 0, rs_prefetch_override = []\<rparr>)"

record session =
  se_pool :: "pool option"
  se_slab_caps :: "(string, int) dict option"
  se_streams :: "(stream \<times> stream \<times> stream) option"
  se_unrecoverable :: bool

definition make_streams :: "token fake_backend \<Rightarrow> (stream \<times> stream \<times> stream) \<times> token fake_backend" where
  "make_streams b =
     (let (c, b) = create_stream b ''compute''; (h, b) = create_stream b ''h2d'';
          (d, b) = create_stream b ''d2h''
      in ((c, h, d), b))"

definition ensure_streams ::
  "session \<Rightarrow> token fake_backend \<Rightarrow> (stream \<times> stream \<times> stream) \<times> session \<times> token fake_backend" where
  "ensure_streams se b =
     (case se_streams se of
        Some s \<Rightarrow> (s, se, b)
      | None \<Rightarrow> (let (s, b) = make_streams b in (s, se\<lparr>se_streams := Some s\<rparr>, b)))"

definition ensure_pool ::
  "program \<Rightarrow> bool \<Rightarrow> session \<Rightarrow> token fake_backend \<Rightarrow> (session \<times> token pool_backend) res" where
  "ensure_pool p placed se b =
     (let caps = (case pr_fast_memory_capacity p of
                    Some c \<Rightarrow> (if placed then [] else [(''fast'', c)]) | None \<Rightarrow> [])
               @ (case pr_backing_memory_capacity p of Some c \<Rightarrow> [(''backing'', c)] | None \<Rightarrow> [])
      in case se_pool se of
           None \<Rightarrow>
             bindE (if fb_physical b
                    then foldE (\<lambda>(loc, cap) pb.
                           add_slab loc cap (if loc = ''fast'' then min (3 * 1024 ^ 3) cap else 0) pb)
                           caps (new_pool, b)
                    else Inr (new_pool, b)) (\<lambda>(pl, b).
               Inr (se\<lparr>se_pool := Some pl, se_slab_caps := Some caps\<rparr>, (pl, b)))
         | Some pl \<Rightarrow>
             (case se_slab_caps se of
                Some old \<Rightarrow> (if dict_eq old caps then Inr (se, (pl, b))
                             else Inl (ValueError ''session slabs sized for another budget''))
              | None \<Rightarrow> Inl (ValueError ''session slabs sized for another budget'')))"

definition run_program ::
  "nat \<Rightarrow> (task_spec \<Rightarrow> token fake_backend \<Rightarrow> stream \<Rightarrow> stream res) \<Rightarrow> (nat \<Rightarrow> bool) \<Rightarrow> engine_config \<Rightarrow>
   program \<Rightarrow> (string, buffer) dict \<Rightarrow> run_state \<Rightarrow> (run_result \<times> run_state) res" where
  "run_program n launch cancelled cfg p initial_buffers st =
     bindE (foldE (load_initial initial_buffers) (pr_initial_objects p) st) (\<lambda>st.
     bindE (upload_initial initial_buffers p st) (\<lambda>st.
     bindE (foldE (dispatch_task n launch cancelled) (enumerate 0 (pr_tasks p)) st) (finish_run n cfg p)))"

record run_options =
  op_placement :: "placement option"
  op_recorder :: "placement_recorder option"
  op_prewarm :: "(string \<times> int, int) dict"
  op_initial_buffers :: "(string, buffer) dict"

definition run_dispatch ::
  "nat \<Rightarrow> (task_spec \<Rightarrow> token fake_backend \<Rightarrow> stream \<Rightarrow> stream res) \<Rightarrow> (nat \<Rightarrow> bool) \<Rightarrow> engine_config \<Rightarrow>
   run_options \<Rightarrow> program \<Rightarrow> session option \<Rightarrow> token fake_backend \<Rightarrow> (run_result \<times> run_state) res" where
  "run_dispatch n launch cancelled cfg opts p se b =
     bindE (guardE (en_validate cfg \<longrightarrow> validate_program p = Valid) (ValueError ''invalid program'')) (\<lambda>_.
     let placed = op_placement opts \<noteq> None;
         (streams, se, b) = (case se of
            Some s \<Rightarrow> (let (st, s, b) = ensure_streams s b in (st, Some s, b))
          | None \<Rightarrow> (let (st, b) = make_streams b in (st, None, b)))
     in bindE (case se of
            Some s \<Rightarrow> bindE (ensure_pool p placed s b) (\<lambda>(s, pb). Inr pb)
          | None \<Rightarrow> run_pool p placed (new_pool, b)) (\<lambda>pb.
        bindE (attach_placement (op_placement opts) (op_recorder opts) pb) (\<lambda>pb.
        bindE (if op_prewarm opts = [] then Inr pb else prewarm (op_prewarm opts) pb) (\<lambda>pb.
        run_program n launch cancelled cfg p (op_initial_buffers opts)
          (initial_state cfg p streams (op_initial_buffers opts) pb)))))"

section \<open>The failure boundary\<close>

datatype run_outcome =
    Succeeded run_result
  | Failed err
  | Cancelled
  | Raised err

text \<open>\<open>ENGINE_INVARIANT_ERRORS\<close>, re-raised; everything else becomes an outcome.\<close>

fun engine_invariant_error :: "err \<Rightarrow> bool" where
  "engine_invariant_error (ExecutionError _) = True"
| "engine_invariant_error (DeadlockError _) = True"
| "engine_invariant_error (LedgerError _) = True"
| "engine_invariant_error (SlabError _) = True"
| "engine_invariant_error (TransferError _) = True"
| "engine_invariant_error (PlacementError _) = True"
| "engine_invariant_error _ = False"

definition execute ::
  "nat \<Rightarrow> (task_spec \<Rightarrow> token fake_backend \<Rightarrow> stream \<Rightarrow> stream res) \<Rightarrow> (nat \<Rightarrow> bool) \<Rightarrow> engine_config \<Rightarrow>
   run_options \<Rightarrow> program \<Rightarrow> session option \<Rightarrow> token fake_backend \<Rightarrow> run_outcome" where
  "execute n launch cancelled cfg opts p se b =
     (if (case se of None \<Rightarrow> False | Some s \<Rightarrow> se_unrecoverable s)
      then Raised (ExecutionError ''session is unrecoverable'')
      else case run_dispatch n launch cancelled cfg opts p se b of
             Inr (res, _) \<Rightarrow> Succeeded res
           | Inl CancelledRun \<Rightarrow> Cancelled
           | Inl e \<Rightarrow> (if engine_invariant_error e then Raised e else Failed e))"

end
