(* ===== verification/Engine_Frames.thy ===== *)
theory Engine_Frames
  imports Engine
begin

text \<open>
  What the primitives of the run state leave unchanged, and which errors they can raise. Every
  primitive is described by the record update it performs, so that the simplifier computes the
  frame of each handler.
\<close>

section \<open>Errors of the resource primitives\<close>

fun resource_err :: "err \<Rightarrow> bool" where
  "resource_err (LedgerError _) = False"
| "resource_err (DeadlockError _) = False"
| "resource_err OutOfFuel = False"
| "resource_err _ = True"

text \<open>A backend that differs only in allocation and sequence counters.\<close>

definition same_queue :: "'tok fake_backend \<Rightarrow> 'tok fake_backend \<Rightarrow> bool" where
  "same_queue b b' \<longleftrightarrow>
     fb_pending b' = fb_pending b \<and> fb_host_us b' = fb_host_us b \<and> fb_time_scale b' = fb_time_scale b \<and>
     fb_physical b' = fb_physical b \<and> fb_seq b \<le> fb_seq b'"

lemma same_queue_refl [simp]: "same_queue b b"
  by (simp add: same_queue_def)

lemma same_queue_trans: "same_queue a b \<Longrightarrow> same_queue b c \<Longrightarrow> same_queue a c"
  by (auto simp: same_queue_def)

lemma same_queue_inv: "same_queue b b' \<Longrightarrow> backend_inv b \<Longrightarrow> backend_inv b'"
  by (fastforce simp: same_queue_def backend_inv_def)

lemma record_event_frame: "record_event b s = (e, b') \<Longrightarrow> same_queue b b' \<and> ev_time_us e = st_clock_us s"
  by (auto simp: record_event_def same_queue_def Let_def)

lemma alloc_outcome: "outcome resource_err (\<lambda>(buf, b'). same_queue b b') (alloc b l n)"
  by (auto simp: alloc_def Let_def same_queue_def split: option.splits)

lemma guard_complete_outcome: "outcome resource_err (\<lambda>_. True) (guard_complete b g)"
  by (auto simp: guard_complete_def split: list.splits)

lemma flush_pooled_outcome: "outcome resource_err (\<lambda>_. True) (flush_pooled b l p)"
proof -
  have buf: "outcome resource_err (\<lambda>_. True) (flush_buffer b buf st)" for buf st
    using guard_complete_outcome [of b "bf_guard_event buf"]
    by (auto simp: flush_buffer_def split: prod.splits raw.splits intro: outcome_bind)
  have "outcome resource_err (\<lambda>_. True) (flush_list b l key p)" for key p
    by (auto simp: flush_list_def intro!: outcome_bind [OF outcome_foldE_inv] buf split: prod.splits)
  then show ?thesis unfolding flush_pooled_def by (intro outcome_foldE_inv) auto
qed

lemma make_buffer_outcome: "outcome resource_err (\<lambda>_. True) (make_buffer s off n seq)"
  by (auto simp: make_buffer_def split: option.splits)

lemma slab_buffer_outcome: "outcome resource_err (\<lambda>_. True) (slab_buffer s off n seq)"
  using make_buffer_outcome by (auto simp: slab_buffer_def split: option.splits)

lemma carve_overflow_outcome:
  "outcome resource_err (\<lambda>(buf, p, b'). same_queue b b') (carve_overflow l n (p, b))"
proof -
  have vendor: "outcome resource_err (\<lambda>(buf, p, b'). same_queue b b')
      (bindE (alloc b l n) (\<lambda>(buf, b). Inr (buf, p\<lparr>po_slab_overflows := po_slab_overflows p + 1\<rparr>, b)))"
    by (rule outcome_bind [OF alloc_outcome]) (auto split: prod.splits)
  then show ?thesis
    unfolding carve_overflow_def Let_def
    by (auto split: option.splits prod.splits intro!: outcome_bind [OF make_buffer_outcome])
qed

lemma carve_outcome: "outcome resource_err (\<lambda>(buf, p, b'). same_queue b b') (carve l n (p, b))"
proof -
  have "outcome resource_err (\<lambda>_. True)
      (case carve_main l n p of (Some off, p) \<Rightarrow> Inr (Some off, p)
         | (None, p) \<Rightarrow> bindE (flush_pooled b l p) (\<lambda>p. Inr (carve_main l n p)))"
    by (auto split: option.splits prod.splits intro!: outcome_bind [OF flush_pooled_outcome])
  then show ?thesis
    unfolding carve_def
    by (auto intro!: outcome_bind carve_overflow_outcome outcome_bind [OF slab_buffer_outcome]
        simp: Let_def split: option.splits)
qed

lemma get_dynamic_outcome: "outcome resource_err (\<lambda>(buf, p, b'). same_queue b b') (get_dynamic l n (p, b))"
  unfolding get_dynamic_def Let_def
  by (auto intro!: outcome_bind [OF alloc_outcome] carve_outcome split: option.splits)

lemma get_escaped_outcome: "outcome resource_err (\<lambda>(buf, p, b'). same_queue b b') (get_escaped l n tg (p, b))"
  by (simp add: get_escaped_def Let_def get_dynamic_outcome)

lemma get_placed_outcome: "outcome resource_err (\<lambda>(buf, p, b'). same_queue b b') (get_placed pl tg off n (p, b))"
  by (auto simp: get_placed_def Let_def split: option.splits prod.splits)

lemma pool_get_outcome: "outcome resource_err (\<lambda>(buf, p, b'). same_queue b b') (pool_get l n tag (p, b))"
proof -
  have rec: "outcome resource_err (\<lambda>(buf, p, b'). same_queue b b')
      (bindE (get_dynamic l n (p, b)) (\<lambda>(buf, pb). Inr (buf\<lparr>bf_tag := Some key\<rparr>, pb)))" for l p key
    by (rule outcome_bind [OF get_dynamic_outcome]) (auto split: prod.splits)
  show ?thesis
    unfolding pool_get_def Let_def
    by (auto intro!: get_dynamic_outcome get_placed_outcome rec split: option.splits)
qed

lemma pool_put_outcome: "outcome resource_err (\<lambda>_. True) (pool_put b buf p)"
  unfolding pool_put_def Let_def
  by (auto intro!: outcome_bind [OF guard_complete_outcome] split: option.splits)

section \<open>Shapes of the run-state primitives\<close>

lemma log_event_shape: "\<exists>tr. log_event k o1 t d st = st\<lparr>rs_trace := tr\<rparr>"
  by (auto simp: log_event_def)

lemma on_ledger_change_shape: "\<exists>tr. on_ledger_change l st = st\<lparr>rs_trace := tr\<rparr>"
proof (cases "l = ''fast''")
  case True
  then show ?thesis by (auto simp: on_ledger_change_def)
next
  case False
  then have "on_ledger_change l st = st\<lparr>rs_trace := rs_trace st\<rparr>" by (simp add: on_ledger_change_def)
  then show ?thesis by blast
qed

lemma rs_charge_shape:
  "rs_charge loc n st = Inr st' \<Longrightarrow>
     \<exists>l tr. charge (rs_ledger st) loc n = Inr l \<and> st' = st\<lparr>rs_ledger := l, rs_trace := tr\<rparr>"
proof -
  assume "rs_charge loc n st = Inr st'"
  then obtain l where l: "charge (rs_ledger st) loc n = Inr l"
    and st': "st' = (if n \<le> 0 then st\<lparr>rs_ledger := l\<rparr> else on_ledger_change loc (st\<lparr>rs_ledger := l\<rparr>))"
    by (auto simp: rs_charge_def Let_def bindE_eq_Inr)
  obtain tr where tr: "on_ledger_change loc (st\<lparr>rs_ledger := l\<rparr>) = st\<lparr>rs_ledger := l\<rparr>\<lparr>rs_trace := tr\<rparr>"
    using on_ledger_change_shape by blast
  show ?thesis
  proof (cases "n \<le> 0")
    case True
    then have "st' = st\<lparr>rs_ledger := l, rs_trace := rs_trace st\<rparr>" using st' by simp
    with l show ?thesis by blast
  next
    case False
    with st' tr l show ?thesis by auto
  qed
qed

lemma rs_release_shape:
  "rs_release loc n st = Inr st' \<Longrightarrow>
     \<exists>l tr. release (rs_ledger st) loc n = Inr l \<and> st' = st\<lparr>rs_ledger := l, rs_trace := tr\<rparr>"
proof -
  assume "rs_release loc n st = Inr st'"
  then obtain l where l: "release (rs_ledger st) loc n = Inr l"
    and st': "st' = (if n \<le> 0 then st\<lparr>rs_ledger := l\<rparr> else on_ledger_change loc (st\<lparr>rs_ledger := l\<rparr>))"
    by (auto simp: rs_release_def Let_def bindE_eq_Inr)
  obtain tr where tr: "on_ledger_change loc (st\<lparr>rs_ledger := l\<rparr>) = st\<lparr>rs_ledger := l\<rparr>\<lparr>rs_trace := tr\<rparr>"
    using on_ledger_change_shape by blast
  show ?thesis
  proof (cases "n \<le> 0")
    case True
    then have "st' = st\<lparr>rs_ledger := l, rs_trace := rs_trace st\<rparr>" using st' by simp
    with l show ?thesis by blast
  next
    case False
    with st' tr l show ?thesis by auto
  qed
qed

text \<open>A state reached by pool traffic only: new pool, backend with the same completion queue.\<close>

definition pool_shift :: "run_state \<Rightarrow> run_state \<Rightarrow> bool" where
  "pool_shift st st' \<longleftrightarrow>
     (\<exists>p b. st' = st\<lparr>rs_pool := p, rs_backend := b\<rparr> \<and> same_queue (rs_backend st) b)"

lemma rs_get_outcome: "outcome resource_err (\<lambda>(buf, st'). pool_shift st st') (rs_get l n tag st)"
  unfolding rs_get_def pool_shift_def
  by (rule outcome_bind [OF pool_get_outcome]) (auto split: prod.splits)

lemma rs_get_escaped_outcome: "outcome resource_err (\<lambda>(buf, st'). pool_shift st st') (rs_get_escaped l n tag st)"
  unfolding rs_get_escaped_def pool_shift_def
  by (rule outcome_bind [OF get_escaped_outcome]) (auto split: prod.splits)

lemma rs_put_outcome: "outcome resource_err (pool_shift st) (rs_put buf st)"
proof -
  have "\<exists>p' b. st\<lparr>rs_pool := p\<rparr> = st\<lparr>rs_pool := p', rs_backend := b\<rparr> \<and> same_queue (rs_backend st) b" for p
    by (rule exI [of _ p], rule exI [of _ "rs_backend st"]) simp
  then show ?thesis
    unfolding rs_put_def pool_shift_def by (intro outcome_bind [OF pool_put_outcome]) simp
qed

lemma poison_put_outcome: "outcome resource_err (pool_shift st) (poison_put buf st)"
proof -
  obtain buf' st1 where p: "poison buf st = (buf', st1)" by (cases "poison buf st")
  have shape: "\<exists>b. st1 = st\<lparr>rs_backend := b\<rparr> \<and> same_queue (rs_backend st) b"
  proof (cases "\<not> rs_poison st \<or> bf_location buf \<noteq> ''fast''")
    case True
    then have "st1 = st\<lparr>rs_backend := rs_backend st\<rparr>" using p by (auto simp: poison_def)
    then show ?thesis using same_queue_refl by blast
  next
    case False
    then show ?thesis using p by (auto simp: poison_def Let_def dest: record_event_frame split: prod.splits)
  qed
  then obtain b where b: "st1 = st\<lparr>rs_backend := b\<rparr>" "same_queue (rs_backend st) b" by blast
  have "outcome resource_err (pool_shift st) (rs_put buf' st1)"
  proof (rule outcome_weaken [OF rs_put_outcome])
    fix st' assume "pool_shift st1 st'"
    then obtain p' b' where "st' = st1\<lparr>rs_pool := p', rs_backend := b'\<rparr>" "same_queue b b'"
      using b by (auto simp: pool_shift_def)
    then have "st' = st\<lparr>rs_pool := p', rs_backend := b'\<rparr>" "same_queue (rs_backend st) b'"
      using b same_queue_trans by auto
    then show "pool_shift st st'" unfolding pool_shift_def by blast
  qed simp
  then show ?thesis by (simp add: poison_put_def p)
qed

lemma pool_shiftD:
  assumes "pool_shift st st'"
  shows "rs_ledger st' = rs_ledger st" and "rs_table st' = rs_table st" and "rs_h2d st' = rs_h2d st"
    and "rs_d2h st' = rs_d2h st" and "rs_deferred st' = rs_deferred st" and "rs_trace st' = rs_trace st"
    and "rs_chain st' = rs_chain st" and "rs_outstanding_task st' = rs_outstanding_task st"
    and "rs_pressure_evictions st' = rs_pressure_evictions st" and "rs_cursor st' = rs_cursor st"
    and "rs_final_locations st' = rs_final_locations st" and "rs_provided st' = rs_provided st"
    and "rs_compute st' = rs_compute st" and "rs_poison st' = rs_poison st"
    and "rs_pending_intervals st' = rs_pending_intervals st"
    and "fb_pending (rs_backend st') = fb_pending (rs_backend st)"
    and "fb_host_us (rs_backend st') = fb_host_us (rs_backend st)"
    and "same_queue (rs_backend st) (rs_backend st')"
  using assms by (auto simp: pool_shift_def same_queue_def)

lemma transfer_runtime_outcome: "outcome resource_err (\<lambda>d. 0 \<le> d) (transfer_runtime_us e n r)"
  by (auto simp: transfer_runtime_us_def split: option.splits)

text \<open>Engines of the run state.\<close>

lemma engine_of_simps [simp]:
  "engine_of FromSlow st = rs_h2d st"
  "engine_of ToSlow st = rs_d2h st"
  by (simp_all add: engine_of_def)

lemma set_engine_simps [simp]:
  "set_engine FromSlow e st = st\<lparr>rs_h2d := e\<rparr>"
  "set_engine ToSlow e st = st\<lparr>rs_d2h := e\<rparr>"
  by (simp_all add: set_engine_def)

text \<open>What starting a copy does: the stream moves, the job is in flight, its token is pending.\<close>

definition copy_started :: "direction \<Rightarrow> transfer_job \<Rightarrow> run_state \<Rightarrow> run_state \<Rightarrow> bool" where
  "copy_started d job st st' \<longleftrightarrow>
     (\<exists>job' b e names s. st' = set_engine d ((engine_of d st)\<lparr>tx_name_seq := names, tx_stream := s,
          tx_inflight := Some job'\<rparr>) (st\<lparr>rs_backend := b\<rparr>) \<and>
        tj_object_id job' = tj_object_id job \<and> tj_size_bytes job' = tj_size_bytes job \<and>
        tj_start_event job' \<noteq> None \<and> tj_done_event job' = Some e \<and>
        fb_host_us b = fb_host_us (rs_backend st) \<and>
        mset (fb_pending b) = add_mset \<lparr>pe_time = ev_time_us e,
           pe_priority = (case d of FromSlow \<Rightarrow> PRIORITY_H2D_DONE | ToSlow \<Rightarrow> PRIORITY_D2H_DONE),
           pe_seq = fb_seq b, pe_token = TransferDone d job'\<rparr> (mset (fb_pending (rs_backend st))) \<and>
        (backend_inv (rs_backend st) \<longrightarrow> backend_inv b))"

lemma run_copy_outcome: "outcome resource_err (copy_started d job st) (run_copy d job guards ready st)"
proof -
  let ?e = "engine_of d st"
  define s where "s = align_stream_to_host (rs_backend st) (fold (\<lambda>ev s. stream_wait_event s ev) guards
    (case ready of None \<Rightarrow> stream_wait_event (tx_stream ?e) (tj_anchor_event job)
       | Some ev \<Rightarrow> stream_wait_event (stream_wait_event (tx_stream ?e) (tj_anchor_event job)) ev))"
  obtain e0 b0 where e0: "record_event (rs_backend st) s = (e0, b0)" by (cases "record_event (rs_backend st) s")
  show ?thesis
    unfolding run_copy_def Let_def s_def [symmetric] e0 prod.case
  proof (rule outcome_bind [OF transfer_runtime_outcome])
    fix dur
    obtain iv s1 where adv: "advance_stream b0 s dur = (iv, s1)" by (cases "advance_stream b0 s dur")
    obtain e1 b1 where e1: "record_event b0 s1 = (e1, b1)" by (cases "record_event b0 s1")
    obtain nm en where nm: "interval_name ?e (tj_object_id job) = (nm, en)" by (cases "interval_name ?e (tj_object_id job)")
    have en: "\<exists>names. en = ?e\<lparr>tx_name_seq := names\<rparr>"
      using nm by (auto simp: interval_name_def Let_def)
    have q: "same_queue (rs_backend st) b1"
      using record_event_frame [OF e0] record_event_frame [OF e1] same_queue_trans by blast
    let ?pr = "case d of FromSlow \<Rightarrow> PRIORITY_H2D_DONE | ToSlow \<Rightarrow> PRIORITY_D2H_DONE"
    define job' where "job' = job\<lparr>tj_start_event := Some e0, tj_done_event := Some e1, tj_interval_name := nm\<rparr>"
    define b' where "b' = notify_after b1 e1 (TransferDone d job') ?pr"
    obtain names where names: "en = ?e\<lparr>tx_name_seq := names\<rparr>" using en by blast
    have jb: "tj_object_id job' = tj_object_id job" "tj_size_bytes job' = tj_size_bytes job"
      "tj_start_event job' \<noteq> None" "tj_done_event job' = Some e1"
      by (simp_all add: job'_def)
    have bb: "fb_host_us b' = fb_host_us (rs_backend st)"
      "mset (fb_pending b') = add_mset \<lparr>pe_time = ev_time_us e1, pe_priority = ?pr, pe_seq = fb_seq b',
         pe_token = TransferDone d job'\<rparr> (mset (fb_pending (rs_backend st)))"
      using q by (simp_all add: b'_def notify_after_def Let_def same_queue_def)
    have bi: "backend_inv (rs_backend st) \<longrightarrow> backend_inv b'"
      unfolding b'_def by (intro impI notify_after_inv same_queue_inv [OF q])
    have "copy_started d job st (set_engine d (en\<lparr>tx_stream := s1, tx_inflight := Some job'\<rparr>) (st\<lparr>rs_backend := b'\<rparr>))"
      unfolding copy_started_def names using jb bb bi by blast
    from this [unfolded job'_def b'_def]
    show "outcome resource_err (copy_started d job st) (bindE (memcpy_async b0 s (Some dur)) (\<lambda>(_, s).
         case record_event b0 s of (done_event, b) \<Rightarrow>
         case interval_name (engine_of d st) (tj_object_id job) of (name, e) \<Rightarrow>
         Inr (set_engine d (e\<lparr>tx_stream := s, tx_inflight := Some (job\<lparr>tj_start_event := Some e0,
             tj_done_event := Some done_event, tj_interval_name := name\<rparr>)\<rparr>)
           (st\<lparr>rs_backend := notify_after b done_event (TransferDone d (job\<lparr>tj_start_event := Some e0,
             tj_done_event := Some done_event, tj_interval_name := name\<rparr>))
             (case d of FromSlow \<Rightarrow> PRIORITY_H2D_DONE | ToSlow \<Rightarrow> PRIORITY_D2H_DONE)\<rparr>))))"
      unfolding memcpy_async_def option.case bindE_simps adv prod.case e1 nm outcome_simps .
  qed
qed

end
