(* ===== verification/Engine_Memory.thy ===== *)
theory Engine_Memory
  imports Engine_Frames
begin

text \<open>
  Memory safety of the engine: the byte ledger always covers the resident objects and never exceeds
  a capacity, whatever the completion order, and the engine never trips over its own ledger. The
  invariant \<open>acct\<close> relates the ledger, the object table and the pending transfer jobs; every handler
  is shown to keep it and to raise no \<open>LedgerError\<close>, and rule induction over \<open>engine_reach\<close> carries
  it to every state of a run.
\<close>

section \<open>The accounting invariant\<close>

definition weight :: "string \<Rightarrow> object_record \<Rightarrow> int" where
  "weight loc rec = (if slot_at rec loc = None then 0 else ob_size_bytes rec)"

text \<open>Bytes of the objects that hold a slot at a location.\<close>

definition resident :: "string \<Rightarrow> object_table \<Rightarrow> int" where
  "resident loc tb = dsum (weight loc) tb"

definition job_demand :: "transfer_job \<Rightarrow> string \<times> int" where
  "job_demand j = (tj_object_id j, tj_size_bytes j)"

definition engine_jobs :: "transfer_engine \<Rightarrow> transfer_job set" where
  "engine_jobs e = set (tx_queue e) \<union> set_option (tx_inflight e)"

definition deferred_jobs :: "(string, transfer_job list) dict \<Rightarrow> transfer_job set" where
  "deferred_jobs d = (\<Union>p \<in> set d. set (snd p))"

definition demands :: "run_state \<Rightarrow> (string \<times> int) set" where
  "demands st = job_demand ` (engine_jobs (rs_h2d st) \<union> engine_jobs (rs_d2h st) \<union> deferred_jobs (rs_deferred st))"

definition acct :: "string set \<Rightarrow> ledger \<Rightarrow> object_table \<Rightarrow> (string \<times> int) set \<Rightarrow> bool" where
  "acct K l tb D \<longleftrightarrow>
     ledger_inv l \<and> distinct (map fst tb) \<and> fst ` set tb = K \<and>
     (\<forall>oid rec. dget tb oid = Some rec \<longrightarrow> 0 < ob_size_bytes rec) \<and>
     resident ''fast'' tb \<le> used_of l ''fast'' \<and> resident ''backing'' tb = used_of l ''backing'' \<and>
     (\<forall>o1 n. (o1, n) \<in> D \<longrightarrow> (\<exists>rec. dget tb o1 = Some rec \<and> ob_size_bytes rec = n))"

abbreviation st_acct :: "string set \<Rightarrow> run_state \<Rightarrow> bool" where
  "st_acct K st \<equiv> acct K (rs_ledger st) (rs_table st) (demands st)"

text \<open>The invariant of a run whose table holds the objects \<open>K\<close>.\<close>

definition mem_ok :: "string set \<Rightarrow> run_state \<Rightarrow> bool" where
  "mem_ok K st \<longleftrightarrow> st_acct K st \<and> distinct (map fst (rs_deferred st))"

lemma demands_frame [simp]:
  "demands (st\<lparr>rs_ledger := a\<rparr>) = demands st"
  "demands (st\<lparr>rs_trace := b\<rparr>) = demands st"
  "demands (st\<lparr>rs_table := c\<rparr>) = demands st"
  "demands (st\<lparr>rs_pool := d\<rparr>) = demands st"
  "demands (st\<lparr>rs_backend := e\<rparr>) = demands st"
  "demands (st\<lparr>rs_pending_intervals := f\<rparr>) = demands st"
  "demands (st\<lparr>rs_outstanding_task := g\<rparr>) = demands st"
  "demands (st\<lparr>rs_pressure_evictions := h\<rparr>) = demands st"
  "demands (st\<lparr>rs_prefetch_override := i\<rparr>) = demands st"
  "demands (st\<lparr>rs_cursor := j\<rparr>) = demands st"
  "demands (st\<lparr>rs_current_task_id := k\<rparr>) = demands st"
  "demands (st\<lparr>rs_compute := m\<rparr>) = demands st"
  by (simp_all add: demands_def)

lemma log_event_frame [simp]:
  "rs_ledger (log_event k o1 t d st) = rs_ledger st"
  "rs_table (log_event k o1 t d st) = rs_table st"
  "rs_h2d (log_event k o1 t d st) = rs_h2d st"
  "rs_d2h (log_event k o1 t d st) = rs_d2h st"
  "rs_deferred (log_event k o1 t d st) = rs_deferred st"
  "rs_pool (log_event k o1 t d st) = rs_pool st"
  "rs_backend (log_event k o1 t d st) = rs_backend st"
  "demands (log_event k o1 t d st) = demands st"
  by (simp_all add: log_event_def)

lemma put_record_frame [simp]:
  "rs_ledger (put_record o1 r st) = rs_ledger st"
  "rs_table (put_record o1 r st) = dset o1 r (rs_table st)"
  "demands (put_record o1 r st) = demands st"
  "rs_backend (put_record o1 r st) = rs_backend st"
  "rs_pool (put_record o1 r st) = rs_pool st"
  "rs_h2d (put_record o1 r st) = rs_h2d st"
  "rs_d2h (put_record o1 r st) = rs_d2h st"
  "rs_deferred (put_record o1 r st) = rs_deferred st"
  by (simp_all add: put_record_def)

lemma pool_shift_acct: "pool_shift st st' \<Longrightarrow> demands st' = demands st \<and> rs_ledger st' = rs_ledger st \<and> rs_table st' = rs_table st"
  by (auto simp: pool_shift_def)

lemma enqueue_frame [simp]:
  "rs_ledger (enqueue d j st) = rs_ledger st"
  "rs_table (enqueue d j st) = rs_table st"
  "rs_pool (enqueue d j st) = rs_pool st"
  "rs_backend (enqueue d j st) = rs_backend st"
  "rs_deferred (enqueue d j st) = rs_deferred st"
  "demands (enqueue d j st) = insert (job_demand j) (demands st)"
  by (cases d; force simp: enqueue_def Let_def demands_def engine_jobs_def)+

lemma pop_queue_demands: "demands (pop_queue d st) \<subseteq> demands st"
proof -
  have "set (tl xs) \<subseteq> set xs" for xs :: "transfer_job list" by (cases xs) auto
  then show ?thesis by (cases d) (force simp: pop_queue_def Let_def demands_def engine_jobs_def)+
qed

lemma pop_queue_frame [simp]:
  "rs_ledger (pop_queue d st) = rs_ledger st"
  "rs_table (pop_queue d st) = rs_table st"
  "rs_pool (pop_queue d st) = rs_pool st"
  "rs_backend (pop_queue d st) = rs_backend st"
  "rs_deferred (pop_queue d st) = rs_deferred st"
  by (cases d; simp add: pop_queue_def Let_def)+

lemma copy_started_frame:
  assumes "copy_started d job st st'"
  shows "rs_ledger st' = rs_ledger st" and "rs_table st' = rs_table st"
    and "demands st' \<subseteq> insert (job_demand job) (demands st)"
  using assms by (cases d; force simp: copy_started_def demands_def engine_jobs_def job_demand_def)+

lemma weight_nonneg: "0 < ob_size_bytes rec \<Longrightarrow> 0 \<le> weight loc rec"
  by (simp add: weight_def)

lemma acct_size_pos: "acct K l tb D \<Longrightarrow> dget tb o1 = Some rec \<Longrightarrow> 0 < ob_size_bytes rec"
  by (auto simp: acct_def)

lemma resident_member:
  assumes "acct K l tb D" and "dget tb o1 = Some rec"
  shows "weight loc rec \<le> resident loc tb"
  unfolding resident_def
proof (rule dsum_member_le [OF _ assms(2)])
  show "distinct (map fst tb)" using assms(1) by (simp add: acct_def)
  show "0 \<le> weight loc v" if "dget tb k = Some v" for k v
    using acct_size_pos [OF assms(1) that] by (rule weight_nonneg)
qed

text \<open>A resident slot is covered by the ledger.\<close>

lemma acct_covers:
  assumes "acct K l tb D" and "dget tb o1 = Some rec" and "slot_at rec loc \<noteq> None"
    and "loc \<in> {''fast'', ''backing''}"
  shows "ob_size_bytes rec \<le> used_of l loc"
  using resident_member [OF assms(1,2), of loc] assms by (auto simp: acct_def weight_def)

lemma acct_demand: "acct K l tb D \<Longrightarrow> (o1, n) \<in> D \<Longrightarrow> dget tb o1 = Some rec \<Longrightarrow> n = ob_size_bytes rec"
  by (fastforce simp: acct_def)

lemma acct_mono: "acct K l tb D \<Longrightarrow> D' \<subseteq> D \<Longrightarrow> acct K l tb D'"
  unfolding acct_def by blast

text \<open>Replacing one record, with the ledger moved by at least (fast) or exactly (backing) the change
  of its weight.\<close>

lemma acct_update:
  assumes "acct K l tb D" and rec: "dget tb o1 = Some rec" and sz: "ob_size_bytes rec' = ob_size_bytes rec"
    and "ledger_inv l'"
    and "used_of l ''fast'' - weight ''fast'' rec \<le> used_of l' ''fast'' - weight ''fast'' rec'"
    and "used_of l' ''backing'' - weight ''backing'' rec' = used_of l ''backing'' - weight ''backing'' rec"
    and "D' \<subseteq> insert (o1, ob_size_bytes rec) D"
  shows "acct K l' (dset o1 rec' tb) D'"
proof -
  have r: "resident loc (dset o1 rec' tb) = resident loc tb - weight loc rec + weight loc rec'" for loc
    by (simp add: resident_def dsum_dset rec)
  have keys: "fst ` set (dset o1 rec' tb) = K"
  proof -
    have "fst ` set (dset o1 rec' tb) = insert o1 (fst ` set tb)"
      using dom_update [of o1 rec' tb] by simp
    moreover have "o1 \<in> fst ` set tb" using map_of_SomeD [OF rec] by force
    ultimately show ?thesis using assms(1) by (auto simp: acct_def)
  qed
  have jobs: "\<exists>r. dget (dset o1 rec' tb) o2 = Some r \<and> ob_size_bytes r = n" if "(o2, n) \<in> D'" for o2 n
  proof (cases "o2 = o1")
    case True
    have "n = ob_size_bytes rec"
      using that assms(7) acct_demand [OF assms(1), of o2 n rec] True rec by auto
    then show ?thesis using True sz by simp
  next
    case False
    then have "(o2, n) \<in> D" using that assms(7) by auto
    then obtain r where "dget tb o2 = Some r" "ob_size_bytes r = n" using assms(1) unfolding acct_def by blast
    with False show ?thesis by simp
  qed
  have res: "resident ''fast'' tb \<le> used_of l ''fast''" "resident ''backing'' tb = used_of l ''backing''"
    using assms(1) by (auto simp: acct_def)
  have "resident ''fast'' (dset o1 rec' tb) \<le> used_of l' ''fast''"
    and "resident ''backing'' (dset o1 rec' tb) = used_of l' ''backing''"
    using r [of "''fast''"] r [of "''backing''"] res assms(5,6) by linarith+
  moreover have "0 < ob_size_bytes r" if "dget (dset o1 rec' tb) o2 = Some r" for o2 r
    using that acct_size_pos [OF assms(1)] rec sz by (auto split: if_splits)
  ultimately show ?thesis
    using assms(1,4) keys jobs by (auto simp: acct_def)
qed

text \<open>The common case: the ledger is untouched and the record keeps its slots.\<close>

lemma acct_same:
  assumes "acct K l tb D" and "dget tb o1 = Some rec" and "ob_size_bytes rec' = ob_size_bytes rec"
    and "slot_at rec' ''fast'' = None \<longleftrightarrow> slot_at rec ''fast'' = None"
    and "slot_at rec' ''backing'' = None \<longleftrightarrow> slot_at rec ''backing'' = None"
    and "D' \<subseteq> insert (o1, ob_size_bytes rec) D"
  shows "acct K l (dset o1 rec' tb) D'"
  by (rule acct_update [OF assms(1,2,3)]) (use assms in \<open>auto simp: acct_def weight_def\<close>)

lemma slot_at_simps [simp]:
  "slot_at rec ''fast'' = ob_fast rec"
  "slot_at rec ''backing'' = ob_backing rec"
  by (simp_all add: slot_at_def)

lemma table_get_outcome: "outcome resource_err (\<lambda>rec. dget tb o1 = Some rec) (table_get tb o1)"
  by (simp add: table_get_def split: option.splits)

lemma set_slot_present:
  assumes "slot_at rec loc = Some s"
  shows "(ob_fast (set_slot rec loc (Some s')) = None) = (ob_fast rec = None)"
    and "(ob_backing (set_slot rec loc (Some s')) = None) = (ob_backing rec = None)"
  using assms by (auto simp: slot_at_def set_slot_def split: if_splits)

section \<open>Charging and releasing through the run state\<close>

text \<open>Charges and releases seen through the record update they perform.\<close>

definition ledger_moved :: "(string \<Rightarrow> int) \<Rightarrow> run_state \<Rightarrow> run_state \<Rightarrow> bool" where
  "ledger_moved delta st st' \<longleftrightarrow>
     (\<exists>l tr. st' = st\<lparr>rs_ledger := l, rs_trace := tr\<rparr> \<and> ledger_inv l \<and> capacity l = capacity (rs_ledger st) \<and>
        (\<forall>k \<in> {''fast'', ''backing''}. used_of l k = used_of (rs_ledger st) k + delta k))"

lemma ledger_movedD:
  assumes "ledger_moved delta st st'"
  shows "ledger_inv (rs_ledger st')" and "rs_table st' = rs_table st" and "demands st' = demands st"
    and "rs_deferred st' = rs_deferred st" and "rs_h2d st' = rs_h2d st" and "rs_d2h st' = rs_d2h st"
    and "rs_pool st' = rs_pool st" and "rs_backend st' = rs_backend st"
    and "k \<in> {''fast'', ''backing''} \<Longrightarrow> used_of (rs_ledger st') k = used_of (rs_ledger st) k + delta k"
    and "capacity (rs_ledger st') = capacity (rs_ledger st)"
  using assms by (auto simp: ledger_moved_def)

lemma rs_charge_outcome:
  assumes "ledger_inv (rs_ledger st)" and "loc \<in> {''fast'', ''backing''}" and "0 < n"
    and "can_reserve (rs_ledger st) loc n = Inr True"
  shows "outcome resource_err (ledger_moved (\<lambda>k. if k = loc then n else 0) st) (rs_charge loc n st)"
proof -
  have "\<forall>c. capacity (rs_ledger st) loc = Some c \<longrightarrow> used_of (rs_ledger st) loc + n \<le> c"
    using can_reserve_iff [OF assms(1,2)] assms(3,4) by auto
  then obtain l where l: "charge (rs_ledger st) loc n = Inr l" using ledger.add_ok assms(1-3) by blast
  then obtain st' where st': "rs_charge loc n st = Inr st'" by (simp add: rs_charge_def Let_def)
  have "ledger_inv l" using charge_inv [OF assms(1,2) l] .
  moreover have "capacity l = capacity (rs_ledger st)" using ledger.add_limit [OF assms(1,2,3) l] .
  moreover have "\<forall>k \<in> {''fast'', ''backing''}. used_of l k = used_of (rs_ledger st) k + (if k = loc then n else 0)"
    using charge_used [OF assms(1,2) l] assms(3) by simp
  ultimately show ?thesis using rs_charge_shape [OF st'] l st' by (auto simp: ledger_moved_def)
qed

lemma rs_release_outcome:
  assumes "ledger_inv (rs_ledger st)" and "loc \<in> {''fast'', ''backing''}" and "0 < n"
    and "n \<le> used_of (rs_ledger st) loc"
  shows "outcome resource_err (ledger_moved (\<lambda>k. if k = loc then - n else 0) st) (rs_release loc n st)"
proof -
  obtain l where l: "release (rs_ledger st) loc n = Inr l" using ledger.remove_ok assms by blast
  then obtain st' where st': "rs_release loc n st = Inr st'" by (simp add: rs_release_def Let_def)
  have "ledger_inv l" using release_inv [OF assms(1,2) l] .
  moreover have "capacity l = capacity (rs_ledger st)" using ledger.remove_limit [OF assms(1-4) l] .
  moreover have "\<forall>k \<in> {''fast'', ''backing''}. used_of l k = used_of (rs_ledger st) k + (if k = loc then - n else 0)"
    using release_used [OF assms(1,2) l] assms(3) by simp
  ultimately show ?thesis using rs_release_shape [OF st'] l st' by (auto simp: ledger_moved_def)
qed

section \<open>Handlers keep the invariant\<close>

lemma retire_output_acct:
  assumes ok: "mem_ok K st"
  shows "outcome resource_err (mem_ok K) (retire_output ev out st)"
  unfolding retire_output_def
proof (rule outcome_bind [OF table_get_outcome])
  note acc = ok [unfolded mem_ok_def, THEN conjunct1] and dd = ok [unfolded mem_ok_def, THEN conjunct2]
  fix rec assume rec: "dget (rs_table st) (ou_id out) = Some rec"
  show "outcome resource_err (mem_ok K)
     (case slot_at rec (ou_location out) of None \<Rightarrow> Inl (AssertionError ''output slot'')
      | Some s \<Rightarrow> if sl_state s \<noteq> Reserved then Inl (AssertionError ''output slot'')
           else Inr (put_record (ou_id out) (set_slot rec (ou_location out)
                  (Some (s\<lparr>sl_state := Live, sl_ready_event := Some ev\<rparr>))) st))"
    by (auto simp: set_slot_present mem_ok_def dd split: option.splits intro!: acct_same [OF acc rec])
qed

lemma retire_mutate_acct:
  assumes ok: "mem_ok K st"
  shows "outcome resource_err (mem_ok K) (retire_mutate ev tid obj st)"
  unfolding retire_mutate_def
proof (rule outcome_bind [OF table_get_outcome])
  note acc = ok [unfolded mem_ok_def, THEN conjunct1] and dd = ok [unfolded mem_ok_def, THEN conjunct2]
  fix rec assume rec: "dget (rs_table st) obj = Some rec"
  show "outcome resource_err (mem_ok K)
     (case ob_fast rec of None \<Rightarrow> Inl (AssertionError ''mutated object'')
      | Some s \<Rightarrow> let v = ob_version rec + 1 in Inr (log_event ''mutate'' (Some obj) (Some tid) []
                 (put_record obj (rec\<lparr>ob_version := v, ob_fast := Some (s\<lparr>sl_version := v,
                    sl_ready_event := Some ev\<rparr>)\<rparr>) st)))"
    by (auto simp: Let_def mem_ok_def dd split: option.splits intro!: acct_same [OF acc rec])
qed

lemma retire_offload_acct:
  assumes ok: "mem_ok K st"
  shows "outcome resource_err (mem_ok K) (retire_offload t ev trig st)"
proof -
  note acc = ok [unfolded mem_ok_def, THEN conjunct1] and dd = ok [unfolded mem_ok_def, THEN conjunct2]
  let ?o = "td_object_id trig"
  have "outcome resource_err (\<lambda>_. True) (case ob_backing rec of None \<Rightarrow> Inr ()
      | Some bk \<Rightarrow> if sl_state bk \<noteq> Live then Inl (ExecutionError ''cannot offload: backing entry not live'')
          else guardE (bf_size_bytes (sl_buffer bk) = ob_size_bytes rec) (ExecutionError ''offload size mismatch''))" for rec
    by (auto simp: guardE_def split: option.splits)
  moreover have "mem_ok K (enqueue ToSlow (new_job ?o (ob_size_bytes rec) (td_runtime_us trig) ev (ts_id t))
      (put_record ?o (rec\<lparr>ob_fast := Some (src\<lparr>sl_state := PendingOutbound\<rparr>)\<rparr>) st))"
    if "dget (rs_table st) ?o = Some rec" "ob_fast rec = Some src" for rec src
    unfolding mem_ok_def
    by (simp add: dd, rule acct_same [OF acc that(1)]) (use that in \<open>auto simp: job_demand_def new_job_def\<close>)
  ultimately show ?thesis
    unfolding retire_offload_def Let_def
    by (intro outcome_bind [OF table_get_outcome]) (auto split: option.splits intro!: outcome_bind)
qed

lemma retire_prefetch_acct:
  assumes ok: "mem_ok K st"
  shows "outcome resource_err (mem_ok K) (retire_prefetch t ev trig st)"
proof -
  note acc = ok [unfolded mem_ok_def, THEN conjunct1] and dd = ok [unfolded mem_ok_def, THEN conjunct2]
  let ?o = "td_object_id trig"
  let ?job = "\<lambda>rec. new_job ?o (ob_size_bytes rec) (td_runtime_us trig) ev (ts_id t)"
  have grow: "acct K (rs_ledger st) (rs_table st) D"
    if "dget (rs_table st) ?o = Some rec" "D \<subseteq> insert (job_demand (?job rec)) (demands st)" for rec D
    using acc that unfolding acct_def by (auto simp: job_demand_def new_job_def)
  have postponed: "demands (st\<lparr>rs_prefetch_override := ov, rs_deferred := dappend ?o j (rs_deferred st)\<rparr>)
      \<subseteq> insert (job_demand j) (demands st)" for ov j
  proof -
    have "deferred_jobs (dappend ?o j (rs_deferred st)) \<subseteq> insert j (deferred_jobs (rs_deferred st))"
    proof
      fix x assume "x \<in> deferred_jobs (dappend ?o j (rs_deferred st))"
      then obtain k js where k: "(k, js) \<in> set (dappend ?o j (rs_deferred st))" "x \<in> set js"
        by (auto simp: deferred_jobs_def)
      then have "dget (dappend ?o j (rs_deferred st)) k = Some js"
        using dd by (simp add: map_of_eq_Some_iff del: dappend_get)
      then have "x = j \<or> (\<exists>js'. dget (rs_deferred st) k = Some js' \<and> x \<in> set js')"
        using k(2) by (auto simp: dappend_get dget_or_def split: if_splits option.splits)
      then show "x \<in> insert j (deferred_jobs (rs_deferred st))"
        by (force simp: deferred_jobs_def dest: map_of_SomeD)
    qed
    then show ?thesis by (auto simp: demands_def)
  qed
  show ?thesis
    unfolding retire_prefetch_def Let_def
  proof (rule outcome_bind [OF table_get_outcome])
    fix rec assume rec: "dget (rs_table st) ?o = Some rec"
    let ?ov = "dset ?o (td_runtime_us trig) (rs_prefetch_override st)"
    have late: "mem_ok K (log_event ''transfer_deferred'' (Some ?o) (Some (ts_id t)) []
              (st\<lparr>rs_prefetch_override := ?ov, rs_deferred := dappend ?o (?job rec) (rs_deferred st)\<rparr>))"
      using grow [OF rec postponed] dd by (simp add: mem_ok_def)
    have now: "mem_ok K (enqueue FromSlow (?job rec) (st\<lparr>rs_prefetch_override := ?ov\<rparr>))"
      using grow [OF rec order_refl] dd by (simp add: mem_ok_def)
    show "outcome resource_err (mem_ok K)
      (if map_option sl_state (ob_fast rec) = Some Live \<or> map_option sl_state (ob_fast rec) = Some Inbound
       then Inl (ExecutionError ''cannot prefetch: fast copy already exists'')
       else if map_option sl_state (ob_fast rec) = Some PendingOutbound \<or>
               map_option sl_state (ob_fast rec) = Some Outbound \<or>
               map_option sl_state (ob_backing rec) = Some PendingInbound \<or>
               map_option sl_state (ob_backing rec) = Some Inbound
       then Inr (log_event ''transfer_deferred'' (Some ?o) (Some (ts_id t)) []
              (st\<lparr>rs_prefetch_override := dset ?o (td_runtime_us trig) (rs_prefetch_override st),
                  rs_deferred := dappend ?o (?job rec)
                    (rs_deferred (st\<lparr>rs_prefetch_override := dset ?o (td_runtime_us trig) (rs_prefetch_override st)\<rparr>))\<rparr>))
       else if map_option sl_state (ob_backing rec) \<noteq> Some Live
       then Inl (ExecutionError ''cannot prefetch: no recoverable backing source'')
       else Inr (enqueue FromSlow (?job rec)
              (st\<lparr>rs_prefetch_override := dset ?o (td_runtime_us trig) (rs_prefetch_override st)\<rparr>)))"
      using late now by simp
  qed
qed

lemma mem_okD: "mem_ok K st \<Longrightarrow> st_acct K st" "mem_ok K st \<Longrightarrow> ledger_inv (rs_ledger st)"
  by (auto simp: mem_ok_def acct_def)

lemma mem_ok_shift: "mem_ok K st \<Longrightarrow> pool_shift st st' \<Longrightarrow> mem_ok K st'"
  by (auto simp: mem_ok_def pool_shift_def)

lemma rs_put_mem_ok: "mem_ok K st \<Longrightarrow> outcome resource_err (mem_ok K) (rs_put buf st)"
  by (rule outcome_weaken [OF rs_put_outcome]) (auto intro: mem_ok_shift)

text \<open>Writing back a record after the ledger has moved: the change of weight matches.\<close>

lemma mem_ok_moved:
  assumes ok: "mem_ok K st" and mv: "ledger_moved delta st st1" and sh: "pool_shift st1 st2"
    and rec: "dget (rs_table st) o1 = Some rec" and sz: "ob_size_bytes rec' = ob_size_bytes rec"
    and "weight ''fast'' rec' - weight ''fast'' rec \<le> delta ''fast''"
    and "weight ''backing'' rec' - weight ''backing'' rec = delta ''backing''"
  shows "mem_ok K (put_record o1 rec' st2)"
proof -
  have "acct K (rs_ledger st1) (dset o1 rec' (rs_table st)) (demands st)"
    by (rule acct_update [OF mem_okD(1) [OF ok] rec sz ledger_movedD(1) [OF mv]])
      (use assms ledger_movedD(9) [OF mv] in auto)
  then show ?thesis
    using ok ledger_movedD [OF mv] pool_shift_acct [OF sh] pool_shiftD(5) [OF sh] by (simp add: mem_ok_def)
qed

lemma pool_shift_refl [simp]: "pool_shift st st"
  unfolding pool_shift_def by (rule exI [of _ "rs_pool st"], rule exI [of _ "rs_backend st"]) simp

lemma release_slot_outcome:
  assumes ok: "mem_ok K st" and rec: "dget (rs_table st) o1 = Some rec"
    and "slot_at rec loc \<noteq> None" and "loc \<in> {''fast'', ''backing''}"
  shows "outcome resource_err (ledger_moved (\<lambda>k. if k = loc then - ob_size_bytes rec else 0) st)
    (rs_release loc (ob_size_bytes rec) st)"
  by (rule rs_release_outcome [OF mem_okD(2) [OF ok] assms(4) acct_size_pos [OF mem_okD(1) [OF ok] rec]
        acct_covers [OF mem_okD(1) [OF ok] rec assms(3,4)]])

lemma drop_fast_outcome:
  assumes ok: "mem_ok K st" and rec: "dget (rs_table st) o1 = Some rec" and s: "ob_fast rec = Some s"
    and n: "n = ob_size_bytes rec"
  shows "outcome resource_err (\<lambda>st'. mem_ok K st' \<and> rs_table st' = dset o1 (rec\<lparr>ob_fast := None\<rparr>) (rs_table st))
    (drop_fast o1 rec s n st)"
  unfolding drop_fast_def n
proof (rule outcome_bind [OF release_slot_outcome [OF ok rec]], simp_all add: s, rule outcome_bind [OF poison_put_outcome])
  fix st1 st2
  assume mv: "ledger_moved (\<lambda>k. if k = ''fast'' then - ob_size_bytes rec else 0) st st1" and sh: "pool_shift st1 st2"
  show "outcome resource_err (\<lambda>st'. mem_ok K st' \<and> rs_table st' = dset o1 (rec\<lparr>ob_fast := None\<rparr>) (rs_table st))
      (Inr (put_record o1 (rec\<lparr>ob_fast := None\<rparr>) st2))"
    using mem_ok_moved [OF ok mv sh rec, of "rec\<lparr>ob_fast := None\<rparr>"] s ledger_movedD(2) [OF mv] pool_shift_acct [OF sh]
    by (simp add: weight_def)
qed

lemma dead_everywhere_outcome: "outcome resource_err (\<lambda>_. True) (dead_everywhere t o1 st)"
  by (simp add: dead_everywhere_def split: option.splits)

lemma free_dead_backing_acct:
  assumes ok: "mem_ok K st"
  shows "outcome resource_err (mem_ok K) (free_dead_backing t o1 st)"
proof -
  have free: "outcome resource_err (mem_ok K) (bindE (rs_release ''backing'' (ob_size_bytes rec) st) (\<lambda>st.
       let st = put_record o1 (rec\<lparr>ob_backing := None\<rparr>) st
       in if bf_ref (sl_buffer bk) \<in> set (rs_provided st) then Inr st else rs_put (sl_buffer bk) st))"
    if rec: "dget (rs_table st) o1 = Some rec" and bk: "ob_backing rec = Some bk" for rec bk
  proof (rule outcome_bind [OF release_slot_outcome [OF ok rec]], simp_all add: bk)
    fix st1 assume mv: "ledger_moved (\<lambda>k. if k = ''backing'' then - ob_size_bytes rec else 0) st st1"
    have "mem_ok K (put_record o1 (rec\<lparr>ob_backing := None\<rparr>) st1)"
      by (rule mem_ok_moved [OF ok mv pool_shift_refl rec]) (simp_all add: weight_def bk)
    then show "outcome resource_err (mem_ok K) (let st = put_record o1 (rec\<lparr>ob_backing := None\<rparr>) st1
       in if bf_ref (sl_buffer bk) \<in> set (rs_provided st) then Inr st else rs_put (sl_buffer bk) st)"
      by (simp add: Let_def rs_put_mem_ok)
  qed
  show ?thesis
    unfolding free_dead_backing_def
    by (rule outcome_bind [OF table_get_outcome], rule outcome_bind [OF dead_everywhere_outcome])
      (auto simp: ok free split: option.splits)
qed

lemma retire_release_acct:
  assumes ok: "mem_ok K st"
  shows "outcome resource_err (mem_ok K) (retire_release t o1 st)"
proof -
  have "outcome resource_err (mem_ok K) (bindE (drop_fast o1 rec s (ob_size_bytes rec) st) (\<lambda>st.
      bindE (free_dead_backing t o1 st) (\<lambda>st. Inr (log_event ''release'' (Some o1) (Some (ts_id t)) [] st))))"
    if "dget (rs_table st) o1 = Some rec" "ob_fast rec = Some s" for rec s
    by (rule outcome_bind [OF drop_fast_outcome [OF ok that refl]], rule outcome_bind [OF free_dead_backing_acct])
      (auto simp: mem_ok_def)
  then show ?thesis
    unfolding retire_release_def
    by (intro outcome_bind [OF table_get_outcome]) (auto split: option.splits)
qed

section \<open>Transfers keep the invariant\<close>

lemma ledger_moved_log:
  assumes "ledger_moved delta st st1"
  shows "ledger_moved delta st (log_event k o1 t d st1)"
proof -
  obtain l tr where st1: "st1 = st\<lparr>rs_ledger := l, rs_trace := tr\<rparr>" and rest: "ledger_inv l"
    "capacity l = capacity (rs_ledger st)"
    "\<forall>k \<in> {''fast'', ''backing''}. used_of l k = used_of (rs_ledger st) k + delta k"
    using assms unfolding ledger_moved_def by blast
  obtain tr' where "log_event k o1 t d st1 = st\<lparr>rs_ledger := l, rs_trace := tr'\<rparr>"
    by (simp add: st1 log_event_def)
  with rest show ?thesis unfolding ledger_moved_def by blast
qed

lemma pop_queue_mem_ok: "mem_ok K st \<Longrightarrow> mem_ok K (pop_queue d st)"
  using pop_queue_demands [of d st] by (auto simp: mem_ok_def intro: acct_mono)

lemma copy_started_mem_ok:
  assumes ok: "mem_ok K st" and cs: "copy_started d job st st'"
    and rec: "dget (rs_table st) (tj_object_id job) = Some rec" "tj_size_bytes job = ob_size_bytes rec"
  shows "mem_ok K st'"
proof -
  have "acct K (rs_ledger st) (rs_table st) (insert (job_demand job) (demands st))"
    using mem_okD(1) [OF ok] rec unfolding acct_def job_demand_def by auto
  then have "st_acct K st'" using copy_started_frame [OF cs] acct_mono by metis
  moreover have "rs_deferred st' = rs_deferred st" using cs by (cases d) (auto simp: copy_started_def)
  ultimately show ?thesis using ok by (simp add: mem_ok_def)
qed

lemma run_copy_mem_ok:
  assumes "mem_ok K st" and "dget (rs_table st) (tj_object_id job) = Some rec" and "tj_size_bytes job = ob_size_bytes rec"
  shows "outcome resource_err (mem_ok K) (run_copy d job g e st)"
  by (rule outcome_weaken [OF run_copy_outcome copy_started_mem_ok [OF assms(1) _ assms(2,3)]]) simp_all

text \<open>The record of an object a pending job refers to has the job's size.\<close>

lemma queued_size:
  assumes "mem_ok K st" and "job \<in> engine_jobs (engine_of d st)" and "dget (rs_table st) (tj_object_id job) = Some rec"
  shows "tj_size_bytes job = ob_size_bytes rec"
proof -
  have "job_demand job \<in> demands st" using assms(2) by (cases d) (auto simp: demands_def)
  then show ?thesis using acct_demand [OF mem_okD(1) [OF assms(1)]] assms(3) by (simp add: job_demand_def)
qed

lemma start_from_slow_acct:
  assumes ok: "mem_ok K st" and job: "job \<in> engine_jobs (rs_h2d st)"
    and rec: "dget (rs_table st) (tj_object_id job) = Some rec"
  shows "outcome resource_err (mem_ok K) (start_from_slow escape job rec st)"
proof (cases "ob_backing rec")
  case None
  then show ?thesis by (simp add: start_from_slow_def)
next
  case (Some src)
  let ?o = "tj_object_id job" and ?n = "tj_size_bytes job"
  let ?get = "\<lambda>b. if b then rs_get_escaped ''fast'' ?n ?o else rs_get ''fast'' ?n (Some ?o)"
  have n: "?n = ob_size_bytes rec" using queued_size [OF ok, of job FromSlow] job rec by simp
  have pos: "0 < ?n" using acct_size_pos [OF mem_okD(1) [OF ok] rec] n by simp
  have ok0: "mem_ok K (pop_queue FromSlow st)" by (rule pop_queue_mem_ok [OF ok])
  have res: "can_reserve (rs_ledger st) ''fast'' ?n = Inr r" if "r = (\<forall>c. capacity (rs_ledger st) ''fast'' = Some c \<longrightarrow> used_of (rs_ledger st) ''fast'' + ?n \<le> c)" for r
    using can_reserve_iff [OF mem_okD(2) [OF ok], of "''fast''" ?n] pos that by simp
  have get: "outcome resource_err (\<lambda>(buf, st'). pool_shift st1 st') (?get b st1)" for b st1
    using rs_get_outcome rs_get_escaped_outcome by simp
  have start: "outcome resource_err (mem_ok K) (bindE (rs_charge ''fast'' ?n (pop_queue FromSlow st)) (\<lambda>st.
      bindE (?get b (log_event ''transfer_reserve'' (Some ?o) None d st)) (\<lambda>(dst, st).
        run_copy FromSlow (job\<lparr>tj_version := v\<rparr>) (g dst) e
          (put_record ?o (rec\<lparr>ob_fast := Some (sl dst)\<rparr>) st))))"
    if adm: "can_reserve (rs_ledger st) ''fast'' ?n = Inr True" for b d v g e sl
  proof (rule outcome_bind [OF rs_charge_outcome [OF mem_okD(2) [OF ok0] _ pos]])
    fix st1 assume mv: "ledger_moved (\<lambda>k. if k = ''fast'' then ?n else 0) (pop_queue FromSlow st) st1"
    show "outcome resource_err (mem_ok K) (bindE (?get b (log_event ''transfer_reserve'' (Some ?o) None d st1)) (\<lambda>(dst, st).
        run_copy FromSlow (job\<lparr>tj_version := v\<rparr>) (g dst) e (put_record ?o (rec\<lparr>ob_fast := Some (sl dst)\<rparr>) st)))"
    proof (rule outcome_bind [OF get], clarify)
      fix dst st2 assume sh: "pool_shift (log_event ''transfer_reserve'' (Some ?o) None d st1) st2"
      let ?st = "put_record ?o (rec\<lparr>ob_fast := Some (sl dst)\<rparr>) st2"
      have "mem_ok K ?st"
        by (rule mem_ok_moved [OF ok0 ledger_moved_log [OF mv] sh]) (use rec pos n in \<open>auto simp: weight_def\<close>)
      then show "outcome resource_err (mem_ok K) (run_copy FromSlow (job\<lparr>tj_version := v\<rparr>) (g dst) e ?st)"
        by (rule run_copy_mem_ok [where rec = "rec\<lparr>ob_fast := Some (sl dst)\<rparr>"]) (simp_all add: n)
    qed
  qed (use adm in simp_all)
  show ?thesis
    unfolding start_from_slow_def Some option.case Let_def
    by (rule outcome_bind_eq) (use res ok start in \<open>auto simp: Let_def\<close>)
qed

lemma start_to_slow_acct:
  assumes ok: "mem_ok K st" and job: "job \<in> engine_jobs (rs_d2h st)"
    and rec: "dget (rs_table st) (tj_object_id job) = Some rec"
  shows "outcome resource_err (mem_ok K) (start_to_slow job rec st)"
proof (cases "ob_fast rec")
  case None
  then show ?thesis by (simp add: start_to_slow_def)
next
  case (Some src)
  let ?o = "tj_object_id job" and ?n = "tj_size_bytes job" and ?st = "pop_queue ToSlow st"
  let ?need = "if ob_backing rec = None then ?n else 0"
  have n: "?n = ob_size_bytes rec" using queued_size [OF ok, of job ToSlow] job rec by simp
  have pos: "0 < ?n" using acct_size_pos [OF mem_okD(1) [OF ok] rec] n by simp
  have ok0: "mem_ok K ?st" by (rule pop_queue_mem_ok [OF ok])
  have copy: "outcome resource_err (mem_ok K) (run_copy ToSlow (job\<lparr>tj_version := v\<rparr>) g e
      (put_record ?o (rec\<lparr>ob_backing := Some d, ob_fast := Some s\<rparr>) st2))"
    if "mem_ok K (put_record ?o (rec\<lparr>ob_backing := Some d, ob_fast := Some s\<rparr>) st2)" for v g e d s st2
    using that by (rule run_copy_mem_ok [where rec = "rec\<lparr>ob_backing := Some d, ob_fast := Some s\<rparr>"]) (simp_all add: n)
  let ?dst = "case ob_backing rec of
      None \<Rightarrow> bindE (rs_charge ''backing'' ?n ?st) (\<lambda>st. bindE (rs_get ''backing'' ?n None st) (\<lambda>(dst, st).
          Inr (\<lparr>sl_buffer = dst, sl_state = Inbound, sl_version = sl_version src, sl_ready_event = None\<rparr>, st)))
    | Some existing \<Rightarrow> Inr (existing\<lparr>sl_state := Inbound, sl_version := sl_version src\<rparr>, ?st)"
  have dst: "outcome resource_err (\<lambda>(slot, st2). \<forall>d s. mem_ok K (put_record ?o (rec\<lparr>ob_backing := Some d, ob_fast := Some s\<rparr>) st2)) ?dst"
    if adm: "can_reserve (rs_ledger st) ''backing'' ?need = Inr True"
  proof (cases "ob_backing rec")
    case bk: None
    show ?thesis unfolding bk option.case
    proof (rule outcome_bind [OF rs_charge_outcome [OF mem_okD(2) [OF ok0] _ pos]])
      fix st1 assume mv: "ledger_moved (\<lambda>k. if k = ''backing'' then ?n else 0) ?st st1"
      have "mem_ok K (put_record ?o (rec\<lparr>ob_backing := Some d, ob_fast := Some s\<rparr>) st2)" if "pool_shift st1 st2" for d s st2
        by (rule mem_ok_moved [OF ok0 mv that]) (use rec n bk Some in \<open>auto simp: weight_def\<close>)
      then show "outcome resource_err (\<lambda>(slot, st2). \<forall>d s. mem_ok K (put_record ?o (rec\<lparr>ob_backing := Some d, ob_fast := Some s\<rparr>) st2))
        (bindE (rs_get ''backing'' ?n None st1) (\<lambda>(dst, st). Inr (\<lparr>sl_buffer = dst, sl_state = Inbound,
           sl_version = sl_version src, sl_ready_event = None\<rparr>, st)))"
        by (intro outcome_bind [OF rs_get_outcome]) auto
    qed (use adm bk in simp_all)
  next
    case bk: (Some existing)
    have "acct K (rs_ledger ?st) (dset ?o (rec\<lparr>ob_backing := Some d, ob_fast := Some s\<rparr>) (rs_table ?st)) (demands ?st)" for d s
      by (rule acct_same [OF mem_okD(1) [OF ok0]]) (use rec bk Some in auto)
    then show ?thesis using ok0 bk by (simp add: mem_ok_def)
  qed
  show ?thesis
    unfolding start_to_slow_def Some option.case Let_def
  proof (rule outcome_bind_eq)
    show "resource_err e" if "can_reserve (rs_ledger st) ''backing'' ?need = Inl e" for e
      using that can_reserve_iff [OF mem_okD(2) [OF ok], of "''backing''" ?need] by simp
    fix a assume adm: "can_reserve (rs_ledger st) ''backing'' ?need = Inr a"
    show "outcome resource_err (mem_ok K) (if \<not> a then Inr st else bindE ?dst (\<lambda>(dst_slot, st).
        run_copy ToSlow (job\<lparr>tj_version := sl_version src\<rparr>) (bf_guard_event (sl_buffer dst_slot)) (sl_ready_event src)
          (put_record ?o (rec\<lparr>ob_backing := Some (dst_slot\<lparr>sl_buffer := (sl_buffer dst_slot)\<lparr>bf_guard_event := []\<rparr>\<rparr>),
              ob_fast := Some (src\<lparr>sl_state := Outbound\<rparr>)\<rparr>) st)))"
      using adm ok by (cases a) (auto intro!: outcome_bind [OF dst] copy)
  qed
qed

lemma try_start_acct:
  assumes ok: "mem_ok K st"
  shows "outcome resource_err (mem_ok K) (try_start d escape st)"
proof (cases "tx_inflight (engine_of d st) = None \<and> tx_queue (engine_of d st) \<noteq> []")
  case True
  then obtain job q where q: "tx_queue (engine_of d st) = job # q" "tx_inflight (engine_of d st) = None"
    by (cases "tx_queue (engine_of d st)") auto
  then have job: "job \<in> engine_jobs (engine_of d st)" by (simp add: engine_jobs_def)
  show ?thesis
    unfolding try_start_def Let_def q prod.case option.case list.case
    by (rule outcome_bind [OF table_get_outcome], cases d)
      (use job in \<open>auto intro: start_from_slow_acct [OF ok] start_to_slow_acct [OF ok]\<close>)
next
  case False
  then show ?thesis using ok by (auto simp: try_start_def Let_def split: option.splits list.splits)
qed

lemma set_inflight_None_mem_ok:
  assumes "mem_ok K st"
  shows "mem_ok K (set_engine d ((engine_of d st)\<lparr>tx_inflight := None\<rparr>) st)"
proof -
  have "demands (set_engine d ((engine_of d st)\<lparr>tx_inflight := None\<rparr>) st) \<subseteq> demands st"
    by (cases d) (auto simp: demands_def engine_jobs_def)
  with assms show ?thesis by (cases d) (auto simp: mem_ok_def intro: acct_mono)
qed

lemma settle_slots_acct:
  assumes ok: "mem_ok K st" and rec: "dget (rs_table st) (tj_object_id job) = Some rec"
    and fl: "tx_inflight (engine_of d st) = Some job"
  shows "outcome resource_err (mem_ok K) (settle_slots d job rec st)"
proof -
  let ?o = "tj_object_id job"
  have live: "mem_ok K (put_record ?o (rec\<lparr>ob_fast := Some s\<rparr>) st)" if "ob_fast rec = Some s0" for s s0
    unfolding mem_ok_def
    using acct_same [OF mem_okD(1) [OF ok] rec, of "rec\<lparr>ob_fast := Some s\<rparr>"] that ok by (auto simp: mem_ok_def)
  have n: "tj_size_bytes job = ob_size_bytes rec"
    using queued_size [OF ok _ rec, of d] fl by (simp add: engine_jobs_def)
  have gone: "outcome resource_err (mem_ok K) (bindE (drop_fast ?o rec f (tj_size_bytes job) st) (\<lambda>st.
      case ob_backing rec of None \<Rightarrow> Inl (AssertionError ''backing slot'')
      | Some bk \<Rightarrow> Inr (put_record ?o (rec\<lparr>ob_fast := None, ob_backing := Some (g bk)\<rparr>) st)))"
    if f: "ob_fast rec = Some f" for f g
  proof (rule outcome_bind [OF drop_fast_outcome [OF ok rec f n]])
    fix st1 assume st1: "mem_ok K st1 \<and> rs_table st1 = dset ?o (rec\<lparr>ob_fast := None\<rparr>) (rs_table st)"
    then have acc1: "st_acct K st1" using mem_okD(1) by blast
    have "mem_ok K (put_record ?o (rec\<lparr>ob_fast := None, ob_backing := Some bk'\<rparr>) st1)"
      if "ob_backing rec = Some bk" for bk bk'
      using acct_same [OF acc1, of ?o "rec\<lparr>ob_fast := None\<rparr>" "rec\<lparr>ob_fast := None, ob_backing := Some bk'\<rparr>"]
        st1 that by (simp add: mem_ok_def subset_insertI)
    then show "outcome resource_err (mem_ok K) (case ob_backing rec of None \<Rightarrow> Inl (AssertionError ''backing slot'')
      | Some bk \<Rightarrow> Inr (put_record ?o (rec\<lparr>ob_fast := None, ob_backing := Some (g bk)\<rparr>) st1))"
      by (auto split: option.splits)
  qed
  show ?thesis
    using live gone by (cases d; cases "ob_fast rec") (auto simp: settle_slots_def Let_def)
qed

lemma close_transfer_acct: "mem_ok K st \<Longrightarrow> outcome resource_err (mem_ok K) (close_transfer d job st)"
  using set_inflight_None_mem_ok [of K st d]
  by (auto simp: close_transfer_def Let_def mem_ok_def split: option.splits)

lemma complete_acct: "mem_ok K st \<Longrightarrow> outcome resource_err (mem_ok K) (complete d job st)"
  unfolding complete_def
  by (rule outcome_guard, simp, rule outcome_bind [OF table_get_outcome],
      rule outcome_bind [OF settle_slots_acct close_transfer_acct])

end
