(* ===== verification/Engine_Demo.thy ===== *)
theory Engine_Demo
  imports Engine
begin

text \<open>
  A small annotated program the witnesses of the engine theorems run: task \<open>a\<close> turns \<open>x\<close> into \<open>y\<close>,
  releases \<open>x\<close> and prefetches \<open>w\<close>; task \<open>b\<close> mutates \<open>w\<close>, releases it and offloads \<open>y\<close>, whose final
  location is backing memory.
\<close>

definition demo_task :: "string \<Rightarrow> string list \<Rightarrow> output_spec list \<Rightarrow> string list \<Rightarrow> string list \<Rightarrow> string list \<Rightarrow> string list \<Rightarrow> task_spec" where
  "demo_task tid ins outs muts rel off pre =
     \<lparr>ts_id = tid, ts_inputs = ins, ts_outputs = outs, ts_mutates = muts, ts_runtime_us = 10,
      ts_workspace_bytes = 0, ts_group = ''compute'', ts_compute_block_key = None, ts_block_params = [],
      ts_comm_groups = [], ts_releases_after = rel,
      ts_offload_after = map (\<lambda>x. \<lparr>td_object_id = x, td_runtime_us = None\<rparr>) off,
      ts_prefetch_after = map (\<lambda>x. \<lparr>td_object_id = x, td_runtime_us = None\<rparr>) pre,
      ts_label = None, ts_metadata = [], ts_host = False\<rparr>"

definition demo_program :: program where
  "demo_program =
     \<lparr>pr_name = ''demo'',
      pr_initial_objects =
        [\<lparr>os_id = ''x'', os_size_bytes = 40, os_location = ''fast'', os_role = ''activation'', os_tensor = None, os_persistent = False\<rparr>,
         \<lparr>os_id = ''w'', os_size_bytes = 30, os_location = ''backing'', os_role = ''parameter'', os_tensor = None, os_persistent = True\<rparr>],
      pr_tasks =
        [demo_task ''a'' [''x''] [\<lparr>ou_id = ''y'', ou_size_bytes = 50, ou_location = ''fast'', ou_role = ''activation'', ou_tensor = None\<rparr>]
           [] [''x''] [] [''w''],
         demo_task ''b'' [''y'', ''w''] [] [''w''] [''w''] [''y''] []],
      pr_final_locations = [(''y'', ''backing'')], pr_fast_memory_capacity = Some 100,
      pr_backing_memory_capacity = Some 100, pr_bandwidth_from_slow = Some 10, pr_bandwidth_to_slow = Some 10,
      pr_recompute_rewrites = [], pr_metadata = [], pr_schema_version = SCHEMA_VERSION\<rparr>"

definition demo_config :: engine_config where
  "demo_config = \<lparr>en_validate = True, en_strict_final_locations = True, en_poison_on_free = False\<rparr>"

definition demo_options :: run_options where
  "demo_options = \<lparr>op_placement = None, op_recorder = None, op_prewarm = [], op_initial_buffers = []\<rparr>"

text \<open>States of the demo run: after the initial load, and with task \<open>a\<close> dispatched.\<close>

definition demo_start :: "program \<Rightarrow> run_state" where
  "demo_start p = initial_state demo_config p (fst (make_streams (new_backend False None))) [] (new_pool, new_backend False None)"

definition demo_loaded :: run_state where
  "demo_loaded = projr (foldE (load_initial []) (pr_initial_objects demo_program) (demo_start demo_program))"

definition demo_running :: run_state where
  "demo_running = projr (dispatch_task 100 synthetic_launch (\<lambda>_. False) (0, pr_tasks demo_program ! 0) demo_loaded)"

text \<open>The same program with too little fast memory for its initial objects.\<close>

definition demo_overfull :: program where
  "demo_overfull = demo_program\<lparr>pr_fast_memory_capacity := Some 30\<rparr>"

text \<open>The whole run evaluates: it succeeds with the peak of \<open>x\<close> and \<open>y\<close> together, in 28 microseconds.\<close>

lemma demo_run:
  "case execute 100 synthetic_launch (\<lambda>_. False) demo_config demo_options demo_program None (new_backend False None) of
     Succeeded r \<Rightarrow> rr_peak_fast_bytes r = 90 \<and> rr_makespan_us r = 28 | _ \<Rightarrow> False"
  by code_simp

lemma demo_valid: "validate_program demo_program = Valid"
  by code_simp

lemma demo_overfull_valid: "validate_program demo_overfull = Valid"
  by code_simp

lemma demo_loaded_eq: "foldE (load_initial []) (pr_initial_objects demo_program) (demo_start demo_program) = Inr demo_loaded"
proof -
  have "\<not> isl (foldE (load_initial []) (pr_initial_objects demo_program) (demo_start demo_program))" by code_simp
  then show ?thesis unfolding demo_loaded_def by (simp add: sum.collapse(2))
qed

lemma demo_running_eq:
  "dispatch_task 100 synthetic_launch (\<lambda>_. False) (0, pr_tasks demo_program ! 0) demo_loaded = Inr demo_running"
proof -
  have "\<not> isl (dispatch_task 100 synthetic_launch (\<lambda>_. False) (0, pr_tasks demo_program ! 0) demo_loaded)" by code_simp
  then show ?thesis unfolding demo_running_def by (simp add: sum.collapse(2))
qed

end
