(* ===== verification/Engine_Progress.thy ===== *)
theory Engine_Progress
  imports Engine_Frames Engine_Demo
begin

text \<open>
  Progress of the engine. A \<open>potential\<close> counts the work a run still has to do: pending completion
  tokens with the directives they will fire, queued and deferred transfers, and the evictions the
  thrash guard still admits. Every iteration of a wait loop decreases it, so that a fuel above the
  potential is never exhausted; no completion order and no time scale is assumed.
\<close>

section \<open>What a handler leaves alone\<close>

text \<open>Handlers raise neither the model's \<open>OutOfFuel\<close> nor \<open>DeadlockError\<close>, which only a quiescent step does.\<close>

fun no_fuel_err :: "err \<Rightarrow> bool" where
  "no_fuel_err OutOfFuel = False"
| "no_fuel_err _ = True"

fun handler_err :: "err \<Rightarrow> bool" where
  "handler_err OutOfFuel = False"
| "handler_err (DeadlockError _) = False"
| "handler_err _ = True"

lemma handler_no_fuel: "handler_err e \<Longrightarrow> no_fuel_err e"
  by (cases e) auto

lemma relax: "outcome handler_err Q m \<Longrightarrow> outcome no_fuel_err Q m"
  by (erule outcome_weaken) (auto intro: handler_no_fuel)

lemma outcome_if: "(c \<Longrightarrow> outcome E Q a) \<Longrightarrow> (\<not> c \<Longrightarrow> outcome E Q b) \<Longrightarrow> outcome E Q (if c then a else b)"
  by simp

lemma resource_no_fuel: "resource_err e \<Longrightarrow> handler_err e"
  by (cases e) auto

definition same_run :: "run_state \<Rightarrow> run_state \<Rightarrow> bool" where
  "same_run st st' \<longleftrightarrow>
     rs_chain st' = rs_chain st \<and> rs_final_locations st' = rs_final_locations st \<and>
     rs_provided st' = rs_provided st \<and> rs_poison st' = rs_poison st \<and> rs_cursor st' = rs_cursor st \<and>
     rs_current_task_id st' = rs_current_task_id st \<and>
     lg_fast_capacity (rs_ledger st') = lg_fast_capacity (rs_ledger st) \<and>
     lg_backing_capacity (rs_ledger st') = lg_backing_capacity (rs_ledger st) \<and>
     fb_host_us (rs_backend st) \<le> fb_host_us (rs_backend st')"

definition tokens :: "run_state \<Rightarrow> token multiset" where
  "tokens st = mset (map pe_token (fb_pending (rs_backend st)))"

text \<open>Steps that touch neither the completion queue nor the transfer queues.\<close>

definition quiet :: "run_state \<Rightarrow> run_state \<Rightarrow> bool" where
  "quiet st st' \<longleftrightarrow> same_run st st' \<and> tokens st' = tokens st \<and> rs_h2d st' = rs_h2d st \<and> rs_d2h st' = rs_d2h st \<and>
     rs_deferred st' = rs_deferred st \<and> rs_pressure_evictions st' = rs_pressure_evictions st \<and>
     rs_outstanding_task st' = rs_outstanding_task st"

lemma same_run_refl [simp]: "same_run st st"
  by (simp add: same_run_def)

lemma same_run_trans: "same_run a b \<Longrightarrow> same_run b c \<Longrightarrow> same_run a c"
  by (auto simp: same_run_def)

lemma quiet_refl [simp]: "quiet st st"
  by (simp add: quiet_def)

lemma quiet_trans: "quiet a b \<Longrightarrow> quiet b c \<Longrightarrow> quiet a c"
  by (auto simp: quiet_def intro: same_run_trans)

lemma quiet_updates [simp]:
  "quiet st (st\<lparr>rs_table := tb\<rparr>)"
  "quiet st (st\<lparr>rs_trace := tr\<rparr>)"
  "quiet st (st\<lparr>rs_pending_intervals := iv\<rparr>)"
  "quiet st (st\<lparr>rs_prefetch_override := ov\<rparr>)"
  "quiet st (put_record o1 r st)"
  "quiet st (log_event k o2 t d st)"
  by (simp_all add: quiet_def same_run_def tokens_def put_record_def log_event_def)

lemma quiet_put: "quiet st st1 \<Longrightarrow> quiet st (put_record o1 r st1)"
  by (erule quiet_trans) simp

lemma quiet_log: "quiet (log_event k o2 t d st) st1 \<Longrightarrow> quiet st st1"
  by (rule quiet_trans [OF quiet_updates(6)])

lemma quiet_shift: "pool_shift st st' \<Longrightarrow> quiet st st'"
  by (auto simp: pool_shift_def quiet_def same_run_def same_queue_def tokens_def)

lemma quiet_bind:
  assumes "outcome E (quiet st) m" and "\<And>st1. quiet st st1 \<Longrightarrow> m = Inr st1 \<Longrightarrow> outcome E (quiet st1) (f st1)"
  shows "outcome E (quiet st) (bindE m f)"
proof (rule outcome_bind [OF assms(1)])
  fix st1 assume "m = Inr st1" "quiet st st1"
  then show "outcome E (quiet st) (f st1)"
    using outcome_weaken [OF assms(2) [of st1], of "quiet st" E] quiet_trans by blast
qed

lemma quiet_via: "quiet st st1 \<Longrightarrow> outcome E (quiet st1) m \<Longrightarrow> outcome E (quiet st) m"
  by (auto intro: outcome_weaken quiet_trans)

lemma charge_no_fuel: "charge l k n = Inl e \<Longrightarrow> handler_err e"
  by (auto simp: charge_def used_at_def Let_def split: if_splits option.splits)

lemma release_no_fuel: "release l k n = Inl e \<Longrightarrow> handler_err e"
  by (auto simp: release_def used_at_def Let_def split: if_splits option.splits)

lemma can_reserve_no_fuel: "can_reserve l k n = Inl e \<Longrightarrow> handler_err e"
  by (auto simp: can_reserve_def used_at_def Let_def split: if_splits option.splits)

lemma rs_charge_quiet: "outcome handler_err (quiet st) (rs_charge loc n st)"
proof (rule outcomeI)
  fix e assume "rs_charge loc n st = Inl e"
  then show "handler_err e"
    by (cases "charge (rs_ledger st) loc n") (auto simp: rs_charge_def Let_def dest: charge_no_fuel)
next
  fix st' assume "rs_charge loc n st = Inr st'"
  from rs_charge_shape [OF this] obtain l tr where
    "charge (rs_ledger st) loc n = Inr l" "st' = st\<lparr>rs_ledger := l, rs_trace := tr\<rparr>" by blast
  then show "quiet st st'" using charge_caps by (simp add: quiet_def same_run_def tokens_def)
qed

lemma rs_release_quiet: "outcome handler_err (quiet st) (rs_release loc n st)"
proof (rule outcomeI)
  fix e assume "rs_release loc n st = Inl e"
  then show "handler_err e"
    by (cases "release (rs_ledger st) loc n") (auto simp: rs_release_def Let_def dest: release_no_fuel)
next
  fix st' assume "rs_release loc n st = Inr st'"
  from rs_release_shape [OF this] obtain l tr where
    "release (rs_ledger st) loc n = Inr l" "st' = st\<lparr>rs_ledger := l, rs_trace := tr\<rparr>" by blast
  then show "quiet st st'" using release_caps by (simp add: quiet_def same_run_def tokens_def)
qed

lemma rs_put_quiet: "outcome handler_err (quiet st) (rs_put buf st)"
  by (rule outcome_weaken [OF rs_put_outcome quiet_shift resource_no_fuel])

lemma poison_put_quiet: "outcome handler_err (quiet st) (poison_put buf st)"
  by (rule outcome_weaken [OF poison_put_outcome quiet_shift resource_no_fuel])

lemma rs_get_quiet: "outcome handler_err (\<lambda>(buf, st'). quiet st st') (rs_get l n tag st)"
  by (rule outcome_weaken [OF rs_get_outcome _ resource_no_fuel]) (auto intro: quiet_shift)

lemma rs_get_escaped_quiet: "outcome handler_err (\<lambda>(buf, st'). quiet st st') (rs_get_escaped l n tag st)"
  by (rule outcome_weaken [OF rs_get_escaped_outcome _ resource_no_fuel]) (auto intro: quiet_shift)

lemma table_get_no_fuel: "outcome handler_err (\<lambda>_. True) (table_get tb o1)"
  by (simp add: table_get_def split: option.splits)

lemma drop_fast_quiet: "outcome handler_err (quiet st) (drop_fast o1 rec s n st)"
  unfolding drop_fast_def
  by (rule quiet_bind [OF rs_release_quiet], rule quiet_bind [OF poison_put_quiet]) simp

lemma foldE_quiet:
  assumes "\<And>x st. outcome E (quiet st) (f x st)"
  shows "outcome E (quiet st) (foldE f xs st)"
  by (rule outcome_foldE_inv) (auto intro: quiet_via assms)

lemma retire_output_quiet: "outcome handler_err (quiet st) (retire_output ev out st)"
  unfolding retire_output_def
  by (rule outcome_bind [OF table_get_no_fuel]) (auto split: option.splits)

lemma retire_mutate_quiet: "outcome handler_err (quiet st) (retire_mutate ev tid o1 st)"
  unfolding retire_mutate_def Let_def
  by (rule outcome_bind [OF table_get_no_fuel])
    (auto split: option.splits intro: quiet_trans [OF quiet_updates(5) quiet_updates(6)])

lemma free_dead_backing_quiet: "outcome handler_err (quiet st) (free_dead_backing t o1 st)"
proof -
  have d: "outcome handler_err (\<lambda>_. True) (dead_everywhere t o1 st)"
    by (simp add: dead_everywhere_def split: option.splits)
  have "outcome handler_err (quiet st) (bindE (rs_release ''backing'' n st) (\<lambda>st.
       let st = put_record o1 r st in if b st then Inr st else rs_put buf st))" for n r b buf
    by (rule quiet_bind [OF rs_release_quiet]) (auto simp: Let_def intro: quiet_via [OF quiet_updates(5) rs_put_quiet])
  then show ?thesis
    unfolding free_dead_backing_def
    by (intro outcome_bind [OF table_get_no_fuel] outcome_bind [OF d]) (auto split: option.splits)
qed

lemma retire_release_quiet: "outcome handler_err (quiet st) (retire_release t o1 st)"
proof -
  have "outcome handler_err (quiet st) (bindE (drop_fast o1 r s n st) (\<lambda>st.
      bindE (free_dead_backing t o1 st) (\<lambda>st. Inr (log_event ''release'' a b d st))))" for r s n a b d
    by (rule quiet_bind [OF drop_fast_quiet], rule quiet_bind [OF free_dead_backing_quiet]) simp
  then show ?thesis
    unfolding retire_release_def by (intro outcome_bind [OF table_get_no_fuel]) (auto split: option.splits)
qed

section \<open>The potential\<close>

fun token_cost :: "token \<Rightarrow> nat" where
  "token_cost (TaskDone t e0 e1) = 1 + 2 * length (ts_offload_after t) + 3 * length (ts_prefetch_after t)"
| "token_cost (TransferDone d j) = 1"

definition deferred_count :: "(string, 'j list) dict \<Rightarrow> nat" where
  "deferred_count d = (\<Sum>(k, js) \<leftarrow> d. length js)"

definition evictions_left :: "run_state \<Rightarrow> nat" where
  "evictions_left st = nat (10 * int (length (ci_task_index (rs_chain st))) - rs_pressure_evictions st)"

definition potential :: "run_state \<Rightarrow> nat" where
  "potential st =
     sum_mset (image_mset token_cost (tokens st)) + 2 * length (tx_queue (rs_h2d st)) + 2 * length (tx_queue (rs_d2h st))
     + 3 * deferred_count (rs_deferred st) + 3 * evictions_left st"

text \<open>\<open>moves j k\<close>: at least \<open>j\<close> units are used up, at most \<open>k\<close> added.\<close>

definition moves :: "nat \<Rightarrow> nat \<Rightarrow> run_state \<Rightarrow> run_state \<Rightarrow> bool" where
  "moves j k st st' \<longleftrightarrow> same_run st st' \<and> potential st' + j \<le> potential st + k"

lemma moves_refl [simp]: "moves 0 k st st"
  by (simp add: moves_def)

lemma moves_trans: "moves j k a b \<Longrightarrow> moves j' k' b c \<Longrightarrow> j'' + k + k' \<le> j + j' + k'' \<Longrightarrow> moves j'' k'' a c"
  by (auto simp: moves_def intro: same_run_trans)

lemma moves_weaken: "moves j k a b \<Longrightarrow> j' + k \<le> j + k' \<Longrightarrow> moves j' k' a b"
  by (auto simp: moves_def)

lemma quiet_moves: "quiet st st' \<Longrightarrow> moves 0 k st st'"
  by (auto simp: quiet_def moves_def potential_def evictions_left_def same_run_def)

lemma moves_bind:
  assumes "outcome E (moves j k st) m" and "\<And>st1. moves j k st st1 \<Longrightarrow> m = Inr st1 \<Longrightarrow> outcome E (moves j' k' st1) (f st1)"
    and "j'' + k + k' \<le> j + j' + k''"
  shows "outcome E (moves j'' k'' st) (bindE m f)"
proof (rule outcome_bind [OF assms(1)])
  fix st1 assume "m = Inr st1" "moves j k st st1"
  then show "outcome E (moves j'' k'' st) (f st1)"
    using outcome_weaken [OF assms(2) [of st1], of "moves j'' k'' st" E] moves_trans assms(3) by blast
qed

lemma moves_add:
  assumes "outcome E (moves 0 k st) m" and "\<And>st1. outcome E (moves 0 k' st1) (f st1)"
  shows "outcome E (moves 0 (k + k') st) (bindE m f)"
  by (rule moves_bind [OF assms]) simp

lemma moves_via: "moves j k st st1 \<Longrightarrow> outcome E (moves j' k' st1) m \<Longrightarrow> j'' + k + k' \<le> j + j' + k'' \<Longrightarrow> outcome E (moves j'' k'' st) m"
  by (auto intro: outcome_weaken moves_trans)

lemma moves_after: "moves 0 0 st st1 \<Longrightarrow> outcome E (moves j k st1) m \<Longrightarrow> outcome E (moves j k st) m"
  by (erule moves_via, assumption, simp)

lemma quiet_outcome_moves: "outcome E (quiet st) m \<Longrightarrow> outcome E (moves 0 k st) m"
  by (auto intro: outcome_weaken quiet_moves)

lemma foldE_moves:
  assumes "\<And>x st. x \<in> set xs \<Longrightarrow> outcome E (moves 0 k st) (f x st)"
  shows "outcome E (moves 0 (k * length xs) st) (foldE f xs st)"
  using assms
proof (induction xs arbitrary: st)
  case Nil
  then show ?case by simp
next
  case (Cons x xs)
  have "outcome E (moves 0 k st) (f x st)" using Cons.prems by simp
  then show ?case
    unfolding foldE.simps by (rule moves_bind) (use Cons in \<open>auto\<close>)
qed

lemma enqueue_moves: "moves 0 2 st (enqueue d job st)"
  by (cases d)
    (simp_all add: enqueue_def Let_def log_event_def moves_def same_run_def potential_def tokens_def evictions_left_def)

lemma deferred_count_update: "deferred_count (dset k js d) + length (dget_or d k []) = deferred_count d + length js"
  by (induction d) (auto simp: deferred_count_def dget_or_def)

lemma deferred_count_append: "deferred_count (dappend k j d) = Suc (deferred_count d)"
  using deferred_count_update [of k "dget_or d k [] @ [j]" d] by (simp add: dappend_def)

lemma deferred_count_delete: "deferred_count (ddel k d) + length (dget_or d k []) \<le> deferred_count d"
proof (induction d)
  case Nil
  then show ?case by (simp add: deferred_count_def dget_or_def)
next
  case (Cons p d)
  have "deferred_count (ddel k d) \<le> deferred_count d" using Cons by simp
  then show ?case using Cons by (cases p) (auto simp: deferred_count_def dget_or_def)
qed

lemma retire_offload_moves: "outcome handler_err (moves 0 2 st) (retire_offload t ev trig st)"
proof -
  let ?o = "td_object_id trig"
  have g: "outcome handler_err (\<lambda>_. True) (case ob_backing rec of None \<Rightarrow> Inr ()
      | Some bk \<Rightarrow> if sl_state bk \<noteq> Live then Inl (ExecutionError ''cannot offload: backing entry not live'')
          else guardE (bf_size_bytes (sl_buffer bk) = ob_size_bytes rec) (ExecutionError ''offload size mismatch''))" for rec
    by (auto simp: guardE_def split: option.splits)
  have "moves 0 2 st (enqueue ToSlow j (put_record ?o r st))" for j r
    by (rule moves_trans [OF quiet_moves [OF quiet_updates(5), where k = 0] enqueue_moves]) simp
  then show ?thesis
    unfolding retire_offload_def Let_def
    by (intro outcome_bind [OF table_get_no_fuel]) (auto split: option.splits intro!: outcome_bind [OF g])
qed

lemma retire_prefetch_moves: "outcome handler_err (moves 0 3 st) (retire_prefetch t ev trig st)"
proof -
  let ?o = "td_object_id trig"
  have late: "moves 0 3 st (log_event ''transfer_deferred'' a b c (st\<lparr>rs_prefetch_override := ov,
      rs_deferred := dappend ?o j (rs_deferred st)\<rparr>))" for a b c ov j
    by (simp add: log_event_def moves_def same_run_def potential_def tokens_def evictions_left_def deferred_count_append)
  have now: "moves 0 3 st (enqueue FromSlow j (st\<lparr>rs_prefetch_override := ov\<rparr>))" for j ov
    by (rule moves_trans [OF quiet_moves [OF quiet_updates(4), where k = 0] enqueue_moves]) simp
  show ?thesis
    unfolding retire_prefetch_def Let_def
    by (rule outcome_bind [OF table_get_no_fuel]) (use late now in auto)
qed

section \<open>Transfers\<close>

lemma copy_started_moves: "copy_started d job st st' \<Longrightarrow> moves 0 1 st st'"
proof -
  assume "copy_started d job st st'"
  then obtain job' b names s and e :: event where
    st': "st' = set_engine d ((engine_of d st)\<lparr>tx_name_seq := names, tx_stream := s, tx_inflight := Some job'\<rparr>) (st\<lparr>rs_backend := b\<rparr>)"
    and host: "fb_host_us b = fb_host_us (rs_backend st)"
    and pend: "mset (fb_pending b) = add_mset \<lparr>pe_time = ev_time_us e,
           pe_priority = (case d of FromSlow \<Rightarrow> PRIORITY_H2D_DONE | ToSlow \<Rightarrow> PRIORITY_D2H_DONE),
           pe_seq = fb_seq b, pe_token = TransferDone d job'\<rparr> (mset (fb_pending (rs_backend st)))"
    unfolding copy_started_def by blast
  have "image_mset pe_token (mset (fb_pending b)) = add_mset (TransferDone d job') (image_mset pe_token (mset (fb_pending (rs_backend st))))"
    using pend by simp
  then have "tokens (st\<lparr>rs_backend := b\<rparr>) = add_mset (TransferDone d job') (tokens st)"
    by (simp add: tokens_def)
  then show ?thesis
    unfolding st' by (cases d) (simp_all add: moves_def same_run_def potential_def evictions_left_def host tokens_def)
qed

lemma copy_started_inflight: "copy_started d job st st' \<Longrightarrow> tx_inflight (engine_of d st') \<noteq> None"
  by (cases d) (auto simp: copy_started_def)

lemma pop_queue_moves: "tx_queue (engine_of d st) \<noteq> [] \<Longrightarrow> moves 2 0 st (pop_queue d st)"
  by (cases d; cases "tx_queue (engine_of d st)")
    (simp_all add: pop_queue_def Let_def moves_def same_run_def potential_def tokens_def evictions_left_def)

text \<open>A started transfer: a queue entry has become an in-flight copy with its token.\<close>

definition started :: "direction \<Rightarrow> run_state \<Rightarrow> run_state \<Rightarrow> bool" where
  "started d st st' \<longleftrightarrow> moves 1 0 st st' \<and> tx_inflight (engine_of d st') \<noteq> None"

lemma run_copy_started:
  assumes "moves 2 0 st st1"
  shows "outcome handler_err (started d st) (run_copy d job g e st1)"
proof (rule outcome_weaken [OF run_copy_outcome _ resource_no_fuel])
  fix st' assume "copy_started d job st1 st'"
  then show "started d st st'"
    using moves_trans [OF assms copy_started_moves, where j'' = 1 and k'' = 0] copy_started_inflight by (simp add: started_def)
qed

lemma start_from_slow_started:
  assumes q: "tx_queue (rs_h2d st) \<noteq> []"
  shows "outcome handler_err (\<lambda>st'. st' = st \<or> started FromSlow st st') (start_from_slow escape job rec st)"
proof (cases "ob_backing rec")
  case None
  then show ?thesis by (simp add: start_from_slow_def)
next
  case (Some src)
  let ?o = "tj_object_id job" and ?n = "tj_size_bytes job"
  have pop: "moves 2 0 st (pop_queue FromSlow st)" using q by (intro pop_queue_moves) simp
  have go: "outcome handler_err (started FromSlow st) (bindE (rs_charge ''fast'' ?n (pop_queue FromSlow st)) (\<lambda>st.
      bindE ((if b then rs_get_escaped ''fast'' ?n ?o else rs_get ''fast'' ?n (Some ?o)) (log_event k1 k2 k3 k4 st))
        (\<lambda>(dst, st). run_copy FromSlow j (g dst) e (put_record ?o (r dst) st))))" for b k1 k2 k3 k4 j g e r
  proof (rule outcome_bind [OF rs_charge_quiet])
    fix st1 assume st1: "quiet (pop_queue FromSlow st) st1"
    have get: "outcome handler_err (\<lambda>(buf, st'). quiet st2 st')
        ((if b then rs_get_escaped ''fast'' ?n ?o else rs_get ''fast'' ?n (Some ?o)) st2)" for st2
      using rs_get_quiet rs_get_escaped_quiet by simp
    show "outcome handler_err (started FromSlow st) (bindE ((if b then rs_get_escaped ''fast'' ?n ?o else rs_get ''fast'' ?n (Some ?o))
        (log_event k1 k2 k3 k4 st1)) (\<lambda>(dst, st). run_copy FromSlow j (g dst) e (put_record ?o (r dst) st)))"
    proof (rule outcome_bind [OF get], clarify)
      fix dst st2 assume "quiet (log_event k1 k2 k3 k4 st1) st2"
      then have "quiet (pop_queue FromSlow st) (put_record ?o (r dst) st2)"
        by (rule quiet_put [OF quiet_trans [OF st1 quiet_log]])
      then have "moves 2 0 st (put_record ?o (r dst) st2)"
        by (intro moves_trans [OF pop quiet_moves [where k = 0]]) simp_all
      then show "outcome handler_err (started FromSlow st) (run_copy FromSlow j (g dst) e (put_record ?o (r dst) st2))"
        by (rule run_copy_started)
    qed
  qed
  show ?thesis
    unfolding start_from_slow_def Some option.case Let_def
    by (rule outcome_bind_eq, erule can_reserve_no_fuel, rule outcome_if, simp, rule outcome_weaken [OF go])
      simp_all
qed

lemma start_to_slow_started:
  assumes q: "tx_queue (rs_d2h st) \<noteq> []"
  shows "outcome handler_err (\<lambda>st'. st' = st \<or> started ToSlow st st') (start_to_slow job rec st)"
proof (cases "ob_fast rec")
  case None
  then show ?thesis by (simp add: start_to_slow_def)
next
  case (Some src)
  let ?o = "tj_object_id job" and ?n = "tj_size_bytes job" and ?st = "pop_queue ToSlow st"
  have pop: "moves 2 0 st ?st" using q by (intro pop_queue_moves) simp
  let ?dst = "case ob_backing rec of
      None \<Rightarrow> bindE (rs_charge ''backing'' ?n ?st) (\<lambda>st. bindE (rs_get ''backing'' ?n None st) (\<lambda>(dst, st).
          Inr (\<lparr>sl_buffer = dst, sl_state = Inbound, sl_version = sl_version src, sl_ready_event = None\<rparr>, st)))
    | Some existing \<Rightarrow> Inr (existing\<lparr>sl_state := Inbound, sl_version := sl_version src\<rparr>, ?st)"
  have dst: "outcome handler_err (\<lambda>(slot, st2). quiet ?st st2) ?dst"
  proof (cases "ob_backing rec")
    case None
    have "outcome handler_err (\<lambda>(slot, st2). quiet ?st st2) (bindE (rs_get ''backing'' ?n None st1) (\<lambda>(dst, st).
          Inr (\<lparr>sl_buffer = dst, sl_state = Inbound, sl_version = sl_version src, sl_ready_event = None\<rparr>, st)))"
      if "quiet ?st st1" for st1
      by (rule outcome_bind [OF rs_get_quiet]) (use that quiet_trans in \<open>auto\<close>)
    then show ?thesis unfolding None option.case by (intro outcome_bind [OF rs_charge_quiet])
  qed simp
  have copy: "outcome handler_err (started ToSlow st) (run_copy ToSlow j g e (put_record ?o r st2))" if "quiet ?st st2" for j g e r st2
    by (rule run_copy_started, rule moves_trans [OF pop quiet_moves [OF quiet_put [OF that], where k = 0]]) simp
  show ?thesis
    unfolding start_to_slow_def Some option.case Let_def
    by (rule outcome_bind_eq, erule can_reserve_no_fuel, rule outcome_if, simp, rule outcome_bind [OF dst])
      (auto intro!: outcome_weaken [OF copy])
qed

lemma try_start_started:
  "outcome handler_err (\<lambda>st'. st' = st \<or> tx_inflight (engine_of d st) = None \<and> started d st st') (try_start d escape st)"
proof (cases "tx_inflight (engine_of d st) = None \<and> tx_queue (engine_of d st) \<noteq> []")
  case True
  then obtain job q where q: "tx_queue (engine_of d st) = job # q" "tx_inflight (engine_of d st) = None"
    by (cases "tx_queue (engine_of d st)") auto
  have s: "outcome handler_err (\<lambda>st'. st' = st \<or> started d st st')
      (case d of FromSlow \<Rightarrow> start_from_slow escape job rec st | ToSlow \<Rightarrow> start_to_slow job rec st)" for rec
    using q by (cases d) (simp_all add: start_from_slow_started start_to_slow_started)
  show ?thesis
    unfolding try_start_def Let_def q prod.case option.case list.case
    by (rule outcome_bind [OF table_get_no_fuel], rule outcome_weaken [OF s]) auto
next
  case False
  then show ?thesis by (auto simp: try_start_def Let_def split: option.splits list.splits)
qed

lemma try_start_moves: "outcome handler_err (moves 0 0 st) (try_start d escape st)"
  by (rule outcome_weaken [OF try_start_started]) (auto simp: started_def intro: moves_weaken)

lemma escape_blocked_head_moves:
  "outcome handler_err (\<lambda>(b, st'). if b then started FromSlow st st' else st' = st) (escape_blocked_head st)"
proof -
  have "outcome handler_err (\<lambda>(b, st'). if b then started FromSlow st st' else st' = st)
      (bindE (try_start FromSlow True st) (\<lambda>st. Inr (tx_inflight (rs_h2d st) \<noteq> None, st)))"
    if "tx_inflight (rs_h2d st) = None"
    by (rule outcome_bind [OF try_start_started]) (use that in \<open>auto simp: started_def\<close>)
  then show ?thesis
    unfolding escape_blocked_head_def
    by (auto split: option.splits list.splits intro!: outcome_bind_eq dest: can_reserve_no_fuel)
qed

lemma requeue_victim_moves:
  assumes "quiet st st1" and "rs_pressure_evictions st < 10 * int (length (ci_task_index (rs_chain st)))"
  shows "moves 1 0 st (requeue_victim nxt n oid st1)"
proof -
  let ?st2 = "log_event ''pressure_evict'' (Some oid) (rs_current_task_id st1) (''next_use_task='' @ show_nat (nat nxt))
    (st1\<lparr>rs_pressure_evictions := rs_pressure_evictions st1 + 1\<rparr>)"
  obtain anchor b where ab: "record_event (rs_backend ?st2) (tx_stream (rs_h2d ?st2)) = (anchor, b)"
    by (cases "record_event (rs_backend ?st2) (tx_stream (rs_h2d ?st2))")
  have "same_queue (rs_backend st1) b" using record_event_frame [OF ab] by (simp add: log_event_def)
  then have "moves 3 0 st (?st2\<lparr>rs_backend := b\<rparr>)"
    using assms by (auto simp: quiet_def same_queue_def moves_def same_run_def potential_def tokens_def
        evictions_left_def log_event_def)
  from moves_trans [OF this enqueue_moves, where j'' = 1 and k'' = 0] show ?thesis
    using ab by (simp add: requeue_victim_def Let_def)
qed

lemma evict_for_pressure_moves:
  "outcome handler_err (\<lambda>(r, st'). if r = NoVictim then st' = st else moves 1 0 st st') (evict_for_pressure exclude st)"
proof (cases "10 * int (length (ci_task_index (rs_chain st))) \<le> rs_pressure_evictions st")
  case True
  then show ?thesis by (simp add: evict_for_pressure_def)
next
  case False
  then show ?thesis
    by (auto simp: evict_for_pressure_def Let_def split: option.splits
        intro!: outcome_bind [OF table_get_no_fuel] outcome_bind [OF drop_fast_quiet] requeue_victim_moves [unfolded One_nat_def])
qed

section \<open>Token handlers\<close>

lemma on_task_done_moves: "outcome handler_err (moves 0 (token_cost (TaskDone t e0 e1) - 1) st) (on_task_done t e0 e1 st)"
proof -
  let ?st = "if rs_outstanding_task st = Some (ts_id t) then st\<lparr>rs_outstanding_task := None\<rparr> else st"
  have st: "moves 0 0 st ?st" by (simp add: moves_def same_run_def potential_def tokens_def evictions_left_def)
  note q0 = quiet_outcome_moves [OF foldE_quiet [OF retire_output_quiet], where k = 0]
    and q1 = quiet_outcome_moves [OF foldE_quiet [OF retire_mutate_quiet], where k = 0]
    and q2 = quiet_outcome_moves [OF foldE_quiet [OF retire_release_quiet], where k = 0]
  have tail: "outcome handler_err (moves 0 (0 + (2 * length (ts_offload_after t) + (3 * length (ts_prefetch_after t) + (0 + 0)))) st1)
      (bindE (foldE (retire_release t) (ts_releases_after t) st1) (\<lambda>st.
       bindE (foldE (retire_offload t e1) (ts_offload_after t) st) (\<lambda>st.
       bindE (foldE (retire_prefetch t e1) (ts_prefetch_after t) st) (\<lambda>st.
       bindE (try_start FromSlow False st) (\<lambda>st. try_start ToSlow False st)))))" for st1
    by (intro moves_add q2 foldE_moves retire_offload_moves retire_prefetch_moves try_start_moves)
  have body: "outcome handler_err (moves 0 (2 * length (ts_offload_after t) + 3 * length (ts_prefetch_after t)) st0)
      (bindE (foldE (retire_output e1) (ts_outputs t) st0) (\<lambda>st.
       bindE (foldE (retire_mutate e1 (ts_id t)) (ts_mutates t) st) (\<lambda>st.
       let st = st\<lparr>rs_pending_intervals := rs_pending_intervals st @ [(ts_id t, e0, e1, ''compute'')]\<rparr>
       in bindE (foldE (retire_release t) (ts_releases_after t) st) (\<lambda>st.
       bindE (foldE (retire_offload t e1) (ts_offload_after t) st) (\<lambda>st.
       bindE (foldE (retire_prefetch t e1) (ts_prefetch_after t) st) (\<lambda>st.
       bindE (try_start FromSlow False st) (\<lambda>st. try_start ToSlow False st)))))))" for st0
    unfolding Let_def
    using moves_add [OF q0 moves_add [OF q1 moves_after [OF quiet_moves [OF quiet_updates(3)] tail]]] by simp
  show ?thesis
    unfolding on_task_done_def using moves_after [OF st body] by (simp add: Let_def)
qed

lemma settle_slots_quiet: "outcome handler_err (quiet st) (settle_slots d job rec st)"
  unfolding settle_slots_def Let_def
  by (cases d; cases "ob_fast rec") (auto intro!: quiet_bind [OF drop_fast_quiet] split: option.splits)

lemma close_transfer_moves: "outcome handler_err (moves 0 0 st) (close_transfer d job st)"
  by (cases d) (auto simp: close_transfer_def Let_def log_event_def moves_def same_run_def potential_def tokens_def
      evictions_left_def split: option.splits)

lemma complete_moves: "outcome handler_err (moves 0 0 st) (complete d job st)"
  unfolding complete_def
  by (rule outcome_guard, simp, rule outcome_bind [OF table_get_no_fuel],
      rule moves_bind [OF quiet_outcome_moves [OF settle_slots_quiet, where k = 0] close_transfer_moves]) simp_all

lemma fold_enqueue_moves: "moves 0 (2 * length js) st (fold (enqueue d) js st)"
proof (induction js arbitrary: st)
  case (Cons j js)
  then show ?case by (simp add: moves_trans [OF enqueue_moves Cons.IH])
qed simp

lemma on_transfer_done_moves: "outcome handler_err (moves 0 0 st) (on_transfer_done d job st)"
proof (cases d)
  case FromSlow
  show ?thesis unfolding on_transfer_done_def FromSlow direction.case
    by (rule moves_bind [OF complete_moves try_start_moves]) simp
next
  case ToSlow
  have act: "moves 0 0 st1 (fold (enqueue FromSlow) (dget_or (rs_deferred st1) o1 [])
      (st1\<lparr>rs_deferred := ddel o1 (rs_deferred st1)\<rparr>))" for st1 o1
  proof -
    let ?w = "dget_or (rs_deferred st1) o1 []"
    have "moves (3 * length ?w) 0 st1 (st1\<lparr>rs_deferred := ddel o1 (rs_deferred st1)\<rparr>)"
      using deferred_count_delete [of o1 "rs_deferred st1"]
      by (simp add: moves_def same_run_def potential_def tokens_def evictions_left_def)
    then show ?thesis by (rule moves_trans [OF _ fold_enqueue_moves]) simp
  qed
  have kick: "outcome handler_err (moves 0 0 st1) (bindE (try_start ToSlow False st1) (try_start FromSlow False))" for st1
    by (rule moves_bind [OF try_start_moves try_start_moves]) simp
  show ?thesis unfolding on_transfer_done_def ToSlow direction.case Let_def
    using moves_add [OF complete_moves moves_after [OF act kick]] by simp
qed

lemma handle_moves: "outcome handler_err (moves 0 (token_cost tok - 1) st) (handle tok st)"
  using on_task_done_moves on_transfer_done_moves by (cases tok) (simp_all add: handle_def)

lemma take_token_moves:
  assumes "take_token st = (Some tok, st')"
  shows "moves (token_cost tok) 0 st st'" and "rs_backend st' = snd (next_completion (rs_backend st))"
proof -
  obtain e es where p: "fb_pending (rs_backend st) = e # es" "tok = pe_token e"
    using assms by (auto simp: take_token_def next_completion_def Let_def split: list.splits prod.splits)
  then have st': "st' = st\<lparr>rs_backend := (rs_backend st)\<lparr>fb_pending := es, fb_host_us := max (fb_host_us (rs_backend st)) (pe_time e)\<rparr>\<rparr>"
    using assms by (simp add: take_token_def next_completion_def)
  show "moves (token_cost tok) 0 st st'"
    unfolding st' using p by (simp add: moves_def same_run_def potential_def tokens_def evictions_left_def)
  show "rs_backend st' = snd (next_completion (rs_backend st))"
    unfolding st' using p by (simp add: next_completion_def)
qed

lemma take_token_None: "take_token st = (None, st') \<Longrightarrow> st' = st \<and> fb_pending (rs_backend st) = []"
  by (auto simp: take_token_def next_completion_def Let_def split: list.splits)

lemma token_cost_pos: "0 < token_cost tok"
  by (cases tok) simp_all

text \<open>Consuming a completion token uses up at least one unit.\<close>

lemma token_step:
  assumes "take_token st = (Some tok, st1)"
  shows "outcome handler_err (moves 1 0 st) (handle tok st1)"
  by (rule moves_via [OF take_token_moves(1) [OF assms] handle_moves]) (use token_cost_pos [of tok] in simp)

lemma step_quiescent_moves: "outcome no_fuel_err (moves 1 0 st) (step_quiescent exclude st)"
proof -
  have log: "moves 1 0 st (log_event k1 k2 k3 k4 st1)" if "moves 1 0 st st1" for st1 k1 k2 k3 k4
    by (rule moves_trans [OF that quiet_moves [OF quiet_updates(6), where k = 0]]) simp
  have ev: "outcome no_fuel_err (moves 1 0 st) (bindE (evict_for_pressure exclude st) (\<lambda>(r, st).
      if r = NoVictim then Inl (DeadlockError m) else Inr st))" for m
    by (rule outcome_bind [OF relax [OF evict_for_pressure_moves]]) auto
  show ?thesis
    unfolding step_quiescent_def
    by (rule outcome_bind [OF relax [OF escape_blocked_head_moves]]) (use log ev in \<open>auto simp: started_def split: if_splits\<close>)
qed

lemma step_moves: "outcome no_fuel_err (moves 1 0 st) (step exclude pump st)"
proof (cases "take_token st")
  case (Pair r st1)
  show ?thesis
  proof (cases r)
    case (Some tok)
    then show ?thesis using relax [OF token_step] Pair by (simp add: step_def)
  next
    case None
    then have st1: "st1 = st" using Pair take_token_None by blast
    have "outcome no_fuel_err (moves 1 0 st) (bindE (try_start FromSlow False st) (\<lambda>st.
        if tx_inflight (rs_h2d st) \<noteq> None then Inr st else step_quiescent exclude st))"
      if "tx_inflight (rs_h2d st) = None"
      by (rule outcome_bind [OF relax [OF try_start_started]]) (use that step_quiescent_moves in \<open>auto simp: started_def\<close>)
    then show ?thesis using None Pair st1 step_quiescent_moves by (simp add: step_def)
  qed
qed

section \<open>Wait loops\<close>

lemma moves_lt: "moves 1 0 st st' \<Longrightarrow> potential st < Suc n \<Longrightarrow> potential st' < n"
  by (simp add: moves_def)

lemma loop_bind:
  assumes "outcome no_fuel_err (moves 1 0 st) m" and "potential st < Suc n"
    and "\<And>st1. potential st1 < n \<Longrightarrow> outcome no_fuel_err (moves 0 0 st1) (f st1)"
  shows "outcome no_fuel_err (moves 0 0 st) (bindE m f)"
  by (rule moves_bind [OF assms(1)]) (use assms(2,3) moves_lt in \<open>auto\<close>)

lemma wait_retired_moves: "potential st < n \<Longrightarrow> outcome no_fuel_err (moves 0 0 st) (wait_retired n protected st)"
proof (induction n arbitrary: st)
  case (Suc n)
  then show ?case by (subst wait_retired.simps) (auto intro: loop_bind [OF step_moves])
qed simp

lemma wait_inputs_moves: "potential st < n \<Longrightarrow> outcome no_fuel_err (moves 0 0 st) (wait_inputs n t st)"
proof (induction n arbitrary: st)
  case (Suc n)
  then show ?case by (subst wait_inputs.simps) (auto intro: loop_bind [OF step_moves])
qed simp

lemma drain_moves: "potential st < n \<Longrightarrow> outcome no_fuel_err (moves 0 0 st) (drain n st)"
proof (induction n arbitrary: st)
  case (Suc n)
  obtain r st1 where tk: "take_token st = (r, st1)" by (cases "take_token st")
  show ?case
  proof (cases r)
    case None
    then show ?thesis using tk take_token_None [of st st1] by (subst drain.simps) simp
  next
    case (Some tok)
    then show ?thesis using tk Suc by (subst drain.simps) (auto intro: loop_bind [OF relax [OF token_step]])
  qed
qed simp

definition unescaped :: "task_spec \<Rightarrow> string list \<Rightarrow> nat" where
  "unescaped t escaped = length (filter (\<lambda>out. ou_id out \<notin> set escaped) (ts_outputs t))"

lemma length_filter_less:
  "(\<And>x. Q x \<Longrightarrow> P x) \<Longrightarrow> y \<in> set xs \<Longrightarrow> P y \<Longrightarrow> \<not> Q y \<Longrightarrow> length (filter Q xs) < length (filter P xs)"
proof (induction xs)
  case (Cons x xs)
  have le: "length (filter Q xs) \<le> length (filter P xs)"
  proof -
    have "filter Q xs = filter Q (filter P xs)" using Cons.prems(1) by (auto intro: filter_cong)
    then show ?thesis by (metis length_filter_le)
  qed
  show ?case
  proof (cases "x = y")
    case True
    then show ?thesis using le Cons.prems by simp
  next
    case False
    then have "length (filter Q xs) < length (filter P xs)" using Cons by auto
    then show ?thesis using Cons.prems(1) [of x] by simp
  qed
qed simp

lemma unescaped_less:
  assumes "busy_outputs t escaped st \<noteq> []"
  shows "unescaped t (escaped @ busy_outputs t escaped st) < unescaped t escaped"
proof -
  obtain out where out: "out \<in> set (ts_outputs t)" "ou_id out \<notin> set escaped"
    and busy: "ou_id out \<in> set (busy_outputs t escaped st)"
    using assms by (auto simp: busy_outputs_def filter_empty_conv)
  show ?thesis unfolding unescaped_def
    by (rule length_filter_less [of _ _ out]) (use out busy in auto)
qed

lemma fold_log_quiet: "quiet st (fold (\<lambda>x. log_event k (f x) b c) xs st)"
proof (induction xs arbitrary: st)
  case (Cons x xs)
  show ?case using quiet_trans [OF quiet_updates(6) Cons.IH] by simp
qed simp

lemma wait_reserve_moves:
  "potential st + unescaped t escaped < n \<Longrightarrow>
     outcome no_fuel_err (\<lambda>(esc, wb, st'). moves 0 0 st st') (wait_reserve n t escaped was_blocked st)"
proof (induction n arbitrary: st escaped was_blocked)
  case (Suc n)
  let ?Q = "\<lambda>st (esc :: string list, wb :: bool, st'). moves 0 0 st st'"
  have chain: "outcome no_fuel_err (?Q st) (bindE m (wait_reserve n t escaped wb))"
    if m: "outcome no_fuel_err (moves 1 0 st) m" for m wb
  proof (rule outcome_bind [OF m])
    fix st1 assume st1: "moves 1 0 st st1"
    then have "potential st1 + unescaped t escaped < n" using Suc.prems by (simp add: moves_def)
    from Suc.IH [OF this] show "outcome no_fuel_err (?Q st) (wait_reserve n t escaped wb st1)"
      by (rule outcome_weaken) (use moves_trans [OF st1] in \<open>auto\<close>)
  qed
  have escape: "outcome no_fuel_err (?Q st) (wait_reserve n t (escaped @ busy_outputs t escaped st) wb
      (fold (\<lambda>oid. log_event k (Some oid) b c) (busy_outputs t escaped st) st))"
    if busy: "busy_outputs t escaped st \<noteq> []" for k b c wb
  proof -
    let ?st1 = "fold (\<lambda>oid. log_event k (Some oid) b c) (busy_outputs t escaped st) st"
    have q: "moves 0 0 st ?st1" by (rule quiet_moves [OF fold_log_quiet])
    have "potential ?st1 + unescaped t (escaped @ busy_outputs t escaped st) < n"
      using q Suc.prems unescaped_less [OF busy] by (simp add: moves_def)
    from Suc.IH [OF this] show ?thesis
      by (rule outcome_weaken) (use moves_trans [OF q] in \<open>auto\<close>)
  qed
  obtain r st1 where tk: "take_token st = (r, st1)" by (cases "take_token st")
  show ?case
  proof (cases r)
    case None
    then have st1: "st1 = st" using tk take_token_None by blast
    show ?thesis
      by (subst wait_reserve.simps)
        (auto simp: tk None st1 Let_def escape chain [OF step_moves] intro!: outcome_bind_eq dest: can_reserve_no_fuel handler_no_fuel)
  next
    case (Some tok)
    show ?thesis
      by (subst wait_reserve.simps)
        (auto simp: tk Some Let_def chain [OF relax [OF token_step [OF tk [unfolded Some]]]] intro!: outcome_bind_eq dest: can_reserve_no_fuel handler_no_fuel)
  qed
qed simp

section \<open>A whole run\<close>

lemma table_add_quiet: "quiet st (st\<lparr>rs_table := tb\<rparr>)"
  by simp

lemma reserve_output_quiet: "outcome handler_err (quiet st) (reserve_output t escaped out st)"
proof -
  have get: "outcome handler_err (\<lambda>(buf, st'). quiet st1 st')
      ((if b then rs_get_escaped l n tg else rs_get l n (Some tg)) st1)" for b l n tg st1
    using rs_get_quiet rs_get_escaped_quiet by simp
  have fin: "quiet st1 (log_event k1 k2 k3 k4 (put_record o1 r (st2\<lparr>rs_table := tb\<rparr>)))" if "quiet st1 st2" for st1 st2 k1 k2 k3 k4 o1 r tb
    using that quiet_updates quiet_trans by meson
  show ?thesis
    unfolding reserve_output_def Let_def
    by (rule quiet_bind [OF rs_charge_quiet], rule outcome_bind [OF get])
      (auto intro!: outcome_guard fin split: prod.splits)
qed

lemma mapE_no_fuel: "(\<And>x. outcome handler_err (\<lambda>_. True) (f x)) \<Longrightarrow> outcome handler_err (\<lambda>_. True) (mapE f xs)"
  by (induction xs) (auto intro!: outcome_bind)

text \<open>Executables enqueue work or raise an exception of their own.\<close>

definition launch_ok :: "(task_spec \<Rightarrow> token fake_backend \<Rightarrow> stream \<Rightarrow> stream res) \<Rightarrow> bool" where
  "launch_ok launch \<longleftrightarrow> (\<forall>t b s e. launch t b s = Inl e \<longrightarrow> resource_err e)"

lemma launch_task_moves:
  assumes "launch_ok launch"
  shows "outcome handler_err (moves 0 (token_cost (TaskDone t e0 e1)) st) (launch_task launch t st)"
proof -
  have b: "outcome handler_err (\<lambda>_. True) (bind_inputs t st)"
    unfolding bind_inputs_def
    by (intro mapE_no_fuel outcome_bind [OF table_get_no_fuel]) (auto split: option.splits)
  have m: "outcome handler_err (\<lambda>_. True) (mapE (\<lambda>obj. case dget bufs obj of None \<Rightarrow> Inl (KeyError obj) | Some b \<Rightarrow> Inr (obj, b)) xs)"
    for bufs :: "(string \<times> buffer) list" and xs
    by (rule mapE_no_fuel) (auto split: option.splits)
  have fin: "moves 0 (token_cost (TaskDone t e0 e1)) st (st\<lparr>rs_compute := s, rs_backend := notify_after b2 d (TaskDone t a d) pr,
      rs_outstanding_task := Some (ts_id t)\<rparr>)" if "same_queue (rs_backend st) b2" for s b2 d a pr
  proof -
    have "image_mset pe_token (mset (heappush e q)) = add_mset (pe_token e) (image_mset pe_token (mset q))" for e :: "token pending_entry" and q
      by simp
    then show ?thesis using that
      by (simp add: moves_def same_run_def potential_def tokens_def evictions_left_def notify_after_def same_queue_def Let_def)
  qed
  let ?s = "align_stream_to_host (rs_backend st) (rs_compute st)"
  obtain a b1 where r1: "record_event (rs_backend st) ?s = (a, b1)" by (cases "record_event (rs_backend st) ?s")
  have "outcome handler_err (moves 0 (token_cost (TaskDone t e0 e1)) st) (bindE (launch t b1 ?s) (\<lambda>s.
        let (done_event, b) = record_event b1 s;
            b = notify_after b done_event (TaskDone t a done_event) PRIORITY_TASK_DONE
        in Inr (st\<lparr>rs_compute := s, rs_backend := b, rs_outstanding_task := Some (ts_id t)\<rparr>)))"
  proof (rule outcome_bind_eq)
    show "handler_err e" if "launch t b1 ?s = Inl e" for e using assms that by (auto simp: launch_ok_def intro: resource_no_fuel)
    fix s1
    obtain d b2 where r2: "record_event b1 s1 = (d, b2)" by (cases "record_event b1 s1")
    have "same_queue (rs_backend st) b2"
      using record_event_frame [OF r1] record_event_frame [OF r2] same_queue_trans by blast
    then show "outcome handler_err (moves 0 (token_cost (TaskDone t e0 e1)) st) (let (done_event, b) = record_event b1 s1;
            b = notify_after b done_event (TaskDone t a done_event) PRIORITY_TASK_DONE
        in Inr (st\<lparr>rs_compute := s1, rs_backend := b, rs_outstanding_task := Some (ts_id t)\<rparr>))"
      using fin by (simp add: r2)
  qed
  then show ?thesis
    unfolding launch_task_def Let_def [where s = ?s] r1 prod.case
    by (intro outcome_bind [OF b] outcome_bind [OF m]) (simp add: r1)
qed

definition task_work :: "task_spec \<Rightarrow> nat" where
  "task_work t = 1 + 2 * length (ts_offload_after t) + 3 * length (ts_prefetch_after t)"

lemma dispatch_task_moves:
  assumes "launch_ok launch" and "potential st + length (ts_outputs t) < n"
  shows "outcome no_fuel_err (\<lambda>st'. potential st' \<le> potential st + task_work t) (dispatch_task n launch cancelled (i, t) st)"
proof -
  let ?st = "st\<lparr>rs_cursor := int i, rs_current_task_id := Some (ts_id t)\<rparr>"
  have pot: "potential ?st = potential st" by (simp add: potential_def tokens_def evictions_left_def)
  have un: "unescaped t [] = length (ts_outputs t)" by (simp add: unescaped_def)
  have tail: "outcome no_fuel_err (moves 0 (task_work t) st1)
      (bindE (foldE (reserve_output t escaped) (ts_outputs t) st1) (\<lambda>st.
       bindE (if wb then try_start FromSlow False st else Inr st) (launch_task launch t)))" for st1 escaped wb
  proof -
    have tr: "outcome no_fuel_err (moves 0 0 st2) (if wb then try_start FromSlow False st2 else Inr st2)" for st2
      using relax [OF try_start_moves] by simp
    have "outcome no_fuel_err (moves 0 (task_work t) st2) (launch_task launch t st2)" for st2
      using relax [OF launch_task_moves [OF assms(1)]] by (simp add: task_work_def)
    from moves_add [OF quiet_outcome_moves [OF relax [OF foldE_quiet [OF reserve_output_quiet]], where k = 0] moves_add [OF tr this]]
    show ?thesis by simp
  qed
  have res: "outcome no_fuel_err (moves 0 (task_work t) st1)
      (bindE (wait_reserve n t [] False st1) (\<lambda>(escaped, was_blocked, st).
       bindE (can_reserve (rs_ledger st) ''backing'' (backing_out t)) (\<lambda>ok.
       if \<not> ok then Inl (ExecutionError m)
       else bindE (foldE (reserve_output t escaped) (ts_outputs t) st) (\<lambda>st.
            bindE (if was_blocked then try_start FromSlow False st else Inr st) (launch_task launch t)))))"
    if "moves 0 0 ?st st1" for st1 m
  proof -
    have "potential st1 + unescaped t [] < n" using that assms(2) pot un by (simp add: moves_def)
    then show ?thesis
      by (intro outcome_bind [OF wait_reserve_moves])
        (auto intro!: outcome_bind_eq moves_after [OF _ tail] dest: can_reserve_no_fuel handler_no_fuel)
  qed
  have "potential ?st < n" using assms(2) pot by simp
  then have "outcome no_fuel_err (moves 0 (task_work t) ?st) (bindE (wait_retired n (ts_inputs t) ?st) (\<lambda>st.
      bindE (wait_inputs n t st) (\<lambda>st. bindE (wait_reserve n t [] False st) (\<lambda>(escaped, was_blocked, st).
       bindE (can_reserve (rs_ledger st) ''backing'' (backing_out t)) (\<lambda>ok.
       if \<not> ok then Inl (ExecutionError m)
       else bindE (foldE (reserve_output t escaped) (ts_outputs t) st) (\<lambda>st.
            bindE (if was_blocked then try_start FromSlow False st else Inr st) (launch_task launch t)))))))" for m
  proof (intro outcome_bind [OF wait_retired_moves] outcome_bind [OF wait_inputs_moves])
    fix st1 st2 assume 1: "moves 0 0 ?st st1"
    then show "potential st1 < n" using \<open>potential ?st < n\<close> by (simp add: moves_def)
    assume "moves 0 0 st1 st2"
    then have 2: "moves 0 0 ?st st2" using moves_trans [OF 1] by simp
    from moves_after [OF 2 res [OF 2]] show "outcome no_fuel_err (moves 0 (task_work t) ?st) (bindE (wait_reserve n t [] False st2) (\<lambda>(escaped, was_blocked, st).
       bindE (can_reserve (rs_ledger st) ''backing'' (backing_out t)) (\<lambda>ok.
       if \<not> ok then Inl (ExecutionError m)
       else bindE (foldE (reserve_output t escaped) (ts_outputs t) st) (\<lambda>st.
            bindE (if was_blocked then try_start FromSlow False st else Inr st) (launch_task launch t)))))" .
  qed
  then have "outcome no_fuel_err (moves 0 (task_work t) ?st) (dispatch_task n launch cancelled (i, t) st)"
    by (simp add: dispatch_task_def Let_def)
  then show ?thesis
    by (rule outcome_weaken) (use pot in \<open>auto simp: moves_def\<close>)
qed

definition fuel_bound :: "program \<Rightarrow> nat" where
  "fuel_bound p = 1 + 30 * length (pr_tasks p) + (\<Sum>t \<leftarrow> pr_tasks p. task_work t + length (ts_outputs t))"

lemma load_initial_quiet: "outcome handler_err (quiet st) (load_initial bufs spec st)"
proof -
  obtain rec tb where ta: "table_add (rs_table st) (new_record (os_id spec) (os_size_bytes spec) (os_role spec) (os_tensor spec)) = (rec, tb)"
    by (cases "table_add (rs_table st) (new_record (os_id spec) (os_size_bytes spec) (os_role spec) (os_tensor spec))")
  let ?g = "rs_get (os_location spec) (os_size_bytes spec) (Some (os_id spec))"
  have get: "outcome handler_err (\<lambda>(buf, st'). quiet st1 st') (case prov of
       Some b \<Rightarrow> (if bf_location b = os_location spec then Inr (b, st1) else ?g st1) | None \<Rightarrow> ?g st1)" for st1 prov
    using rs_get_quiet by (auto split: option.splits)
  have "outcome handler_err (quiet (st\<lparr>rs_table := tb\<rparr>)) (bindE (rs_charge (os_location spec) (os_size_bytes spec) (st\<lparr>rs_table := tb\<rparr>)) (\<lambda>st.
       bindE (guardE c (ExecutionError m)) (\<lambda>_. bindE (case prov of
       Some b \<Rightarrow> (if bf_location b = os_location spec then Inr (b, st) else ?g st) | None \<Rightarrow> ?g st) (\<lambda>(buf, st).
       Inr (put_record (os_id spec) (r buf) st)))))" for prov c m r
    by (rule quiet_bind [OF rs_charge_quiet], rule outcome_guard, simp, rule outcome_bind [OF get]) (auto intro: quiet_put)
  from quiet_via [OF quiet_updates(1) this] show ?thesis
    unfolding load_initial_def ta Let_def prod.case by (intro outcome_guard) simp_all
qed

lemma sync_all_pending: "fb_pending (sync_all b) = []"
proof (induction b rule: sync_all.induct)
  case (1 b)
  then show ?case by (subst sync_all.simps) auto
qed

lemma upload_initial_potential: "outcome no_fuel_err (\<lambda>st'. potential st' \<le> potential st) (upload_initial bufs p st)"
proof -
  have one: "outcome no_fuel_err (\<lambda>st'. potential st' = potential st0) (bindE (memcpy_async (rs_backend st) (tx_stream (rs_h2d st)) None) (\<lambda>(_, s).
      Inr (st\<lparr>rs_h2d := (rs_h2d st)\<lparr>tx_stream := s\<rparr>\<rparr>)))" for st st0
    by (simp add: memcpy_async_def)
  have fin: "potential (st\<lparr>rs_backend := sync_all (rs_backend st)\<rparr>) \<le> potential st" for st
    by (simp add: potential_def tokens_def evictions_left_def sync_all_pending)
  have "outcome no_fuel_err (\<lambda>st'. potential st' = potential st)
      (foldE (\<lambda>spec st. bindE (memcpy_async (rs_backend st) (tx_stream (rs_h2d st)) None) (\<lambda>(_, s).
      Inr (st\<lparr>rs_h2d := (rs_h2d st)\<lparr>tx_stream := s\<rparr>\<rparr>))) xs st)" for xs :: "object_spec list"
    by (rule outcome_foldE_inv) (simp, rule one)
  then show ?thesis
    unfolding upload_initial_def Let_def
    by (auto intro!: outcome_bind) (metis fin)
qed

lemma foldE_dispatch_potential:
  assumes "launch_ok launch" and "potential st0 + (\<Sum>t \<leftarrow> ts. task_work t + length (ts_outputs t)) < n"
  shows "outcome no_fuel_err (\<lambda>st. potential st \<le> potential st0 + (\<Sum>t \<leftarrow> ts. task_work t))
    (foldE (dispatch_task n launch cancelled) (enumerate i ts) st0)"
  using assms(2)
proof (induction ts arbitrary: i st0)
  case (Cons t ts)
  have "potential st0 + length (ts_outputs t) < n" using Cons.prems by simp
  from dispatch_task_moves [OF assms(1) this, of cancelled i]
  have 1: "outcome no_fuel_err (\<lambda>st'. potential st' \<le> potential st0 + task_work t) (dispatch_task n launch cancelled (i, t) st0)" .
  show ?case
    unfolding enumerate_simps foldE.simps
  proof (rule outcome_bind [OF 1])
    fix st1 assume le: "potential st1 \<le> potential st0 + task_work t"
    then have "potential st1 + (\<Sum>t \<leftarrow> ts. task_work t + length (ts_outputs t)) < n" using Cons.prems by simp
    from Cons.IH [OF this] show "outcome no_fuel_err (\<lambda>st. potential st \<le> potential st0 + (\<Sum>t \<leftarrow> t # ts. task_work t))
        (foldE (dispatch_task n launch cancelled) (enumerate (Suc i) ts) st1)"
      by (rule outcome_weaken) (use le in auto)
  qed
qed simp

lemma finish_run_no_fuel: "potential st < n \<Longrightarrow> outcome no_fuel_err (\<lambda>_. True) (finish_run n cfg p st)"
proof -
  assume n: "potential st < n"
  have slot: "outcome no_fuel_err (\<lambda>_. True) (reclaim_slot s st)" for s st
    by (auto simp: reclaim_slot_def split: option.splits intro: relax [OF outcome_weaken [OF rs_put_quiet]])
  have "outcome no_fuel_err (\<lambda>_. True) (reclaim st)" for st
    unfolding reclaim_def by (rule outcome_foldE_inv) (auto intro: outcome_bind [OF slot slot] split: prod.splits)
  then show ?thesis
    unfolding finish_run_def Let_def
    by (intro outcome_bind [OF drain_moves [OF n]] outcome_guard outcome_bind) auto
qed

lemma run_program_no_fuel:
  assumes "launch_ok launch" and "potential st \<le> 30 * length (pr_tasks p)" and "fuel_bound p \<le> n"
  shows "outcome no_fuel_err (\<lambda>_. True) (run_program n launch cancelled cfg p bufs st)"
proof -
  have le: "(\<Sum>t \<leftarrow> ts. task_work t) \<le> (\<Sum>t \<leftarrow> ts. task_work t + length (ts_outputs t))" for ts
    by (induction ts) auto
  have load: "outcome no_fuel_err (\<lambda>st'. potential st' \<le> potential st) (foldE (load_initial bufs) xs st)" for xs
    by (rule outcome_weaken [OF quiet_outcome_moves [OF relax [OF foldE_quiet [OF load_initial_quiet]], where k = 0]]) (auto simp: moves_def)
  show ?thesis
    unfolding run_program_def
  proof (rule outcome_bind [OF load], rule outcome_bind [OF upload_initial_potential], rule outcome_bind [OF foldE_dispatch_potential [OF assms(1)]])
    fix st1 st2 st3
    assume "potential st1 \<le> potential st" and "potential st2 \<le> potential st1"
    then have st2: "potential st2 \<le> 30 * length (pr_tasks p)" using assms(2) by linarith
    then show "potential st2 + (\<Sum>t \<leftarrow> pr_tasks p. task_work t + length (ts_outputs t)) < n"
      using assms(3) by (simp add: fuel_bound_def)
    assume "potential st3 \<le> potential st2 + (\<Sum>t \<leftarrow> pr_tasks p. task_work t)"
    then have "potential st3 < n" using st2 assms(3) le [of "pr_tasks p"] by (simp add: fuel_bound_def)
    then show "outcome no_fuel_err (\<lambda>_. True) (finish_run n cfg p st3)" by (rule finish_run_no_fuel)
  qed
qed

section \<open>Setup and the outcome\<close>

abbreviation queued :: "'a fake_backend \<Rightarrow> ('b \<times> 'a fake_backend) res \<Rightarrow> bool" where
  "queued b m \<equiv> outcome resource_err (\<lambda>(x, b'). same_queue b b') m"

lemma queued_via: "same_queue b b1 \<Longrightarrow> queued b1 m \<Longrightarrow> queued b m"
  by (cases m) (auto intro: same_queue_trans)

lemma queued_bind:
  assumes "queued b m" and "\<And>x b1. queued b1 (f (x, b1))"
  shows "queued b (bindE m f)"
proof (rule outcome_bind [OF assms(1)])
  fix xb assume "m = Inr xb" and "case xb of (x, b') \<Rightarrow> same_queue b b'"
  then obtain x b1 where "xb = (x, b1)" "same_queue b b1" by (cases xb) auto
  then show "queued b (f xb)" using queued_via assms(2) by blast
qed

lemma queued_foldE:
  assumes "\<And>x p b. queued b (f x (p, b))"
  shows "queued b (foldE f xs (p, b))"
proof (induction xs arbitrary: p b)
  case (Cons x xs)
  then show ?case by (auto intro!: queued_bind assms)
qed simp

lemma add_slab_queue: "queued b (add_slab l cap over (p, b))"
proof -
  have ns: "queued b (new_slab b l cap f ow)" for b :: "'a fake_backend" and cap f ow
    unfolding new_slab_def Let_def by (rule queued_bind [OF alloc_outcome]) simp
  show ?thesis
    unfolding add_slab_def prod.case by (rule queued_bind [OF ns]) (auto simp: Let_def intro!: queued_bind [OF ns])
qed

lemma run_pool_queue: "queued b (run_pool p placed (pl, b))"
proof -
  have 1: "queued b (case pr_fast_memory_capacity p of
      Some cap \<Rightarrow> (if placed then Inr (pl, b) else add_slab ''fast'' cap (min (3 * 1024 ^ 3) cap) (pl, b)) | None \<Rightarrow> Inr (pl, b))"
    using add_slab_queue by (auto split: option.splits)
  have 2: "queued b (case pr_backing_memory_capacity p of Some cap \<Rightarrow> add_slab ''backing'' cap 0 (pl, b) | None \<Rightarrow> Inr (pl, b))"
    for pl and b :: "'a fake_backend"
    using add_slab_queue by (auto split: option.splits)
  show ?thesis
    unfolding run_pool_def snd_conv by (rule outcome_if, simp, rule queued_bind [OF 1 2])
qed

lemma ensure_pool_queue: "queued b (bindE (ensure_pool p placed se b) (\<lambda>(s, pb). Inr pb))"
proof -
  have fold: "queued b (foldE (\<lambda>(loc, cap) pb. add_slab loc cap (f loc cap) pb) caps (pl, b))" for f caps pl
    by (rule queued_foldE) (auto intro: add_slab_queue split: prod.splits)
  have new: "queued b (if c then foldE (\<lambda>(loc, cap) pb. add_slab loc cap (f loc cap) pb) caps (pl, b) else Inr (pl, b))" for c f caps pl
    using fold by simp
  have "queued b (bindE (bindE (if c then foldE (\<lambda>(loc, cap) pb. add_slab loc cap (f loc cap) pb) caps (pl, b) else Inr (pl, b))
      (\<lambda>(pl, b). Inr (s' pl, pl, b))) (\<lambda>(s, pb). Inr pb))" for c f caps pl and s' :: "pool \<Rightarrow> session"
    unfolding bindE_assoc by (rule queued_bind [OF new]) simp
  then show ?thesis
    unfolding ensure_pool_def Let_def by (cases "se_pool se"; cases "se_slab_caps se") simp_all
qed

lemma attach_placement_queue: "queued b (attach_placement pl rc (p, b))"
proof -
  have "queued b (enable_placement pl (p, b))" for pl p
    unfolding enable_placement_def prod.case by (rule queued_bind [OF alloc_outcome]) simp
  then show ?thesis by (auto simp: attach_placement_def Let_def split: option.splits)
qed

lemma prewarm_queue: "queued b (prewarm demand (p, b))"
proof -
  have fill: "queued b (prewarm_fill n key (p, b))" for n key p and b :: "'a fake_backend"
  proof (induction n arbitrary: p b)
    case (Suc n)
    then show ?case by (auto intro!: queued_bind [OF alloc_outcome])
  qed simp
  show ?thesis
    unfolding prewarm_def by (rule queued_foldE) (auto simp: prewarm_one_def Let_def fill split: prod.splits)
qed

lemma create_stream_queue: "create_stream b k = (s, b') \<Longrightarrow> same_queue b b'"
  by (auto simp: create_stream_def Let_def same_queue_def)

lemma make_streams_queue: "make_streams b = (ss, b') \<Longrightarrow> same_queue b b'"
  by (auto simp: make_streams_def Let_def split: prod.splits dest!: create_stream_queue intro: same_queue_trans)

lemma task_index_bound: "length (ci_task_index (build_chain_index p)) \<le> length (pr_tasks p)"
proof -
  have keep: "ci_task_index (fold (\<lambda>o1 ci. f o1 ci) xs ci) = ci_task_index ci"
    if "\<And>o1 ci. ci_task_index (f o1 ci) = ci_task_index ci" for f xs ci
    using that by (induction xs arbitrary: ci) auto
  have one: "length (ci_task_index (index_task it ci)) \<le> Suc (length (ci_task_index ci))" for it ci
  proof -
    have "length (dset k v d) \<le> Suc (length d)" for k :: string and v :: int and d
      by (induction d) auto
    then show ?thesis by (cases it) (simp add: index_task_def Let_def keep)
  qed
  have many: "length (ci_task_index (fold index_task xs ci)) \<le> length xs + length (ci_task_index ci)" for xs ci
  proof (induction xs arbitrary: ci)
    case (Cons x xs)
    show ?case using one [of x ci] Cons.IH [of "index_task x ci"] by simp
  qed simp
  show ?thesis
    unfolding build_chain_index_def by (rule order_trans [OF many]) simp
qed

lemma initial_potential:
  assumes "fb_pending (snd pb) = []"
  shows "potential (initial_state cfg p streams bufs pb) \<le> 30 * length (pr_tasks p)"
proof -
  obtain c h d where "streams = (c, h, d)" by (cases streams)
  then show ?thesis
    using task_index_bound [of p] assms
    by (simp add: initial_state_def potential_def tokens_def evictions_left_def deferred_count_def new_engine_def)
qed

section \<open>More fuel changes nothing\<close>

interpretation retired: fuelled_loop
  "\<lambda>f st. if rs_outstanding_task st = None then Inr st else bindE (step protected True st) f" "\<lambda>n. wait_retired n protected" for protected
  by unfold_locales (auto intro: fuel_le_bind simp: wait_retired.simps)

interpretation inputs: fuelled_loop
  "\<lambda>f st. if waiting_inputs t st = [] then Inr st else bindE (step (ts_inputs t) True st) f" "\<lambda>n. wait_inputs n t" for t
  by unfold_locales (auto intro: fuel_le_bind simp: wait_inputs.simps)

interpretation drained: fuelled_loop
  "\<lambda>f st. case take_token st of (None, st) \<Rightarrow> Inr st | (Some tok, st) \<Rightarrow> bindE (handle tok st) f" drain
  by unfold_locales (auto intro: fuel_le_bind simp: drain.simps split: prod.splits option.splits)

interpretation reserved: fuelled_loop
  "\<lambda>f (escaped, was_blocked, st).
     bindE (can_reserve (rs_ledger st) ''fast'' (fast_out t)) (\<lambda>can_res.
       let busy = busy_outputs t escaped st
       in if can_res \<and> busy = [] then Inr (escaped, was_blocked, st)
          else case take_token st of
                 (Some tok, st) \<Rightarrow> bindE (handle tok st) (\<lambda>st. f (escaped, was_blocked, st))
               | (None, st) \<Rightarrow>
                   (if can_res \<and> busy \<noteq> []
                    then f (escaped @ busy, was_blocked, fold (\<lambda>oid. log_event ''placement_escape'' (Some oid) (Some (ts_id t)) []) busy st)
                    else bindE (step (ts_inputs t) False st) (\<lambda>st. f (escaped, True, st))))"
  "\<lambda>n (escaped, was_blocked, st). wait_reserve n t escaped was_blocked st" for t
  by unfold_locales
    (auto intro!: fuel_le_bind simp: Let_def wait_reserve.simps split: prod.splits option.splits cong: if_cong)

lemma dispatch_task_fuel:
  assumes "n \<le> m"
  shows "fuel_le (dispatch_task n launch cancelled it st) (dispatch_task m launch cancelled it st)"
  unfolding dispatch_task_def Let_def
  by (cases it) (auto intro!: fuel_le_bind retired.loop_mono inputs.loop_mono reserved.loop_mono [where s = "(_, _, _)", simplified] assms)

lemma run_program_fuel:
  assumes "n \<le> m"
  shows "fuel_le (run_program n launch cancelled cfg p bufs st) (run_program m launch cancelled cfg p bufs st)"
  unfolding run_program_def finish_run_def
  by (intro fuel_le_bind fuel_le_foldE dispatch_task_fuel drained.loop_mono fuel_le_refl assms)

lemma run_dispatch_fuel:
  assumes "n \<le> m"
  shows "fuel_le (run_dispatch n launch cancelled cfg opts p se b) (run_dispatch m launch cancelled cfg opts p se b)"
  unfolding run_dispatch_def Let_def
  by (intro fuel_le_bind fuel_le_refl)
    (auto intro!: fuel_le_bind run_program_fuel assms split: prod.splits)

text \<open>What holds of \<open>run_program\<close> from every fresh state holds of \<open>run_dispatch\<close>: validation, the streams and
  the pool setup raise only resource errors and queue no completion.\<close>

lemma setup_lift:
  assumes err: "\<And>e. resource_err e \<Longrightarrow> E e"
    and run: "\<And>pl b2. same_queue b b2 \<Longrightarrow>
      outcome E Q (run_program n launch cancelled cfg p bufs (initial_state cfg p streams bufs (pl, b2)))"
    and queues: "same_queue b b1" "queued b1 pool"
  shows "outcome E Q (bindE pool (\<lambda>pb. bindE (attach_placement pla reco pb) (\<lambda>pb.
      bindE (if pre = [] then Inr pb else prewarm pre pb) (\<lambda>pb.
        run_program n launch cancelled cfg p bufs (initial_state cfg p streams bufs pb)))))"
proof -
  let ?prep = "bindE pool (\<lambda>pb. bindE (attach_placement pla reco pb) (\<lambda>pb. if pre = [] then Inr pb else prewarm pre pb))"
  have pw: "queued b0 (if pre = [] then Inr (pl, b0) else prewarm pre (pl, b0))" for pl and b0 :: "token fake_backend"
    by (rule outcome_if) (simp, rule prewarm_queue)
  have "queued b ?prep"
    by (intro queued_via [OF queues(1)] queued_bind [OF queues(2)] queued_bind [OF attach_placement_queue] pw)
  then have q: "outcome E (\<lambda>(pl, b2). same_queue b b2) ?prep"
    by (rule outcome_weaken) (simp_all add: err)
  have "outcome E Q (bindE ?prep (\<lambda>pb. run_program n launch cancelled cfg p bufs (initial_state cfg p streams bufs pb)))"
  proof (rule outcome_bind [OF q])
    fix pb :: "token pool_backend" assume "case pb of (pl, b2) \<Rightarrow> same_queue b b2"
    then obtain pl b2 where "pb = (pl, b2)" "same_queue b b2" by (cases pb) auto
    then show "outcome E Q (run_program n launch cancelled cfg p bufs (initial_state cfg p streams bufs pb))"
      using run by simp
  qed
  then show ?thesis by (simp only: bindE_assoc)
qed

lemma run_dispatch_lift:
  assumes err: "\<And>e. resource_err e \<Longrightarrow> E e"
    and run: "\<And>streams pl b2. \<lbrakk>en_validate cfg \<Longrightarrow> validate_program p = Valid; same_queue b b2\<rbrakk> \<Longrightarrow>
      outcome E Q (run_program n launch cancelled cfg p (op_initial_buffers opts)
        (initial_state cfg p streams (op_initial_buffers opts) (pl, b2)))"
  shows "outcome E Q (run_dispatch n launch cancelled cfg opts p se b)"
proof (cases se)
  case None
  obtain ss b1 where ms: "make_streams b = (ss, b1)" by (cases "make_streams b")
  show ?thesis
    unfolding run_dispatch_def None option.case Let_def ms prod.case
    by (intro outcome_guard setup_lift [OF err _ make_streams_queue [OF ms] run_pool_queue] run) (simp_all add: err)
next
  case (Some s)
  obtain ss s1 b1 where es: "ensure_streams s b = (ss, s1, b1)" by (cases "ensure_streams s b")
  then have b1: "same_queue b b1"
    by (auto simp: ensure_streams_def Let_def split: option.splits prod.splits dest: make_streams_queue)
  show ?thesis
    unfolding run_dispatch_def Some option.case Let_def es prod.case
    by (intro outcome_guard setup_lift [OF err _ b1 ensure_pool_queue] run) (simp_all add: err)
qed

lemma run_dispatch_no_fuel:
  assumes "launch_ok launch" and "fb_pending b = []" and "fuel_bound p \<le> n"
  shows "outcome no_fuel_err (\<lambda>_. True) (run_dispatch n launch cancelled cfg opts p se b)"
proof (rule run_dispatch_lift)
  show "outcome no_fuel_err (\<lambda>_. True) (run_program n launch cancelled cfg p (op_initial_buffers opts)
      (initial_state cfg p streams (op_initial_buffers opts) (pl, b2)))" if "same_queue b b2" for streams pl b2
    by (rule run_program_no_fuel [OF assms(1) initial_potential assms(3)]) (use that assms(2) in \<open>simp add: same_queue_def\<close>)
qed (simp add: resource_no_fuel handler_no_fuel)

text \<open>C2. Termination of a run: for every program, every completion timing and every executable that
  enqueues work or raises, the wait loops and the drain of the dispatcher end within \<open>fuel_bound p\<close>
  iterations each. With that much fuel the outcome is not the model's out-of-fuel value, and it is
  the outcome for every larger fuel.\<close>

theorem execute_terminates:
  assumes "launch_ok launch" and "fb_pending b = []" and "fuel_bound p \<le> n"
  shows "execute n launch cancelled cfg opts p se b = execute (fuel_bound p) launch cancelled cfg opts p se b \<and>
    execute n launch cancelled cfg opts p se b \<noteq> Failed OutOfFuel"
proof -
  have "run_dispatch m launch cancelled cfg opts p se b \<noteq> Inl OutOfFuel" if "fuel_bound p \<le> m" for m
    using outcome_Inl [OF run_dispatch_no_fuel [OF assms(1,2) that]] by (metis no_fuel_err.simps(1))
  then have "run_dispatch n launch cancelled cfg opts p se b = run_dispatch (fuel_bound p) launch cancelled cfg opts p se b"
    and "run_dispatch n launch cancelled cfg opts p se b \<noteq> Inl OutOfFuel"
    using run_dispatch_fuel [OF assms(3)] assms(3) unfolding fuel_le_def by blast+
  then show ?thesis
    by (cases se; cases "run_dispatch (fuel_bound p) launch cancelled cfg opts p se b")
      (auto simp: execute_def split: err.splits)
qed

lemma synthetic_launch_ok: "launch_ok synthetic_launch"
  by (simp add: launch_ok_def synthetic_launch_def)

theorem execute_terminates_witness:
  "execute 100 synthetic_launch (\<lambda>_. False) demo_config demo_options demo_program None (new_backend False None) =
     execute (fuel_bound demo_program) synthetic_launch (\<lambda>_. False) demo_config demo_options demo_program None
       (new_backend False None) \<and>
   execute 100 synthetic_launch (\<lambda>_. False) demo_config demo_options demo_program None (new_backend False None) \<noteq>
     Failed OutOfFuel"
proof (rule execute_terminates [OF synthetic_launch_ok])
  show "fb_pending (new_backend False None) = []" by (simp add: new_backend_def)
  show "fuel_bound demo_program \<le> 100" by code_simp
qed

end
