(* ===== verification/Engine_Safety.thy ===== *)
theory Engine_Safety
  imports Engine_Memory Engine_Progress
begin

text \<open>
  The accounting invariant over a whole run: token handlers, the quiescent step, pressure eviction,
  the reservation of outputs and the initial load keep \<open>mem_ok\<close> and raise no \<open>LedgerError\<close>. Rule
  induction over \<open>engine_reach\<close>, the states a run can visit between two operations of the
  dispatcher, carries it to every state of every run, whatever the completion times are.
\<close>

section \<open>Token handlers\<close>

lemma mem_ok_updates:
  assumes "mem_ok K st"
  shows "mem_ok K (st\<lparr>rs_outstanding_task := a\<rparr>)" and "mem_ok K (st\<lparr>rs_pending_intervals := b\<rparr>)"
    and "mem_ok K (st\<lparr>rs_backend := c\<rparr>)" and "mem_ok K (st\<lparr>rs_cursor := d, rs_current_task_id := e\<rparr>)"
    and "mem_ok K (st\<lparr>rs_pressure_evictions := f\<rparr>)" and "mem_ok K (log_event k o2 t m st)"
    and "mem_ok K (st\<lparr>rs_compute := g, rs_backend := c, rs_outstanding_task := a\<rparr>)"
  using assms by (simp_all add: mem_ok_def)

lemma fold_mem_ok:
  assumes "mem_ok K st" and "\<And>x st. mem_ok K st \<Longrightarrow> outcome resource_err (mem_ok K) (f x st)"
  shows "outcome resource_err (mem_ok K) (foldE f xs st)"
  by (rule outcome_foldE_inv) (use assms in auto)

lemma retire_folds:
  assumes "mem_ok K st"
  shows "outcome resource_err (mem_ok K) (foldE (retire_output ev) outs st)"
    and "outcome resource_err (mem_ok K) (foldE (retire_mutate ev tid) obs st)"
    and "outcome resource_err (mem_ok K) (foldE (retire_release t) obs st)"
    and "outcome resource_err (mem_ok K) (foldE (retire_offload t ev) trigs st)"
    and "outcome resource_err (mem_ok K) (foldE (retire_prefetch t ev) trigs st)"
  by (intro fold_mem_ok [OF assms]; erule retire_output_acct retire_mutate_acct retire_release_acct
      retire_offload_acct retire_prefetch_acct)+

lemma on_task_done_acct:
  assumes "mem_ok K st"
  shows "outcome resource_err (mem_ok K) (on_task_done t e0 e1 st)"
proof -
  have st: "mem_ok K (if c then st\<lparr>rs_outstanding_task := None\<rparr> else st)" for c
    using mem_ok_updates(1) assms by simp
  show ?thesis
    unfolding on_task_done_def Let_def
    by (rule outcome_bind [OF retire_folds(1) [OF st]], rule outcome_bind [OF retire_folds(2)], assumption,
        rule outcome_bind [OF retire_folds(3) [OF mem_ok_updates(2)]], assumption,
        rule outcome_bind [OF retire_folds(4)], assumption, rule outcome_bind [OF retire_folds(5)], assumption,
        rule outcome_bind [OF try_start_acct], assumption, rule try_start_acct)
qed

lemma fold_enqueue_frame:
  "rs_ledger (fold (enqueue d) js st) = rs_ledger st"
  "rs_table (fold (enqueue d) js st) = rs_table st"
  "rs_deferred (fold (enqueue d) js st) = rs_deferred st"
  "demands (fold (enqueue d) js st) = job_demand ` set js \<union> demands st"
  by (induction js arbitrary: st) auto

text \<open>Deferred prefetches move to the queue of the from-slow lane.\<close>

lemma activate_deferred_acct:
  assumes "mem_ok K st"
  shows "mem_ok K (fold (enqueue FromSlow) (dget_or (rs_deferred st) o1 []) (st\<lparr>rs_deferred := ddel o1 (rs_deferred st)\<rparr>))"
proof -
  have dd: "distinct (map fst (rs_deferred st))" using assms by (simp add: mem_ok_def)
  have "set (dget_or (rs_deferred st) o1 []) \<subseteq> deferred_jobs (rs_deferred st)"
    by (cases "dget (rs_deferred st) o1") (force simp: dget_or_def deferred_jobs_def dest: map_of_SomeD)+
  moreover have "deferred_jobs (ddel o1 (rs_deferred st)) \<subseteq> deferred_jobs (rs_deferred st)"
    by (auto simp: deferred_jobs_def AList.delete_eq)
  ultimately have "demands (fold (enqueue FromSlow) (dget_or (rs_deferred st) o1 []) (st\<lparr>rs_deferred := ddel o1 (rs_deferred st)\<rparr>)) \<subseteq> demands st"
    unfolding fold_enqueue_frame by (auto simp: demands_def)
  then show ?thesis
    using assms acct_mono distinct_delete [OF dd] unfolding mem_ok_def fold_enqueue_frame by auto
qed

lemma on_transfer_done_acct:
  assumes "mem_ok K st"
  shows "outcome resource_err (mem_ok K) (on_transfer_done d job st)"
proof (cases d)
  case FromSlow
  show ?thesis unfolding on_transfer_done_def FromSlow direction.case
    by (rule outcome_bind [OF complete_acct [OF assms] try_start_acct])
next
  case ToSlow
  show ?thesis unfolding on_transfer_done_def ToSlow direction.case Let_def
    by (rule outcome_bind [OF complete_acct [OF assms]], rule outcome_bind [OF try_start_acct try_start_acct])
      (rule activate_deferred_acct)
qed

lemma handle_acct: "mem_ok K st \<Longrightarrow> outcome resource_err (mem_ok K) (handle tok st)"
  by (cases tok) (simp_all add: handle_def on_task_done_acct on_transfer_done_acct)

lemma take_token_acct: "mem_ok K st \<Longrightarrow> take_token st = (r, st') \<Longrightarrow> mem_ok K st'"
  by (auto simp: take_token_def Let_def mem_ok_updates split: prod.splits)

section \<open>The quiescent step\<close>

lemma escape_blocked_head_acct:
  assumes "mem_ok K st"
  shows "outcome resource_err (\<lambda>(b, st'). mem_ok K st') (escape_blocked_head st)"
proof -
  have "outcome resource_err (\<lambda>(b, st'). mem_ok K st')
      (bindE (try_start FromSlow True st) (\<lambda>st. Inr (tx_inflight (rs_h2d st) \<noteq> None, st)))"
    by (rule outcome_bind [OF try_start_acct [OF assms]]) simp
  moreover have "can_reserve (rs_ledger st) ''fast'' n \<noteq> Inl e" for n e
    using can_reserve_iff [OF mem_okD(2) [OF assms]] by simp
  ultimately show ?thesis
    using assms unfolding escape_blocked_head_def
    by (auto split: option.splits list.splits intro!: outcome_bind_eq)
qed

text \<open>The victim of a pressure eviction: a resident, clean object of the table that is live on both
  sides, and no other candidate has a later next use (ties: a larger size).\<close>

definition victim_of :: "string list \<Rightarrow> run_state \<Rightarrow> object_table \<Rightarrow> int \<times> int \<times> string \<Rightarrow> bool" where
  "victim_of exclude st tb v \<longleftrightarrow> (case v of (nxt, n, oid) \<Rightarrow>
     \<exists>rec. (oid, rec) \<in> set tb \<and> ob_size_bytes rec = n \<and> evict_candidate exclude st oid rec = Some nxt)"

lemma pick_victim_some:
  "pick_victim exclude st best tb = Some v \<Longrightarrow> best = Some v \<or> victim_of exclude st tb v"
proof (induction tb arbitrary: best)
  case (Cons p tb)
  obtain oid rec where p: "p = (oid, rec)" by (cases p)
  from Cons.IH [OF Cons.prems [unfolded p pick_victim.simps]] show ?case
    by (auto simp: p victim_of_def split: option.splits prod.splits if_splits)
qed simp

lemma pick_victim_max:
  assumes "pick_victim exclude st best tb = Some (nxt, n, oid)"
  shows "(\<forall>bn bs bo. best = Some (bn, bs, bo) \<longrightarrow> bn < nxt \<or> bn = nxt \<and> bs \<le> n) \<and>
    (\<forall>o1 rec nx. (o1, rec) \<in> set tb \<and> evict_candidate exclude st o1 rec = Some nx \<longrightarrow>
       nx < nxt \<or> nx = nxt \<and> ob_size_bytes rec \<le> n)"
  using assms
proof (induction tb arbitrary: best)
  case (Cons p tb)
  obtain o1 rec where p: "p = (o1, rec)" by (cases p)
  from Cons.IH [OF Cons.prems [unfolded p pick_victim.simps]] show ?case
    by (fastforce simp: p split: option.splits prod.splits if_splits)
qed simp

lemma pick_victim_none:
  "pick_victim exclude st best tb = None \<longleftrightarrow> best = None \<and> (\<forall>(o1, rec) \<in> set tb. evict_candidate exclude st o1 rec = None)"
  by (induction tb arbitrary: best) (auto split: option.splits prod.splits if_splits)

lemma evict_candidate_clean:
  assumes "evict_candidate exclude st oid rec = Some nxt"
  shows "\<exists>f b. ob_fast rec = Some f \<and> ob_backing rec = Some b \<and> oid \<notin> set exclude \<and> sl_state f = Live \<and> sl_state b = Live \<and>
    sl_version f = ob_version rec \<and> sl_version b = ob_version rec"
  using assms by (auto simp: evict_candidate_def Let_def split: option.splits if_splits)

lemma requeue_victim_acct:
  assumes "mem_ok K st" and "dget (rs_table st) oid = Some rec" and "ob_size_bytes rec = n"
  shows "mem_ok K (requeue_victim nxt n oid st)"
proof -
  have "acct K (rs_ledger st) (rs_table st) (insert (oid, n) (demands st))"
    using mem_okD(1) [OF assms(1)] assms(2,3) unfolding acct_def by auto
  then show ?thesis
    using assms(1) by (simp add: requeue_victim_def Let_def mem_ok_def job_demand_def new_job_def split: prod.splits)
qed

lemma evict_for_pressure_acct:
  assumes ok: "mem_ok K st"
  shows "outcome resource_err (\<lambda>(r, st'). mem_ok K st') (evict_for_pressure exclude st)"
proof -
  have dd: "distinct (map fst (rs_table st))" using mem_okD(1) [OF ok] by (simp add: acct_def)
  have evict: "outcome resource_err (\<lambda>(r, st'). mem_ok K st') (bindE (drop_fast oid rec slot n st) (\<lambda>st.
      Inr (r, requeue_victim nxt n oid st)))"
    if pv: "pick_victim exclude st None (rs_table st) = Some (nxt, n, oid)"
      and rec: "dget (rs_table st) oid = Some rec" and slot: "ob_fast rec = Some slot" for nxt n oid rec slot r
  proof -
    obtain r where r: "(oid, r) \<in> set (rs_table st)" "ob_size_bytes r = n"
      using pick_victim_some [OF pv] by (auto simp: victim_of_def)
    have "dget (rs_table st) oid = Some r" by (rule map_of_is_SomeI [OF dd r(1)])
    then have n: "n = ob_size_bytes rec" using rec r(2) by simp
    have "mem_ok K (requeue_victim nxt n oid st1)"
      if "mem_ok K st1 \<and> rs_table st1 = dset oid (rec\<lparr>ob_fast := None\<rparr>) (rs_table st)" for st1
      using that n by (intro requeue_victim_acct [where rec = "rec\<lparr>ob_fast := None\<rparr>"]) auto
    then show ?thesis
      by (intro outcome_bind [OF drop_fast_outcome [OF ok rec slot n]]) simp
  qed
  show ?thesis
  proof (cases "pick_victim exclude st None (rs_table st)")
    case None
    then show ?thesis using ok by (simp add: evict_for_pressure_def)
  next
    case (Some v)
    obtain nxt n oid where v: "v = (nxt, n, oid)" by (cases v)
    note pv = Some [unfolded v]
    have "outcome resource_err (\<lambda>(r, st'). mem_ok K st') (case ob_fast rec of None \<Rightarrow> Inl (AttributeError m)
        | Some slot \<Rightarrow> bindE (drop_fast oid rec slot n st) (\<lambda>st. Inr (r, requeue_victim nxt n oid st)))"
      if rec: "dget (rs_table st) oid = Some rec" for rec r m
    proof (cases "ob_fast rec")
      case slot: (Some s)
      show ?thesis unfolding slot option.case by (rule evict [OF pv rec slot])
    qed simp
    then show ?thesis
      unfolding evict_for_pressure_def Some v option.case prod.case Let_def
      by (intro outcome_if outcome_bind [OF table_get_outcome]) (simp add: ok)
  qed
qed

fun engine_err :: "err \<Rightarrow> bool" where
  "engine_err (LedgerError _) = False"
| "engine_err OutOfFuel = False"
| "engine_err _ = True"

lemma relax_engine: "outcome resource_err Q m \<Longrightarrow> outcome engine_err Q m"
proof (erule outcome_weaken)
  show "engine_err e" if "resource_err e" for e using that by (cases e) auto
qed

lemma step_quiescent_acct: "mem_ok K st \<Longrightarrow> outcome engine_err (mem_ok K) (step_quiescent exclude st)"
  unfolding step_quiescent_def
  by (rule outcome_bind [OF relax_engine [OF escape_blocked_head_acct]], assumption)
    (auto simp: mem_ok_updates intro!: outcome_bind [OF relax_engine [OF evict_for_pressure_acct]])

lemma step_acct:
  assumes "mem_ok K st"
  shows "outcome engine_err (mem_ok K) (step exclude pump st)"
proof (cases "take_token st")
  case (Pair r st1)
  then have st1: "mem_ok K st1" using take_token_acct assms by blast
  have "outcome engine_err (mem_ok K) (bindE (try_start FromSlow False st1) (\<lambda>st.
        if tx_inflight (rs_h2d st) \<noteq> None then Inr st else step_quiescent exclude st))"
    by (rule outcome_bind [OF relax_engine [OF try_start_acct [OF st1]]]) (simp add: step_quiescent_acct)
  then show ?thesis
    using Pair st1 by (simp add: step_def relax_engine [OF handle_acct] step_quiescent_acct split: option.splits)
qed

section \<open>Reserving outputs and loading initial memory\<close>

lemma rs_charge_moved:
  assumes "ledger_inv (rs_ledger st)" and "loc \<in> {''fast'', ''backing''}" and "0 < n" and "rs_charge loc n st = Inr st'"
  shows "ledger_moved (\<lambda>k. if k = loc then n else 0) st st'"
proof -
  obtain l tr where l: "charge (rs_ledger st) loc n = Inr l" "st' = st\<lparr>rs_ledger := l, rs_trace := tr\<rparr>"
    using rs_charge_shape [OF assms(4)] by blast
  have "\<forall>k \<in> {''fast'', ''backing''}. used_of l k = used_of (rs_ledger st) k + (if k = loc then n else 0)"
    using charge_used [OF assms(1,2) l(1)] assms(3) by simp
  then show ?thesis
    using l(2) charge_inv [OF assms(1,2) l(1)] ledger.add_limit [OF assms(1-3) l(1)] unfolding ledger_moved_def by blast
qed

text \<open>A new record with one slot, its bytes charged.\<close>

lemma mem_ok_new:
  assumes ok: "mem_ok K st" and new: "o1 \<notin> K" and mv: "ledger_moved delta st st1" and sh: "pool_shift st1 st2"
    and sz: "0 < ob_size_bytes rec"
    and w: "\<forall>k \<in> {''fast'', ''backing''}. weight k rec = delta k"
    and tb: "rs_table st3 = dset o1 rec (rs_table st2)" "rs_ledger st3 = rs_ledger st2" "demands st3 = demands st2"
      "rs_deferred st3 = rs_deferred st2"
  shows "mem_ok (insert o1 K) st3"
proof -
  note acc = mem_okD(1) [OF ok] and mvD = ledger_movedD [OF mv] and shD = pool_shift_acct [OF sh] pool_shiftD(5) [OF sh]
  have no: "dget (rs_table st) o1 = None"
    using acc new by (auto simp: acct_def map_of_eq_None_iff)
  have r: "resident loc (dset o1 rec (rs_table st)) = resident loc (rs_table st) + weight loc rec" for loc
    by (simp add: resident_def dsum_dset no)
  have keys: "fst ` set (dset o1 rec (rs_table st)) = insert o1 K"
    using dom_update [of o1 rec "rs_table st"] acc by (simp add: acct_def)
  have jobs: "\<exists>r. dget (dset o1 rec (rs_table st)) o2 = Some r \<and> ob_size_bytes r = n" if d: "(o2, n) \<in> demands st" for o2 n
  proof -
    obtain r where "dget (rs_table st) o2 = Some r" "ob_size_bytes r = n" using acc d unfolding acct_def by blast
    with no show ?thesis by (cases "o2 = o1") auto
  qed
  have "resident ''fast'' (dset o1 rec (rs_table st)) \<le> used_of (rs_ledger st1) ''fast''"
    and "resident ''backing'' (dset o1 rec (rs_table st)) = used_of (rs_ledger st1) ''backing''"
    using r [of "''fast''"] r [of "''backing''"] w mvD(9) [of "''fast''"] mvD(9) [of "''backing''"] acc by (auto simp: acct_def)
  moreover have "0 < ob_size_bytes r" if "dget (dset o1 rec (rs_table st)) o2 = Some r" for o2 r
    using that acct_size_pos [OF acc] sz by (auto split: if_splits)
  ultimately have "acct (insert o1 K) (rs_ledger st1) (dset o1 rec (rs_table st)) (demands st)"
    using acc mvD(1) keys jobs by (auto simp: acct_def)
  then show ?thesis
    using ok mvD shD tb by (simp add: mem_ok_def)
qed

lemma dset_dset: "dset k v (dset k w d) = dset k v d"
  by (induction d) auto

lemma table_add_new: "o1 \<notin> fst ` set tb \<Longrightarrow> ob_id rec = o1 \<Longrightarrow> table_add tb rec = (rec, dset o1 rec tb)"
  by (simp add: table_add_def map_of_eq_None_iff [symmetric])

lemma new_record_weight:
  assumes "loc \<in> {''fast'', ''backing''}" and "k \<in> {''fast'', ''backing''}"
  shows "weight k (set_slot (new_record o1 n ro te) loc (Some s)) = (if k = loc then n else 0)"
  using assms by (auto simp: weight_def set_slot_def new_record_def)

lemma set_slot_new [simp]:
  "ob_size_bytes (set_slot rec loc s) = ob_size_bytes rec"
  "ob_id (set_slot rec loc s) = ob_id rec"
  by (simp_all add: set_slot_def)

definition reserved :: "output_spec \<Rightarrow> string \<Rightarrow> int" where
  "reserved out k = (if ou_location out = k then ou_size_bytes out else 0)"

lemma reserve_output_acct:
  assumes ok: "mem_ok K st" and new: "ou_id out \<notin> K" and loc: "ou_location out \<in> {''fast'', ''backing''}"
    and pos: "0 < ou_size_bytes out"
    and adm: "can_reserve (rs_ledger st) (ou_location out) (ou_size_bytes out) = Inr True"
  shows "outcome resource_err (\<lambda>st'. mem_ok (insert (ou_id out) K) st' \<and> capacity (rs_ledger st') = capacity (rs_ledger st) \<and>
      (\<forall>k \<in> {''fast'', ''backing''}. used_of (rs_ledger st') k = used_of (rs_ledger st) k + reserved out k))
    (reserve_output t escaped out st)"
proof -
  let ?o = "ou_id out" and ?n = "ou_size_bytes out" and ?l = "ou_location out"
  let ?Q = "\<lambda>st'. mem_ok (insert ?o K) st' \<and> capacity (rs_ledger st') = capacity (rs_ledger st) \<and>
      (\<forall>k \<in> {''fast'', ''backing''}. used_of (rs_ledger st') k = used_of (rs_ledger st) k + reserved out k)"
  let ?get = "if ?o \<in> set escaped then rs_get_escaped ?l ?n ?o else rs_get ?l ?n (Some ?o)"
  have get: "outcome resource_err (\<lambda>(buf, st'). pool_shift st1 st') (?get st1)" for st1
    using rs_get_outcome rs_get_escaped_outcome by simp
  show ?thesis
    unfolding reserve_output_def
  proof (rule outcome_bind [OF rs_charge_outcome [OF mem_okD(2) [OF ok] loc pos adm]], rule outcome_bind [OF get], clarify)
    fix st1 buf st2
    assume mv: "ledger_moved (\<lambda>k. if k = ?l then ?n else 0) st st1" and sh: "pool_shift st1 st2"
    have tb: "rs_table st2 = rs_table st" using pool_shift_acct [OF sh] ledger_movedD(2) [OF mv] by simp
    then have fresh: "?o \<notin> fst ` set (rs_table st2)" using mem_okD(1) [OF ok] new by (simp add: acct_def)
    let ?rec = "new_record ?o ?n (ou_role out) (ou_tensor out)"
    have add: "table_add (rs_table st2) ?rec = (?rec, dset ?o ?rec (rs_table st2))"
      by (rule table_add_new [OF fresh]) (simp add: new_record_def)
    have none: "slot_at ?rec ?l = None" by (simp add: slot_at_def new_record_def)
    let ?slot = "\<lparr>sl_buffer = buf, sl_state = Reserved, sl_version = ob_version ?rec, sl_ready_event = None\<rparr>"
    let ?st = "log_event ''reserve'' (Some ?o) (Some (ts_id t)) [] (put_record ?o (set_slot ?rec ?l (Some ?slot))
        (st2\<lparr>rs_table := dset ?o ?rec (rs_table st2)\<rparr>))"
    have "mem_ok (insert ?o K) ?st"
      by (rule mem_ok_new [OF ok new mv sh, where rec = "set_slot ?rec ?l (Some ?slot)"])
        (use pos loc new_record_weight in \<open>auto simp: new_record_def dset_dset\<close>)
    moreover have "capacity (rs_ledger ?st) = capacity (rs_ledger st)"
      using ledger_movedD(10) [OF mv] pool_shift_acct [OF sh] by simp
    moreover have "used_of (rs_ledger ?st) k = used_of (rs_ledger st) k + reserved out k" if "k \<in> {''fast'', ''backing''}" for k
      using ledger_movedD(9) [OF mv that] pool_shift_acct [OF sh] by (simp add: reserved_def)
    ultimately have Q: "?Q ?st" by blast
    show "outcome resource_err ?Q
      (let (rec, tb) = table_add (rs_table st2) (new_record ?o ?n (ou_role out) (ou_tensor out)); st = st2\<lparr>rs_table := tb\<rparr>
       in bindE (guardE (slot_at rec ?l = None) (ExecutionError ''output collides with an existing slot'')) (\<lambda>_.
         Inr (log_event ''reserve'' (Some ?o) (Some (ts_id t)) [] (put_record ?o (set_slot rec ?l
            (Some \<lparr>sl_buffer = buf, sl_state = Reserved, sl_version = ob_version rec, sl_ready_event = None\<rparr>)) st))))"
      unfolding add Let_def prod.case by (rule outcome_guard) (simp add: none, unfold outcome_simps, rule Q)
  qed
qed

text \<open>All outputs of a task, once both totals are admitted.\<close>

lemma reserve_outputs_acct:
  assumes ok: "mem_ok K st" and new: "ou_id ` set outs \<inter> K = {}" "distinct (map ou_id outs)"
    and out: "\<forall>out \<in> set outs. ou_location out \<in> {''fast'', ''backing''} \<and> 0 < ou_size_bytes out"
    and adm: "\<forall>k \<in> {''fast'', ''backing''}. can_reserve (rs_ledger st) k (\<Sum>out \<leftarrow> outs. reserved out k) = Inr True"
  shows "outcome resource_err (mem_ok (ou_id ` set outs \<union> K)) (foldE (reserve_output t escaped) outs st)"
proof -
  let ?sum = "\<lambda>xs k. \<Sum>out \<leftarrow> xs. reserved out k"
  let ?P = "\<lambda>xs st'. mem_ok (ou_id ` set xs \<union> K) st' \<and> capacity (rs_ledger st') = capacity (rs_ledger st) \<and>
    (\<forall>k \<in> {''fast'', ''backing''}. used_of (rs_ledger st') k = used_of (rs_ledger st) k + ?sum xs k)"
  have nn: "0 \<le> ?sum xs k" if "set xs \<subseteq> set outs" for xs k
    using that out by (induction xs) (auto simp: reserved_def intro!: add_nonneg_nonneg)
  have "outcome resource_err (?P outs) (foldE (reserve_output t escaped) outs st)"
  proof (rule outcome_foldE)
    show "?P [] st" using ok by simp
    fix pre x post st1 assume xs: "outs = pre @ x # post" and P: "?P pre st1"
    let ?l = "ou_location x"
    have x: "?l \<in> {''fast'', ''backing''}" "0 < ou_size_bytes x" using out xs by auto
    have inv1: "ledger_inv (rs_ledger st1)" using P mem_okD(2) by blast
    have "used_of (rs_ledger st1) ?l + ou_size_bytes x \<le> c" if c: "capacity (rs_ledger st1) ?l = Some c" for c
    proof -
      have np: "0 \<le> ?sum pre ?l" "0 \<le> ?sum post ?l" using nn xs by auto
      have split: "?sum outs ?l = ?sum pre ?l + ou_size_bytes x + ?sum post ?l"
        using xs by (simp add: reserved_def)
      have pos: "0 < ?sum outs ?l" using np x(2) split by linarith
      have "can_reserve (rs_ledger st) ?l (?sum outs ?l) = Inr True" using adm x(1) by blast
      then have "used_of (rs_ledger st) ?l + ?sum outs ?l \<le> c"
        using can_reserve_iff [OF mem_okD(2) [OF ok] x(1)] c P pos by simp
      moreover have "used_of (rs_ledger st1) ?l = used_of (rs_ledger st) ?l + ?sum pre ?l" using P x(1) by blast
      ultimately show ?thesis using np split by linarith
    qed
    then have adm1: "can_reserve (rs_ledger st1) ?l (ou_size_bytes x) = Inr True"
      using can_reserve_iff [OF inv1 x(1)] by simp
    have fresh: "ou_id x \<notin> ou_id ` set pre \<union> K" using new xs by auto
    from P have "mem_ok (ou_id ` set pre \<union> K) st1" by blast
    from reserve_output_acct [OF this fresh x adm1] show "outcome resource_err (?P (pre @ [x])) (reserve_output t escaped x st1)"
      by (rule outcome_weaken) (use P in auto)
  qed
  then show ?thesis by (rule outcome_weaken) auto
qed

lemma set_slot_weight:
  assumes "slot_at rec loc = None" and "loc \<in> {''fast'', ''backing''}" and "k \<in> {''fast'', ''backing''}"
  shows "weight k (set_slot rec loc (Some s)) - weight k rec = (if k = loc then ob_size_bytes rec else 0)"
  using assms by (auto simp: weight_def set_slot_def)

text \<open>Loading one initial object; only here may the ledger refuse.\<close>

definition loaded :: "object_spec list \<Rightarrow> run_state \<Rightarrow> bool" where
  "loaded specs st \<longleftrightarrow> mem_ok (os_id ` set specs) st \<and>
     (\<forall>o1 rec. dget (rs_table st) o1 = Some rec \<longrightarrow> (\<exists>spec \<in> set specs. os_id spec = o1 \<and> os_size_bytes spec = ob_size_bytes rec))"

lemma mem_ok_table: "mem_ok K (st\<lparr>rs_table := rs_table st\<rparr>) = mem_ok K st"
  by simp

lemma load_initial_acct:
  assumes ld: "loaded specs st" and loc: "os_location spec \<in> {''fast'', ''backing''}" and pos: "0 < os_size_bytes spec"
    and same: "\<forall>s \<in> set specs. os_id s = os_id spec \<longrightarrow> os_size_bytes s = os_size_bytes spec"
  shows "outcome (\<lambda>_. True) (loaded (specs @ [spec])) (load_initial bufs spec st)"
proof -
  let ?o = "os_id spec" and ?n = "os_size_bytes spec" and ?l = "os_location spec"
  let ?new = "new_record ?o ?n (os_role spec) (os_tensor spec)"
  have ok: "mem_ok (os_id ` set specs) st" using ld by (simp add: loaded_def)
  define rec where "rec = fst (table_add (rs_table st) ?new)"
  define tb where "tb = snd (table_add (rs_table st) ?new)"
  have ta: "table_add (rs_table st) ?new = (rec, tb)" by (simp add: rec_def tb_def)
  let ?st = "st\<lparr>rs_table := tb\<rparr>"
  have size: "ob_size_bytes rec = ?n"
    using ld same ta unfolding loaded_def table_add_def by (fastforce simp: new_record_def split: option.splits)
  have fin: "loaded (specs @ [spec]) (put_record ?o (set_slot rec ?l (Some s)) st2)"
    if none: "slot_at rec ?l = None" and mv: "ledger_moved (\<lambda>k. if k = ?l then ?n else 0) ?st st1" and sh: "pool_shift st1 st2"
    for s st1 st2
  proof -
    let ?r = "set_slot rec ?l (Some s)"
    have tb2: "rs_table st2 = tb" using ledger_movedD(2) [OF mv] pool_shift_acct [OF sh] by simp
    have "mem_ok (insert ?o (os_id ` set specs)) (put_record ?o ?r st2)"
    proof (cases "dget (rs_table st) ?o")
      case None
      then have tbn: "rec = ?new" "tb = dset ?o ?new (rs_table st)" using ta by (auto simp: table_add_def new_record_def)
      have nk: "?o \<notin> os_id ` set specs" using None ok by (auto simp: mem_ok_def acct_def map_of_eq_None_iff)
      obtain l tr where st1: "st1 = st\<lparr>rs_table := tb, rs_ledger := l, rs_trace := tr\<rparr>" and l: "ledger_inv l"
        "capacity l = capacity (rs_ledger st)" "\<forall>k \<in> {''fast'', ''backing''}. used_of l k = used_of (rs_ledger st) k + (if k = ?l then ?n else 0)"
        using mv by (auto simp: ledger_moved_def)
      have mv': "ledger_moved (\<lambda>k. if k = ?l then ?n else 0) st (st\<lparr>rs_ledger := l, rs_trace := tr\<rparr>)"
        using l unfolding ledger_moved_def by blast
      show ?thesis
        by (rule mem_ok_new [OF ok nk mv' pool_shift_refl, where rec = ?r])
          (use loc pos st1 tb2 tbn new_record_weight pool_shift_acct [OF sh] pool_shiftD(5) [OF sh]
            in \<open>auto simp: new_record_def dset_dset\<close>)
    next
      case (Some old)
      then have tbo: "rec = old" "tb = rs_table st" using ta by (auto simp: table_add_def new_record_def)
      have "fst ` set (rs_table st) = os_id ` set specs" using mem_okD(1) [OF ok] unfolding acct_def by blast
      moreover have "fst (?o, old) \<in> fst ` set (rs_table st)" by (rule imageI [OF map_of_SomeD [OF Some]])
      ultimately have "?o \<in> os_id ` set specs" by simp
      then have ins: "insert ?o (os_id ` set specs) = os_id ` set specs" by (rule insert_absorb)
      have "mem_ok (os_id ` set specs) (put_record ?o ?r st2)"
      proof (rule mem_ok_moved [OF _ mv sh])
        show "mem_ok (os_id ` set specs) ?st" using ok tbo by simp
        show "dget (rs_table ?st) ?o = Some rec" using Some tbo by simp
        show "weight ''fast'' ?r - weight ''fast'' rec \<le> (if ''fast'' = ?l then ?n else 0)"
          using set_slot_weight [OF none loc, of "''fast''" s] size by simp
        show "weight ''backing'' ?r - weight ''backing'' rec = (if ''backing'' = ?l then ?n else 0)"
          using set_slot_weight [OF none loc, of "''backing''" s] size by simp
      qed simp
      then show ?thesis by (simp add: ins)
    qed
    moreover have "\<exists>sp \<in> set (specs @ [spec]). os_id sp = o1 \<and> os_size_bytes sp = ob_size_bytes r"
      if r: "dget (rs_table (put_record ?o ?r st2)) o1 = Some r" for o1 r
    proof (cases "o1 = ?o")
      case True
      then show ?thesis using r size by auto
    next
      case False
      then have "dget tb o1 = dget (rs_table st) o1"
        unfolding tb_def by (simp add: table_add_def new_record_def split: option.splits)
      then have "dget (rs_table st) o1 = Some r" using r tb2 False by simp
      then show ?thesis using ld by (auto simp: loaded_def)
    qed
    ultimately show ?thesis by (simp add: loaded_def)
  qed
  have inv: "ledger_inv (rs_ledger ?st)" using mem_okD(2) [OF ok] by simp
  let ?g = "rs_get ?l ?n (Some ?o)"
  have get: "outcome (\<lambda>_. True) (\<lambda>(buf, st'). pool_shift st1 st') (case prov of
       Some b \<Rightarrow> (if bf_location b = ?l then Inr (b, st1) else ?g st1) | None \<Rightarrow> ?g st1)" for st1 prov
    using outcome_weaken [OF rs_get_outcome [of st1 ?l ?n "Some ?o"], where E' = "\<lambda>_. True"] by (auto split: option.splits)
  show ?thesis
    unfolding load_initial_def ta Let_def prod.case
    by (rule outcome_guard, simp, rule outcome_bind_eq, simp, rule outcome_guard, simp, rule outcome_bind [OF get])
      (auto intro: fin [OF _ rs_charge_moved [OF inv loc pos]])
qed

end
