(* ===== verification/Engine_Lanes.thy ===== *)
theory Engine_Lanes
  imports Engine_Progress
begin

text \<open>
  The token discipline of the engine: between two operations of the dispatcher the pending completion
  tokens are exactly the token of the outstanding task, if there is one, and the token of the
  in-flight job of each transfer lane, if there is one. So every completion finds its job in flight,
  at most one task runs at a time, and a wait on an outstanding task always has a token to consume.
\<close>

definition lane_tokens :: "direction \<Rightarrow> transfer_job option \<Rightarrow> token multiset" where
  "lane_tokens d j = (case j of None \<Rightarrow> {#} | Some job \<Rightarrow> {#TransferDone d job#})"

definition task_tokens :: "string option \<Rightarrow> token multiset \<Rightarrow> bool" where
  "task_tokens outstanding T = (case outstanding of None \<Rightarrow> T = {#}
     | Some tid \<Rightarrow> (\<exists>t e0 e1. T = {#TaskDone t e0 e1#} \<and> ts_id t = tid))"

text \<open>\<open>X\<close> holds the token that has been consumed and not yet handled.\<close>

definition lanes :: "token multiset \<Rightarrow> run_state \<Rightarrow> bool" where
  "lanes X st \<longleftrightarrow> (\<exists>T. task_tokens (rs_outstanding_task st) T \<and>
     tokens st + X = T + lane_tokens FromSlow (tx_inflight (rs_h2d st)) + lane_tokens ToSlow (tx_inflight (rs_d2h st)))"

definition calm :: "run_state \<Rightarrow> run_state \<Rightarrow> bool" where
  "calm st st' \<longleftrightarrow> tokens st' = tokens st \<and> tx_inflight (rs_h2d st') = tx_inflight (rs_h2d st) \<and>
     tx_inflight (rs_d2h st') = tx_inflight (rs_d2h st) \<and> rs_outstanding_task st' = rs_outstanding_task st"

lemma calm_refl [simp]: "calm st st"
  by (simp add: calm_def)

lemma calm_trans: "calm a b \<Longrightarrow> calm b c \<Longrightarrow> calm a c"
  by (simp add: calm_def)

lemma calm_lanes: "calm st st' \<Longrightarrow> lanes X st' = lanes X st"
  by (simp add: calm_def lanes_def)

lemma calm_inflight: "calm st st' \<Longrightarrow> tx_inflight (engine_of d st') = tx_inflight (engine_of d st)"
  by (cases d) (simp_all add: calm_def)

lemma quiet_calm: "quiet st st' \<Longrightarrow> calm st st'"
  by (simp add: quiet_def calm_def)

lemma enqueue_calm: "calm st (enqueue d job st)"
  by (cases d) (simp_all add: enqueue_def Let_def log_event_def calm_def tokens_def)

lemma pop_queue_calm: "calm st (pop_queue d st)"
  by (cases d) (simp_all add: pop_queue_def Let_def calm_def tokens_def)

lemma outcome_calm_bind:
  assumes "outcome E (calm st) m" and "\<And>st1. outcome E (calm st1) (f st1)"
  shows "outcome E (calm st) (bindE m f)"
proof (rule outcome_bind [OF assms(1)])
  fix st1 assume "m = Inr st1" "calm st st1"
  then show "outcome E (calm st) (f st1)"
    using outcome_weaken [OF assms(2) [of st1], of "calm st" E] calm_trans by blast
qed

lemma foldE_calm:
  assumes "\<And>x st. outcome E (calm st) (f x st)"
  shows "outcome E (calm st) (foldE f xs st)"
  by (induction xs arbitrary: st) (auto intro: outcome_calm_bind assms)

lemma quiet_outcome_calm: "outcome E (quiet st) m \<Longrightarrow> outcome E (calm st) m"
  by (auto intro: outcome_weaken quiet_calm)

lemma retire_offload_calm: "outcome handler_err (calm st) (retire_offload t ev trig st)"
proof -
  have "calm st (enqueue ToSlow j (put_record o1 r st))" for j o1 r
    using calm_trans [OF quiet_calm [OF quiet_updates(5)] enqueue_calm] .
  moreover have "outcome handler_err (\<lambda>_. True) (case ob_backing rec of None \<Rightarrow> Inr ()
      | Some bk \<Rightarrow> if sl_state bk \<noteq> Live then Inl (ExecutionError ''cannot offload: backing entry not live'')
          else guardE (bf_size_bytes (sl_buffer bk) = ob_size_bytes rec) (ExecutionError ''offload size mismatch''))" for rec
    by (auto simp: guardE_def split: option.splits)
  ultimately show ?thesis
    unfolding retire_offload_def Let_def
    by (intro outcome_bind [OF table_get_no_fuel]) (auto split: option.splits intro!: outcome_bind)
qed

lemma retire_prefetch_calm: "outcome handler_err (calm st) (retire_prefetch t ev trig st)"
proof -
  have "calm st (log_event k a b c (st\<lparr>rs_prefetch_override := ov, rs_deferred := dd\<rparr>))" for k a b c ov dd
    by (simp add: calm_def log_event_def tokens_def)
  moreover have "calm st (enqueue FromSlow j (st\<lparr>rs_prefetch_override := ov\<rparr>))" for j ov
    using calm_trans [OF quiet_calm [OF quiet_updates(4)] enqueue_calm] .
  ultimately show ?thesis
    unfolding retire_prefetch_def Let_def by (intro outcome_bind [OF table_get_no_fuel]) auto
qed

lemma requeue_victim_calm: "calm st (requeue_victim nxt n oid st)"
proof -
  let ?st2 = "log_event ''pressure_evict'' (Some oid) (rs_current_task_id st) (''next_use_task='' @ show_nat (nat nxt))
    (st\<lparr>rs_pressure_evictions := rs_pressure_evictions st + 1\<rparr>)"
  obtain anchor b where ab: "record_event (rs_backend ?st2) (tx_stream (rs_h2d ?st2)) = (anchor, b)"
    by (cases "record_event (rs_backend ?st2) (tx_stream (rs_h2d ?st2))")
  have "calm st (?st2\<lparr>rs_backend := b\<rparr>)"
    using record_event_frame [OF ab] by (simp add: calm_def log_event_def tokens_def same_queue_def)
  from calm_trans [OF this enqueue_calm] show ?thesis using ab by (simp add: requeue_victim_def Let_def)
qed

lemma evict_for_pressure_calm: "outcome handler_err (\<lambda>(r, st'). calm st st') (evict_for_pressure exclude st)"
  by (auto simp: evict_for_pressure_def Let_def split: option.splits
      intro!: outcome_bind [OF table_get_no_fuel] outcome_bind [OF drop_fast_quiet] calm_trans [OF quiet_calm requeue_victim_calm])

text \<open>Starting a copy on an idle lane adds the token of the new in-flight job.\<close>

lemma copy_started_lanes:
  assumes "copy_started d job st st'" and "tx_inflight (engine_of d st) = None" and "lanes X st"
  shows "lanes X st'" and "rs_outstanding_task st' = rs_outstanding_task st"
proof -
  obtain job' b names s and e :: event where
    st': "st' = set_engine d ((engine_of d st)\<lparr>tx_name_seq := names, tx_stream := s, tx_inflight := Some job'\<rparr>) (st\<lparr>rs_backend := b\<rparr>)"
    and pend: "mset (fb_pending b) = add_mset \<lparr>pe_time = ev_time_us e,
           pe_priority = (case d of FromSlow \<Rightarrow> PRIORITY_H2D_DONE | ToSlow \<Rightarrow> PRIORITY_D2H_DONE),
           pe_seq = fb_seq b, pe_token = TransferDone d job'\<rparr> (mset (fb_pending (rs_backend st)))"
    using assms(1) unfolding copy_started_def by blast
  have "image_mset pe_token (mset (fb_pending b)) = add_mset (TransferDone d job') (image_mset pe_token (mset (fb_pending (rs_backend st))))"
    using pend by simp
  then have tk: "tokens st' = add_mset (TransferDone d job') (tokens st)"
    unfolding st' by (cases d) (simp_all add: tokens_def)
  show "lanes X st'"
    using assms(2,3) tk unfolding st' by (cases d) (auto simp: lanes_def lane_tokens_def)
  show "rs_outstanding_task st' = rs_outstanding_task st" unfolding st' by (cases d) simp_all
qed

definition lanes_kept :: "token multiset \<Rightarrow> run_state \<Rightarrow> run_state \<Rightarrow> bool" where
  "lanes_kept X st st' \<longleftrightarrow> lanes X st' \<and> rs_outstanding_task st' = rs_outstanding_task st"

lemma lanes_kept_refl: "lanes X st \<Longrightarrow> lanes_kept X st st"
  by (simp add: lanes_kept_def)

lemma lanes_kept_calm: "lanes X st \<Longrightarrow> calm st st' \<Longrightarrow> lanes_kept X st st'"
  by (simp add: lanes_kept_def calm_lanes) (simp add: calm_def)

lemma run_copy_lanes:
  assumes "lanes X st" and "calm st st1" and "tx_inflight (engine_of d st) = None"
  shows "outcome handler_err (lanes_kept X st) (run_copy d job g e st1)"
proof (rule outcome_weaken [OF run_copy_outcome _ resource_no_fuel])
  fix st' assume cs: "copy_started d job st1 st'"
  have "lanes X st1" "tx_inflight (engine_of d st1) = None" "rs_outstanding_task st1 = rs_outstanding_task st"
    using assms(1,3) calm_lanes [OF assms(2)] calm_inflight [OF assms(2)] assms(2) by (simp_all add: calm_def)
  then show "lanes_kept X st st'" using copy_started_lanes [OF cs] by (simp add: lanes_kept_def)
qed

lemma start_from_slow_lanes:
  assumes "lanes X st" and "tx_inflight (rs_h2d st) = None"
  shows "outcome handler_err (lanes_kept X st) (start_from_slow escape job rec st)"
proof (cases "ob_backing rec")
  case None
  then show ?thesis by (simp add: start_from_slow_def)
next
  case (Some src)
  let ?o = "tj_object_id job" and ?n = "tj_size_bytes job"
  have go: "outcome handler_err (lanes_kept X st) (bindE (rs_charge ''fast'' ?n (pop_queue FromSlow st)) (\<lambda>st.
      bindE ((if b then rs_get_escaped ''fast'' ?n ?o else rs_get ''fast'' ?n (Some ?o)) (log_event k1 k2 k3 k4 st))
        (\<lambda>(dst, st). run_copy FromSlow j (g dst) e (put_record ?o (r dst) st))))" for b k1 k2 k3 k4 j g e r
  proof (rule outcome_bind [OF rs_charge_quiet])
    fix st1 assume st1: "quiet (pop_queue FromSlow st) st1"
    have get: "outcome handler_err (\<lambda>(buf, st'). quiet st2 st')
        ((if b then rs_get_escaped ''fast'' ?n ?o else rs_get ''fast'' ?n (Some ?o)) st2)" for st2
      using rs_get_quiet rs_get_escaped_quiet by simp
    show "outcome handler_err (lanes_kept X st) (bindE ((if b then rs_get_escaped ''fast'' ?n ?o else rs_get ''fast'' ?n (Some ?o))
        (log_event k1 k2 k3 k4 st1)) (\<lambda>(dst, st). run_copy FromSlow j (g dst) e (put_record ?o (r dst) st)))"
    proof (rule outcome_bind [OF get], clarify)
      fix dst st2 assume "quiet (log_event k1 k2 k3 k4 st1) st2"
      then have "quiet (pop_queue FromSlow st) (put_record ?o (r dst) st2)"
        by (rule quiet_put [OF quiet_trans [OF st1 quiet_log]])
      from calm_trans [OF pop_queue_calm quiet_calm [OF this]]
      show "outcome handler_err (lanes_kept X st) (run_copy FromSlow j (g dst) e (put_record ?o (r dst) st2))"
        by (rule run_copy_lanes [OF assms(1)]) (simp add: assms(2))
    qed
  qed
  show ?thesis
    unfolding start_from_slow_def Some option.case Let_def
    by (rule outcome_bind_eq, erule can_reserve_no_fuel, rule outcome_if, simp add: lanes_kept_refl assms(1), rule go)
qed

lemma start_to_slow_lanes:
  assumes "lanes X st" and "tx_inflight (rs_d2h st) = None"
  shows "outcome handler_err (lanes_kept X st) (start_to_slow job rec st)"
proof (cases "ob_fast rec")
  case None
  then show ?thesis by (simp add: start_to_slow_def)
next
  case (Some src)
  let ?o = "tj_object_id job" and ?n = "tj_size_bytes job" and ?st = "pop_queue ToSlow st"
  let ?dst = "case ob_backing rec of
      None \<Rightarrow> bindE (rs_charge ''backing'' ?n ?st) (\<lambda>st. bindE (rs_get ''backing'' ?n None st) (\<lambda>(dst, st).
          Inr (\<lparr>sl_buffer = dst, sl_state = Inbound, sl_version = sl_version src, sl_ready_event = None\<rparr>, st)))
    | Some existing \<Rightarrow> Inr (existing\<lparr>sl_state := Inbound, sl_version := sl_version src\<rparr>, ?st)"
  have dst: "outcome handler_err (\<lambda>(slot, st2). quiet ?st st2) ?dst"
  proof (cases "ob_backing rec")
    case None
    have "outcome handler_err (\<lambda>(slot, st2). quiet ?st st2) (bindE (rs_get ''backing'' ?n None st1) (\<lambda>(dst, st).
          Inr (\<lparr>sl_buffer = dst, sl_state = Inbound, sl_version = sl_version src, sl_ready_event = None\<rparr>, st)))"
      if "quiet ?st st1" for st1
      by (rule outcome_bind [OF rs_get_quiet]) (use that quiet_trans in \<open>auto\<close>)
    then show ?thesis unfolding None option.case by (intro outcome_bind [OF rs_charge_quiet])
  qed simp
  have copy: "outcome handler_err (lanes_kept X st) (run_copy ToSlow j g e (put_record ?o r st2))" if "quiet ?st st2" for j g e r st2
    by (rule run_copy_lanes [OF assms(1) calm_trans [OF pop_queue_calm quiet_calm [OF quiet_put [OF that]]]]) (simp add: assms(2))
  show ?thesis
    unfolding start_to_slow_def Some option.case Let_def
    by (rule outcome_bind_eq, erule can_reserve_no_fuel, rule outcome_if, simp add: lanes_kept_refl assms(1), rule outcome_bind [OF dst])
      (auto intro!: copy)
qed

lemma try_start_lanes:
  assumes "lanes X st"
  shows "outcome handler_err (lanes_kept X st) (try_start d escape st)"
proof (cases "tx_inflight (engine_of d st) = None \<and> tx_queue (engine_of d st) \<noteq> []")
  case True
  then obtain job q where q: "tx_queue (engine_of d st) = job # q" "tx_inflight (engine_of d st) = None"
    by (cases "tx_queue (engine_of d st)") auto
  show ?thesis
    unfolding try_start_def Let_def q prod.case option.case list.case
    by (rule outcome_bind [OF table_get_no_fuel], cases d)
      (use q assms in \<open>simp_all add: start_from_slow_lanes start_to_slow_lanes\<close>)
next
  case False
  then show ?thesis using assms by (auto simp: try_start_def Let_def lanes_kept_refl split: option.splits list.splits)
qed

lemma lanes_kept_bind:
  assumes "outcome E (lanes_kept X st) m" and "\<And>st1. lanes X st1 \<Longrightarrow> outcome E (lanes_kept X st1) (f st1)"
  shows "outcome E (lanes_kept X st) (bindE m f)"
proof (rule outcome_bind [OF assms(1)])
  fix st1 assume "lanes_kept X st st1"
  then have st1: "lanes X st1" "rs_outstanding_task st1 = rs_outstanding_task st" by (auto simp: lanes_kept_def)
  show "outcome E (lanes_kept X st) (f st1)"
    by (rule outcome_weaken [OF assms(2) [OF st1(1)]]) (simp_all add: lanes_kept_def st1)
qed

lemma calm_lanes_outcome: "lanes X st \<Longrightarrow> outcome handler_err (calm st) m \<Longrightarrow> outcome handler_err (lanes_kept X st) m"
  by (auto intro: outcome_weaken lanes_kept_calm)

section \<open>Token handlers\<close>

lemma take_token_lanes:
  assumes "lanes {#} st" and "take_token st = (Some tok, st1)"
  shows "lanes {#tok#} st1" and "rs_outstanding_task st1 = rs_outstanding_task st"
proof -
  obtain e es where p: "fb_pending (rs_backend st) = e # es" "tok = pe_token e"
    using assms(2) by (auto simp: take_token_def next_completion_def Let_def split: list.splits prod.splits)
  then have st1: "st1 = st\<lparr>rs_backend := (rs_backend st)\<lparr>fb_pending := es, fb_host_us := max (fb_host_us (rs_backend st)) (pe_time e)\<rparr>\<rparr>"
    using assms(2) by (simp add: take_token_def next_completion_def)
  have "tokens st1 + {#tok#} = tokens st" unfolding st1 using p by (simp add: tokens_def)
  then show "lanes {#tok#} st1" using assms(1) unfolding st1 by (simp add: lanes_def)
  show "rs_outstanding_task st1 = rs_outstanding_task st" unfolding st1 by simp
qed

text \<open>A consumed token is one of the three.\<close>

lemma lanes_task_token:
  assumes "lanes {#TaskDone t e0 e1#} st"
  shows "rs_outstanding_task st = Some (ts_id t)" and "lanes {#} (st\<lparr>rs_outstanding_task := None\<rparr>)"
proof -
  obtain T where T: "task_tokens (rs_outstanding_task st) T"
    and eq: "tokens st + {#TaskDone t e0 e1#} = T + lane_tokens FromSlow (tx_inflight (rs_h2d st)) + lane_tokens ToSlow (tx_inflight (rs_d2h st))"
    using assms by (auto simp: lanes_def)
  have "TaskDone t e0 e1 \<in># tokens st + {#TaskDone t e0 e1#}" by simp
  then have "TaskDone t e0 e1 \<in># T"
    unfolding eq by (auto simp: lane_tokens_def split: option.splits)
  then obtain t' e0' e1' where "rs_outstanding_task st = Some (ts_id t')" and T': "T = {#TaskDone t' e0' e1'#}"
    and "t' = t" "e0' = e0" "e1' = e1"
    using T by (auto simp: task_tokens_def split: option.splits)
  then show out: "rs_outstanding_task st = Some (ts_id t)" by simp
  have "tokens st = lane_tokens FromSlow (tx_inflight (rs_h2d st)) + lane_tokens ToSlow (tx_inflight (rs_d2h st))"
    using eq T' \<open>t' = t\<close> \<open>e0' = e0\<close> \<open>e1' = e1\<close> by simp
  then show "lanes {#} (st\<lparr>rs_outstanding_task := None\<rparr>)"
    by (simp add: lanes_def task_tokens_def tokens_def)
qed

lemma lanes_transfer_token:
  assumes "lanes {#TransferDone d job#} st"
  shows "tx_inflight (engine_of d st) = Some job"
    and "lanes {#} (set_engine d ((engine_of d st)\<lparr>tx_inflight := None\<rparr>) st)"
proof -
  obtain T where T: "task_tokens (rs_outstanding_task st) T"
    and eq: "tokens st + {#TransferDone d job#} = T + lane_tokens FromSlow (tx_inflight (rs_h2d st)) + lane_tokens ToSlow (tx_inflight (rs_d2h st))"
    using assms by (auto simp: lanes_def)
  have no: "TransferDone d job \<notin># T" using T by (auto simp: task_tokens_def split: option.splits)
  have "TransferDone d job \<in># tokens st + {#TransferDone d job#}" by simp
  then show fl: "tx_inflight (engine_of d st) = Some job"
    unfolding eq using no by (cases d) (auto simp: lane_tokens_def split: option.splits)
  show "lanes {#} (set_engine d ((engine_of d st)\<lparr>tx_inflight := None\<rparr>) st)"
    using T eq fl by (cases d) (auto simp: lanes_def lane_tokens_def tokens_def)
qed

lemma quiet_lanes: "lanes X st \<Longrightarrow> outcome handler_err (quiet st) m \<Longrightarrow> outcome handler_err (lanes_kept X st) m"
  by (blast intro: calm_lanes_outcome quiet_outcome_calm)

lemma on_task_done_lanes:
  assumes "lanes {#TaskDone t e0 e1#} st"
  shows "outcome handler_err (\<lambda>st'. lanes {#} st' \<and> rs_outstanding_task st' = None) (on_task_done t e0 e1 st)"
proof -
  let ?st = "st\<lparr>rs_outstanding_task := None\<rparr>"
  note ok = lanes_task_token [OF assms]
  have tail: "outcome handler_err (lanes_kept {#} st1)
      (bindE (foldE (retire_release t) (ts_releases_after t) st1) (\<lambda>st.
       bindE (foldE (retire_offload t e1) (ts_offload_after t) st) (\<lambda>st.
       bindE (foldE (retire_prefetch t e1) (ts_prefetch_after t) st) (\<lambda>st.
       bindE (try_start FromSlow False st) (\<lambda>st. try_start ToSlow False st)))))" if "lanes {#} st1" for st1
    by (rule lanes_kept_bind [OF quiet_lanes [OF that foldE_quiet [OF retire_release_quiet]]],
        rule lanes_kept_bind [OF calm_lanes_outcome [OF _ foldE_calm [OF retire_offload_calm]]], assumption,
        rule lanes_kept_bind [OF calm_lanes_outcome [OF _ foldE_calm [OF retire_prefetch_calm]]], assumption,
        rule lanes_kept_bind [OF try_start_lanes], assumption, rule try_start_lanes)
  have logged: "outcome handler_err (lanes_kept {#} st1)
      (bindE (foldE (retire_release t) (ts_releases_after t) (st1\<lparr>rs_pending_intervals := iv\<rparr>)) (\<lambda>st.
       bindE (foldE (retire_offload t e1) (ts_offload_after t) st) (\<lambda>st.
       bindE (foldE (retire_prefetch t e1) (ts_prefetch_after t) st) (\<lambda>st.
       bindE (try_start FromSlow False st) (\<lambda>st. try_start ToSlow False st)))))" if "lanes {#} st1" for st1 iv
  proof -
    have "lanes {#} (st1\<lparr>rs_pending_intervals := iv\<rparr>)" using that by (simp add: lanes_def tokens_def)
    from tail [OF this] show ?thesis by (rule outcome_weaken) (simp_all add: lanes_kept_def)
  qed
  have "outcome handler_err (lanes_kept {#} ?st)
      (bindE (foldE (retire_output e1) (ts_outputs t) ?st) (\<lambda>st.
       bindE (foldE (retire_mutate e1 (ts_id t)) (ts_mutates t) st) (\<lambda>st.
       let st = st\<lparr>rs_pending_intervals := rs_pending_intervals st @ [(ts_id t, e0, e1, ''compute'')]\<rparr>
       in bindE (foldE (retire_release t) (ts_releases_after t) st) (\<lambda>st.
       bindE (foldE (retire_offload t e1) (ts_offload_after t) st) (\<lambda>st.
       bindE (foldE (retire_prefetch t e1) (ts_prefetch_after t) st) (\<lambda>st.
       bindE (try_start FromSlow False st) (\<lambda>st. try_start ToSlow False st)))))))"
    unfolding Let_def
    by (rule lanes_kept_bind [OF quiet_lanes [OF ok(2) foldE_quiet [OF retire_output_quiet]]],
        rule lanes_kept_bind [OF quiet_lanes [OF _ foldE_quiet [OF retire_mutate_quiet]]], assumption, rule logged)
  then show ?thesis
    unfolding on_task_done_def using ok(1) by (auto simp: Let_def lanes_kept_def elim: outcome_weaken)
qed

lemma complete_lanes:
  assumes "lanes {#TransferDone d job#} st"
  shows "outcome handler_err (\<lambda>st'. lanes {#} st' \<and> rs_outstanding_task st' = rs_outstanding_task st) (complete d job st)"
proof -
  have close: "outcome handler_err (\<lambda>st'. lanes {#} st' \<and> rs_outstanding_task st' = rs_outstanding_task st) (close_transfer d job st1)"
    if q: "quiet st st1" for st1
  proof -
    have "lanes {#TransferDone d job#} st1" using calm_lanes [OF quiet_calm [OF q]] assms by simp
    from lanes_transfer_token(2) [OF this] show ?thesis
      using q by (cases d) (auto simp: close_transfer_def Let_def log_event_def lanes_def tokens_def quiet_def split: option.splits)
  qed
  show ?thesis
    unfolding complete_def
    by (rule outcome_guard, simp, rule outcome_bind [OF table_get_no_fuel], rule outcome_bind [OF settle_slots_quiet close])
qed

lemma fold_enqueue_calm: "calm st (fold (enqueue d) js st)"
proof (induction js arbitrary: st)
  case (Cons j js)
  show ?case using calm_trans [OF enqueue_calm Cons.IH] by simp
qed simp

lemma on_transfer_done_lanes:
  assumes "lanes {#TransferDone d job#} st"
  shows "outcome handler_err (\<lambda>st'. lanes {#} st' \<and> rs_outstanding_task st' = rs_outstanding_task st) (on_transfer_done d job st)"
proof -
  have kick: "outcome handler_err (\<lambda>st'. lanes {#} st' \<and> rs_outstanding_task st' = rs_outstanding_task st) m"
    if "lanes {#} st1" "rs_outstanding_task st1 = rs_outstanding_task st" "outcome handler_err (lanes_kept {#} st1) m" for st1 m
    using that(3) by (rule outcome_weaken) (simp_all add: lanes_kept_def that)
  show ?thesis
  proof (cases d)
    case FromSlow
    show ?thesis unfolding on_transfer_done_def FromSlow direction.case
      by (rule outcome_bind [OF complete_lanes [OF assms [unfolded FromSlow]]]) (auto intro: kick [OF _ _ try_start_lanes])
  next
    case ToSlow
    have act: "calm st1 (fold (enqueue FromSlow) js (st1\<lparr>rs_deferred := dd\<rparr>))" for st1 js dd
      by (rule calm_trans [OF _ fold_enqueue_calm]) (simp add: calm_def tokens_def)
    show ?thesis unfolding on_transfer_done_def ToSlow direction.case Let_def
    proof (rule outcome_bind [OF complete_lanes [OF assms [unfolded ToSlow]]])
      fix st1 assume st1: "lanes {#} st1 \<and> rs_outstanding_task st1 = rs_outstanding_task st"
      let ?st2 = "fold (enqueue FromSlow) (dget_or (rs_deferred st1) (tj_object_id job) [])
        (st1\<lparr>rs_deferred := ddel (tj_object_id job) (rs_deferred st1)\<rparr>)"
      have c: "calm st1 ?st2" by (rule act)
      have st2: "lanes {#} ?st2" "rs_outstanding_task ?st2 = rs_outstanding_task st"
        using st1 calm_lanes [OF c] c by (simp_all add: calm_def)
      show "outcome handler_err (\<lambda>st'. lanes {#} st' \<and> rs_outstanding_task st' = rs_outstanding_task st)
          (bindE (try_start ToSlow False ?st2) (try_start FromSlow False))"
        by (rule kick [OF st2]) (intro lanes_kept_bind try_start_lanes st2)
    qed
  qed
qed

text \<open>Consuming and handling one token; a transfer completion leaves the outstanding task alone.\<close>

lemma token_lanes:
  assumes "lanes {#} st" and "take_token st = (Some tok, st1)"
  shows "outcome handler_err (\<lambda>st'. lanes {#} st' \<and> (rs_outstanding_task st' = rs_outstanding_task st \<or> rs_outstanding_task st' = None))
    (handle tok st1)"
proof (cases tok)
  case (TaskDone t e0 e1)
  have l: "lanes {#TaskDone t e0 e1#} st1" using take_token_lanes(1) [OF assms] TaskDone by simp
  show ?thesis unfolding TaskDone handle_def token.case
    by (rule outcome_weaken [OF on_task_done_lanes [OF l]]) auto
next
  case (TransferDone d job)
  have l: "lanes {#TransferDone d job#} st1" using take_token_lanes(1) [OF assms] TransferDone by simp
  show ?thesis unfolding TransferDone handle_def token.case
    by (rule outcome_weaken [OF on_transfer_done_lanes [OF l]]) (auto simp: take_token_lanes(2) [OF assms])
qed

lemma escape_blocked_head_lanes:
  assumes "lanes {#} st"
  shows "outcome handler_err (\<lambda>(b, st'). lanes_kept {#} st st') (escape_blocked_head st)"
proof -
  have "outcome handler_err (\<lambda>(b, st'). lanes_kept {#} st st')
      (bindE (try_start FromSlow True st) (\<lambda>st. Inr (tx_inflight (rs_h2d st) \<noteq> None, st)))"
    by (rule outcome_bind [OF try_start_lanes [OF assms]]) simp
  then show ?thesis
    using assms unfolding escape_blocked_head_def
    by (auto split: option.splits list.splits intro!: outcome_bind_eq lanes_kept_refl dest: can_reserve_no_fuel)
qed

lemma step_quiescent_lanes:
  assumes "lanes {#} st"
  shows "outcome no_fuel_err (lanes_kept {#} st) (step_quiescent exclude st)"
proof -
  have log: "lanes_kept {#} st (log_event k1 k2 k3 k4 st1)" if "lanes_kept {#} st st1" for st1 k1 k2 k3 k4
    using that by (auto simp: lanes_kept_def log_event_def lanes_def tokens_def)
  have ev: "outcome no_fuel_err (lanes_kept {#} st) (bindE (evict_for_pressure exclude st1) (\<lambda>(r, st).
      if r = NoVictim then Inl (DeadlockError m) else Inr st))" if st1: "lanes_kept {#} st st1" for st1 m
  proof (rule outcome_bind [OF relax [OF evict_for_pressure_calm]])
    fix rs :: "evict_outcome \<times> run_state" assume "case rs of (r, st') \<Rightarrow> calm st1 st'"
    then show "outcome no_fuel_err (lanes_kept {#} st) (case rs of (r, st) \<Rightarrow> if r = NoVictim then Inl (DeadlockError m) else Inr st)"
      using st1 calm_lanes [of st1 "snd rs"] by (cases rs) (auto simp: lanes_kept_def calm_def)
  qed
  show ?thesis
    unfolding step_quiescent_def
    by (rule outcome_bind [OF relax [OF escape_blocked_head_lanes [OF assms]]]) (auto simp: log ev split: if_splits)
qed

lemma step_lanes:
  assumes "lanes {#} st"
  shows "outcome no_fuel_err (\<lambda>st'. lanes {#} st' \<and> (rs_outstanding_task st' = rs_outstanding_task st \<or> rs_outstanding_task st' = None))
    (step exclude pump st)"
proof (cases "take_token st")
  case (Pair r st1)
  show ?thesis
  proof (cases r)
    case (Some tok)
    then show ?thesis using relax [OF token_lanes [OF assms]] Pair by (simp add: step_def)
  next
    case None
    then have st1: "st1 = st" using Pair take_token_None by blast
    have "outcome no_fuel_err (lanes_kept {#} st) (bindE (try_start FromSlow False st) (\<lambda>st.
        if tx_inflight (rs_h2d st) \<noteq> None then Inr st else step_quiescent exclude st))"
      by (intro lanes_kept_bind relax [OF try_start_lanes] assms outcome_if step_quiescent_lanes) (simp add: lanes_kept_refl)
    then have "outcome no_fuel_err (lanes_kept {#} st) (step exclude pump st)"
      using None Pair st1 step_quiescent_lanes [OF assms] by (simp add: step_def)
    then show ?thesis by (rule outcome_weaken) (simp_all add: lanes_kept_def)
  qed
qed

lemma launch_task_lanes:
  assumes "launch_ok launch" and "lanes {#} st" and "rs_outstanding_task st = None"
  shows "outcome handler_err (lanes {#}) (launch_task launch t st)"
proof -
  have b: "outcome handler_err (\<lambda>_. True) (bind_inputs t st)"
    unfolding bind_inputs_def
    by (intro mapE_no_fuel outcome_bind [OF table_get_no_fuel]) (auto split: option.splits)
  have m: "outcome handler_err (\<lambda>_. True) (mapE (\<lambda>obj. case dget bufs obj of None \<Rightarrow> Inl (KeyError obj) | Some b \<Rightarrow> Inr (obj, b)) xs)"
    for bufs :: "(string \<times> buffer) list" and xs
    by (rule mapE_no_fuel) (auto split: option.splits)
  have fin: "lanes {#} (st\<lparr>rs_compute := s, rs_backend := notify_after b2 dn (TaskDone t a dn) pr,
      rs_outstanding_task := Some (ts_id t)\<rparr>)" if "same_queue (rs_backend st) b2" for s b2 dn a pr
  proof -
    have "tokens (st\<lparr>rs_compute := s, rs_backend := notify_after b2 dn (TaskDone t a dn) pr, rs_outstanding_task := Some (ts_id t)\<rparr>)
        = add_mset (TaskDone t a dn) (tokens st)"
      using that by (simp add: tokens_def notify_after_def Let_def same_queue_def)
    then show ?thesis
      using assms(2,3) by (auto simp: lanes_def task_tokens_def)
  qed
  let ?s = "align_stream_to_host (rs_backend st) (rs_compute st)"
  obtain a b1 where r1: "record_event (rs_backend st) ?s = (a, b1)" by (cases "record_event (rs_backend st) ?s")
  have "outcome handler_err (lanes {#}) (bindE (launch t b1 ?s) (\<lambda>s.
        let (done_event, b) = record_event b1 s;
            b = notify_after b done_event (TaskDone t a done_event) PRIORITY_TASK_DONE
        in Inr (st\<lparr>rs_compute := s, rs_backend := b, rs_outstanding_task := Some (ts_id t)\<rparr>)))"
  proof (rule outcome_bind_eq)
    show "handler_err e" if "launch t b1 ?s = Inl e" for e using assms(1) that by (auto simp: launch_ok_def intro: resource_no_fuel)
    fix s1
    obtain dn b2 where r2: "record_event b1 s1 = (dn, b2)" by (cases "record_event b1 s1")
    have "same_queue (rs_backend st) b2"
      using record_event_frame [OF r1] record_event_frame [OF r2] same_queue_trans by blast
    then show "outcome handler_err (lanes {#}) (let (done_event, b) = record_event b1 s1;
            b = notify_after b done_event (TaskDone t a done_event) PRIORITY_TASK_DONE
        in Inr (st\<lparr>rs_compute := s1, rs_backend := b, rs_outstanding_task := Some (ts_id t)\<rparr>))"
      using fin by (simp add: r2)
  qed
  then show ?thesis
    unfolding launch_task_def Let_def [where s = ?s] r1 prod.case
    by (intro outcome_bind [OF b] outcome_bind [OF m]) (simp add: r1)
qed

end
