(* ===== verification/Engine_Reach.thy ===== *)
theory Engine_Reach
  imports Engine_Safety Engine_Lanes
begin

text \<open>
  The states of a run. \<open>engine_reach p launch i st\<close>: a run of \<open>p\<close> can be in \<open>st\<close>, between two operations of
  the dispatcher, after \<open>i\<close> tasks have been dispatched. The rules are the operations the dispatch loop
  and the drain perform; \<open>dispatch_all_reach\<close> and \<open>drain_reach\<close> show that a run only visits such states. Memory safety,
  the token discipline and the absence of ledger errors are proved by rule induction over it.
\<close>

section \<open>Reachable states\<close>

inductive engine_reach ::
  "program \<Rightarrow> (task_spec \<Rightarrow> token fake_backend \<Rightarrow> stream \<Rightarrow> stream res) \<Rightarrow> nat \<Rightarrow> run_state \<Rightarrow> bool"
  for p launch where
  reach_start: "\<lbrakk>fb_pending (snd pb) = [];
     foldE (load_initial bufs) (pr_initial_objects p) (initial_state cfg p streams bufs pb) = Inr st1;
     upload_initial bufs p st1 = Inr st\<rbrakk> \<Longrightarrow> engine_reach p launch 0 st"
| reach_focus: "engine_reach p launch i st \<Longrightarrow>
     engine_reach p launch i (st\<lparr>rs_cursor := c, rs_current_task_id := tid\<rparr>)"
| reach_token: "\<lbrakk>engine_reach p launch i st; take_token st = (Some tok, st1); handle tok st1 = Inr st'\<rbrakk> \<Longrightarrow>
     engine_reach p launch i st'"
| reach_step: "\<lbrakk>engine_reach p launch i st; step exclude pump st = Inr st'\<rbrakk> \<Longrightarrow> engine_reach p launch i st'"
| reach_note: "engine_reach p launch i st \<Longrightarrow> engine_reach p launch i (log_event k o2 t d st)"
| reach_dispatch: "\<lbrakk>engine_reach p launch i st; i < length (pr_tasks p); rs_outstanding_task st = None;
     can_reserve (rs_ledger st) ''fast'' (fast_out (pr_tasks p ! i)) = Inr True;
     can_reserve (rs_ledger st) ''backing'' (backing_out (pr_tasks p ! i)) = Inr True;
     foldE (reserve_output (pr_tasks p ! i) escaped) (ts_outputs (pr_tasks p ! i)) st = Inr st1;
     (if wb then try_start FromSlow False st1 else Inr st1) = Inr st2;
     launch_task launch (pr_tasks p ! i) st2 = Inr st'\<rbrakk> \<Longrightarrow> engine_reach p launch (Suc i) st'"

section \<open>The invariant\<close>

definition caps_of :: "program \<Rightarrow> run_state \<Rightarrow> bool" where
  "caps_of p st \<longleftrightarrow> lg_fast_capacity (rs_ledger st) = pr_fast_memory_capacity p \<and>
     lg_backing_capacity (rs_ledger st) = pr_backing_memory_capacity p"

definition run_inv :: "program \<Rightarrow> nat \<Rightarrow> run_state \<Rightarrow> bool" where
  "run_inv p i st \<longleftrightarrow> mem_ok (known_before p i) st \<and> lanes {#} st \<and> caps_of p st"

lemma same_run_caps: "same_run st st' \<Longrightarrow> caps_of p st' = caps_of p st"
  by (simp add: same_run_def caps_of_def)

lemma upload_initial_id: "upload_initial bufs p st = Inr st' \<Longrightarrow> st' = st"
proof -
  assume "upload_initial bufs p st = Inr st'"
  moreover have "foldE (\<lambda>spec st. bindE (memcpy_async (rs_backend st) (tx_stream (rs_h2d st)) None) (\<lambda>(_, s).
      Inr (st\<lparr>rs_h2d := (rs_h2d st)\<lparr>tx_stream := s\<rparr>\<rparr>))) xs st \<noteq> Inr st2" if "xs \<noteq> []" for xs :: "object_spec list" and st2
    using that by (cases xs) (simp_all add: memcpy_async_def)
  ultimately show "st' = st"
    by (auto simp: upload_initial_def Let_def bindE_eq_Inr split: if_splits)
qed

lemma wf_objects:
  assumes "wf_program p"
  shows "\<And>spec. spec \<in> set (pr_initial_objects p) \<Longrightarrow> os_location spec \<in> {''fast'', ''backing''} \<and> 0 < os_size_bytes spec"
    and "\<And>s1 s2. s1 \<in> set (pr_initial_objects p) \<Longrightarrow> s2 \<in> set (pr_initial_objects p) \<Longrightarrow> os_id s1 = os_id s2 \<Longrightarrow>
      os_size_bytes s1 = os_size_bytes s2"
    and "\<And>i. i < length (pr_tasks p) \<Longrightarrow> task_ok (known_before p i) (pr_tasks p ! i)"
    and "\<And>c. pr_fast_memory_capacity p = Some c \<Longrightarrow> 0 < c"
    and "\<And>c. pr_backing_memory_capacity p = Some c \<Longrightarrow> 0 < c"
proof -
  have wf: "initial_ok (pr_initial_objects p)" "\<forall>i < length (pr_tasks p). task_ok (known_before p i) (pr_tasks p ! i)"
    "\<forall>x \<in> {pr_fast_memory_capacity p, pr_backing_memory_capacity p,
       pr_bandwidth_from_slow p, pr_bandwidth_to_slow p}. \<forall>c. x = Some c \<longrightarrow> 0 < c"
    using assms unfolding wf_program_def by blast+
  show "os_location spec \<in> {''fast'', ''backing''} \<and> 0 < os_size_bytes spec" if "spec \<in> set (pr_initial_objects p)" for spec
  proof -
    have "object_ok (os_size_bytes spec) (os_location spec) (os_role spec) (os_tensor spec)"
      using wf(1) that unfolding initial_ok_def by blast
    then show ?thesis by (auto simp: object_ok_def LOCATIONS_def)
  qed
  show "os_size_bytes s1 = os_size_bytes s2"
    if "s1 \<in> set (pr_initial_objects p)" "s2 \<in> set (pr_initial_objects p)" "os_id s1 = os_id s2" for s1 s2
    using wf(1) that unfolding initial_ok_def by blast
  show "task_ok (known_before p i) (pr_tasks p ! i)" if "i < length (pr_tasks p)" for i using wf(2) that by blast
  show "0 < c" if "pr_fast_memory_capacity p = Some c" for c using wf(3) that by blast
  show "0 < c" if "pr_backing_memory_capacity p = Some c" for c using wf(3) that by blast
qed

lemma initial_state_inv:
  assumes "wf_program p" and "fb_pending (snd pb) = []"
  shows "loaded [] (initial_state cfg p streams bufs pb)" and "lanes {#} (initial_state cfg p streams bufs pb)"
    and "caps_of p (initial_state cfg p streams bufs pb)"
proof -
  obtain c h d where ss: "streams = (c, h, d)" by (cases streams)
  have "ledger_inv (new_ledger (pr_fast_memory_capacity p) (pr_backing_memory_capacity p))"
    using wf_objects(4,5) [OF assms(1)] by (intro new_ledger_inv) (auto intro: less_imp_le)
  then show "loaded [] (initial_state cfg p streams bufs pb)"
    by (simp add: ss loaded_def mem_ok_def acct_def initial_state_def resident_def dsum_def used_of_def new_ledger_def
        dget_or_def demands_def engine_jobs_def deferred_jobs_def new_engine_def)
  show "lanes {#} (initial_state cfg p streams bufs pb)"
    using assms(2) by (simp add: ss lanes_def task_tokens_def initial_state_def tokens_def new_engine_def lane_tokens_def)
  show "caps_of p (initial_state cfg p streams bufs pb)"
    by (simp add: ss caps_of_def initial_state_def new_ledger_def)
qed

lemma load_all:
  assumes "wf_program p" and "loaded [] st"
  shows "outcome (\<lambda>_. True) (loaded (pr_initial_objects p)) (foldE (load_initial bufs) (pr_initial_objects p) st)"
proof (rule outcome_foldE)
  show "loaded [] st" by (rule assms(2))
  fix pre x post st1
  assume xs: "pr_initial_objects p = pre @ x # post" and ld: "loaded pre st1"
  have "x \<in> set (pr_initial_objects p)" by (simp add: xs)
  from wf_objects(1) [OF assms(1) this] have x: "os_location x \<in> {''fast'', ''backing''}" "0 < os_size_bytes x" by auto
  show "outcome (\<lambda>_. True) (loaded (pre @ [x])) (load_initial bufs x st1)"
    by (rule load_initial_acct [OF ld x], intro ballI impI wf_objects(2) [OF assms(1)]) (auto simp: xs)
qed

lemma known_before_0: "known_before p 0 = os_id ` set (pr_initial_objects p)"
  by (simp add: known_before_def)

lemma known_before_Suc: "i < length (pr_tasks p) \<Longrightarrow> known_before p (Suc i) = ou_id ` set (ts_outputs (pr_tasks p ! i)) \<union> known_before p i"
  by (auto simp: known_before_def take_Suc_conv_app_nth)

lemma outputs_admitted:
  assumes "can_reserve l ''fast'' (fast_out t) = Inr True" and "can_reserve l ''backing'' (backing_out t) = Inr True"
  shows "\<forall>k \<in> {''fast'', ''backing''}. can_reserve l k (\<Sum>out \<leftarrow> ts_outputs t. reserved out k) = Inr True"
proof -
  have "(\<Sum>out \<leftarrow> outs. reserved out k) = (\<Sum>out \<leftarrow> filter (\<lambda>out. ou_location out = k) outs. ou_size_bytes out)" for outs k
    by (induction outs) (simp_all add: reserved_def)
  then show ?thesis using assms by (simp add: fast_out_def backing_out_def)
qed

lemma reserve_task_inv:
  assumes "wf_program p" and "i < length (pr_tasks p)" and inv: "run_inv p i st"
    and "can_reserve (rs_ledger st) ''fast'' (fast_out (pr_tasks p ! i)) = Inr True"
    and "can_reserve (rs_ledger st) ''backing'' (backing_out (pr_tasks p ! i)) = Inr True"
  shows "outcome resource_err (\<lambda>st'. run_inv p (Suc i) st' \<and> quiet st st')
    (foldE (reserve_output (pr_tasks p ! i) escaped) (ts_outputs (pr_tasks p ! i)) st)"
proof -
  let ?t = "pr_tasks p ! i"
  have ok: "mem_ok (known_before p i) st" using inv by (simp add: run_inv_def)
  have t: "task_ok (known_before p i) ?t" by (rule wf_objects(3) [OF assms(1,2)])
  have out: "\<forall>out \<in> set (ts_outputs ?t). ou_location out \<in> {''fast'', ''backing''} \<and> 0 < ou_size_bytes out"
    using t by (fastforce simp: task_ok_def object_ok_def LOCATIONS_def)
  have mem: "outcome resource_err (mem_ok (ou_id ` set (ts_outputs ?t) \<union> known_before p i))
      (foldE (reserve_output ?t escaped) (ts_outputs ?t) st)"
    by (rule reserve_outputs_acct [OF ok _ _ out outputs_admitted [OF assms(4,5)]]) (use t in \<open>auto simp: task_ok_def\<close>)
  show ?thesis
  proof (rule outcomeI)
    show "resource_err e" if "foldE (reserve_output ?t escaped) (ts_outputs ?t) st = Inl e" for e
      using outcome_Inl [OF mem that] .
    fix st' assume st': "foldE (reserve_output ?t escaped) (ts_outputs ?t) st = Inr st'"
    have q: "quiet st st'" using outcome_Inr [OF foldE_quiet [OF reserve_output_quiet] st'] .
    then have "lanes {#} st'" "caps_of p st'"
      using inv calm_lanes [OF quiet_calm [OF q]] same_run_caps [of st st' p] by (auto simp: run_inv_def quiet_def)
    then show "run_inv p (Suc i) st' \<and> quiet st st'"
      using outcome_Inr [OF mem st'] q by (simp add: run_inv_def known_before_Suc [OF assms(2)])
  qed
qed

lemma moves_caps: "moves j k st st' \<Longrightarrow> caps_of p st' = caps_of p st"
  using same_run_caps by (auto simp: moves_def)

text \<open>One lemma for the three facets of the invariant: memory, lanes, capacities.\<close>

lemma run_inv_outcome:
  assumes "run_inv p i st" and "outcome E (mem_ok (known_before p i)) m" and "outcome E1 (\<lambda>st'. lanes {#} st' \<and> R st') m"
    and "outcome E2 (moves j k st) m"
  shows "outcome E (\<lambda>st'. run_inv p i st' \<and> R st') m"
  using assms moves_caps by (cases m) (auto simp: run_inv_def)

lemma token_inv:
  assumes "run_inv p i st" and tk: "take_token st = (Some tok, st1)"
  shows "outcome resource_err (\<lambda>st'. run_inv p i st' \<and> (rs_outstanding_task st' = rs_outstanding_task st \<or> rs_outstanding_task st' = None))
    (handle tok st1)"
proof -
  have "mem_ok (known_before p i) st" "lanes {#} st" using assms(1) by (auto simp: run_inv_def)
  with run_inv_outcome [OF assms(1) handle_acct token_lanes token_step] take_token_acct tk show ?thesis by blast
qed

lemma step_inv:
  assumes "run_inv p i st"
  shows "outcome engine_err (\<lambda>st'. run_inv p i st' \<and> (rs_outstanding_task st' = rs_outstanding_task st \<or> rs_outstanding_task st' = None))
    (step exclude pump st)"
  using assms by (intro run_inv_outcome [OF assms step_acct step_lanes step_moves]) (auto simp: run_inv_def)

lemma pump_inv:
  assumes "run_inv p i st"
  shows "outcome resource_err (\<lambda>st'. run_inv p i st' \<and> rs_outstanding_task st' = rs_outstanding_task st) (try_start d escape st)"
proof -
  have "lanes {#} st" "mem_ok (known_before p i) st" using assms by (auto simp: run_inv_def)
  then show ?thesis
    using run_inv_outcome [OF assms try_start_acct try_start_lanes [unfolded lanes_kept_def] try_start_moves] by blast
qed

lemma mapE_outcome: "(\<And>x. outcome E (\<lambda>_. True) (f x)) \<Longrightarrow> outcome E (\<lambda>_. True) (mapE f xs)"
  by (induction xs) (auto intro!: outcome_bind)

lemma launch_inv:
  assumes "launch_ok launch" and "run_inv p i st" and "rs_outstanding_task st = None"
  shows "outcome resource_err (run_inv p i) (launch_task launch t st)"
proof -
  have mem: "outcome resource_err (mem_ok (known_before p i)) (launch_task launch t st)"
  proof -
    have b: "outcome resource_err (\<lambda>_. True) (bind_inputs t st)"
      unfolding bind_inputs_def
      by (rule mapE_outcome, rule outcome_bind [OF table_get_outcome]) (auto split: option.splits)
    have m: "outcome resource_err (\<lambda>_. True) (mapE (\<lambda>obj. case dget bufs obj of None \<Rightarrow> Inl (KeyError obj) | Some b \<Rightarrow> Inr (obj, b)) xs)"
      for bufs :: "(string \<times> buffer) list" and xs
      by (rule mapE_outcome) (auto split: option.splits)
    show ?thesis
      unfolding launch_task_def Let_def
      by (rule outcome_bind [OF b], rule outcome_bind [OF m])
        (use assms(1,2) in \<open>auto intro!: outcome_bind_eq mem_ok_updates(7) simp: launch_ok_def run_inv_def split: prod.splits\<close>)
  qed
  have "lanes {#} st" using assms(2) by (simp add: run_inv_def)
  from launch_task_lanes [OF assms(1) this assms(3)]
  have "outcome handler_err (\<lambda>st'. lanes {#} st' \<and> True) (launch_task launch t st)" by simp
  from run_inv_outcome [OF assms(2) mem this launch_task_moves [OF assms(1)]] show ?thesis by simp
qed

lemma reach_inv:
  assumes "engine_reach p launch i st" and "wf_program p" and "launch_ok launch"
  shows "run_inv p i st"
  using assms(1)
proof induction
  case (reach_start pb bufs cfg streams st1 st)
  note init = initial_state_inv [OF assms(2) reach_start(1), of cfg streams bufs]
  have q: "quiet (initial_state cfg p streams bufs pb) st1"
    using outcome_Inr [OF foldE_quiet [OF load_initial_quiet] reach_start(2)] .
  have "loaded (pr_initial_objects p) st1" using outcome_Inr [OF load_all [OF assms(2) init(1)] reach_start(2)] .
  moreover have "lanes {#} st1" "caps_of p st1"
    using init calm_lanes [OF quiet_calm [OF q]] same_run_caps [of _ st1 p] q by (auto simp: quiet_def)
  ultimately show ?case
    using upload_initial_id [OF reach_start(3)] by (simp add: run_inv_def loaded_def known_before_0)
next
  case (reach_focus i st c tid)
  then show ?case by (simp add: run_inv_def mem_ok_updates lanes_def tokens_def caps_of_def)
next
  case (reach_token i st tok st1 st')
  then show ?case using outcome_Inr [OF token_inv] by blast
next
  case (reach_step i st exclude pump st')
  then show ?case using outcome_Inr [OF step_inv] by blast
next
  case (reach_note i st k o2 t d)
  then have "lanes {#} (log_event k o2 t d st)" "caps_of p (log_event k o2 t d st)"
    by (auto simp: run_inv_def lanes_def tokens_def caps_of_def log_event_def)
  then show ?case using reach_note mem_ok_updates(6) by (simp add: run_inv_def)
next
  case (reach_dispatch i st escaped st1 wb st2 st')
  have 1: "run_inv p (Suc i) st1" "rs_outstanding_task st1 = None"
    using outcome_Inr [OF reserve_task_inv [OF assms(2) reach_dispatch(2,9,4,5)] reach_dispatch(6)] reach_dispatch(3)
    by (auto simp: quiet_def)
  have 2: "run_inv p (Suc i) st2 \<and> rs_outstanding_task st2 = None"
    using reach_dispatch(7) 1 outcome_Inr [OF pump_inv [OF 1(1)]] by (auto split: if_splits)
  then show ?case using outcome_Inr [OF launch_inv [OF assms(3)] reach_dispatch(8)] by blast
qed

section \<open>A run visits only reachable states\<close>

text \<open>The outcome of a fragment of the dispatcher: no ledger error, a deadlock only at a dead end, and otherwise a
  reachable state. A run is at a dead end when a step, which may not evict the inputs of the task it waits for,
  raises the deadlock, or when transfers are still queued once all tasks are dispatched and all tokens taken.\<close>

definition dead_end :: "program \<Rightarrow> (task_spec \<Rightarrow> token fake_backend \<Rightarrow> stream \<Rightarrow> stream res) \<Rightarrow> string \<Rightarrow> bool" where
  "dead_end p launch m \<longleftrightarrow>
     (\<exists>i st pump. i < length (pr_tasks p) \<and> engine_reach p launch i st \<and>
        step (ts_inputs (pr_tasks p ! i)) pump st = Inl (DeadlockError m)) \<or>
     (\<exists>st. engine_reach p launch (length (pr_tasks p)) st \<and> fb_pending (rs_backend st) = [] \<and> stuck_transfers st)"

fun run_err :: "program \<Rightarrow> (task_spec \<Rightarrow> token fake_backend \<Rightarrow> stream \<Rightarrow> stream res) \<Rightarrow> err \<Rightarrow> bool" where
  "run_err p launch (LedgerError _) = False"
| "run_err p launch (DeadlockError m) = dead_end p launch m"
| "run_err p launch _ = True"

lemma run_errI: "resource_err e \<Longrightarrow> run_err p launch e"
  by (cases e; simp)

definition idle_reach :: "program \<Rightarrow> (task_spec \<Rightarrow> token fake_backend \<Rightarrow> stream \<Rightarrow> stream res) \<Rightarrow> nat \<Rightarrow> run_state \<Rightarrow> bool" where
  "idle_reach p launch i st \<longleftrightarrow> engine_reach p launch i st \<and> rs_outstanding_task st = None"

lemma step_reach:
  assumes "wf_program p" and "launch_ok launch" and "engine_reach p launch i st"
    and i: "i < length (pr_tasks p)" "exclude = ts_inputs (pr_tasks p ! i)"
  shows "outcome (run_err p launch) (\<lambda>st'. engine_reach p launch i st' \<and>
     (rs_outstanding_task st' = rs_outstanding_task st \<or> rs_outstanding_task st' = None)) (step exclude pump st)"
proof (rule outcomeI)
  note s = step_inv [OF reach_inv [OF assms(3,1,2)], of exclude pump]
  show "run_err p launch e" if "step exclude pump st = Inl e" for e
    using outcome_Inl [OF s that] that assms(3) i by (cases e) (auto simp: dead_end_def)
  show "engine_reach p launch i st' \<and> (rs_outstanding_task st' = rs_outstanding_task st \<or> rs_outstanding_task st' = None)"
    if "step exclude pump st = Inr st'" for st'
    using outcome_Inr [OF s that] reach_step [OF assms(3) that] by simp
qed

lemma token_reach:
  assumes "wf_program p" and "launch_ok launch" and "engine_reach p launch i st" and "take_token st = (Some tok, st1)"
  shows "outcome (run_err p launch) (\<lambda>st'. engine_reach p launch i st' \<and>
     (rs_outstanding_task st' = rs_outstanding_task st \<or> rs_outstanding_task st' = None)) (handle tok st1)"
proof (rule outcomeI)
  note s = token_inv [OF reach_inv [OF assms(3,1,2)] assms(4)]
  show "run_err p launch e" if "handle tok st1 = Inl e" for e using outcome_Inl [OF s that] by (rule run_errI)
  show "engine_reach p launch i st' \<and> (rs_outstanding_task st' = rs_outstanding_task st \<or> rs_outstanding_task st' = None)"
    if "handle tok st1 = Inr st'" for st'
    using outcome_Inr [OF s that] reach_token [OF assms(3,4) that] by simp
qed

lemma wait_retired_reach:
  assumes wf: "wf_program p" "launch_ok launch"
    and i: "i < length (pr_tasks p)" "protected = ts_inputs (pr_tasks p ! i)"
  shows "engine_reach p launch i st \<Longrightarrow> outcome (run_err p launch) (idle_reach p launch i) (wait_retired n protected st)"
proof (induction n arbitrary: st)
  case 0
  then show ?case by (subst wait_retired.simps) (simp add: idle_reach_def)
next
  case (Suc n)
  show ?case
  proof (cases "rs_outstanding_task st = None")
    case True
    then show ?thesis using Suc.prems by (subst wait_retired.simps) (simp add: idle_reach_def)
  next
    case False
    then show ?thesis
      by (subst wait_retired.simps) (auto intro!: outcome_bind [OF step_reach [OF wf Suc.prems i]] Suc.IH)
  qed
qed

lemma wait_inputs_reach:
  assumes wf: "wf_program p" "launch_ok launch"
    and i: "i < length (pr_tasks p)" "t = pr_tasks p ! i"
  shows "idle_reach p launch i st \<Longrightarrow> outcome (run_err p launch) (idle_reach p launch i) (wait_inputs n t st)"
proof (induction n arbitrary: st)
  case 0
  then show ?case by (subst wait_inputs.simps) simp
next
  case (Suc n)
  then have r: "engine_reach p launch i st" by (simp add: idle_reach_def)
  have "idle_reach p launch i st1" if "engine_reach p launch i st1 \<and>
      (rs_outstanding_task st1 = rs_outstanding_task st \<or> rs_outstanding_task st1 = None)" for st1
    using that Suc.prems by (auto simp: idle_reach_def)
  then show ?case
    using Suc.prems by (subst wait_inputs.simps) (auto intro!: outcome_bind [OF step_reach [OF wf r i(1) arg_cong [OF i(2), of ts_inputs]]] Suc.IH)
qed

lemma fold_note_reach: "engine_reach p launch i st \<Longrightarrow> engine_reach p launch i (fold (\<lambda>x. log_event k (f x) b c) xs st)"
  by (induction xs arbitrary: st) (auto intro: reach_note)

definition admitted_reach ::
  "program \<Rightarrow> (task_spec \<Rightarrow> token fake_backend \<Rightarrow> stream \<Rightarrow> stream res) \<Rightarrow> nat \<Rightarrow> task_spec \<Rightarrow> run_state \<Rightarrow> bool" where
  "admitted_reach p launch i t st \<longleftrightarrow> idle_reach p launch i st \<and> can_reserve (rs_ledger st) ''fast'' (fast_out t) = Inr True"

lemma wait_reserve_reach:
  assumes wf: "wf_program p" "launch_ok launch" and i: "i < length (pr_tasks p)" "t = pr_tasks p ! i"
  shows "idle_reach p launch i st \<Longrightarrow>
    outcome (run_err p launch) (\<lambda>(esc, wb', st'). admitted_reach p launch i t st') (wait_reserve n t escaped wb st)"
proof (induction n arbitrary: st escaped wb)
  case (0 st)
  then have "run_inv p i st" using reach_inv wf by (auto simp: idle_reach_def)
  then have "can_reserve (rs_ledger st) ''fast'' k \<noteq> Inl e" for k e
    using can_reserve_iff [OF mem_okD(2)] by (auto simp: run_inv_def)
  with 0 show ?case by (subst wait_reserve.simps) (auto simp: Let_def admitted_reach_def intro!: outcome_bind_eq)
next
  case (Suc n)
  have r: "engine_reach p launch i st" and idle: "rs_outstanding_task st = None" using Suc.prems by (auto simp: idle_reach_def)
  have "run_inv p i st" using reach_inv [OF r wf] .
  then have cr: "can_reserve (rs_ledger st) ''fast'' k \<noteq> Inl e" for k e
    using can_reserve_iff [OF mem_okD(2)] by (auto simp: run_inv_def)
  have chain: "outcome (run_err p launch) (\<lambda>(esc, wb', st'). admitted_reach p launch i t st') (bindE m (wait_reserve n t escaped wb1))"
    if "outcome (run_err p launch) (\<lambda>st'. engine_reach p launch i st' \<and>
     (rs_outstanding_task st' = rs_outstanding_task st \<or> rs_outstanding_task st' = None)) m" for m wb1
    by (rule outcome_bind [OF that]) (auto simp: idle idle_reach_def intro: Suc.IH)
  have esc: "idle_reach p launch i (fold (\<lambda>x. log_event k (f x) b c) xs st)" for k f b c and xs :: "string list"
    using fold_note_reach [OF r] fold_log_quiet [of st k f b c xs] idle by (auto simp: idle_reach_def quiet_def)
  have adm: "admitted_reach p launch i t st" if "can_reserve (rs_ledger st) ''fast'' (fast_out t) = Inr True"
    using that Suc.prems by (simp add: admitted_reach_def)
  obtain tk st1 where tkn: "take_token st = (tk, st1)" by (cases "take_token st")
  show ?case
  proof (cases tk)
    case None
    then have st1: "st1 = st" using tkn take_token_None by blast
    show ?thesis
      by (subst wait_reserve.simps, rule outcome_bind_eq)
        (auto simp: tkn None st1 Let_def cr adm chain [OF step_reach [OF wf r i(1) arg_cong [OF i(2), of ts_inputs]]] intro!: Suc.IH esc)
  next
    case (Some tok)
    show ?thesis
      by (subst wait_reserve.simps, rule outcome_bind_eq)
        (auto simp: tkn Some Let_def cr adm chain [OF token_reach [OF wf r tkn [unfolded Some]]])
  qed
qed

lemma dispatch_tail_reach:
  assumes wf: "wf_program p" "launch_ok launch" and i: "i < length (pr_tasks p)"
    and adm: "admitted_reach p launch i (pr_tasks p ! i) st"
    and bk: "can_reserve (rs_ledger st) ''backing'' (backing_out (pr_tasks p ! i)) = Inr True"
  shows "outcome (run_err p launch) (engine_reach p launch (Suc i))
    (bindE (foldE (reserve_output (pr_tasks p ! i) escaped) (ts_outputs (pr_tasks p ! i)) st) (\<lambda>st.
     bindE (if wb then try_start FromSlow False st else Inr st) (launch_task launch (pr_tasks p ! i))))"
proof -
  let ?t = "pr_tasks p ! i"
  have r: "engine_reach p launch i st" and idle: "rs_outstanding_task st = None"
    and fs: "can_reserve (rs_ledger st) ''fast'' (fast_out ?t) = Inr True"
    using adm by (auto simp: admitted_reach_def idle_reach_def)
  note res = reserve_task_inv [OF wf(1) i reach_inv [OF r wf] fs bk, of escaped]
  show ?thesis
  proof (rule outcome_bind_eq)
    show "run_err p launch e" if "foldE (reserve_output ?t escaped) (ts_outputs ?t) st = Inl e" for e
      using outcome_Inl [OF res that] by (rule run_errI)
    fix st1 assume 1: "foldE (reserve_output ?t escaped) (ts_outputs ?t) st = Inr st1"
    have inv1: "run_inv p (Suc i) st1" "rs_outstanding_task st1 = None"
      using outcome_Inr [OF res 1] idle by (auto simp: quiet_def)
    have pump: "outcome resource_err (\<lambda>st'. run_inv p (Suc i) st' \<and> rs_outstanding_task st' = None)
        (if wb then try_start FromSlow False st1 else Inr st1)"
      using pump_inv [OF inv1(1)] inv1 by auto
    show "outcome (run_err p launch) (engine_reach p launch (Suc i)) (bindE (if wb then try_start FromSlow False st1 else Inr st1) (launch_task launch ?t))"
    proof (rule outcome_bind_eq)
      show "run_err p launch e" if "(if wb then try_start FromSlow False st1 else Inr st1) = Inl e" for e
        using outcome_Inl [OF pump that] by (rule run_errI)
      fix st2 assume 2: "(if wb then try_start FromSlow False st1 else Inr st1) = Inr st2"
      have l: "outcome resource_err (run_inv p (Suc i)) (launch_task launch ?t st2)"
        using launch_inv [OF wf(2)] outcome_Inr [OF pump 2] by blast
      show "outcome (run_err p launch) (engine_reach p launch (Suc i)) (launch_task launch ?t st2)"
        using outcome_Inl [OF l] run_errI reach_dispatch [OF r i idle fs bk 1 2] by (intro outcomeI) auto
    qed
  qed
qed

lemma dispatch_task_reach:
  assumes wf: "wf_program p" "launch_ok launch" and i: "i < length (pr_tasks p)" and r: "engine_reach p launch i st"
  shows "outcome (run_err p launch) (engine_reach p launch (Suc i)) (dispatch_task n launch cancelled (i, pr_tasks p ! i) st)"
proof -
  let ?t = "pr_tasks p ! i"
  have r1: "engine_reach p launch i (st\<lparr>rs_cursor := int i, rs_current_task_id := Some (ts_id ?t)\<rparr>)" using r by (rule reach_focus)
  have bkg: "outcome (run_err p launch) (engine_reach p launch (Suc i)) (bindE (can_reserve (rs_ledger st1) ''backing'' (backing_out ?t)) (\<lambda>ok.
       if \<not> ok then Inl (ExecutionError m)
       else bindE (foldE (reserve_output ?t escaped) (ts_outputs ?t) st1) (\<lambda>st.
            bindE (if wb then try_start FromSlow False st else Inr st) (launch_task launch ?t))))"
    if adm: "admitted_reach p launch i ?t st1" for st1 m escaped wb
  proof (rule outcome_bind_eq)
    have "run_inv p i st1" using adm reach_inv wf by (auto simp: admitted_reach_def idle_reach_def)
    then show "run_err p launch e" if "can_reserve (rs_ledger st1) ''backing'' (backing_out ?t) = Inl e" for e
      using can_reserve_iff [OF mem_okD(2)] that by (auto simp: run_inv_def)
    show "outcome (run_err p launch) (engine_reach p launch (Suc i)) (if \<not> ok then Inl (ExecutionError m)
       else bindE (foldE (reserve_output ?t escaped) (ts_outputs ?t) st1) (\<lambda>st.
            bindE (if wb then try_start FromSlow False st else Inr st) (launch_task launch ?t)))"
      if "can_reserve (rs_ledger st1) ''backing'' (backing_out ?t) = Inr ok" for ok
      using dispatch_tail_reach [OF wf i adm] that by (intro outcome_if) auto
  qed
  have "outcome (run_err p launch) (engine_reach p launch (Suc i)) (bindE (wait_reserve n ?t [] False st1) (\<lambda>(escaped, was_blocked, st).
       bindE (can_reserve (rs_ledger st) ''backing'' (backing_out ?t)) (\<lambda>ok.
       if \<not> ok then Inl (ExecutionError m)
       else bindE (foldE (reserve_output ?t escaped) (ts_outputs ?t) st) (\<lambda>st.
            bindE (if was_blocked then try_start FromSlow False st else Inr st) (launch_task launch ?t)))))"
    if "idle_reach p launch i st1" for st1 m
    by (rule outcome_bind [OF wait_reserve_reach [OF wf i refl that]]) (auto intro: bkg)
  then show ?thesis
    unfolding dispatch_task_def prod.case Let_def
    by (intro outcome_if outcome_bind [OF wait_retired_reach [OF wf i refl r1]] outcome_bind [OF wait_inputs_reach [OF wf i refl]]) simp_all
qed

lemma dispatch_all_reach:
  assumes wf: "wf_program p" "launch_ok launch"
  shows "pr_tasks p = pre @ ts \<Longrightarrow> i = length pre \<Longrightarrow> engine_reach p launch i st \<Longrightarrow>
    outcome (run_err p launch) (engine_reach p launch (length (pr_tasks p))) (foldE (dispatch_task n launch cancelled) (enumerate i ts) st)"
proof (induction ts arbitrary: pre i st)
  case Nil
  then show ?case by simp
next
  case (Cons t ts)
  have i: "i < length (pr_tasks p)" and t: "pr_tasks p ! i = t" using Cons.prems by auto
  have 1: "outcome (run_err p launch) (engine_reach p launch (Suc i)) (dispatch_task n launch cancelled (i, t) st)"
    using dispatch_task_reach [OF wf i Cons.prems(3)] t by simp
  show ?case
    unfolding enumerate_simps foldE.simps
    by (rule outcome_bind [OF 1], rule Cons.IH [of "pre @ [t]"]) (use Cons.prems in auto)
qed

lemma drain_reach:
  assumes wf: "wf_program p" "launch_ok launch"
  shows "engine_reach p launch i st \<Longrightarrow>
    outcome (run_err p launch) (\<lambda>st'. engine_reach p launch i st' \<and> fb_pending (rs_backend st') = []) (drain n st)"
proof (induction n arbitrary: st)
  case 0
  then show ?case by (subst drain.simps) (auto split: prod.splits option.splits dest: take_token_None)
next
  case (Suc n)
  obtain tk st1 where tkn: "take_token st = (tk, st1)" by (cases "take_token st")
  show ?case
  proof (cases tk)
    case None
    then show ?thesis using tkn take_token_None [of st st1] Suc.prems by (subst drain.simps) simp
  next
    case (Some tok)
    show ?thesis
      using tkn Some by (subst drain.simps)
        (auto intro!: outcome_bind [OF token_reach [OF wf Suc.prems]] intro: Suc.IH)
  qed
qed

section \<open>Properties of every run\<close>

lemma reach_budget:
  assumes "run_inv p i st"
  shows "resident ''fast'' (rs_table st) \<le> used_of (rs_ledger st) ''fast''"
    and "resident ''backing'' (rs_table st) = used_of (rs_ledger st) ''backing''"
    and "pr_fast_memory_capacity p = Some c \<Longrightarrow> used_of (rs_ledger st) ''fast'' \<le> c \<and> lg_peak_fast_bytes (rs_ledger st) \<le> c"
    and "pr_backing_memory_capacity p = Some c \<Longrightarrow> used_of (rs_ledger st) ''backing'' \<le> c \<and> lg_peak_backing_bytes (rs_ledger st) \<le> c"
  using assms by (auto simp: run_inv_def mem_ok_def acct_def ledger_inv_def caps_of_def used_of_def dget_or_def)

text \<open>C1. Memory safety of the engine: in every state a run of a validated program can be in, whatever
  the completion times, the objects resident in fast memory are covered by the ledger, those in
  backing memory are charged exactly, and neither counter, nor the recorded peak, exceeds the
  capacity the program declares.\<close>

theorem engine_within_budget:
  assumes "engine_reach p launch i st" and "validate_program p = Valid" and "launch_ok launch"
  shows "resident ''fast'' (rs_table st) \<le> used_of (rs_ledger st) ''fast'' \<and>
    resident ''backing'' (rs_table st) = used_of (rs_ledger st) ''backing'' \<and>
    (\<forall>c. pr_fast_memory_capacity p = Some c \<longrightarrow>
       used_of (rs_ledger st) ''fast'' \<le> c \<and> lg_peak_fast_bytes (rs_ledger st) \<le> c) \<and>
    (\<forall>c. pr_backing_memory_capacity p = Some c \<longrightarrow>
       used_of (rs_ledger st) ''backing'' \<le> c \<and> lg_peak_backing_bytes (rs_ledger st) \<le> c)"
  using reach_budget [OF reach_inv [OF assms(1) _ assms(3)]] assms(2) validate_decides by blast

text \<open>C11. Token discipline: in every reachable state the pending completion tokens are the token of
  the outstanding task, if any, and one token for the in-flight job of each transfer lane, if any.
  So at most one task and one transfer per direction are in flight, and every completion the engine
  receives is one it waits for.\<close>

theorem engine_tokens:
  assumes "engine_reach p launch i st" and "validate_program p = Valid" and "launch_ok launch"
  shows "\<exists>T. tokens st = T + lane_tokens FromSlow (tx_inflight (rs_h2d st)) + lane_tokens ToSlow (tx_inflight (rs_d2h st)) \<and>
    (case rs_outstanding_task st of None \<Rightarrow> T = {#} | Some tid \<Rightarrow> \<exists>t e0 e1. T = {#TaskDone t e0 e1#} \<and> ts_id t = tid)"
proof -
  have "lanes {#} st"
    using reach_inv [OF assms(1) _ assms(3)] assms(2) validate_decides by (simp add: run_inv_def)
  then show ?thesis by (auto simp: lanes_def task_tokens_def)
qed

lemma finish_run_err:
  assumes wf: "wf_program p" "launch_ok launch" and r: "engine_reach p launch (length (pr_tasks p)) st"
  shows "outcome (run_err p launch) (\<lambda>_. True) (finish_run n cfg p st)"
proof -
  have slot: "outcome (run_err p launch) (\<lambda>_. True) (reclaim_slot s st)" for s st
    using outcome_weaken [OF rs_put_outcome, where Q' = "\<lambda>_. True" and E' = "run_err p launch"] run_errI
    by (auto simp: reclaim_slot_def split: option.splits)
  have rec: "outcome (run_err p launch) (\<lambda>_. True) (reclaim st)" for st
    unfolding reclaim_def by (rule outcome_foldE_inv) (auto intro: outcome_bind [OF slot slot] split: prod.splits)
  have dead: "dead_end p launch m"
    if "engine_reach p launch (length (pr_tasks p)) st1" "fb_pending (rs_backend st1) = []" "stuck_transfers (materialize_intervals st1)" for st1 m
    using that unfolding dead_end_def by (auto simp: stuck_transfers_def materialize_intervals_def)
  show ?thesis
    unfolding finish_run_def Let_def
    by (intro outcome_bind [OF drain_reach [OF wf r]] outcome_guard outcome_bind [OF rec]) (auto simp: dead)
qed

text \<open>A run that has loaded its initial objects.\<close>

lemma loaded_run_err:
  assumes wf: "wf_program p" "launch_ok launch" and "fb_pending (snd pb) = []"
    and ld: "foldE (load_initial bufs) (pr_initial_objects p) (initial_state cfg p streams bufs pb) = Inr st1"
  shows "outcome (run_err p launch) (\<lambda>_. True) (run_program n launch cancelled cfg p bufs (initial_state cfg p streams bufs pb))"
proof -
  have up: "outcome (run_err p launch) (engine_reach p launch 0) (upload_initial bufs p st1)"
  proof (rule outcomeI)
    fix e assume e: "upload_initial bufs p st1 = Inl e"
    have "outcome (run_err p launch) (\<lambda>_. True) (foldE (\<lambda>spec st. bindE (memcpy_async (rs_backend st) (tx_stream (rs_h2d st)) None) (\<lambda>(_, s).
        Inr (st\<lparr>rs_h2d := (rs_h2d st)\<lparr>tx_stream := s\<rparr>\<rparr>))) xs st1)" for xs :: "object_spec list"
      by (rule outcome_foldE_inv) (simp_all add: memcpy_async_def)
    then have "outcome (run_err p launch) (\<lambda>_. True) (upload_initial bufs p st1)"
      unfolding upload_initial_def Let_def by (auto intro!: outcome_bind)
    then show "run_err p launch e" using outcome_Inl e by blast
  qed (rule reach_start [OF assms(3) ld])
  have "outcome (run_err p launch) (\<lambda>_. True) (bindE (upload_initial bufs p st1) (\<lambda>st.
      bindE (foldE (dispatch_task n launch cancelled) (enumerate 0 (pr_tasks p)) st) (finish_run n cfg p)))"
    by (rule outcome_bind [OF up], rule outcome_bind [OF dispatch_all_reach [OF wf, where pre = "[]"]])
      (auto intro: finish_run_err [OF wf])
  then show ?thesis using ld by (simp add: run_program_def)
qed

text \<open>C4. The engine never trips over its own ledger: when a run of a validated program ends in a
  \<open>LedgerError\<close>, the initial objects already exceeded a capacity while they were loaded. No transfer,
  release, eviction or reservation made later over-commits or under-runs the ledger.\<close>

theorem run_never_overcommits:
  assumes "validate_program p = Valid" and "launch_ok launch" and "fb_pending (snd pb) = []"
    and "run_program n launch cancelled cfg p bufs (initial_state cfg p streams bufs pb) = Inl (LedgerError m)"
  shows "foldE (load_initial bufs) (pr_initial_objects p) (initial_state cfg p streams bufs pb) = Inl (LedgerError m)"
proof (cases "foldE (load_initial bufs) (pr_initial_objects p) (initial_state cfg p streams bufs pb)")
  case (Inl e)
  then show ?thesis using assms(4) by (simp add: run_program_def)
next
  case (Inr st1)
  from loaded_run_err [OF assms(1) [unfolded validate_decides] assms(2,3) Inr, of n cancelled] assms(4)
  have "run_err p launch (LedgerError m)" by simp
  then show ?thesis by simp
qed

text \<open>C5. Waiting for the previous task to retire never deadlocks: with the fuel of the termination
  theorem the pacing loop ends with the task retired, or with an error some handler raised; it
  raises no \<open>DeadlockError\<close>, because the outstanding task's completion token is pending.\<close>

theorem pacing_never_deadlocks:
  assumes "engine_reach p launch i st" and "validate_program p = Valid" and "launch_ok launch" and "potential st < n"
  shows "(\<exists>st'. wait_retired n protected st = Inr st' \<and> rs_outstanding_task st' = None) \<or>
    (\<exists>e. wait_retired n protected st = Inl e \<and> e \<noteq> OutOfFuel \<and> (\<forall>m. e \<noteq> DeadlockError m))"
proof -
  have "outcome handler_err (\<lambda>st'. rs_outstanding_task st' = None) (wait_retired n protected st)"
    if "lanes {#} st" "potential st < n" for st n
    using that
  proof (induction n arbitrary: st)
    case (Suc n)
    show ?case
    proof (cases "rs_outstanding_task st")
      case None
      then show ?thesis by (subst wait_retired.simps) simp
    next
      case (Some tid)
      then have "tokens st \<noteq> {#}" using Suc.prems(1) by (auto simp: lanes_def task_tokens_def)
      then obtain tok st1 where tk: "take_token st = (Some tok, st1)"
        by (cases "fb_pending (rs_backend st)") (auto simp: tokens_def take_token_def next_completion_def)
      have "outcome handler_err (\<lambda>st'. lanes {#} st' \<and> moves 1 0 st st') (handle tok st1)"
        using outcome_conj [OF token_lanes [OF Suc.prems(1) tk] token_step [OF tk]] by (rule outcome_weaken) auto
      then show ?thesis
        using Some tk by (subst wait_retired.simps)
          (auto simp: step_def intro!: outcome_bind Suc.IH moves_lt [OF _ Suc.prems(2)])
    qed
  qed simp
  moreover have "lanes {#} st" using reach_inv [OF assms(1) _ assms(3)] assms(2) validate_decides by (simp add: run_inv_def)
  ultimately have "outcome handler_err (\<lambda>st'. rs_outstanding_task st' = None) (wait_retired n protected st)"
    using assms(4) by blast
  then show ?thesis by (cases "wait_retired n protected st") auto
qed




text \<open>Nothing is in flight: no completion token, no task, no transfer.\<close>

definition idle :: "run_state \<Rightarrow> bool" where
  "idle st \<longleftrightarrow> tokens st = {#} \<and> rs_outstanding_task st = None \<and> tx_inflight (rs_h2d st) = None \<and> tx_inflight (rs_d2h st) = None"


section \<open>Witnesses\<close>

lemma demo_reach:
  "engine_reach demo_program synthetic_launch 0 demo_loaded"
  "engine_reach demo_program synthetic_launch 1 demo_running"
proof -
  have up: "upload_initial [] demo_program demo_loaded = Inr demo_loaded"
    by (simp add: upload_initial_def needs_setup_copy_def Let_def)
  show 0: "engine_reach demo_program synthetic_launch 0 demo_loaded"
    by (rule reach_start [OF _ demo_loaded_eq [unfolded demo_start_def] up]) (simp add: new_backend_def)
  have wf: "wf_program demo_program" using demo_valid by (simp add: validate_decides)
  have "0 < length (pr_tasks demo_program)" by (simp add: demo_program_def)
  from outcome_Inr [OF dispatch_task_reach [OF wf synthetic_launch_ok this 0] demo_running_eq]
  show "engine_reach demo_program synthetic_launch 1 demo_running" by simp
qed

theorem engine_within_budget_witness:
  "resident ''fast'' (rs_table demo_running) \<le> used_of (rs_ledger demo_running) ''fast'' \<and>
    resident ''backing'' (rs_table demo_running) = used_of (rs_ledger demo_running) ''backing'' \<and>
    used_of (rs_ledger demo_running) ''fast'' \<le> 100 \<and> lg_peak_fast_bytes (rs_ledger demo_running) \<le> 100 \<and>
    used_of (rs_ledger demo_running) ''backing'' \<le> 100 \<and> lg_peak_backing_bytes (rs_ledger demo_running) \<le> 100"
proof -
  have "pr_fast_memory_capacity demo_program = Some 100" "pr_backing_memory_capacity demo_program = Some 100"
    by (simp_all add: demo_program_def)
  with engine_within_budget [OF demo_reach(2) demo_valid synthetic_launch_ok] show ?thesis by blast
qed

theorem engine_tokens_witness:
  "\<exists>T. tokens demo_running = T + lane_tokens FromSlow (tx_inflight (rs_h2d demo_running)) +
      lane_tokens ToSlow (tx_inflight (rs_d2h demo_running)) \<and>
    (case rs_outstanding_task demo_running of None \<Rightarrow> T = {#}
     | Some tid \<Rightarrow> \<exists>t e0 e1. T = {#TaskDone t e0 e1#} \<and> ts_id t = tid)"
  by (rule engine_tokens [OF demo_reach(2) demo_valid synthetic_launch_ok])

theorem run_never_overcommits_witness:
  "foldE (load_initial []) (pr_initial_objects demo_overfull) (demo_start demo_overfull) = Inl (LedgerError ''over-commit'')"
  unfolding demo_start_def
proof (rule run_never_overcommits [OF demo_overfull_valid synthetic_launch_ok, where n = 100 and cancelled = "\<lambda>_. False"])
  show "fb_pending (snd (new_pool, new_backend False None)) = []" by (simp add: new_backend_def)
  have "case run_program 100 synthetic_launch (\<lambda>_. False) demo_config demo_overfull [] (demo_start demo_overfull) of
      Inl e \<Rightarrow> e = LedgerError ''over-commit'' | Inr _ \<Rightarrow> False" by code_simp
  then show "run_program 100 synthetic_launch (\<lambda>_. False) demo_config demo_overfull []
      (initial_state demo_config demo_overfull (fst (make_streams (new_backend False None))) [] (new_pool, new_backend False None)) =
      Inl (LedgerError ''over-commit'')"
    unfolding demo_start_def by (simp split: sum.splits)
qed

theorem pacing_never_deadlocks_witness:
  "\<exists>st'. wait_retired 100 [] demo_running = Inr st' \<and> rs_outstanding_task st' = None"
proof -
  have "potential demo_running < 100" by code_simp
  from pacing_never_deadlocks [OF demo_reach(2) demo_valid synthetic_launch_ok this, of "[]"]
  have "(\<exists>st'. wait_retired 100 [] demo_running = Inr st' \<and> rs_outstanding_task st' = None) \<or>
    (\<exists>e. wait_retired 100 [] demo_running = Inl e)" by blast
  moreover have "\<not> isl (wait_retired 100 [] demo_running)" by code_simp
  ultimately show ?thesis by auto
qed





end
