(* ===== verification/Chain_Index.thy ===== *)
theory Chain_Index
  imports Engine_Demo
begin

text \<open>
  What \<open>build_chain_index\<close> computes: for every object the ascending positions of the tasks that read
  it and of the directives that touch it, its last reference, and the position of every task. The
  dead-everywhere rule of a release and the next use that guides pressure eviction are stated in
  terms of the program.
\<close>

section \<open>Folding a task into the index\<close>

definition touches :: "task_spec \<Rightarrow> string list" where
  "touches t = ts_releases_after t @ map td_object_id (ts_offload_after t) @ map td_object_id (ts_prefetch_after t)"

definition refers :: "task_spec \<Rightarrow> string list" where
  "refers t = ts_inputs t @ map td_object_id (ts_offload_after t) @ map td_object_id (ts_prefetch_after t)"

lemma fold_dappend: "dget_or (fold (\<lambda>k. dappend k v) ks d) k [] = dget_or d k [] @ replicate (count_list ks k) v"
proof (induction ks arbitrary: d)
  case (Cons x ks)
  have "dget_or (dappend x v d) k [] = dget_or d k [] @ (if x = k then [v] else [])"
    by (simp add: dget_or_def dappend_get)
  then show ?case using Cons by (simp add: replicate_app_Cons_same)
qed simp

lemma fold_dset_const: "dget (fold (\<lambda>k. dset k v) ks d) k = (if k \<in> set ks then Some v else dget d k)"
  by (induction ks arbitrary: d) auto

lemma index_task_proj:
  "ci_task_index (index_task (i, t) ci) = dset (ts_id t) (int i) (ci_task_index ci)"
  "ci_uses_by_obj (index_task (i, t) ci) = fold (\<lambda>k. dappend k (int i)) (ts_inputs t) (ci_uses_by_obj ci)"
  "ci_directives_by_obj (index_task (i, t) ci) = fold (\<lambda>k. dappend k (int i)) (touches t) (ci_directives_by_obj ci)"
  "ci_last_ref (index_task (i, t) ci) = fold (\<lambda>k. dset k (int i)) (refers t) (ci_last_ref ci)"
proof -
  let ?inp = "\<lambda>o1 ci. ci\<lparr>ci_last_ref := dset o1 (int i) (ci_last_ref ci), ci_uses_by_obj := dappend o1 (int i) (ci_uses_by_obj ci)\<rparr>"
  let ?rel = "\<lambda>o1 ci. ci\<lparr>ci_directives_by_obj := dappend o1 (int i) (ci_directives_by_obj ci)\<rparr>"
  let ?ref = "\<lambda>trig ci. ci\<lparr>ci_last_ref := dset (td_object_id trig) (int i) (ci_last_ref ci),
                  ci_directives_by_obj := dappend (td_object_id trig) (int i) (ci_directives_by_obj ci)\<rparr>"
  have inp: "ci_task_index (fold ?inp xs ci) = ci_task_index ci"
    "ci_uses_by_obj (fold ?inp xs ci) = fold (\<lambda>k. dappend k (int i)) xs (ci_uses_by_obj ci)"
    "ci_directives_by_obj (fold ?inp xs ci) = ci_directives_by_obj ci"
    "ci_last_ref (fold ?inp xs ci) = fold (\<lambda>k. dset k (int i)) xs (ci_last_ref ci)" for xs ci
    by (induction xs arbitrary: ci) auto
  have rel: "ci_task_index (fold ?rel xs ci) = ci_task_index ci" "ci_uses_by_obj (fold ?rel xs ci) = ci_uses_by_obj ci"
    "ci_directives_by_obj (fold ?rel xs ci) = fold (\<lambda>k. dappend k (int i)) xs (ci_directives_by_obj ci)"
    "ci_last_ref (fold ?rel xs ci) = ci_last_ref ci" for xs ci
    by (induction xs arbitrary: ci) auto
  have ref: "ci_task_index (fold ?ref xs ci) = ci_task_index ci" "ci_uses_by_obj (fold ?ref xs ci) = ci_uses_by_obj ci"
    "ci_directives_by_obj (fold ?ref xs ci) = fold (\<lambda>k. dappend k (int i)) (map td_object_id xs) (ci_directives_by_obj ci)"
    "ci_last_ref (fold ?ref xs ci) = fold (\<lambda>k. dset k (int i)) (map td_object_id xs) (ci_last_ref ci)"
    for xs :: "transfer_directive list" and ci
    by (induction xs arbitrary: ci) auto
  show "ci_task_index (index_task (i, t) ci) = dset (ts_id t) (int i) (ci_task_index ci)"
    "ci_uses_by_obj (index_task (i, t) ci) = fold (\<lambda>k. dappend k (int i)) (ts_inputs t) (ci_uses_by_obj ci)"
    "ci_directives_by_obj (index_task (i, t) ci) = fold (\<lambda>k. dappend k (int i)) (touches t) (ci_directives_by_obj ci)"
    "ci_last_ref (index_task (i, t) ci) = fold (\<lambda>k. dset k (int i)) (refers t) (ci_last_ref ci)"
    by (simp_all add: index_task_def Let_def inp rel ref touches_def refers_def)
qed

section \<open>The whole index\<close>

definition index_from :: "nat \<Rightarrow> task_spec list \<Rightarrow> chain_index \<Rightarrow> chain_index" where
  "index_from i ts ci = fold index_task (enumerate i ts) ci"

lemma index_from_simps [simp]:
  "index_from i [] ci = ci"
  "index_from i (t # ts) ci = index_from (Suc i) ts (index_task (i, t) ci)"
  by (simp_all add: index_from_def)

text \<open>Positions, repeated once for every occurrence, of the tasks whose list \<open>f t\<close> contains the object.\<close>

definition positions :: "(task_spec \<Rightarrow> string list) \<Rightarrow> string \<Rightarrow> nat \<Rightarrow> task_spec list \<Rightarrow> int list" where
  "positions f k i ts = concat (map (\<lambda>(j, t). replicate (count_list (f t) k) (int j)) (enumerate i ts))"

lemma index_from_uses: "dget_or (ci_uses_by_obj (index_from i ts ci)) k [] = dget_or (ci_uses_by_obj ci) k [] @ positions ts_inputs k i ts"
  by (induction ts arbitrary: i ci) (simp_all add: positions_def index_task_proj fold_dappend)

lemma index_from_directives:
  "dget_or (ci_directives_by_obj (index_from i ts ci)) k [] = dget_or (ci_directives_by_obj ci) k [] @ positions touches k i ts"
  by (induction ts arbitrary: i ci) (simp_all add: positions_def index_task_proj fold_dappend)

lemma index_from_last_ref:
  "dget_or (ci_last_ref (index_from i ts ci)) k (- 1) \<le> x \<longleftrightarrow>
     (if \<exists>t \<in> set ts. k \<in> set (refers t)
      then \<forall>j < length ts. k \<in> set (refers (ts ! j)) \<longrightarrow> int (i + j) \<le> x
      else dget_or (ci_last_ref ci) k (- 1) \<le> x)"
proof (induction ts arbitrary: i ci)
  case (Cons t ts)
  let ?P = "\<forall>j < length ts. k \<in> set (refers (ts ! j)) \<longrightarrow> int (Suc i + j) \<le> x"
  have split: "(\<forall>j < length (t # ts). k \<in> set (refers ((t # ts) ! j)) \<longrightarrow> int (i + j) \<le> x) \<longleftrightarrow>
      (k \<in> set (refers t) \<longrightarrow> int i \<le> x) \<and> ?P"
    by (auto simp: All_less_Suc2)
  show ?case
  proof (cases "\<exists>t \<in> set ts. k \<in> set (refers t)")
    case True
    then obtain j where j: "j < length ts" "k \<in> set (refers (ts ! j))" by (metis in_set_conv_nth)
    have "int i \<le> x" if ?P using that j by auto
    then show ?thesis unfolding split using True Cons.IH [of "Suc i" "index_task (i, t) ci"] by auto
  next
    case False
    then have ?P by (metis nth_mem)
    then show ?thesis unfolding split using False Cons.IH [of "Suc i" "index_task (i, t) ci"]
      by (auto simp: index_task_proj dget_or_def fold_dset_const)
  qed
qed simp

lemma index_from_task_index:
  "distinct (map ts_id ts) \<Longrightarrow> dget (ci_task_index (index_from i ts ci)) k =
     (case find (\<lambda>j. ts_id (ts ! j) = k) [0..<length ts] of Some j \<Rightarrow> Some (int (i + j)) | None \<Rightarrow> dget (ci_task_index ci) k)"
proof -
  assume d: "distinct (map ts_id ts)"
  have keep: "dget (ci_task_index (index_from i ts ci)) k' = dget (ci_task_index ci) k'" if "k' \<notin> ts_id ` set ts" for k' i ts ci
    using that by (induction ts arbitrary: i ci) (auto simp: index_task_proj)
  have hit: "dget (ci_task_index (index_from i ts ci)) (ts_id (ts ! j)) = Some (int (i + j))"
    if "distinct (map ts_id ts)" "j < length ts" for i ts ci j
    using that
  proof (induction ts arbitrary: i j ci)
    case (Cons t ts)
    show ?case
    proof (cases j)
      case 0
      then show ?thesis using keep [of "ts_id t" ts "Suc i"] Cons.prems(1) by (simp add: index_task_proj)
    next
      case (Suc j')
      then show ?thesis using Cons by simp
    qed
  qed simp
  show ?thesis
  proof (cases "find (\<lambda>j. ts_id (ts ! j) = k) [0..<length ts]")
    case None
    then have "k \<notin> ts_id ` set ts" by (auto simp: find_None_iff in_set_conv_nth)
    then show ?thesis using None keep by simp
  next
    case (Some j)
    then have "j < length ts" "ts_id (ts ! j) = k" by (auto simp: find_Some_iff)
    then show ?thesis using Some hit [OF d, of j i ci] by auto
  qed
qed

lemma index_task_at:
  assumes "distinct (map ts_id (pr_tasks p))" and "i < length (pr_tasks p)"
  shows "dget (ci_task_index (build_chain_index p)) (ts_id (pr_tasks p ! i)) = Some (int i)"
proof -
  obtain j where j: "find (\<lambda>j. ts_id (pr_tasks p ! j) = ts_id (pr_tasks p ! i)) [0..<length (pr_tasks p)] = Some j"
    using assms(2) by (cases "find (\<lambda>j. ts_id (pr_tasks p ! j) = ts_id (pr_tasks p ! i)) [0..<length (pr_tasks p)]")
      (auto simp: find_None_iff)
  then have "j < length (pr_tasks p)" "ts_id (pr_tasks p ! j) = ts_id (pr_tasks p ! i)" by (auto simp: find_Some_iff)
  then have "j = i" using assms by (auto simp: distinct_conv_nth)
  then show ?thesis
    using index_from_task_index [OF assms(1), of 0] j by (simp add: build_chain_index_def index_from_def)
qed

lemma positions_Cons: "positions f k i (t # ts) = replicate (count_list (f t) k) (int i) @ positions f k (Suc i) ts"
  by (simp add: positions_def)

text \<open>Positions are ascending, and they are those of the tasks that contain the object.\<close>

lemma positions_bound: "x \<in> set (positions f k i ts) \<longleftrightarrow> (\<exists>j < length ts. x = int (i + j) \<and> k \<in> set (f (ts ! j)))"
proof (induction ts arbitrary: i)
  case (Cons t ts)
  have "x \<in> set (positions f k i (t # ts)) \<longleftrightarrow> x = int i \<and> k \<in> set (f t) \<or> x \<in> set (positions f k (Suc i) ts)"
    by (auto simp: positions_Cons count_list_0_iff)
  then show ?case using Cons by (simp add: Ex_less_Suc2 add_ac)
qed (simp add: positions_def)

lemma positions_sorted: "sorted (positions f k i ts)"
proof (induction ts arbitrary: i)
  case (Cons t ts)
  have "int i \<le> x" if "x \<in> set (positions f k (Suc i) ts)" for x
    using that by (auto simp: positions_bound)
  moreover have "sorted (replicate n (int i))" for n by (induction n) auto
  ultimately show ?case using Cons by (auto simp: positions_Cons sorted_append)
qed (simp add: positions_def)

lemma build_uses: "dget_or (ci_uses_by_obj (build_chain_index p)) k [] = positions ts_inputs k 0 (pr_tasks p)"
  using index_from_uses [of 0 "pr_tasks p"] by (simp add: build_chain_index_def index_from_def dget_or_def)

lemma build_directives: "dget_or (ci_directives_by_obj (build_chain_index p)) k [] = positions touches k 0 (pr_tasks p)"
  using index_from_directives [of 0 "pr_tasks p"] by (simp add: build_chain_index_def index_from_def dget_or_def)

lemma build_last_ref:
  "dget_or (ci_last_ref (build_chain_index p)) k (- 1) \<le> int i \<longleftrightarrow> (\<forall>j < length (pr_tasks p). k \<in> set (refers (pr_tasks p ! j)) \<longrightarrow> j \<le> i)"
proof -
  have none: "dget_or [] k (- 1) \<le> int i" by (simp add: dget_or_def)
  show ?thesis
    using index_from_last_ref [of 0 "pr_tasks p" "\<lparr>ci_last_ref = [], ci_task_index = [], ci_uses_by_obj = [], ci_directives_by_obj = []\<rparr>" k "int i"] none
    by (auto simp: build_chain_index_def index_from_def split: if_splits)
qed

section \<open>The dead-everywhere rule and the next use\<close>

text \<open>C13. The dead-everywhere rule of a release is exact: after task \<open>i\<close> an object counts as dead if and only
  if no later task reads it or moves it by a directive, and it has no final location.\<close>

theorem dead_everywhere_iff:
  assumes "validate_program p = Valid" and "i < length (pr_tasks p)"
    and "rs_chain st = build_chain_index p" and "rs_final_locations st = pr_final_locations p"
  shows "dead_everywhere (pr_tasks p ! i) obj st =
    Inr ((\<forall>j. i < j \<and> j < length (pr_tasks p) \<longrightarrow>
            obj \<notin> set (ts_inputs (pr_tasks p ! j)) \<and>
            obj \<notin> td_object_id ` set (ts_offload_after (pr_tasks p ! j)) \<and>
            obj \<notin> td_object_id ` set (ts_prefetch_after (pr_tasks p ! j))) \<and>
         obj \<notin> fst ` set (pr_final_locations p))"
proof -
  have "distinct (map ts_id (pr_tasks p))" using assms(1) unfolding validate_decides wf_program_def by blast
  note at = index_task_at [OF this assms(2)]
  have "dget_or (ci_last_ref (build_chain_index p)) obj (- 1) \<le> int i \<longleftrightarrow>
      (\<forall>j. i < j \<and> j < length (pr_tasks p) \<longrightarrow> obj \<notin> set (refers (pr_tasks p ! j)))"
    unfolding build_last_ref by (auto simp: not_le)
  then show ?thesis
    using at by (simp add: dead_everywhere_def assms(3,4) refers_def map_of_eq_None_iff)
qed

text \<open>Witness: in the demo program \<open>x\<close> is dead after task \<open>a\<close>, and \<open>w\<close> is not.\<close>

theorem dead_everywhere_iff_witness:
  "dead_everywhere (pr_tasks demo_program ! 0) ''x'' (demo_start demo_program) = Inr True \<and>
   dead_everywhere (pr_tasks demo_program ! 0) ''w'' (demo_start demo_program) = Inr False"
proof -
  have st: "rs_chain (demo_start demo_program) = build_chain_index demo_program"
    "rs_final_locations (demo_start demo_program) = pr_final_locations demo_program"
    by (simp_all add: demo_start_def initial_state_def split: prod.splits)
  have tasks: "length (pr_tasks demo_program) = 2" by code_simp
  note dead = dead_everywhere_iff [OF demo_valid _ st, of 0]
  have "\<exists>j. 0 < j \<and> j < length (pr_tasks demo_program) \<and> ''w'' \<in> set (ts_inputs (pr_tasks demo_program ! j))"
    unfolding tasks by (rule exI [of _ 1]) code_simp
  then have "dead_everywhere (pr_tasks demo_program ! 0) ''w'' (demo_start demo_program) = Inr False"
    using dead [of "''w''"] tasks by auto
  moreover have "dead_everywhere (pr_tasks demo_program ! 0) ''x'' (demo_start demo_program) = Inr True"
    using dead [of "''x''"] tasks by (auto simp: demo_program_def demo_task_def less_2_cases_iff)
  ultimately show ?thesis by simp
qed

text \<open>What a pressure-eviction candidate is, in terms of the program: clean and live on both sides, and its
  next use is the first task from the cursor on that reads it, with no directive touching it before.\<close>

lemma evict_candidate_next_use:
  assumes "rs_chain st = build_chain_index p" and "0 \<le> rs_cursor st" and "evict_candidate exclude st oid rec = Some nxt"
  shows "\<exists>j. nxt = int j \<and> j < length (pr_tasks p) \<and> rs_cursor st \<le> int j \<and> oid \<in> set (ts_inputs (pr_tasks p ! j)) \<and>
    (\<forall>k. rs_cursor st \<le> int k \<and> k < j \<longrightarrow> oid \<notin> set (ts_inputs (pr_tasks p ! k)) \<and> oid \<notin> set (touches (pr_tasks p ! k)))"
proof -
  let ?u = "positions ts_inputs oid 0 (pr_tasks p)" and ?d = "positions touches oid 0 (pr_tasks p)" and ?c = "rs_cursor st"
  have nxt: "?u \<noteq> []" "?c \<le> last ?u" "nxt = ?u ! bisect_left ?u ?c" "\<not> (?d \<noteq> [] \<and> bisect_left ?d ?c < bisect_left ?d nxt)"
    using assms(3) by (auto simp: evict_candidate_def Let_def assms(1) build_uses build_directives not_less split: option.splits if_splits)
  have su: "m < bisect_left ?u ?c \<Longrightarrow> ?u ! m < ?c" "bisect_left ?u ?c \<le> m \<Longrightarrow> m < length ?u \<Longrightarrow> ?c \<le> ?u ! m" for m
    using bisect_left_spec [OF positions_sorted] by blast+
  have sd: "m < bisect_left ?d x \<Longrightarrow> ?d ! m < x" "bisect_left ?d x \<le> m \<Longrightarrow> m < length ?d \<Longrightarrow> x \<le> ?d ! m" for m x
    using bisect_left_spec [OF positions_sorted] by blast+
  have in_range: "bisect_left ?u ?c < length ?u"
  proof (rule ccontr)
    assume "\<not> bisect_left ?u ?c < length ?u"
    moreover have "0 < length ?u" using nxt(1) by blast
    ultimately have "length ?u - 1 < bisect_left ?u ?c" by linarith
    from su(1) [OF this] show False using nxt(1,2) by (simp add: last_conv_nth)
  qed
  then have mem: "nxt \<in> set ?u" using nxt(3) by simp
  then obtain j where j: "j < length (pr_tasks p)" "nxt = int j" "oid \<in> set (ts_inputs (pr_tasks p ! j))" by (auto simp: positions_bound)
  have ge: "?c \<le> nxt" using su(2) [OF order_refl in_range] nxt(3) by simp
  have first: "oid \<notin> set (ts_inputs (pr_tasks p ! k))" if "?c \<le> int k" "k < j" for k
  proof
    assume "oid \<in> set (ts_inputs (pr_tasks p ! k))"
    then have "int k \<in> set ?u" using that j by (auto simp: positions_bound)
    then obtain m where m: "m < length ?u" "?u ! m = int k" by (auto simp: in_set_conv_nth)
    have "bisect_left ?u ?c \<le> m" using su(1) [of m] m(2) that(1) by (cases "m < bisect_left ?u ?c") auto
    then have "nxt \<le> int k" using sorted_nth_mono [OF positions_sorted _ m(1)] nxt(3) m(2) by metis
    then show False using j that by simp
  qed
  have untouched: "oid \<notin> set (touches (pr_tasks p ! k))" if "?c \<le> int k" "k < j" for k
  proof
    assume "oid \<in> set (touches (pr_tasks p ! k))"
    then have "int k \<in> set ?d" using that j by (auto simp: positions_bound)
    then obtain m where m: "m < length ?d" "?d ! m = int k" by (auto simp: in_set_conv_nth)
    have "bisect_left ?d ?c \<le> m" using sd(1) [of m ?c] m(2) that(1) by (cases "m < bisect_left ?d ?c") auto
    moreover have "m < bisect_left ?d nxt" 
    proof (rule ccontr)
      assume "\<not> m < bisect_left ?d nxt"
      then have "nxt \<le> int k" using sd(2) [of nxt m] m by simp
      then show False using j that by simp
    qed
    ultimately show False using nxt(4) m by (metis le_less_trans length_0_conv not_less_zero)
  qed
  show ?thesis using j ge first untouched by auto
qed

end
