(* ===== verification/Engine_Results.thy ===== *)
theory Engine_Results
  imports Engine_Reach Chain_Index
begin

text \<open>
  What a finished run guarantees, and what a pressure eviction does, both in terms of the program:
  a successful run is quiescent, within its budget and has every object at its final location; an
  eviction drops a clean object whose next use is farthest away and queues its reload.
\<close>

section \<open>A successful run\<close>

definition final_ok :: "program \<Rightarrow> object_table \<Rightarrow> bool" where
  "final_ok p tb \<longleftrightarrow> (\<forall>oid loc. (oid, loc) \<in> set (pr_final_locations p) \<longrightarrow>
     (\<exists>rec s. dget tb oid = Some rec \<and> slot_at rec loc = Some s \<and> sl_state s = Live \<and> sl_version s = ob_version rec))"

lemma final_location_violations_iff: "final_location_violations p tb = [] \<longleftrightarrow> final_ok p tb"
  by (fastforce simp: final_location_violations_def final_ok_def split: option.splits if_splits)

definition quiescent :: "run_state \<Rightarrow> bool" where
  "quiescent st \<longleftrightarrow> tokens st = {#} \<and> rs_outstanding_task st = None \<and>
     tx_inflight (rs_h2d st) = None \<and> tx_inflight (rs_d2h st) = None \<and>
     tx_queue (rs_h2d st) = [] \<and> tx_queue (rs_d2h st) = [] \<and> rs_deferred st = []"

definition run_ok :: "engine_config \<Rightarrow> program \<Rightarrow> run_result \<Rightarrow> run_state \<Rightarrow> bool" where
  "run_ok cfg p r st \<longleftrightarrow> quiescent st \<and>
     (\<forall>c. pr_fast_memory_capacity p = Some c \<longrightarrow> rr_peak_fast_bytes r \<le> c) \<and>
     (\<forall>c. pr_backing_memory_capacity p = Some c \<longrightarrow> rr_peak_backing_bytes r \<le> c) \<and>
     (rr_final_location_violations r = [] \<longleftrightarrow> final_ok p (rr_objects r)) \<and>
     (en_strict_final_locations cfg \<longrightarrow> final_ok p (rr_objects r))"

lemma lanes_idle:
  assumes "lanes {#} st" and "tokens st = {#}"
  shows "rs_outstanding_task st = None \<and> tx_inflight (rs_h2d st) = None \<and> tx_inflight (rs_d2h st) = None"
  using assms by (auto simp: lanes_def task_tokens_def lane_tokens_def split: option.splits)

lemma reclaim_shift: "outcome resource_err (pool_shift st) (reclaim st)"
proof -
  have refl: "pool_shift st st" for st
    unfolding pool_shift_def by (rule exI [of _ "rs_pool st"], rule exI [of _ "rs_backend st"]) simp
  have trans: "pool_shift a c" if sh: "pool_shift a b" "pool_shift b c" for a b c
  proof -
    obtain p1 b1 p2 b2 where "b = a\<lparr>rs_pool := p1, rs_backend := b1\<rparr>" "same_queue (rs_backend a) b1"
      "c = b\<lparr>rs_pool := p2, rs_backend := b2\<rparr>" "same_queue (rs_backend b) b2"
      using sh unfolding pool_shift_def by blast
    then have "c = a\<lparr>rs_pool := p2, rs_backend := b2\<rparr>" "same_queue (rs_backend a) b2"
      using same_queue_trans by auto
    then show ?thesis unfolding pool_shift_def by blast
  qed
  have slot: "outcome resource_err (pool_shift a) (reclaim_slot s b)" if "pool_shift a b" for s a b
    using that outcome_weaken [OF rs_put_outcome, where Q' = "pool_shift a" and E' = resource_err] trans
    by (auto simp: reclaim_slot_def split: option.splits)
  show ?thesis
    unfolding reclaim_def
    by (rule outcome_foldE_inv [where P = "pool_shift st"]) (auto intro: refl outcome_bind [OF slot slot] split: prod.splits)
qed

lemma finish_run_ok:
  assumes wf: "wf_program p" "launch_ok launch" and "engine_reach p launch i st"
  shows "outcome (\<lambda>_. True) (\<lambda>(r, st'). run_ok cfg p r st') (finish_run n cfg p st)"
proof -
  let ?drained = "\<lambda>st. engine_reach p launch i st \<and> fb_pending (rs_backend st) = []"
  have fin: "run_ok cfg p r st2"
    if reach: "engine_reach p launch i st1" "fb_pending (rs_backend st1) = []"
      and "\<not> stuck_transfers (materialize_intervals st1)"
      and viol: "v = final_location_violations p (rs_table (materialize_intervals st1))"
        "v = [] \<or> \<not> en_strict_final_locations cfg"
      and sh: "pool_shift (materialize_intervals st1) st3"
      and st2: "st2 = st3\<lparr>rs_trace := tr\<rparr>"
      and r: "rr_peak_fast_bytes r = lg_peak_fast_bytes (rs_ledger st2)" "rr_peak_backing_bytes r = lg_peak_backing_bytes (rs_ledger st2)"
        "rr_final_location_violations r = v" "rr_objects r = rs_table st2"
    for r st1 st2 st3 v tr
  proof -
    note inv = reach_inv [OF reach(1) wf]
    have same: "rs_ledger st2 = rs_ledger st1" "rs_table st2 = rs_table st1" "rs_h2d st2 = rs_h2d st1" "rs_d2h st2 = rs_d2h st1"
      "rs_deferred st2 = rs_deferred st1" "rs_outstanding_task st2 = rs_outstanding_task st1" "tokens st2 = tokens st1"
      using sh by (auto simp: st2 pool_shift_def same_queue_def materialize_intervals_def tokens_def)
    have "tokens st1 = {#}" using reach(2) by (simp add: tokens_def)
    then have "quiescent st2"
      using lanes_idle [of st1] inv that(3) by (simp add: quiescent_def same run_inv_def stuck_transfers_def materialize_intervals_def)
    moreover have "v = [] \<longleftrightarrow> final_ok p (rr_objects r)"
      using viol(1) by (simp add: final_location_violations_iff r same materialize_intervals_def)
    ultimately show ?thesis
      using reach_budget(3,4) [OF inv] viol(2) by (auto simp: run_ok_def r same)
  qed
  show ?thesis
    unfolding finish_run_def Let_def
    apply (rule outcome_bind [OF outcome_weaken [OF drain_reach [OF assms], where Q' = ?drained]], assumption, simp)
    apply (intro outcome_guard outcome_bind [OF outcome_weaken [OF reclaim_shift, where E' = "\<lambda>_. True"]] TrueI)
    apply (auto intro: fin)
    done
qed

lemma run_program_ok:
  assumes wf: "wf_program p" "launch_ok launch" and "fb_pending (snd pb) = []"
  shows "outcome (\<lambda>_. True) (\<lambda>(r, st'). run_ok cfg p r st')
    (run_program n launch cancelled cfg p bufs (initial_state cfg p streams bufs pb))"
proof -
  let ?init = "foldE (load_initial bufs) (pr_initial_objects p) (initial_state cfg p streams bufs pb)"
  have disp: "outcome (\<lambda>_. True) (\<lambda>(r, st'). run_ok cfg p r st')
      (bindE (foldE (dispatch_task n launch cancelled) (enumerate 0 (pr_tasks p)) st) (finish_run n cfg p))"
    if "engine_reach p launch 0 st" for st
    by (rule outcome_bind [OF outcome_weaken [OF dispatch_all_reach [OF wf, where pre = "[]"]]])
      (use that in \<open>auto intro: finish_run_ok [OF wf]\<close>)
  show ?thesis
  proof (cases "bindE ?init (upload_initial bufs p)")
    case (Inl e)
    then show ?thesis unfolding run_program_def bindE_assoc [symmetric] by simp
  next
    case (Inr st)
    then obtain st1 where "?init = Inr st1" "upload_initial bufs p st1 = Inr st" by (auto simp: bindE_eq_Inr)
    then have "engine_reach p launch 0 st" by (rule reach_start [OF assms(3)])
    then show ?thesis unfolding run_program_def bindE_assoc [symmetric] Inr by (simp add: disp)
  qed
qed

lemma run_dispatch_ok:
  assumes "launch_ok launch" and "fb_pending b = []" and "en_validate cfg"
  shows "outcome (\<lambda>_. True) (\<lambda>(r, st'). run_ok cfg p r st') (run_dispatch n launch cancelled cfg opts p se b)"
proof (rule run_dispatch_lift [OF TrueI])
  fix streams and pl :: pool and b2
  assume "en_validate cfg \<Longrightarrow> validate_program p = Valid" and "same_queue b b2"
  then show "outcome (\<lambda>_. True) (\<lambda>(r, st'). run_ok cfg p r st') (run_program n launch cancelled cfg p
      (op_initial_buffers opts) (initial_state cfg p streams (op_initial_buffers opts) (pl, b2)))"
    using assms by (intro run_program_ok) (simp_all add: validate_decides same_queue_def)
qed

text \<open>C3. What a successful run of a validated program guarantees: the engine is quiescent (no completion
  pending, no task outstanding, no transfer in flight, queued or deferred), the reported peaks are within
  the declared capacities, the reported violations are empty exactly when every object of \<open>final_locations\<close>
  is live at its final location with its current version, and in strict mode that always holds.\<close>

theorem run_succeeds_clean:
  assumes "launch_ok launch" and "fb_pending b = []" and "en_validate cfg"
    and "run_dispatch n launch cancelled cfg opts p se b = Inr (r, st)"
  shows "quiescent st \<and>
    (\<forall>c. pr_fast_memory_capacity p = Some c \<longrightarrow> rr_peak_fast_bytes r \<le> c) \<and>
    (\<forall>c. pr_backing_memory_capacity p = Some c \<longrightarrow> rr_peak_backing_bytes r \<le> c) \<and>
    (rr_final_location_violations r = [] \<longleftrightarrow> final_ok p (rr_objects r)) \<and>
    (en_strict_final_locations cfg \<longrightarrow> final_ok p (rr_objects r))"
  using run_dispatch_ok [OF assms(1-3), of p n cancelled opts se] by (simp add: assms(4) run_ok_def)

section \<open>A pressure eviction\<close>

lemma drop_fast_table:
  assumes "drop_fast oid rec slot n st = Inr st'"
  shows "rs_table st' = dset oid (rec\<lparr>ob_fast := None\<rparr>) (rs_table st)" and "rs_h2d st' = rs_h2d st"
proof -
  obtain st1 st2 where "rs_release ''fast'' n st = Inr st1" and st2: "poison_put (sl_buffer slot) st1 = Inr st2"
    and st': "st' = put_record oid (rec\<lparr>ob_fast := None\<rparr>) st2"
    using assms by (auto simp: drop_fast_def bindE_eq_Inr)
  then have 1: "rs_table st1 = rs_table st" "rs_h2d st1 = rs_h2d st" by (auto simp: rs_release_def Let_def on_ledger_change_def bindE_eq_Inr)
  have "pool_shift st1 st2" by (rule outcome_Inr [OF poison_put_outcome st2])
  then show "rs_table st' = dset oid (rec\<lparr>ob_fast := None\<rparr>) (rs_table st)" and "rs_h2d st' = rs_h2d st"
    using 1 by (auto simp: st' put_record_def pool_shift_def)
qed

text \<open>C12. What a pressure eviction does: the victim is not among the protected objects, is live and clean
  on both sides, is read again by a task at or after the cursor with no directive touching it before, and
  no other candidate is read later; its fast copy is dropped, its backing copy kept, and a reload
  of its size is appended to the from-slow queue.\<close>

theorem eviction_is_safe:
  assumes "evict_for_pressure exclude st = Inr (how, st')" and "how \<noteq> NoVictim"
    and "distinct (map fst (rs_table st))" and "rs_chain st = build_chain_index p" and "0 \<le> rs_cursor st"
  shows "\<exists>oid rec f bk j job. dget (rs_table st) oid = Some rec \<and> oid \<notin> set exclude \<and>
    ob_fast rec = Some f \<and> ob_backing rec = Some bk \<and> sl_state f = Live \<and> sl_state bk = Live \<and>
    sl_version f = ob_version rec \<and> sl_version bk = ob_version rec \<and>
    j < length (pr_tasks p) \<and> rs_cursor st \<le> int j \<and> oid \<in> set (ts_inputs (pr_tasks p ! j)) \<and>
    (\<forall>k. rs_cursor st \<le> int k \<and> k < j \<longrightarrow> oid \<notin> set (ts_inputs (pr_tasks p ! k)) \<and> oid \<notin> set (touches (pr_tasks p ! k))) \<and>
    (\<forall>o1 rec1 nx. dget (rs_table st) o1 = Some rec1 \<and> evict_candidate exclude st o1 rec1 = Some nx \<longrightarrow> nx \<le> int j) \<and>
    rs_table st' = dset oid (rec\<lparr>ob_fast := None\<rparr>) (rs_table st) \<and>
    tx_queue (rs_h2d st') = tx_queue (rs_h2d st) @ [job] \<and> tj_object_id job = oid \<and> tj_size_bytes job = ob_size_bytes rec"
proof -
  obtain nxt n oid where pv: "pick_victim exclude st None (rs_table st) = Some (nxt, n, oid)"
    using assms(1,2) by (auto simp: evict_for_pressure_def split: if_splits option.splits)
  obtain rec where rec: "(oid, rec) \<in> set (rs_table st)" "ob_size_bytes rec = n" "evict_candidate exclude st oid rec = Some nxt"
    using pick_victim_some [OF pv] by (auto simp: victim_of_def)
  have got: "dget (rs_table st) oid = Some rec" by (rule map_of_is_SomeI [OF assms(3) rec(1)])
  obtain f bk where clean: "ob_fast rec = Some f" "ob_backing rec = Some bk" "oid \<notin> set exclude" "sl_state f = Live"
    "sl_state bk = Live" "sl_version f = ob_version rec" "sl_version bk = ob_version rec"
    using evict_candidate_clean [OF rec(3)] by blast
  obtain j where j: "nxt = int j" "j < length (pr_tasks p)" "rs_cursor st \<le> int j" "oid \<in> set (ts_inputs (pr_tasks p ! j))"
    "\<forall>k. rs_cursor st \<le> int k \<and> k < j \<longrightarrow> oid \<notin> set (ts_inputs (pr_tasks p ! k)) \<and> oid \<notin> set (touches (pr_tasks p ! k))"
    using evict_candidate_next_use [OF assms(4,5) rec(3)] by blast
  have far: "nx \<le> int j" if "dget (rs_table st) o1 = Some rec1" "evict_candidate exclude st o1 rec1 = Some nx" for o1 rec1 nx
    using pick_victim_max [OF pv] map_of_SomeD [OF that(1)] that(2) j(1) by fastforce
  obtain st1 where st1: "drop_fast oid rec f n st = Inr st1" "st' = requeue_victim nxt n oid st1"
    using assms(1,2) pv got clean(1)
    by (auto simp: evict_for_pressure_def table_get_def Let_def bindE_eq_Inr split: if_splits)
  obtain anchor b1 where ev: "record_event (rs_backend st1) (tx_stream (rs_h2d st1)) = (anchor, b1)"
    by (cases "record_event (rs_backend st1) (tx_stream (rs_h2d st1))")
  have "rs_table st' = dset oid (rec\<lparr>ob_fast := None\<rparr>) (rs_table st)"
    and "\<exists>job. tx_queue (rs_h2d st') = tx_queue (rs_h2d st) @ [job] \<and> tj_object_id job = oid \<and> tj_size_bytes job = ob_size_bytes rec"
    using drop_fast_table [OF st1(1)] ev rec(2)
    by (auto simp: st1(2) requeue_victim_def Let_def log_event_def enqueue_def new_job_def split: prod.splits)
  then show ?thesis using got clean j far by blast
qed

section \<open>Witnesses\<close>

definition demo_outcome :: "(run_result \<times> run_state) res" where
  "demo_outcome = run_dispatch 100 synthetic_launch (\<lambda>_. False) demo_config demo_options demo_program None (new_backend False None)"

theorem run_succeeds_clean_witness:
  "quiescent (snd (projr demo_outcome)) \<and> rr_peak_fast_bytes (fst (projr demo_outcome)) \<le> 100 \<and>
   final_ok demo_program (rr_objects (fst (projr demo_outcome)))"
proof -
  have "\<not> isl demo_outcome" by code_simp
  then have run: "run_dispatch 100 synthetic_launch (\<lambda>_. False) demo_config demo_options demo_program None (new_backend False None) =
      Inr (fst (projr demo_outcome), snd (projr demo_outcome))"
    by (simp add: demo_outcome_def [symmetric] sum.collapse(2))
  have "fb_pending (new_backend False None) = []" "en_validate demo_config" "en_strict_final_locations demo_config"
    "pr_fast_memory_capacity demo_program = Some 100"
    by (simp_all add: new_backend_def demo_config_def demo_program_def)
  with run_succeeds_clean [OF synthetic_launch_ok _ _ run] show ?thesis by blast
qed

text \<open>One task reads \<open>w\<close>, which starts in both memories.\<close>

definition demo_pressure :: program where
  "demo_pressure = demo_program\<lparr>
     pr_initial_objects :=
       [\<lparr>os_id = ''w'', os_size_bytes = 30, os_location = ''fast'', os_role = ''parameter'', os_tensor = None, os_persistent = True\<rparr>,
        \<lparr>os_id = ''w'', os_size_bytes = 30, os_location = ''backing'', os_role = ''parameter'', os_tensor = None, os_persistent = True\<rparr>],
     pr_tasks := [demo_task ''b'' [''w''] [] [] [] [] []],
     pr_final_locations := []\<rparr>"

definition demo_pressed :: run_state where
  "demo_pressed = projr (foldE (load_initial []) (pr_initial_objects demo_pressure) (demo_start demo_pressure))"

definition demo_evicted :: "(evict_outcome \<times> run_state) res" where
  "demo_evicted = evict_for_pressure [''v''] demo_pressed"

theorem eviction_is_safe_witness:
  "\<exists>oid rec f. dget (rs_table demo_pressed) oid = Some rec \<and> oid \<notin> set [''v''] \<and> ob_fast rec = Some f \<and>
     sl_version f = ob_version rec \<and>
     rs_table (snd (projr demo_evicted)) = dset oid (rec\<lparr>ob_fast := None\<rparr>) (rs_table demo_pressed)"
proof -
  have "\<not> isl demo_evicted" by code_simp
  then have ev: "evict_for_pressure [''v''] demo_pressed = Inr (fst (projr demo_evicted), snd (projr demo_evicted))"
    by (simp add: demo_evicted_def [symmetric] sum.collapse(2))
  have "fst (projr demo_evicted) \<noteq> NoVictim" by code_simp
  moreover have "distinct (map fst (rs_table demo_pressed))" by code_simp
  moreover have "rs_chain demo_pressed = build_chain_index demo_pressure" by code_simp
  moreover have "0 \<le> rs_cursor demo_pressed" by code_simp
  ultimately show ?thesis using eviction_is_safe [OF ev] by blast
qed

end
