(* ===== verification/Sim_Chain.thy ===== *)
theory Sim_Chain
  imports Json_IO
begin

text \<open>
  The simulator's input format, \<open>src/dataflow_sim/core/schema.py\<close>, and the converters between it
  and the program IR, \<open>src/dataflow/core/convert.py\<close>: \<open>to_sim_chain\<close>, \<open>from_sim_chain\<close> and
  \<open>apply_chain_annotations\<close>, which joins a planner's directives back onto a program. The export to
  the web application's format is not modelled.
\<close>

section \<open>Task chains\<close>

record sim_object =
  so_id :: string
  so_size :: int
  so_location :: string
  so_type :: string

record output_alloc =
  oa_id :: string
  oa_size :: int
  oa_location :: string
  oa_type :: string

record transfer_trigger =
  tt_obj_id :: string
  tt_runtime :: "time option"

record sim_task =
  sk_id :: string
  sk_inputs :: "string list"
  sk_outputs :: "output_alloc list"
  sk_runtime :: time
  sk_workspace_bytes :: int
  sk_releases_after :: "string list"
  sk_offload_after :: "transfer_trigger list"
  sk_prefetch_after :: "transfer_trigger list"
  sk_mutates_inputs :: "string list"

record task_chain =
  tc_initial_memory :: "sim_object list"
  tc_tasks :: "sim_task list"
  tc_final_locations :: "(string, string) dict"
  tc_fast_memory_capacity :: "int option"
  tc_backing_memory_capacity :: "int option"
  tc_bandwidth_from_slow :: "int option"
  tc_bandwidth_to_slow :: "int option"

definition chain_object_from_dict :: "json \<Rightarrow> sim_object res" where
  "chain_object_from_dict j =
     bindE (as_dict j) (\<lambda>d.
     bindE (bindE (jneed d ''id'') as_str) (\<lambda>i.
     bindE (bindE (jneed d ''size'') py_int) (\<lambda>size.
     bindE (jdef as_str d ''location'' ''fast'') (\<lambda>loc.
     bindE (jdef as_str d ''type'' ''other'') (\<lambda>ty.
     Inr \<lparr>so_id = i, so_size = size, so_location = loc, so_type = ty\<rparr>)))))"

definition chain_output_from_dict :: "json \<Rightarrow> output_alloc res" where
  "chain_output_from_dict j =
     bindE (as_dict j) (\<lambda>d.
     bindE (bindE (jneed d ''id'') as_str) (\<lambda>i.
     bindE (bindE (jneed d ''size'') py_int) (\<lambda>size.
     bindE (jdef as_str d ''location'' ''fast'') (\<lambda>loc.
     bindE (jdef as_str d ''type'' ''other'') (\<lambda>ty.
     Inr \<lparr>oa_id = i, oa_size = size, oa_location = loc, oa_type = ty\<rparr>)))))"

text \<open>A trigger is a bare object id or a dictionary.\<close>

definition chain_trigger_from_dict :: "json \<Rightarrow> transfer_trigger res" where
  "chain_trigger_from_dict j =
     (case j of
        JStr s \<Rightarrow> Inr \<lparr>tt_obj_id = s, tt_runtime = None\<rparr>
      | _ \<Rightarrow>
          bindE (as_dict j) (\<lambda>d.
          bindE (bindE (jneed d ''id'') as_str) (\<lambda>i.
          bindE (jopt py_float d ''runtime'') (\<lambda>r.
          Inr \<lparr>tt_obj_id = i, tt_runtime = r\<rparr>))))"

definition chain_task_from_dict :: "json \<Rightarrow> sim_task res" where
  "chain_task_from_dict j =
     bindE (as_dict j) (\<lambda>d.
     bindE (bindE (jneed d ''id'') as_str) (\<lambda>i.
     bindE (jdef as_strs d ''inputs'' []) (\<lambda>inputs.
     bindE (jdef (\<lambda>v. bindE (as_list v) (mapE chain_output_from_dict)) d ''outputs'' []) (\<lambda>outputs.
     bindE (bindE (jneed d ''runtime'') py_float) (\<lambda>runtime.
     bindE (jdef py_int d ''workspace_bytes'' 0) (\<lambda>workspace.
     bindE (jdef as_strs d ''releases_after'' []) (\<lambda>releases.
     bindE (jdef (\<lambda>v. bindE (as_list v) (mapE chain_trigger_from_dict)) d ''offload_after'' []) (\<lambda>offloads.
     bindE (jdef (\<lambda>v. bindE (as_list v) (mapE chain_trigger_from_dict)) d ''prefetch_after'' []) (\<lambda>prefetches.
     bindE (jdef as_strs d ''mutates_inputs'' []) (\<lambda>mutates.
     Inr \<lparr>sk_id = i, sk_inputs = inputs, sk_outputs = outputs, sk_runtime = runtime,
          sk_workspace_bytes = workspace, sk_releases_after = releases, sk_offload_after = offloads,
          sk_prefetch_after = prefetches, sk_mutates_inputs = mutates\<rparr>))))))))))"

definition chain_from_dict :: "(string, json) dict \<Rightarrow> task_chain res" where
  "chain_from_dict d =
     bindE (jdef (\<lambda>v. bindE (as_list v) (mapE chain_object_from_dict)) d ''initial_memory'' []) (\<lambda>initial.
     bindE (jdef (\<lambda>v. bindE (as_list v) (mapE chain_task_from_dict)) d ''tasks'' []) (\<lambda>tasks.
     bindE (jdef as_str_dict d ''final_locations'' []) (\<lambda>finals.
     bindE (jopt as_int_raw d ''fast_memory_capacity'') (\<lambda>fast.
     bindE (jopt as_int_raw d ''backing_memory_capacity'') (\<lambda>backing.
     bindE (jopt as_int_raw d ''bandwidth_from_slow'') (\<lambda>bw_from.
     bindE (jopt as_int_raw d ''bandwidth_to_slow'') (\<lambda>bw_to.
     Inr \<lparr>tc_initial_memory = initial, tc_tasks = tasks, tc_final_locations = finals,
          tc_fast_memory_capacity = fast, tc_backing_memory_capacity = backing,
          tc_bandwidth_from_slow = bw_from, tc_bandwidth_to_slow = bw_to\<rparr>)))))))"

section \<open>Converting programs and chains\<close>

definition ROLE_TO_SIM_TYPE :: "(string, string) dict" where
  "ROLE_TO_SIM_TYPE =
     [(''parameter'', ''weight''), (''gradient'', ''gradient''), (''optimizer_state'', ''optimizer''),
      (''activation'', ''activation''), (''input'', ''activation''), (''output'', ''activation''),
      (''temp'', ''other''), (''other'', ''other'')]"

definition SIM_TYPE_TO_ROLE :: "(string, string) dict" where
  "SIM_TYPE_TO_ROLE =
     [(''weight'', ''parameter''), (''gradient'', ''gradient''), (''optimizer'', ''optimizer_state''),
      (''activation'', ''activation''), (''other'', ''other'')]"

definition role_to_sim_type :: "string \<Rightarrow> string" where
  "role_to_sim_type role = dget_or ROLE_TO_SIM_TYPE role ''other''"

definition to_trigger :: "transfer_directive \<Rightarrow> transfer_trigger" where
  "to_trigger x = \<lparr>tt_obj_id = td_object_id x, tt_runtime = td_runtime_us x\<rparr>"

definition from_trigger :: "transfer_trigger \<Rightarrow> transfer_directive" where
  "from_trigger x = \<lparr>td_object_id = tt_obj_id x, td_runtime_us = tt_runtime x\<rparr>"

definition to_sim_object :: "object_spec \<Rightarrow> sim_object" where
  "to_sim_object ob =
     \<lparr>so_id = os_id ob, so_size = os_size_bytes ob, so_location = os_location ob, so_type = role_to_sim_type (os_role ob)\<rparr>"

definition to_sim_task :: "task_spec \<Rightarrow> sim_task" where
  "to_sim_task t =
     \<lparr>sk_id = ts_id t, sk_inputs = ts_inputs t,
      sk_outputs = map (\<lambda>ou. \<lparr>oa_id = ou_id ou, oa_size = ou_size_bytes ou, oa_location = ou_location ou,
                                oa_type = role_to_sim_type (ou_role ou)\<rparr>) (ts_outputs t),
      sk_runtime = ts_runtime_us t, sk_workspace_bytes = ts_workspace_bytes t,
      sk_releases_after = ts_releases_after t,
      sk_offload_after = map to_trigger (ts_offload_after t),
      sk_prefetch_after = map to_trigger (ts_prefetch_after t),
      sk_mutates_inputs = ts_mutates t\<rparr>"

definition to_sim_chain :: "program \<Rightarrow> task_chain" where
  "to_sim_chain p =
     \<lparr>tc_initial_memory = map to_sim_object (pr_initial_objects p), tc_tasks = map to_sim_task (pr_tasks p),
      tc_final_locations = pr_final_locations p, tc_fast_memory_capacity = pr_fast_memory_capacity p,
      tc_backing_memory_capacity = pr_backing_memory_capacity p,
      tc_bandwidth_from_slow = pr_bandwidth_from_slow p, tc_bandwidth_to_slow = pr_bandwidth_to_slow p\<rparr>"

definition from_sim_task :: "sim_task \<Rightarrow> task_spec" where
  "from_sim_task t =
     \<lparr>ts_id = sk_id t, ts_inputs = sk_inputs t,
      ts_outputs = map (\<lambda>oa. \<lparr>ou_id = oa_id oa, ou_size_bytes = oa_size oa, ou_location = oa_location oa,
                                ou_role = dget_or SIM_TYPE_TO_ROLE (oa_type oa) ''other'', ou_tensor = None\<rparr>) (sk_outputs t),
      ts_mutates = sk_mutates_inputs t, ts_runtime_us = sk_runtime t, ts_workspace_bytes = sk_workspace_bytes t,
      ts_group = ''compute'', ts_compute_block_key = None, ts_block_params = [], ts_comm_groups = [],
      ts_releases_after = sk_releases_after t,
      ts_offload_after = map from_trigger (sk_offload_after t),
      ts_prefetch_after = map from_trigger (sk_prefetch_after t),
      ts_label = None, ts_metadata = [], ts_host = False\<rparr>"

definition from_sim_chain :: "task_chain \<Rightarrow> string \<Rightarrow> program" where
  "from_sim_chain c name =
     \<lparr>pr_name = name,
      pr_initial_objects = map (\<lambda>so. \<lparr>os_id = so_id so, os_size_bytes = so_size so, os_location = so_location so,
          os_role = dget_or SIM_TYPE_TO_ROLE (so_type so) ''other'', os_tensor = None, os_persistent = False\<rparr>)
        (tc_initial_memory c),
      pr_tasks = map from_sim_task (tc_tasks c),
      pr_final_locations = tc_final_locations c, pr_fast_memory_capacity = tc_fast_memory_capacity c,
      pr_backing_memory_capacity = tc_backing_memory_capacity c,
      pr_bandwidth_from_slow = tc_bandwidth_from_slow c, pr_bandwidth_to_slow = tc_bandwidth_to_slow c,
      pr_recompute_rewrites = [], pr_metadata = [], pr_schema_version = SCHEMA_VERSION\<rparr>"

definition annotate_task :: "task_spec \<times> sim_task \<Rightarrow> task_spec" where
  "annotate_task st = (case st of (spec, sim) \<Rightarrow>
     with_directives spec (Some (sk_releases_after sim)) (Some (map from_trigger (sk_offload_after sim)))
       (Some (map from_trigger (sk_prefetch_after sim))))"

text \<open>The reconciliation of initial memory: an entry the program does not have becomes a copy, at the new
  location, of the last entry with its id.\<close>

definition add_preplaced ::
  "(string, object_spec) dict \<Rightarrow> sim_object \<Rightarrow> object_spec list \<times> (string \<times> string) list \<Rightarrow>
   (object_spec list \<times> (string \<times> string) list) res" where
  "add_preplaced by_id so acc = (case acc of (new_initial, existing) \<Rightarrow>
     let key = (so_id so, so_location so)
     in if key \<in> set existing then Inr (new_initial, existing)
        else case dget by_id (so_id so) of
               None \<Rightarrow> Inl (ValueError ''annotated chain adds an unknown initial object'')
             | Some src \<Rightarrow> Inr (new_initial @ [src\<lparr>os_location := so_location so\<rparr>], existing @ [key]))"

definition apply_chain_annotations :: "program \<Rightarrow> task_chain \<Rightarrow> program res" where
  "apply_chain_annotations p c =
     bindE (guardE (map sk_id (tc_tasks c) = map ts_id (pr_tasks p))
              (ValueError ''annotated chain tasks do not match program tasks'')) (\<lambda>_.
     let new_tasks = map annotate_task (zip (pr_tasks p) (tc_tasks c));
         existing = map (\<lambda>ob. (os_id ob, os_location ob)) (pr_initial_objects p);
         by_id = fold (\<lambda>ob. dset (os_id ob) ob) (pr_initial_objects p) []
     in bindE (foldE (add_preplaced by_id) (tc_initial_memory c) (pr_initial_objects p, existing)) (\<lambda>(new_initial, _).
        Inr (p\<lparr>pr_tasks := new_tasks, pr_initial_objects := new_initial,
               pr_final_locations := tc_final_locations c,
               pr_fast_memory_capacity := tc_fast_memory_capacity c,
               pr_backing_memory_capacity := tc_backing_memory_capacity c,
               pr_bandwidth_from_slow := tc_bandwidth_from_slow c,
               pr_bandwidth_to_slow := tc_bandwidth_to_slow c\<rparr>)))"

section \<open>Round trips\<close>

lemma to_from_trigger [simp]: "to_trigger (from_trigger x) = x" "from_trigger (to_trigger y) = y"
  by (simp_all add: to_trigger_def from_trigger_def)

lemma trigger_comp [simp]: "to_trigger \<circ> from_trigger = id" "from_trigger \<circ> to_trigger = id"
  by (simp_all add: fun_eq_iff)

definition sim_types :: "string list" where
  "sim_types = [''weight'', ''activation'', ''gradient'', ''optimizer'', ''other'']"

lemma type_roundtrip: "ty \<in> set sim_types \<Longrightarrow> role_to_sim_type (dget_or SIM_TYPE_TO_ROLE ty ''other'') = ty"
  by (auto simp: sim_types_def role_to_sim_type_def SIM_TYPE_TO_ROLE_def ROLE_TO_SIM_TYPE_def dget_or_def)

lemma known_preplaced:
  "\<forall>so \<in> set sos. (so_id so, so_location so) \<in> set existing \<Longrightarrow>
   foldE (add_preplaced by_id) sos (new_initial, existing) = Inr (new_initial, existing)"
  by (induction sos) (simp_all add: add_preplaced_def Let_def)

text \<open>C17. Annotating a program with its own chain changes nothing: the conversion to the simulator's
  format loses nothing that \<open>apply_chain_annotations\<close> reads back.\<close>

theorem annotate_own_chain: "apply_chain_annotations p (to_sim_chain p) = Inr p"
proof -
  have "map annotate_task (zip ts (map to_sim_task ts)) = ts" for ts
    by (induction ts) (simp_all add: annotate_task_def with_directives_def to_sim_task_def)
  moreover have "foldE (add_preplaced by_id) (map to_sim_object obs) (new, map (\<lambda>ob. (os_id ob, os_location ob)) obs) =
      Inr (new, map (\<lambda>ob. (os_id ob, os_location ob)) obs)" for by_id obs new
    by (rule known_preplaced) (auto simp: to_sim_object_def)
  moreover have "map sk_id (map to_sim_task ts) = map ts_id ts" for ts by (simp add: to_sim_task_def)
  ultimately show ?thesis by (simp add: apply_chain_annotations_def to_sim_chain_def Let_def)
qed

text \<open>A chain adopted as a program converts back to the same chain, if its object types are those of
  the simulator's schema.\<close>

theorem sim_chain_roundtrip:
  assumes "\<forall>so \<in> set (tc_initial_memory c). so_type so \<in> set sim_types"
    and "\<forall>t \<in> set (tc_tasks c). \<forall>oa \<in> set (sk_outputs t). oa_type oa \<in> set sim_types"
  shows "to_sim_chain (from_sim_chain c name) = c"
proof -
  have "to_sim_task (from_sim_task t) = t" if "t \<in> set (tc_tasks c)" for t
  proof -
    have "map ((\<lambda>ou. \<lparr>oa_id = ou_id ou, oa_size = ou_size_bytes ou, oa_location = ou_location ou, oa_type = role_to_sim_type (ou_role ou)\<rparr>) \<circ>
        (\<lambda>oa. \<lparr>ou_id = oa_id oa, ou_size_bytes = oa_size oa, ou_location = oa_location oa,
           ou_role = dget_or SIM_TYPE_TO_ROLE (oa_type oa) ''other'', ou_tensor = None\<rparr>)) (sk_outputs t) = sk_outputs t"
      using assms(2) that by (intro map_idI) (simp add: type_roundtrip)
    then show ?thesis by (simp add: to_sim_task_def from_sim_task_def)
  qed
  then have tasks: "map to_sim_task (map from_sim_task (tc_tasks c)) = tc_tasks c" by (simp add: map_idI)
  have "map to_sim_object (pr_initial_objects (from_sim_chain c name)) = tc_initial_memory c"
    using assms(1) by (simp add: from_sim_chain_def to_sim_object_def type_roundtrip map_idI)
  with tasks show ?thesis by (simp add: to_sim_chain_def from_sim_chain_def)
qed

section \<open>Joining a planner's annotations\<close>

definition mem_key :: "object_spec \<Rightarrow> string \<times> string" where
  "mem_key ob = (os_id ob, os_location ob)"

definition sim_key :: "sim_object \<Rightarrow> string \<times> string" where
  "sim_key so = (so_id so, so_location so)"

text \<open>What the reconciliation loop keeps: the program's entries first, copies of them after.\<close>

definition preplaced :: "object_spec list \<Rightarrow> sim_object list \<Rightarrow> object_spec list \<times> (string \<times> string) list \<Rightarrow> bool" where
  "preplaced obs seen acc \<longleftrightarrow>
     (\<exists>extra. fst acc = obs @ extra \<and> (\<forall>ob \<in> set extra. \<exists>src \<in> set obs. ob = src\<lparr>os_location := os_location ob\<rparr>)) \<and>
     snd acc = map mem_key (fst acc) \<and> set (snd acc) = mem_key ` set obs \<union> sim_key ` set seen \<and>
     (distinct (map mem_key obs) \<longrightarrow> distinct (snd acc))"

lemma by_id_member:
  assumes "dget (fold (\<lambda>ob. dset (os_id ob) ob) obs []) i = Some src"
  shows "src \<in> set obs \<and> os_id src = i"
proof -
  have "map_of (rev (map (\<lambda>ob. (os_id ob, ob)) obs)) i = Some src"
    using assms by (simp add: fold_dset_get split: option.splits)
  from map_of_SomeD [OF this] show ?thesis by auto
qed

lemma add_preplaced_outcome:
  assumes "preplaced obs seen acc"
  shows "outcome (\<lambda>_. so_id so \<notin> os_id ` set obs) (preplaced obs (seen @ [so]))
    (add_preplaced (fold (\<lambda>ob. dset (os_id ob) ob) obs []) so acc)"
proof -
  let ?by = "fold (\<lambda>ob. dset (os_id ob) ob) obs ([] :: (string, object_spec) dict)"
  obtain new existing where acc: "acc = (new, existing)" by (cases acc)
  have kept: "existing = map mem_key new" "set existing = mem_key ` set obs \<union> sim_key ` set seen"
    "distinct (map mem_key obs) \<longrightarrow> distinct existing" using assms unfolding preplaced_def acc fst_conv snd_conv by blast+
  consider "sim_key so \<in> set existing" | "sim_key so \<notin> set existing" "dget ?by (so_id so) = None"
    | src where "sim_key so \<notin> set existing" "dget ?by (so_id so) = Some src" by fastforce
  then show ?thesis
  proof cases
    case 1
    then have "set existing = mem_key ` set obs \<union> sim_key ` set (seen @ [so])" using kept(2) by auto
    then have "preplaced obs (seen @ [so]) acc" using assms kept unfolding acc preplaced_def fst_conv snd_conv by blast
    then show ?thesis using 1 by (simp add: acc add_preplaced_def sim_key_def)
  next
    case 2
    then have "so_id so \<notin> os_id ` set obs"
      by (auto simp: fold_dset_get map_of_eq_None_iff image_iff split: option.splits)
    then show ?thesis using 2 by (simp add: acc add_preplaced_def sim_key_def)
  next
    case 3
    let ?ob = "src\<lparr>os_location := so_location so\<rparr>"
    have src: "src \<in> set obs" "os_id src = so_id so" using by_id_member [OF 3(2)] by auto
    have key: "mem_key ?ob = sim_key so" using src by (simp add: mem_key_def sim_key_def)
    obtain extra where extra: "new = obs @ extra" "\<forall>ob \<in> set extra. \<exists>src \<in> set obs. ob = src\<lparr>os_location := os_location ob\<rparr>"
      using assms by (auto simp: preplaced_def acc)
    have "\<exists>s \<in> set obs. ?ob = s\<lparr>os_location := os_location ?ob\<rparr>" using src by (intro bexI [of _ src]) simp_all
    then have "\<exists>extra. new @ [?ob] = obs @ extra \<and> (\<forall>ob \<in> set extra. \<exists>src \<in> set obs. ob = src\<lparr>os_location := os_location ob\<rparr>)"
      using extra by (intro exI [of _ "extra @ [?ob]"]) auto
    moreover have "existing @ [sim_key so] = map mem_key (new @ [?ob])" using kept(1) key by simp
    moreover have "set (existing @ [sim_key so]) = mem_key ` set obs \<union> sim_key ` set (seen @ [so])" using kept(2) by auto
    moreover have "distinct (map mem_key obs) \<longrightarrow> distinct (existing @ [sim_key so])" using kept(3) 3(1) by simp
    ultimately have "preplaced obs (seen @ [so]) (new @ [?ob], existing @ [sim_key so])"
      unfolding preplaced_def fst_conv snd_conv by blast
    then show ?thesis using 3 by (simp add: acc add_preplaced_def sim_key_def)
  qed
qed

lemma preplaced_all:
  "outcome (\<lambda>_. \<exists>so \<in> set sos. so_id so \<notin> os_id ` set obs) (preplaced obs sos)
     (foldE (add_preplaced (fold (\<lambda>ob. dset (os_id ob) ob) obs [])) sos (obs, map (\<lambda>ob. (os_id ob, os_location ob)) obs))"
proof (rule outcome_foldE)
  show "preplaced obs [] (obs, map (\<lambda>ob. (os_id ob, os_location ob)) obs)"
    by (simp add: preplaced_def mem_key_def [abs_def])
  fix pre so todo acc assume "sos = pre @ so # todo" "preplaced obs pre acc"
  then show "outcome (\<lambda>_. \<exists>so \<in> set sos. so_id so \<notin> os_id ` set obs) (preplaced obs (pre @ [so]))
      (add_preplaced (fold (\<lambda>ob. dset (os_id ob) ob) obs []) so acc)"
    by (intro outcome_weaken [OF add_preplaced_outcome]) auto
qed

text \<open>C16. Joining a planner's chain onto a program replaces the directives, the capacities, the bandwidths
  and the final locations by the chain's and nothing else of the tasks; the initial memory keeps the
  program's entries and gains, at the chain's new locations, copies of them that differ only in where
  they are, so that every entry of the chain has one.\<close>

theorem annotations_joined:
  assumes "apply_chain_annotations p c = Inr q"
  shows "map sk_id (tc_tasks c) = map ts_id (pr_tasks p) \<and> length (pr_tasks q) = length (pr_tasks p) \<and>
    (\<forall>i < length (pr_tasks p). pr_tasks q ! i = (pr_tasks p ! i)\<lparr>ts_releases_after := sk_releases_after (tc_tasks c ! i),
       ts_offload_after := map from_trigger (sk_offload_after (tc_tasks c ! i)),
       ts_prefetch_after := map from_trigger (sk_prefetch_after (tc_tasks c ! i))\<rparr>) \<and>
    (\<exists>extra. pr_initial_objects q = pr_initial_objects p @ extra \<and>
       (\<forall>ob \<in> set extra. \<exists>src \<in> set (pr_initial_objects p). ob = src\<lparr>os_location := os_location ob\<rparr>)) \<and>
    mem_key ` set (pr_initial_objects q) = mem_key ` set (pr_initial_objects p) \<union> sim_key ` set (tc_initial_memory c) \<and>
    pr_fast_memory_capacity q = tc_fast_memory_capacity c \<and> pr_backing_memory_capacity q = tc_backing_memory_capacity c \<and>
    pr_bandwidth_from_slow q = tc_bandwidth_from_slow c \<and> pr_bandwidth_to_slow q = tc_bandwidth_to_slow c \<and>
    pr_final_locations q = tc_final_locations c \<and> pr_name q = pr_name p \<and> pr_metadata q = pr_metadata p \<and>
    pr_recompute_rewrites q = pr_recompute_rewrites p"
proof -
  let ?fold = "foldE (add_preplaced (fold (\<lambda>ob. dset (os_id ob) ob) (pr_initial_objects p) [])) (tc_initial_memory c)
    (pr_initial_objects p, map (\<lambda>ob. (os_id ob, os_location ob)) (pr_initial_objects p))"
  obtain new existing where f: "?fold = Inr (new, existing)" and ids: "map sk_id (tc_tasks c) = map ts_id (pr_tasks p)"
    and q: "q = p\<lparr>pr_tasks := map annotate_task (zip (pr_tasks p) (tc_tasks c)), pr_initial_objects := new,
      pr_final_locations := tc_final_locations c, pr_fast_memory_capacity := tc_fast_memory_capacity c,
      pr_backing_memory_capacity := tc_backing_memory_capacity c, pr_bandwidth_from_slow := tc_bandwidth_from_slow c,
      pr_bandwidth_to_slow := tc_bandwidth_to_slow c\<rparr>"
    using assms by (auto simp: apply_chain_annotations_def Let_def bindE_eq_Inr split: if_splits)
  have pp: "preplaced (pr_initial_objects p) (tc_initial_memory c) (new, existing)"
    using preplaced_all [of "tc_initial_memory c" "pr_initial_objects p"] f by simp
  have keys: "mem_key ` set new = mem_key ` set (pr_initial_objects p) \<union> sim_key ` set (tc_initial_memory c)"
    using pp by (metis preplaced_def fst_conv list.set_map)
  have "length (tc_tasks c) = length (pr_tasks p)" using ids by (metis length_map)
  then have tasks: "map annotate_task (zip (pr_tasks p) (tc_tasks c)) ! i = (pr_tasks p ! i)\<lparr>ts_releases_after := sk_releases_after (tc_tasks c ! i),
       ts_offload_after := map from_trigger (sk_offload_after (tc_tasks c ! i)),
       ts_prefetch_after := map from_trigger (sk_prefetch_after (tc_tasks c ! i))\<rparr>" if "i < length (pr_tasks p)" for i
    using that by (simp add: annotate_task_def with_directives_def)
  have "\<exists>extra. new = pr_initial_objects p @ extra \<and>
       (\<forall>ob \<in> set extra. \<exists>src \<in> set (pr_initial_objects p). ob = src\<lparr>os_location := os_location ob\<rparr>)"
    using pp by (simp add: preplaced_def)
  then show ?thesis
    using keys tasks ids \<open>length (tc_tasks c) = length (pr_tasks p)\<close> by (simp add: q)
qed

section \<open>Witnesses\<close>

text \<open>A chain for the witnesses: task \<open>a\<close> turns \<open>x\<close> into \<open>y\<close>, releases \<open>x\<close> and prefetches \<open>w\<close>; task \<open>b\<close>
  mutates \<open>w\<close> and offloads \<open>w\<close> and \<open>y\<close>.\<close>

definition demo_trigger :: "string \<Rightarrow> transfer_trigger" where
  "demo_trigger oid = \<lparr>tt_obj_id = oid, tt_runtime = None\<rparr>"

definition demo_chain :: task_chain where
  "demo_chain =
     \<lparr>tc_initial_memory =
        [\<lparr>so_id = ''x'', so_size = 40, so_location = ''fast'', so_type = ''activation''\<rparr>,
         \<lparr>so_id = ''w'', so_size = 30, so_location = ''backing'', so_type = ''weight''\<rparr>],
      tc_tasks =
        [\<lparr>sk_id = ''a'', sk_inputs = [''x''],
          sk_outputs = [\<lparr>oa_id = ''y'', oa_size = 50, oa_location = ''fast'', oa_type = ''activation''\<rparr>],
          sk_runtime = 10, sk_workspace_bytes = 5, sk_releases_after = [''x''], sk_offload_after = [],
          sk_prefetch_after = [demo_trigger ''w''], sk_mutates_inputs = []\<rparr>,
         \<lparr>sk_id = ''b'', sk_inputs = [''y'', ''w''], sk_outputs = [], sk_runtime = 10, sk_workspace_bytes = 0,
          sk_releases_after = [], sk_offload_after = [demo_trigger ''w'', demo_trigger ''y''], sk_prefetch_after = [],
          sk_mutates_inputs = [''w'']\<rparr>],
      tc_final_locations = [(''y'', ''backing'')], tc_fast_memory_capacity = Some 100,
      tc_backing_memory_capacity = Some 100, tc_bandwidth_from_slow = Some 10, tc_bandwidth_to_slow = Some 10\<rparr>"

text \<open>The same chain with a pre-placed fast copy of \<open>w\<close>.\<close>

definition demo_preplaced :: task_chain where
  "demo_preplaced = demo_chain\<lparr>tc_initial_memory := tc_initial_memory demo_chain @
     [\<lparr>so_id = ''w'', so_size = 30, so_location = ''fast'', so_type = ''weight''\<rparr>]\<rparr>"

theorem sim_chain_roundtrip_witness: "to_sim_chain (from_sim_chain demo_chain ''demo'') = demo_chain"
  by (rule sim_chain_roundtrip) code_simp+

theorem annotations_joined_witness:
  "\<exists>q extra. apply_chain_annotations (from_sim_chain demo_chain ''demo'') demo_preplaced = Inr q \<and>
     pr_initial_objects q = pr_initial_objects (from_sim_chain demo_chain ''demo'') @ extra"
proof -
  let ?p = "from_sim_chain demo_chain ''demo''"
  have "\<not> isl (apply_chain_annotations ?p demo_preplaced)" by code_simp
  then obtain q where q: "apply_chain_annotations ?p demo_preplaced = Inr q" by (cases "apply_chain_annotations ?p demo_preplaced") auto
  with annotations_joined [OF q] show ?thesis by blast
qed

end
