(* ===== verification/Sim_Validate.thy ===== *)
theory Sim_Validate
  imports Sim_Chain
begin

text \<open>
  The static validator of task chains, \<open>src/dataflow_sim/core/validate.py\<close>. A violation is a
  \<open>ValidationError\<close>, a subclass of \<open>ValueError\<close>: it is \<open>ValueError token\<close> with the rule token the
  message starts with, so that the order of the checks shows. The categories are checked in the
  source's order and the first violation is raised.
\<close>

section \<open>Identifier resolution\<close>

definition fresh_key :: "string \<Rightarrow> 'a \<Rightarrow> 'a set \<Rightarrow> 'a set res" where
  "fresh_key tok x seen = (if x \<in> seen then Inl (ValueError tok) else Inr (insert x seen))"

definition known_id :: "string \<Rightarrow> string set \<Rightarrow> string \<Rightarrow> unit \<Rightarrow> unit res" where
  "known_id tok known x u = guardE (x \<in> known) (ValueError tok)"

definition check_outputs :: "string set \<Rightarrow> string set \<Rightarrow> output_alloc \<Rightarrow> string set \<Rightarrow> string set res" where
  "check_outputs initial_ids known out own =
     (if oa_id out \<in> initial_ids then Inl (ValueError ''duplicate-output-shadows-initial'')
      else if oa_id out \<in> known then Inl (ValueError ''duplicate-output-id'')
      else if oa_id out \<in> own then Inl (ValueError ''duplicate-output-id'')
      else Inr (insert (oa_id out) own))"

definition resolve_task :: "string set \<Rightarrow> sim_task \<Rightarrow> string set \<Rightarrow> string set res" where
  "resolve_task initial_ids t known =
     bindE (guardE (0 \<le> sk_workspace_bytes t) (ValueError ''negative-workspace'')) (\<lambda>_.
     bindE (foldE (fresh_key ''duplicate-input-id'') (sk_inputs t) {}) (\<lambda>seen_in.
     bindE (foldE (check_outputs initial_ids known) (sk_outputs t) {}) (\<lambda>own.
     bindE (foldE (\<lambda>inp _. guardE (inp \<notin> own) (ValueError ''self-cycle'')) (sk_inputs t) ()) (\<lambda>_.
     bindE (foldE (known_id ''unknown-input'' known) (sk_inputs t) ()) (\<lambda>_.
     bindE (foldE (known_id ''releases_after-unknown-obj'' (known \<union> own)) (sk_releases_after t) ()) (\<lambda>_.
     bindE (foldE (known_id ''mutates_inputs-not-in-inputs'' seen_in) (sk_mutates_inputs t) ()) (\<lambda>_.
     bindE (foldE (\<lambda>trig. known_id ''offload-unknown-obj'' (known \<union> own) (tt_obj_id trig)) (sk_offload_after t) ()) (\<lambda>_.
     bindE (foldE (\<lambda>trig. known_id ''prefetch-unknown-obj'' (known \<union> own) (tt_obj_id trig)) (sk_prefetch_after t) ()) (\<lambda>_.
     Inr (known \<union> own))))))))))"

definition check_final :: "string set \<Rightarrow> string \<times> string \<Rightarrow> unit \<Rightarrow> unit res" where
  "check_final known ol u = (case ol of (oid, loc) \<Rightarrow>
     if oid \<notin> known then Inl (ValueError ''final-location-unknown-obj'')
     else guardE (loc = ''backing'' \<or> loc = ''fast'') (ValueError ''final-location-invalid''))"

definition validate_id_resolution :: "task_chain \<Rightarrow> unit res" where
  "validate_id_resolution c =
     bindE (foldE (\<lambda>ob. fresh_key ''duplicate-initial-memory'' (so_id ob, so_location ob)) (tc_initial_memory c) {}) (\<lambda>_.
     let initial_ids = set (map so_id (tc_initial_memory c))
     in bindE (foldE (resolve_task initial_ids) (tc_tasks c) initial_ids) (\<lambda>known.
        foldE (check_final known) (tc_final_locations c) ()))"

section \<open>Residency of triggers\<close>

type_synonym residency = "string set \<times> string set"

definition initial_residency :: "task_chain \<Rightarrow> residency" where
  "initial_residency c =
     (set (map so_id (filter (\<lambda>ob. so_location ob = ''fast'') (tc_initial_memory c))),
      set (map so_id (filter (\<lambda>ob. so_location ob \<noteq> ''fast'') (tc_initial_memory c))))"

definition land_outputs :: "sim_task \<Rightarrow> residency \<Rightarrow> residency" where
  "land_outputs t r = (case r of (on_compute, on_backing) \<Rightarrow>
     (on_compute \<union> set (map oa_id (filter (\<lambda>out. oa_location out = ''fast'') (sk_outputs t))),
      on_backing \<union> set (map oa_id (filter (\<lambda>out. oa_location out \<noteq> ''fast'') (sk_outputs t)))))"

definition trigger_ids :: "transfer_trigger list \<Rightarrow> string set" where
  "trigger_ids ts = set (map tt_obj_id ts)"

definition check_offload :: "string set \<Rightarrow> transfer_trigger \<Rightarrow> string set \<Rightarrow> string set res" where
  "check_offload on_compute trig seen =
     bindE (fresh_key ''duplicate-offload'' (tt_obj_id trig) seen) (\<lambda>seen.
     bindE (guardE (tt_obj_id trig \<in> on_compute) (ValueError ''offload-not-on-compute'')) (\<lambda>_. Inr seen))"

definition check_prefetch :: "string set \<Rightarrow> transfer_trigger \<Rightarrow> string set \<Rightarrow> string set res" where
  "check_prefetch on_compute trig seen =
     bindE (fresh_key ''duplicate-prefetch'' (tt_obj_id trig) seen) (\<lambda>seen.
     bindE (guardE (tt_obj_id trig \<notin> on_compute) (ValueError ''prefetch-already-on-compute'')) (\<lambda>_. Inr seen))"

text \<open>Offloads add a backing copy and remove the fast one, prefetches add a fast copy, releases drop it.\<close>

definition settle :: "sim_task \<Rightarrow> residency \<Rightarrow> residency" where
  "settle t r = (case r of (on_compute, on_backing) \<Rightarrow>
     (on_compute - trigger_ids (sk_offload_after t) \<union> trigger_ids (sk_prefetch_after t) - set (sk_releases_after t),
      on_backing \<union> trigger_ids (sk_offload_after t)))"

definition trigger_task :: "sim_task \<Rightarrow> residency \<Rightarrow> residency res" where
  "trigger_task t r =
     bindE (guardE (trigger_ids (sk_offload_after t) \<inter> trigger_ids (sk_prefetch_after t) = {})
              (ValueError ''conflict-prefetch-and-offload-same-object'')) (\<lambda>_.
     let r = land_outputs t r
     in bindE (foldE (check_offload (fst r)) (sk_offload_after t) {}) (\<lambda>_.
        bindE (foldE (check_prefetch (fst r)) (sk_prefetch_after t) {}) (\<lambda>_.
        Inr (settle t r))))"

definition validate_triggers :: "task_chain \<Rightarrow> unit res" where
  "validate_triggers c = bindE (foldE trigger_task (tc_tasks c) (initial_residency c)) (\<lambda>_. Inr ())"

section \<open>Releases and mutations\<close>

record dirty_walk =
  dw_compute :: "string set"
  dw_backing :: "string set"
  dw_dirty :: "string set"
  dw_released :: "(string, string \<times> bool \<times> bool) dict"

definition check_input :: "dirty_walk \<Rightarrow> string \<Rightarrow> unit \<Rightarrow> unit res" where
  "check_input w inp u =
     (if inp \<in> dw_compute w then Inr ()
      else case dget (dw_released w) inp of
             Some (_, was_dirty, had_backing) \<Rightarrow>
               (if was_dirty then Inl (ValueError ''release-of-dirty-with-later-use'')
                else if \<not> had_backing then Inl (ValueError ''release-no-backing-copy-with-later-use'')
                else Inl (ValueError ''released-then-referenced''))
           | None \<Rightarrow> Inl (ValueError ''released-then-referenced''))"

definition walk_prefetch :: "transfer_trigger \<Rightarrow> dirty_walk \<Rightarrow> dirty_walk" where
  "walk_prefetch trig w =
     w\<lparr>dw_compute := insert (tt_obj_id trig) (dw_compute w), dw_dirty := dw_dirty w - {tt_obj_id trig},
       dw_released := ddel (tt_obj_id trig) (dw_released w)\<rparr>"

definition walk_offload :: "transfer_trigger \<Rightarrow> dirty_walk \<Rightarrow> dirty_walk" where
  "walk_offload trig w =
     w\<lparr>dw_dirty := dw_dirty w - {tt_obj_id trig}, dw_backing := insert (tt_obj_id trig) (dw_backing w),
       dw_compute := dw_compute w - {tt_obj_id trig}\<rparr>"

definition walk_release :: "string \<Rightarrow> string \<Rightarrow> dirty_walk \<Rightarrow> dirty_walk" where
  "walk_release tid rid w =
     w\<lparr>dw_released := dset rid (tid, rid \<in> dw_dirty w, rid \<in> dw_backing w) (dw_released w),
       dw_compute := dw_compute w - {rid}, dw_dirty := dw_dirty w - {rid}\<rparr>"

definition walk_outputs :: "sim_task \<Rightarrow> dirty_walk \<Rightarrow> dirty_walk" where
  "walk_outputs t w =
     (let (compute, backing) = land_outputs t (dw_compute w, dw_backing w)
      in w\<lparr>dw_compute := compute, dw_backing := backing\<rparr>)"

definition release_task :: "sim_task \<Rightarrow> dirty_walk \<Rightarrow> dirty_walk res" where
  "release_task t w =
     bindE (guardE (set (sk_releases_after t) \<inter> trigger_ids (sk_offload_after t) = {})
              (ValueError ''release-and-offload-same-object'')) (\<lambda>_.
     bindE (foldE (check_input w) (sk_inputs t) ()) (\<lambda>_.
     let w = walk_outputs t w;
         w = w\<lparr>dw_dirty := dw_dirty w \<union> set (sk_mutates_inputs t)\<rparr>;
         w = fold walk_offload (sk_offload_after t) w;
         w = fold walk_prefetch (sk_prefetch_after t) w
     in Inr (fold (walk_release (sk_id t)) (sk_releases_after t) w)))"

definition check_final_residency :: "dirty_walk \<Rightarrow> string \<times> string \<Rightarrow> unit \<Rightarrow> unit res" where
  "check_final_residency w ol u = (case ol of (oid, loc) \<Rightarrow>
     if loc = ''backing'' then
       (if oid \<notin> dw_backing w then Inl (ValueError ''final-location-not-on-backing'')
        else guardE (oid \<notin> dw_dirty w) (ValueError ''final-location-dirty-on-backing''))
     else guardE (loc = ''fast'' \<longrightarrow> oid \<in> dw_compute w) (ValueError ''final-location-not-on-compute''))"

definition initial_walk :: "task_chain \<Rightarrow> dirty_walk" where
  "initial_walk c =
     \<lparr>dw_compute = fst (initial_residency c), dw_backing = snd (initial_residency c), dw_dirty = {}, dw_released = []\<rparr>"

definition validate_releases_mutation :: "task_chain \<Rightarrow> unit res" where
  "validate_releases_mutation c =
     bindE (foldE release_task (tc_tasks c) (initial_walk c)) (\<lambda>w.
     foldE (check_final_residency w) (tc_final_locations c) ())"

section \<open>Capacity\<close>

definition chain_capacity :: "task_chain \<Rightarrow> string \<Rightarrow> int option" where
  "chain_capacity c loc = (if loc = ''fast'' then tc_fast_memory_capacity c else tc_backing_memory_capacity c)"

definition add_alloc :: "sim_object \<Rightarrow> (string, int) dict \<Rightarrow> (string, int) dict res" where
  "add_alloc ob alloc =
     (case dget alloc (so_location ob) of
        None \<Rightarrow> Inl (KeyError (so_location ob))
      | Some n \<Rightarrow> Inr (dset (so_location ob) (n + so_size ob) alloc))"

definition initial_alloc :: "task_chain \<Rightarrow> (string, int) dict res" where
  "initial_alloc c = foldE add_alloc (tc_initial_memory c) [(''backing'', 0), (''fast'', 0)]"

definition check_initial_capacity :: "task_chain \<Rightarrow> (string, int) dict \<Rightarrow> unit res" where
  "check_initial_capacity c alloc =
     foldE (\<lambda>loc _. guardE (case chain_capacity c loc of None \<Rightarrow> True | Some cap \<Rightarrow> dget_or alloc loc 0 \<le> cap)
              (ValueError ''initial_memory-overflow'')) [''fast'', ''backing''] ()"

definition forced_bytes :: "(string, int) dict \<Rightarrow> sim_task \<Rightarrow> int" where
  "forced_bytes size_of t =
     (\<Sum>i \<leftarrow> sk_inputs t. dget_or size_of i 0) +
     (\<Sum>out \<leftarrow> filter (\<lambda>out. oa_location out = ''fast'') (sk_outputs t). oa_size out) + sk_workspace_bytes t"

definition footprint_task :: "int \<Rightarrow> sim_task \<Rightarrow> (string, int) dict \<times> string list \<Rightarrow> (string, int) dict \<times> string list" where
  "footprint_task cap t acc = (case acc of (size_of, impossible) \<Rightarrow>
     (fold (\<lambda>out. dset (oa_id out) (oa_size out)) (sk_outputs t) size_of,
      if cap < forced_bytes size_of t then impossible @ [sk_id t] else impossible))"

definition validate_capacity :: "task_chain \<Rightarrow> unit res" where
  "validate_capacity c =
     bindE (initial_alloc c) (\<lambda>alloc.
     bindE (check_initial_capacity c alloc) (\<lambda>_.
     case tc_fast_memory_capacity c of
       None \<Rightarrow> Inr ()
     | Some cap \<Rightarrow>
         (let size_of = fold (\<lambda>ob. dset (so_id ob) (so_size ob)) (tc_initial_memory c) [];
              (_, impossible) = fold (footprint_task cap) (tc_tasks c) (size_of, [])
          in guardE (impossible = []) (ValueError ''forced-footprint-exceeds-fast_memory_capacity''))))"

definition validate_planning_input :: "task_chain \<Rightarrow> unit res" where
  "validate_planning_input c = bindE (validate_id_resolution c) (\<lambda>_. validate_capacity c)"

definition validate_chain :: "task_chain \<Rightarrow> unit res" where
  "validate_chain c =
     bindE (validate_id_resolution c) (\<lambda>_.
     bindE (validate_triggers c) (\<lambda>_.
     bindE (validate_releases_mutation c) (\<lambda>_. validate_capacity c)))"

section \<open>What acceptance means\<close>

text \<open>Loops whose body checks a condition and computes the next state.\<close>

lemma foldE_walk:
  assumes "\<And>x s s'. f x s = Inr s' \<longleftrightarrow> good x s \<and> s' = go x s"
  shows "foldE f xs s = Inr s' \<longleftrightarrow> (\<forall>i < length xs. good (xs ! i) (fold go (take i xs) s)) \<and> s' = fold go xs s"
proof (induction xs arbitrary: s)
  case (Cons x xs)
  have "(\<forall>i < length (x # xs). good ((x # xs) ! i) (fold go (take i (x # xs)) s)) \<longleftrightarrow>
      good x s \<and> (\<forall>i < length xs. good (xs ! i) (fold go (take i xs) (go x s)))"
    by (auto simp: All_less_Suc2)
  then show ?case using Cons by (auto simp: bindE_eq_Inr assms)
qed auto

lemma foldE_checks: "foldE f xs () = Inr () \<longleftrightarrow> (\<forall>x \<in> set xs. f x () = Inr ())"
  by (induction xs) (auto simp: bindE_eq_Inr)

lemma foldE_fresh:
  "foldE (\<lambda>x. fresh_key tok (g x)) xs S = Inr S' \<longleftrightarrow>
     distinct (map g xs) \<and> g ` set xs \<inter> S = {} \<and> S' = S \<union> g ` set xs"
  by (induction xs arbitrary: S) (auto simp: bindE_eq_Inr fresh_key_def)

lemma foldE_known: "foldE (\<lambda>x. known_id tok K (g x)) xs () = Inr u \<longleftrightarrow> g ` set xs \<subseteq> K"
  by (cases u) (auto simp: foldE_checks known_id_def)

lemmas foldE_fresh_id = foldE_fresh [where g = "\<lambda>x. x", simplified]
  and foldE_known_id = foldE_known [where g = "\<lambda>x. x", simplified]

definition known_ids :: "task_chain \<Rightarrow> nat \<Rightarrow> string set" where
  "known_ids c i = so_id ` set (tc_initial_memory c) \<union> (\<Union>t \<in> set (take i (tc_tasks c)). oa_id ` set (sk_outputs t))"

text \<open>Every reference resolves, outputs are fresh, and releases, mutations and triggers name known objects.\<close>

definition task_ids_ok :: "string set \<Rightarrow> sim_task \<Rightarrow> bool" where
  "task_ids_ok known t \<longleftrightarrow>
     0 \<le> sk_workspace_bytes t \<and> distinct (sk_inputs t) \<and> set (sk_inputs t) \<subseteq> known \<and>
     distinct (map oa_id (sk_outputs t)) \<and> oa_id ` set (sk_outputs t) \<inter> known = {} \<and>
     set (sk_mutates_inputs t) \<subseteq> set (sk_inputs t) \<and>
     set (sk_releases_after t) \<union> trigger_ids (sk_offload_after t) \<union> trigger_ids (sk_prefetch_after t)
       \<subseteq> known \<union> oa_id ` set (sk_outputs t)"

definition ids_ok :: "task_chain \<Rightarrow> bool" where
  "ids_ok c \<longleftrightarrow> distinct (map (\<lambda>ob. (so_id ob, so_location ob)) (tc_initial_memory c)) \<and>
     (\<forall>i < length (tc_tasks c). task_ids_ok (known_ids c i) (tc_tasks c ! i)) \<and>
     (\<forall>(oid, loc) \<in> set (tc_final_locations c). oid \<in> known_ids c (length (tc_tasks c)) \<and> loc \<in> {''backing'', ''fast''})"

lemma foldE_outputs:
  "initial \<subseteq> known \<Longrightarrow> foldE (check_outputs initial known) outs own = Inr own' \<longleftrightarrow>
     distinct (map oa_id outs) \<and> oa_id ` set outs \<inter> (known \<union> own) = {} \<and> own' = own \<union> oa_id ` set outs"
  by (induction outs arbitrary: own) (auto simp: bindE_eq_Inr check_outputs_def split: if_splits)

lemma resolve_task_iff:
  assumes "initial \<subseteq> known"
  shows "resolve_task initial t known = Inr known' \<longleftrightarrow> task_ids_ok known t \<and> known' = known \<union> oa_id ` set (sk_outputs t)"
proof -
  have cyc: "foldE (\<lambda>inp u. guardE (inp \<notin> own) e) xs () = Inr () \<longleftrightarrow> set xs \<inter> own = {}" for own e xs
    by (auto simp: foldE_checks)
  show ?thesis
    using assms
    by (auto simp: cyc resolve_task_def bindE_eq_Inr foldE_fresh_id foldE_outputs foldE_known_id foldE_known
        task_ids_ok_def trigger_ids_def)
qed

lemma resolve_tasks:
  "so_id ` set (tc_initial_memory c) \<subseteq> known \<Longrightarrow>
   foldE (resolve_task (so_id ` set (tc_initial_memory c))) ts known = Inr known' \<longleftrightarrow>
     (\<forall>i < length ts. task_ids_ok (known \<union> (\<Union>t \<in> set (take i ts). oa_id ` set (sk_outputs t))) (ts ! i)) \<and>
     known' = known \<union> (\<Union>t \<in> set ts. oa_id ` set (sk_outputs t))"
proof (induction ts arbitrary: known)
  case (Cons t ts)
  have "so_id ` set (tc_initial_memory c) \<subseteq> known \<union> oa_id ` set (sk_outputs t)" using Cons.prems by blast
  note IH = Cons.IH [OF this]
  have "(\<forall>i < length (t # ts). task_ids_ok (known \<union> (\<Union>t \<in> set (take i (t # ts)). oa_id ` set (sk_outputs t))) ((t # ts) ! i)) \<longleftrightarrow>
      task_ids_ok known t \<and> (\<forall>i < length ts. task_ids_ok (known \<union> oa_id ` set (sk_outputs t) \<union>
        (\<Union>t \<in> set (take i ts). oa_id ` set (sk_outputs t))) (ts ! i))"
    by (auto simp: All_less_Suc2 Un_assoc)
  then show ?case
    using IH by (auto simp: bindE_eq_Inr resolve_task_iff [OF Cons.prems] Un_assoc)
qed auto

lemma validate_ids_iff: "validate_id_resolution c = Inr () \<longleftrightarrow> ids_ok c"
proof -
  have "foldE (check_final known) fl () = Inr () \<longleftrightarrow> (\<forall>(oid, loc) \<in> set fl. oid \<in> known \<and> loc \<in> {''backing'', ''fast''})" for known fl
    by (auto simp: foldE_checks check_final_def split: if_splits prod.splits)
  then show ?thesis
    by (auto simp: validate_id_resolution_def Let_def bindE_eq_Inr foldE_fresh resolve_tasks ids_ok_def known_ids_def)
qed

text \<open>The residency of objects before task \<open>i\<close>: fast memory and backing memory.\<close>

definition residency_before :: "task_chain \<Rightarrow> nat \<Rightarrow> residency" where
  "residency_before c i = fold (\<lambda>t r. settle t (land_outputs t r)) (take i (tc_tasks c)) (initial_residency c)"

definition triggers_ok :: "sim_task \<Rightarrow> residency \<Rightarrow> bool" where
  "triggers_ok t r \<longleftrightarrow>
     distinct (map tt_obj_id (sk_offload_after t)) \<and> trigger_ids (sk_offload_after t) \<subseteq> fst (land_outputs t r) \<and>
     distinct (map tt_obj_id (sk_prefetch_after t)) \<and> trigger_ids (sk_prefetch_after t) \<inter> fst (land_outputs t r) = {}"

lemma foldE_offloads:
  "foldE (check_offload R) ts S = Inr S' \<longleftrightarrow>
     distinct (map tt_obj_id ts) \<and> trigger_ids ts \<inter> S = {} \<and> trigger_ids ts \<subseteq> R \<and> S' = S \<union> trigger_ids ts"
  by (induction ts arbitrary: S) (auto simp: bindE_eq_Inr check_offload_def fresh_key_def trigger_ids_def)

lemma foldE_prefetches:
  "foldE (check_prefetch R) ts S = Inr S' \<longleftrightarrow>
     distinct (map tt_obj_id ts) \<and> trigger_ids ts \<inter> S = {} \<and> trigger_ids ts \<inter> R = {} \<and> S' = S \<union> trigger_ids ts"
  by (induction ts arbitrary: S) (auto simp: bindE_eq_Inr check_prefetch_def fresh_key_def trigger_ids_def)

lemma trigger_task_iff: "trigger_task t r = Inr r' \<longleftrightarrow> triggers_ok t r \<and> r' = settle t (land_outputs t r)"
  by (auto simp: trigger_task_def Let_def bindE_eq_Inr foldE_offloads foldE_prefetches triggers_ok_def)

lemma validate_triggers_iff:
  "validate_triggers c = Inr () \<longleftrightarrow> (\<forall>i < length (tc_tasks c). triggers_ok (tc_tasks c ! i) (residency_before c i))"
  by (simp add: validate_triggers_def bindE_eq_Inr foldE_walk [OF trigger_task_iff] residency_before_def)

text \<open>The second walk tracks the same residency, and which objects were mutated since their last transfer or release.\<close>

definition walk_step :: "sim_task \<Rightarrow> dirty_walk \<Rightarrow> dirty_walk" where
  "walk_step t w =
     (let w = walk_outputs t w;
          w = w\<lparr>dw_dirty := dw_dirty w \<union> set (sk_mutates_inputs t)\<rparr>;
          w = fold walk_offload (sk_offload_after t) w;
          w = fold walk_prefetch (sk_prefetch_after t) w
      in fold (walk_release (sk_id t)) (sk_releases_after t) w)"

definition moved :: "sim_task \<Rightarrow> string set" where
  "moved t = trigger_ids (sk_offload_after t) \<union> trigger_ids (sk_prefetch_after t) \<union> set (sk_releases_after t)"

lemma walk_offloads:
  "dw_compute (fold walk_offload ts w) = dw_compute w - trigger_ids ts \<and>
   dw_backing (fold walk_offload ts w) = dw_backing w \<union> trigger_ids ts \<and>
   dw_dirty (fold walk_offload ts w) = dw_dirty w - trigger_ids ts"
  by (induction ts arbitrary: w) (auto simp: walk_offload_def trigger_ids_def)

lemma walk_prefetches:
  "dw_compute (fold walk_prefetch ts w) = dw_compute w \<union> trigger_ids ts \<and>
   dw_backing (fold walk_prefetch ts w) = dw_backing w \<and>
   dw_dirty (fold walk_prefetch ts w) = dw_dirty w - trigger_ids ts"
  by (induction ts arbitrary: w) (auto simp: walk_prefetch_def trigger_ids_def)

lemma walk_releases:
  "dw_compute (fold (walk_release tid) rs w) = dw_compute w - set rs \<and>
   dw_backing (fold (walk_release tid) rs w) = dw_backing w \<and>
   dw_dirty (fold (walk_release tid) rs w) = dw_dirty w - set rs"
  by (induction rs arbitrary: w) (auto simp: walk_release_def)

lemmas walk_folds = walk_offloads walk_prefetches walk_releases

lemma walk_step_residency:
  "(dw_compute (walk_step t w), dw_backing (walk_step t w)) = settle t (land_outputs t (dw_compute w, dw_backing w))"
  "dw_dirty (walk_step t w) = (dw_dirty w \<union> set (sk_mutates_inputs t)) - moved t"
  by (auto simp: walk_step_def Let_def walk_folds walk_outputs_def settle_def moved_def split: prod.splits)

definition walk_before :: "task_chain \<Rightarrow> nat \<Rightarrow> dirty_walk" where
  "walk_before c i = fold walk_step (take i (tc_tasks c)) (initial_walk c)"

lemma walk_before_residency: "(dw_compute (walk_before c i), dw_backing (walk_before c i)) = residency_before c i"
proof -
  have "(dw_compute (fold walk_step ts w), dw_backing (fold walk_step ts w)) =
      fold (\<lambda>t r. settle t (land_outputs t r)) ts (dw_compute w, dw_backing w)" for ts w
    by (induction ts arbitrary: w) (simp_all add: walk_step_residency)
  then show ?thesis by (simp add: walk_before_def residency_before_def initial_walk_def)
qed

text \<open>An object is dirty when some task mutated it and nothing moved or released it since.\<close>

definition dirty_before :: "task_chain \<Rightarrow> nat \<Rightarrow> string set" where
  "dirty_before c i = {x. \<exists>j < i. x \<in> set (sk_mutates_inputs (tc_tasks c ! j)) \<and>
     (\<forall>k. j \<le> k \<and> k < i \<longrightarrow> x \<notin> moved (tc_tasks c ! k))}"

lemma walk_before_Suc: "i < length (tc_tasks c) \<Longrightarrow> walk_before c (Suc i) = walk_step (tc_tasks c ! i) (walk_before c i)"
  by (simp add: walk_before_def take_Suc_conv_app_nth)

lemma walk_before_dirty: "i \<le> length (tc_tasks c) \<Longrightarrow> dw_dirty (walk_before c i) = dirty_before c i"
proof (induction i)
  case 0
  then show ?case by (simp add: walk_before_def initial_walk_def dirty_before_def)
next
  case (Suc i)
  let ?t = "tc_tasks c ! i"
  have "dw_dirty (walk_before c (Suc i)) = (dirty_before c i \<union> set (sk_mutates_inputs ?t)) - moved ?t"
    using Suc by (simp add: walk_before_Suc walk_step_residency(2))
  also have "\<dots> = dirty_before c (Suc i)"
    unfolding dirty_before_def by (auto simp: less_Suc_eq le_Suc_eq)
  finally show ?case .
qed

definition releases_ok :: "task_chain \<Rightarrow> bool" where
  "releases_ok c \<longleftrightarrow>
     (\<forall>i < length (tc_tasks c). set (sk_releases_after (tc_tasks c ! i)) \<inter> trigger_ids (sk_offload_after (tc_tasks c ! i)) = {} \<and>
        set (sk_inputs (tc_tasks c ! i)) \<subseteq> fst (residency_before c i)) \<and>
     (\<forall>(oid, loc) \<in> set (tc_final_locations c).
        (loc = ''backing'' \<longrightarrow> oid \<in> snd (residency_before c (length (tc_tasks c))) \<and> oid \<notin> dirty_before c (length (tc_tasks c))) \<and>
        (loc = ''fast'' \<longrightarrow> oid \<in> fst (residency_before c (length (tc_tasks c)))))"

lemma release_task_iff:
  "release_task t w = Inr w' \<longleftrightarrow> (set (sk_releases_after t) \<inter> trigger_ids (sk_offload_after t) = {} \<and>
     set (sk_inputs t) \<subseteq> dw_compute w) \<and> w' = walk_step t w"
proof -
  have "check_input w x () = Inr () \<longleftrightarrow> x \<in> dw_compute w" for x
    by (auto simp: check_input_def split: option.splits)
  then have "foldE (check_input w) (sk_inputs t) () = Inr () \<longleftrightarrow> set (sk_inputs t) \<subseteq> dw_compute w"
    by (auto simp: foldE_checks)
  then show ?thesis by (auto simp: release_task_def walk_step_def Let_def bindE_eq_Inr)
qed

lemma validate_releases_iff: "validate_releases_mutation c = Inr () \<longleftrightarrow> releases_ok c"
proof -
  let ?n = "length (tc_tasks c)"
  have res: "dw_compute (walk_before c i) = fst (residency_before c i)" "dw_backing (walk_before c i) = snd (residency_before c i)" for i
    using walk_before_residency [of c i] by (metis fst_conv, metis snd_conv)
  have walk: "walk_before c ?n = fold walk_step (tc_tasks c) (initial_walk c)" by (simp add: walk_before_def)
  have fin: "check_final_residency (walk_before c ?n) ol () = Inr () \<longleftrightarrow> (case ol of (oid, loc) \<Rightarrow>
      (loc = ''backing'' \<longrightarrow> oid \<in> snd (residency_before c ?n) \<and> oid \<notin> dirty_before c ?n) \<and>
      (loc = ''fast'' \<longrightarrow> oid \<in> fst (residency_before c ?n)))" for ol
    by (auto simp: check_final_residency_def res walk_before_dirty split: prod.splits)
  show ?thesis
    unfolding validate_releases_mutation_def releases_ok_def bindE_eq_Inr foldE_walk [OF release_task_iff] walk [symmetric]
    by (auto simp: foldE_checks fin res walk_before_def [symmetric])
qed

definition bytes_at :: "task_chain \<Rightarrow> string \<Rightarrow> int" where
  "bytes_at c loc = (\<Sum>ob \<leftarrow> filter (\<lambda>ob. so_location ob = loc) (tc_initial_memory c). so_size ob)"

definition sizes_before :: "task_chain \<Rightarrow> nat \<Rightarrow> (string, int) dict" where
  "sizes_before c i = fold (\<lambda>t. fold (\<lambda>out. dset (oa_id out) (oa_size out)) (sk_outputs t)) (take i (tc_tasks c))
     (fold (\<lambda>ob. dset (so_id ob) (so_size ob)) (tc_initial_memory c) [])"

definition capacity_ok :: "task_chain \<Rightarrow> bool" where
  "capacity_ok c \<longleftrightarrow> (\<forall>ob \<in> set (tc_initial_memory c). so_location ob \<in> {''backing'', ''fast''}) \<and>
     (\<forall>cap. tc_backing_memory_capacity c = Some cap \<longrightarrow> bytes_at c ''backing'' \<le> cap) \<and>
     (\<forall>cap. tc_fast_memory_capacity c = Some cap \<longrightarrow> bytes_at c ''fast'' \<le> cap \<and>
        (\<forall>i < length (tc_tasks c). forced_bytes (sizes_before c i) (tc_tasks c ! i) \<le> cap))"

lemma initial_alloc_iff:
  "initial_alloc c = Inr al \<longleftrightarrow> (\<forall>ob \<in> set (tc_initial_memory c). so_location ob \<in> {''backing'', ''fast''}) \<and>
     al = [(''backing'', bytes_at c ''backing''), (''fast'', bytes_at c ''fast'')]"
proof -
  have "foldE add_alloc obs [(''backing'', a), (''fast'', b)] = Inr al \<longleftrightarrow>
      (\<forall>ob \<in> set obs. so_location ob \<in> {''backing'', ''fast''}) \<and>
      al = [(''backing'', a + (\<Sum>ob \<leftarrow> filter (\<lambda>ob. so_location ob = ''backing'') obs. so_size ob)),
            (''fast'', b + (\<Sum>ob \<leftarrow> filter (\<lambda>ob. so_location ob = ''fast'') obs. so_size ob))]" for obs a b
    by (induction obs arbitrary: a b) (auto simp: add_alloc_def bindE_eq_Inr add.assoc split: option.splits if_splits)
  then show ?thesis by (simp add: initial_alloc_def bytes_at_def)
qed

lemma footprint_ok:
  "snd (fold (footprint_task cap) ts (d, imp)) = [] \<longleftrightarrow> imp = [] \<and>
     (\<forall>i < length ts. forced_bytes (fold (\<lambda>t. fold (\<lambda>out. dset (oa_id out) (oa_size out)) (sk_outputs t)) (take i ts) d) (ts ! i) \<le> cap)"
proof (induction ts arbitrary: d imp)
  case (Cons t ts)
  then show ?case by (simp add: footprint_task_def All_less_Suc2)
qed simp

lemma validate_capacity_iff: "validate_capacity c = Inr () \<longleftrightarrow> capacity_ok c"
proof (cases "\<forall>ob \<in> set (tc_initial_memory c). so_location ob \<in> {''backing'', ''fast''}")
  case False
  then have "initial_alloc c \<noteq> Inr al" for al using initial_alloc_iff by blast
  then show ?thesis using False by (auto simp: validate_capacity_def bindE_eq_Inr capacity_ok_def)
next
  case True
  then have "initial_alloc c = Inr [(''backing'', bytes_at c ''backing''), (''fast'', bytes_at c ''fast'')]"
    using initial_alloc_iff by blast
  moreover have "check_initial_capacity c [(''backing'', bytes_at c ''backing''), (''fast'', bytes_at c ''fast'')] = Inr () \<longleftrightarrow>
      (\<forall>loc \<in> {''backing'', ''fast''}. \<forall>cap. chain_capacity c loc = Some cap \<longrightarrow> bytes_at c loc \<le> cap)"
    by (auto simp: check_initial_capacity_def foldE_checks dget_or_def split: option.splits)
  moreover have "chain_capacity c ''backing'' = tc_backing_memory_capacity c" "chain_capacity c ''fast'' = tc_fast_memory_capacity c"
    by (simp_all add: chain_capacity_def)
  ultimately show ?thesis
    using True
    by (auto simp: validate_capacity_def capacity_ok_def bindE_eq_Inr Let_def case_prod_beta footprint_ok sizes_before_def split: option.splits)
qed

text \<open>C14. The static validator accepts a chain exactly when it is well formed: identifiers resolve and
  outputs are fresh; offloads name resident objects and prefetches absent ones, each once; every input
  is resident when its task starts; final locations hold, with no mutation left unwritten for a backing
  one; the initial memory fits and no task needs more fast memory than there is.\<close>

theorem validate_chain_iff:
  "validate_chain c = Inr () \<longleftrightarrow> ids_ok c \<and>
     list_all (\<lambda>i. triggers_ok (tc_tasks c ! i) (residency_before c i)) [0..<length (tc_tasks c)] \<and>
     releases_ok c \<and> capacity_ok c"
  by (simp add: validate_chain_def bindE_eq_Inr validate_ids_iff validate_triggers_iff validate_releases_iff validate_capacity_iff
      list_all_iff Ball_def)

end
