(* ===== verification/Simulator.thy ===== *)
theory Simulator
  imports Sim_Validate Transfers
begin

text \<open>
  The event-driven simulator, \<open>src/dataflow_sim/engine/simulator.py\<close>, with the reference stream of
  \<open>src/dataflow_sim/core/reference_stream.py\<close>: one compute stream and two transfer streams, a pool of
  object copies, running byte totals per location, and the event log. The local variables of
  \<open>_run_impl\<close> are the fields of \<open>sim_state\<close>; its closures are functions from state to state. Loops
  take fuel. \<open>INF_T\<close> is the code's \<open>INF\<close>, \<open>float(sys.maxsize)\<close>, that is 2 to the power of 63. A
  \<open>SimulationCapacityError\<close> is the \<open>ValueError\<close> it subclasses, with its \<open>kind\<close>.
\<close>

section \<open>Event log\<close>

record memory_entry =
  me_id :: string
  me_size :: int
  me_location :: string
  me_type :: string
  me_state :: slot_state
  me_next_ref_t :: "time option"

record active_task =
  at_id :: string
  at_ends_at :: time

record obj_reference =
  rf_obj_id :: string
  rf_ref_t :: time
  rf_ref_task :: string

record snapshot =
  sn_memory :: "memory_entry list"
  sn_total_size :: int
  sn_active_task :: "active_task option"
  sn_reference_stream :: "obj_reference list"

record event_args =
  ea_task_id :: "string option"
  ea_object_ids :: "string list"
  ea_transfer_obj :: "string option"
  ea_transfer_direction :: "direction option"

record sim_event =
  se_t :: time
  se_kind :: string
  se_snapshot :: snapshot
  se_args :: event_args

record task_interval =
  ti_task_id :: string
  ti_start :: time
  ti_end :: time
  ti_track :: string

record trace_point =
  mp_t :: time
  mp_fast_bytes_by_band :: "(string, int) dict"

record event_log =
  el_task_intervals :: "task_interval list"
  el_events :: "sim_event list"
  el_peak_fast_memory_bytes :: int
  el_peak_backing_memory_bytes :: int
  el_memory_trace :: "trace_point list"

definition args_task :: "string \<Rightarrow> event_args" where
  "args_task tid = \<lparr>ea_task_id = Some tid, ea_object_ids = [], ea_transfer_obj = None, ea_transfer_direction = None\<rparr>"

definition args_transfer :: "string \<Rightarrow> direction \<Rightarrow> event_args" where
  "args_transfer oid d = \<lparr>ea_task_id = None, ea_object_ids = [], ea_transfer_obj = Some oid, ea_transfer_direction = Some d\<rparr>"

definition args_objects :: "string list \<Rightarrow> event_args" where
  "args_objects ids = \<lparr>ea_task_id = None, ea_object_ids = ids, ea_transfer_obj = None, ea_transfer_direction = None\<rparr>"

section \<open>Reference stream\<close>

definition add_ref :: "time \<Rightarrow> string \<Rightarrow> string \<Rightarrow> (string, obj_reference) dict \<Rightarrow> (string, obj_reference) dict" where
  "add_ref t tid oid refs =
     (if dget refs oid = None then dset oid \<lparr>rf_obj_id = oid, rf_ref_t = t, rf_ref_task = tid\<rparr> refs else refs)"

definition ref_task :: "(string, time) dict \<Rightarrow> sim_task \<Rightarrow> (string, obj_reference) dict \<Rightarrow> (string, obj_reference) dict res" where
  "ref_task starts task refs =
     (case dget starts (sk_id task) of
        None \<Rightarrow> Inl (KeyError (sk_id task))
      | Some t \<Rightarrow> Inr (fold (\<lambda>out. add_ref t (sk_id task) (oa_id out)) (sk_outputs task)
                        (fold (add_ref t (sk_id task)) (sk_inputs task) refs)))"

definition compute_reference_stream :: "sim_task list \<Rightarrow> (string, time) dict \<Rightarrow> obj_reference list res" where
  "compute_reference_stream remaining starts =
     bindE (foldE (ref_task starts) remaining []) (\<lambda>refs.
     Inr (sort_key (\<lambda>r. (rf_ref_t r, rf_obj_id r)) (map snd refs)))"

fun next_ref_time :: "string \<Rightarrow> sim_task list \<Rightarrow> (string, time) dict \<Rightarrow> time option res" where
  "next_ref_time oid [] starts = Inr None"
| "next_ref_time oid (task # tasks) starts =
     (if oid \<in> set (sk_inputs task) \<or> (\<exists>out \<in> set (sk_outputs task). oa_id out = oid)
      then case dget starts (sk_id task) of None \<Rightarrow> Inl (KeyError (sk_id task)) | Some t \<Rightarrow> Inr (Some t)
      else next_ref_time oid tasks starts)"

definition precompute_task_starts :: "task_chain \<Rightarrow> (string, time) dict" where
  "precompute_task_starts c =
     fst (fold (\<lambda>task (starts, t). (dset (sk_id task) t starts, t + sk_runtime task)) (tc_tasks c) ([], 0))"

section \<open>State\<close>

record pool_entry =
  pe_size :: int
  pe_state :: slot_state
  pe_location :: string
  pe_type :: string

record in_flight =
  fl_obj_id :: string
  fl_direction :: direction
  fl_src_size :: int
  fl_start_t :: time
  fl_end_t :: time

record queued_tx =
  qx_obj_id :: string
  qx_direction :: direction
  qx_src_size :: int
  qx_runtime :: time
  qx_dst_type :: "string option"

type_synonym sim_pool = "(string \<times> string, pool_entry) dict"

record sim_state =
  sm_pool :: sim_pool
  sm_events :: "sim_event list"
  sm_intervals :: "task_interval list"
  sm_memory_points :: "trace_point list"
  sm_in_from :: "in_flight option"
  sm_in_to :: "in_flight option"
  sm_q_from :: "queued_tx list"
  sm_q_to :: "queued_tx list"
  sm_busy_until :: time
  sm_workspace :: int
  sm_deferred :: "(string, queued_tx list) dict"
  sm_seq :: "(direction \<times> string, int) dict"
  sm_total :: "(string, int) dict"
  sm_peak_fast :: int
  sm_peak_backing :: int

record sim_config =
  sc_chain :: task_chain
  sc_snapshots :: bool
  sc_memory_trace :: bool
  sc_ref_starts :: "(string, time) dict"

definition INF_T :: time where
  "INF_T = 2 ^ 63"

definition sim_inflight :: "direction \<Rightarrow> sim_state \<Rightarrow> in_flight option" where
  "sim_inflight d st = (case d of FromSlow \<Rightarrow> sm_in_from st | ToSlow \<Rightarrow> sm_in_to st)"

definition set_inflight :: "direction \<Rightarrow> in_flight option \<Rightarrow> sim_state \<Rightarrow> sim_state" where
  "set_inflight d x st = (case d of FromSlow \<Rightarrow> st\<lparr>sm_in_from := x\<rparr> | ToSlow \<Rightarrow> st\<lparr>sm_in_to := x\<rparr>)"

definition sim_queue :: "direction \<Rightarrow> sim_state \<Rightarrow> queued_tx list" where
  "sim_queue d st = (case d of FromSlow \<Rightarrow> sm_q_from st | ToSlow \<Rightarrow> sm_q_to st)"

definition set_queue :: "direction \<Rightarrow> queued_tx list \<Rightarrow> sim_state \<Rightarrow> sim_state" where
  "set_queue d x st = (case d of FromSlow \<Rightarrow> st\<lparr>sm_q_from := x\<rparr> | ToSlow \<Rightarrow> st\<lparr>sm_q_to := x\<rparr>)"

definition loc_total :: "sim_state \<Rightarrow> string \<Rightarrow> int" where
  "loc_total st loc = dget_or (sm_total st) loc 0"

text \<open>\<open>loc_total[loc] += n\<close>, \<open>pool[key]\<close>, and the state of an entry.\<close>

definition add_total :: "string \<Rightarrow> int \<Rightarrow> sim_state \<Rightarrow> sim_state res" where
  "add_total loc n st =
     (case dget (sm_total st) loc of
        None \<Rightarrow> Inl (KeyError loc)
      | Some u \<Rightarrow> Inr (st\<lparr>sm_total := dset loc (u + n) (sm_total st)\<rparr>))"

definition pool_at :: "string \<Rightarrow> string \<Rightarrow> sim_state \<Rightarrow> pool_entry res" where
  "pool_at oid loc st = (case dget (sm_pool st) (oid, loc) of None \<Rightarrow> Inl (KeyError oid) | Some e \<Rightarrow> Inr e)"

definition put_entry :: "string \<Rightarrow> string \<Rightarrow> pool_entry \<Rightarrow> sim_state \<Rightarrow> sim_state" where
  "put_entry oid loc e st = st\<lparr>sm_pool := dset (oid, loc) e (sm_pool st)\<rparr>"

definition set_entry_state :: "string \<Rightarrow> string \<Rightarrow> slot_state \<Rightarrow> sim_state \<Rightarrow> sim_state res" where
  "set_entry_state oid loc s st = bindE (pool_at oid loc st) (\<lambda>e. Inr (put_entry oid loc (e\<lparr>pe_state := s\<rparr>) st))"

section \<open>Events and the memory trace\<close>

definition band_of :: "pool_entry \<Rightarrow> string" where
  "band_of e =
     (case pe_state e of
        PendingInbound \<Rightarrow> ''inbound'' | Inbound \<Rightarrow> ''inbound'' | Outbound \<Rightarrow> ''outbound''
      | PendingOutbound \<Rightarrow> ''pending_outbound'' | _ \<Rightarrow> pe_type e)"

definition add_band :: "(string \<times> string) \<times> pool_entry \<Rightarrow> (string, int) dict \<Rightarrow> (string, int) dict res" where
  "add_band kv bands = (case kv of ((_, loc), e) \<Rightarrow>
     if loc \<noteq> ''fast'' then Inr bands
     else case dget bands (band_of e) of
            None \<Rightarrow> Inl (KeyError (band_of e))
          | Some n \<Rightarrow> Inr (dset (band_of e) (n + pe_size e) bands))"

definition fast_memory_bands :: "sim_pool \<Rightarrow> (string, int) dict res" where
  "fast_memory_bands pool =
     foldE add_band pool
       [(''weight'', 0), (''activation'', 0), (''gradient'', 0), (''optimizer'', 0), (''other'', 0),
        (''inbound'', 0), (''outbound'', 0), (''pending_outbound'', 0)]"

definition take_snapshot ::
  "sim_pool \<Rightarrow> active_task option \<Rightarrow> sim_task list \<Rightarrow> (string, time) dict \<Rightarrow> snapshot res" where
  "take_snapshot pool active remaining starts =
     bindE (compute_reference_stream remaining starts) (\<lambda>refs.
     let next_ref = fold (\<lambda>r. dset (rf_obj_id r) (rf_ref_t r)) refs [];
         memory = map (\<lambda>((oid, loc), e). \<lparr>me_id = oid, me_size = pe_size e, me_location = loc, me_type = pe_type e,
                          me_state = pe_state e, me_next_ref_t = dget next_ref oid\<rparr>) pool
     in Inr \<lparr>sn_memory = sort_key (\<lambda>m. (me_location m, me_id m)) memory,
             sn_total_size = (\<Sum>kv \<leftarrow> pool. pe_size (snd kv)), sn_active_task = active, sn_reference_stream = refs\<rparr>)"

definition emit_memory_trace :: "sim_config \<Rightarrow> time \<Rightarrow> sim_state \<Rightarrow> sim_state res" where
  "emit_memory_trace cfg t st =
     (if \<not> sc_memory_trace cfg then Inr st
      else bindE (fast_memory_bands (sm_pool st)) (\<lambda>bands.
           let point = \<lparr>mp_t = t, mp_fast_bytes_by_band = bands\<rparr>; points = sm_memory_points st
           in if points \<noteq> [] \<and> mp_t (last points) = t \<and> mp_fast_bytes_by_band (last points) = bands
              then Inr st else Inr (st\<lparr>sm_memory_points := points @ [point]\<rparr>)))"

definition emit ::
  "sim_config \<Rightarrow> string \<Rightarrow> time \<Rightarrow> nat \<Rightarrow> active_task option \<Rightarrow> event_args \<Rightarrow> sim_state \<Rightarrow> sim_state res" where
  "emit cfg kind t idx active args st =
     (let st = st\<lparr>sm_peak_fast := max (sm_peak_fast st) (loc_total st ''fast'' + sm_workspace st),
                  sm_peak_backing := max (sm_peak_backing st) (loc_total st ''backing'')\<rparr>
      in bindE (emit_memory_trace cfg t st) (\<lambda>st.
         if \<not> sc_snapshots cfg then Inr st
         else bindE (take_snapshot (sm_pool st) active (drop idx (tc_tasks (sc_chain cfg))) (sc_ref_starts cfg)) (\<lambda>snap.
              Inr (st\<lparr>sm_events := sm_events st @ [\<lparr>se_t = t, se_kind = kind, se_snapshot = snap, se_args = args\<rparr>]\<rparr>))))"

section \<open>Transfers\<close>

definition sim_transfer_runtime :: "task_chain \<Rightarrow> direction \<Rightarrow> int \<Rightarrow> time option \<Rightarrow> time res" where
  "sim_transfer_runtime c d sz override =
     (case override of
        Some r \<Rightarrow> Inr (max r 0)
      | None \<Rightarrow>
          (case (case d of FromSlow \<Rightarrow> tc_bandwidth_from_slow c | ToSlow \<Rightarrow> tc_bandwidth_to_slow c) of
             None \<Rightarrow> Inl (ValueError ''transfer needs bandwidth'')
           | Some bw \<Rightarrow>
               (if bw = 0 then Inl (RuntimeError ''ZeroDivisionError'')
                else Inr (of_int (max ((sz + bw - 1) div bw) 1)))))"

definition dst_loc :: "direction \<Rightarrow> string" where
  "dst_loc d = (case d of FromSlow \<Rightarrow> ''fast'' | ToSlow \<Rightarrow> ''backing'')"

text \<open>Does the destination lack room for the queue head? Bytes of an entry that is overwritten count once.\<close>

definition head_blocked :: "task_chain \<Rightarrow> direction \<Rightarrow> queued_tx \<Rightarrow> sim_state \<Rightarrow> bool" where
  "head_blocked c d tx st =
     (case chain_capacity c (dst_loc d) of
        None \<Rightarrow> False
      | Some cap \<Rightarrow>
          (let already = (case dget (sm_pool st) (qx_obj_id tx, dst_loc d) of None \<Rightarrow> 0 | Some e \<Rightarrow> pe_size e);
               workspace = (if dst_loc d = ''fast'' then sm_workspace st else 0)
           in cap - loc_total st (dst_loc d) - workspace + already < qx_src_size tx))"

definition new_inbound :: "direction \<Rightarrow> queued_tx \<Rightarrow> pool_entry" where
  "new_inbound d tx =
     \<lparr>pe_size = qx_src_size tx, pe_state = Inbound, pe_location = dst_loc d,
      pe_type = (case qx_dst_type tx of None \<Rightarrow> ''other'' | Some ty \<Rightarrow> if ty = [] then ''other'' else ty)\<rparr>"

definition place_destination :: "direction \<Rightarrow> queued_tx \<Rightarrow> sim_state \<Rightarrow> sim_state res" where
  "place_destination d tx st =
     (let oid = qx_obj_id tx; existing = dget (sm_pool st) (oid, dst_loc d)
      in bindE (case d of FromSlow \<Rightarrow> Inr st | ToSlow \<Rightarrow> set_entry_state oid ''fast'' Outbound st) (\<lambda>st.
         case existing of
           None \<Rightarrow> add_total (dst_loc d) (qx_src_size tx) (put_entry oid (dst_loc d) (new_inbound d tx) st)
         | Some e \<Rightarrow>
             (if d = ToSlow \<and> pe_size e \<noteq> qx_src_size tx then Inl (ValueError ''to_slow overwrite size mismatch'')
              else Inr (put_entry oid (dst_loc d) (e\<lparr>pe_state := Inbound\<rparr>) st))))"

definition start_transfer :: "sim_config \<Rightarrow> direction \<Rightarrow> queued_tx \<Rightarrow> time \<Rightarrow> nat \<Rightarrow> sim_state \<Rightarrow> sim_state res" where
  "start_transfer cfg d tx now idx st =
     (let oid = qx_obj_id tx;
          fl = \<lparr>fl_obj_id = oid, fl_direction = d, fl_src_size = qx_src_size tx, fl_start_t = now,
                fl_end_t = now + qx_runtime tx\<rparr>;
          seq = dget_or (sm_seq st) (d, oid) 0;
          base = direction_name d @ '':'' @ oid;
          name = (if seq = 0 then base else base @ ''#'' @ show_nat (nat seq));
          st = (set_inflight d (Some fl) st)\<lparr>sm_seq := dset (d, oid) (seq + 1) (sm_seq st),
                 sm_intervals := sm_intervals st @ [\<lparr>ti_task_id = name, ti_start = now,
                   ti_end = now + qx_runtime tx, ti_track = direction_name d\<rparr>]\<rparr>
      in emit cfg ''transfer_start'' now idx None (args_transfer oid d) st)"

definition sim_try_start :: "sim_config \<Rightarrow> direction \<Rightarrow> time \<Rightarrow> nat \<Rightarrow> sim_state \<Rightarrow> sim_state res" where
  "sim_try_start cfg d now idx st =
     (case (sim_inflight d st, sim_queue d st) of
        (None, tx # rest) \<Rightarrow>
          (if head_blocked (sc_chain cfg) d tx st then Inr st
           else bindE (place_destination d tx (set_queue d rest st)) (start_transfer cfg d tx now idx))
      | _ \<Rightarrow> Inr st)"

definition activate :: "sim_config \<Rightarrow> time \<Rightarrow> nat \<Rightarrow> queued_tx \<Rightarrow> sim_state \<Rightarrow> sim_state res" where
  "activate cfg t idx tx st =
     emit cfg ''transfer_enqueue'' t idx None (args_transfer (qx_obj_id tx) FromSlow)
       (st\<lparr>sm_q_from := sm_q_from st @ [tx]\<rparr>)"

text \<open>The slots of the two sides at a completion.\<close>

definition finish_slots :: "direction \<Rightarrow> string \<Rightarrow> sim_state \<Rightarrow> sim_state res" where
  "finish_slots d oid st =
     (case d of
        FromSlow \<Rightarrow> set_entry_state oid ''fast'' Live st
      | ToSlow \<Rightarrow>
          bindE (pool_at oid ''fast'' st) (\<lambda>e.
          bindE (add_total ''fast'' (- pe_size e) st) (\<lambda>st.
          set_entry_state oid ''backing'' Live (st\<lparr>sm_pool := ddel (oid, ''fast'') (sm_pool st)\<rparr>))))"

definition sim_complete :: "sim_config \<Rightarrow> direction \<Rightarrow> time \<Rightarrow> nat \<Rightarrow> sim_state \<Rightarrow> sim_state res" where
  "sim_complete cfg d t idx st =
     (case sim_inflight d st of
        None \<Rightarrow> Inl (AssertionError ''in flight'')
      | Some fl \<Rightarrow>
          (let oid = fl_obj_id fl
           in bindE (finish_slots d oid st) (\<lambda>st.
              bindE (emit cfg ''transfer_end'' t idx None (args_transfer oid d) (set_inflight d None st)) (\<lambda>st.
              if d = ToSlow
              then foldE (activate cfg t idx) (dget_or (sm_deferred st) oid [])
                     (st\<lparr>sm_deferred := ddel oid (sm_deferred st)\<rparr>)
              else Inr st))))"

definition end_of :: "direction \<Rightarrow> sim_state \<Rightarrow> time" where
  "end_of d st = (case sim_inflight d st of None \<Rightarrow> INF_T | Some fl \<Rightarrow> fl_end_t fl)"

text \<open>The loop body shared by \<open>advance\<close> and the final drain: the earlier completion, from-slow on a tie.\<close>

definition complete_next :: "sim_config \<Rightarrow> nat \<Rightarrow> sim_state \<Rightarrow> sim_state res" where
  "complete_next cfg idx st =
     (if end_of FromSlow st \<le> end_of ToSlow st
      then bindE (sim_complete cfg FromSlow (end_of FromSlow st) idx st) (sim_try_start cfg FromSlow (end_of FromSlow st) idx)
      else
        let t = end_of ToSlow st
        in bindE (sim_complete cfg ToSlow t idx st) (\<lambda>st.
           bindE (sim_try_start cfg ToSlow t idx st) (sim_try_start cfg FromSlow t idx)))"

fun sim_advance :: "nat \<Rightarrow> sim_config \<Rightarrow> time \<Rightarrow> nat \<Rightarrow> sim_state \<Rightarrow> sim_state res" where
  "sim_advance n cfg target idx st =
     (if target < min (end_of FromSlow st) (end_of ToSlow st) then Inr st
      else case n of
             0 \<Rightarrow> Inl OutOfFuel
           | Suc n \<Rightarrow> bindE (complete_next cfg idx st) (sim_advance n cfg target idx))"

fun sim_drain :: "nat \<Rightarrow> sim_config \<Rightarrow> nat \<Rightarrow> sim_state \<Rightarrow> sim_state res" where
  "sim_drain n cfg idx st =
     (if sm_in_from st = None \<and> sm_in_to st = None then Inr st
      else case n of
             0 \<Rightarrow> Inl OutOfFuel
           | Suc n \<Rightarrow> bindE (complete_next cfg idx st) (sim_drain n cfg idx))"

section \<open>Predictions\<close>

definition queue_schedule :: "time \<Rightarrow> queued_tx list \<Rightarrow> time \<Rightarrow> (string \<times> time \<times> time \<times> int) list" where
  "queue_schedule now q cursor =
     fst (fold (\<lambda>tx (out, cursor).
            let start = max cursor now; e = start + qx_runtime tx
            in (out @ [(qx_obj_id tx, start, e, qx_src_size tx)], e)) q ([], cursor))"

definition predict_schedule :: "direction \<Rightarrow> time \<Rightarrow> sim_state \<Rightarrow> (string \<times> time \<times> time \<times> int) list" where
  "predict_schedule d now st =
     (case sim_inflight d st of
        None \<Rightarrow> queue_schedule now (sim_queue d st) now
      | Some fl \<Rightarrow> (fl_obj_id fl, fl_start_t fl, fl_end_t fl, fl_src_size fl) #
                   queue_schedule now (sim_queue d st) (fl_end_t fl))"

definition scheduled_end :: "string \<Rightarrow> (string \<times> time \<times> time \<times> int) list \<Rightarrow> time option" where
  "scheduled_end oid sched = map_option (\<lambda>(_, _, e, _). e) (find (\<lambda>(o1, _). o1 = oid) sched)"

definition deferred_prefetch_ready_t :: "string \<Rightarrow> time \<Rightarrow> sim_state \<Rightarrow> time res" where
  "deferred_prefetch_ready_t inp now st =
     (case dget_or (sm_deferred st) inp [] of
        [] \<Rightarrow> Inl (RuntimeError ''no deferred prefetch'')
      | w # _ \<Rightarrow>
          (case scheduled_end inp (predict_schedule ToSlow now st) of
             None \<Rightarrow> Inl (RuntimeError ''no to_slow is scheduled'')
           | Some to_slow_end \<Rightarrow>
               (let ends = map (\<lambda>(_, _, e, _). e) (predict_schedule FromSlow now st);
                    busy = (if ends = [] then now else Max (set ends))
                in Inr (max to_slow_end busy + qx_runtime w))))"

text \<open>\<open>repr\<close> of a string: escapes, and double quotes when the string has single quotes only.\<close>

definition repr_char :: "char \<Rightarrow> char \<Rightarrow> string" where
  "repr_char quote ch =
     (let n = of_char ch :: nat; hex = (\<lambda>k. if k < 10 then char_of (48 + k) else char_of (87 + k))
      in if ch = quote \<or> n = 92 then [CHR 0x5C, ch]
         else if n = 9 then [CHR 0x5C, CHR ''t'']
         else if n = 10 then [CHR 0x5C, CHR ''n'']
         else if n = 13 then [CHR 0x5C, CHR ''r'']
         else if n < 32 \<or> 127 \<le> n \<and> n \<le> 160 \<or> n = 173 then [CHR 0x5C, CHR ''x'', hex (n div 16), hex (n mod 16)]
         else [ch])"

definition py_repr :: "string \<Rightarrow> string" where
  "py_repr s =
     (let quote = (if CHR 0x27 \<in> set s \<and> CHR 0x22 \<notin> set s then CHR 0x22 else CHR 0x27)
      in quote # concat (map (repr_char quote) s) @ [quote])"

definition state_name :: "slot_state \<Rightarrow> string" where
  "state_name s =
     (case s of Reserved \<Rightarrow> ''reserved'' | Live \<Rightarrow> ''live'' | PendingOutbound \<Rightarrow> ''pending_outbound'' | Outbound \<Rightarrow> ''outbound''
      | PendingInbound \<Rightarrow> ''pending_inbound'' | Inbound \<Rightarrow> ''inbound'')"

text \<open>The one message that a caller of the simulator parses, in full.\<close>

definition in_flight_message :: "string \<Rightarrow> slot_state \<Rightarrow> string" where
  "in_flight_message inp state =
     ''input '' @ py_repr inp @ '' is being offloaded (state='' @ state_name state @
     '') and no re-prefetch is scheduled; compute cannot use it''"

definition input_ready_t :: "string \<Rightarrow> time \<Rightarrow> sim_state \<Rightarrow> time res" where
  "input_ready_t inp now st =
     (case dget (sm_pool st) (inp, ''fast'') of
        None \<Rightarrow>
          (if dget (sm_deferred st) inp \<noteq> None then deferred_prefetch_ready_t inp now st
           else case scheduled_end inp (predict_schedule FromSlow now st) of
                  Some e \<Rightarrow> Inr e
                | None \<Rightarrow> Inl (ValueError (if dget (sm_pool st) (inp, ''backing'') \<noteq> None
                                then ''input on backing only'' else ''input not in pool'')))
      | Some entry \<Rightarrow>
          (case pe_state entry of
             Live \<Rightarrow> Inr now
           | Inbound \<Rightarrow>
               (case scheduled_end inp (predict_schedule FromSlow now st) of
                  Some e \<Rightarrow> Inr e | None \<Rightarrow> Inl (RuntimeError ''no scheduled from_slow''))
           | Reserved \<Rightarrow> Inl (ValueError ''input reserved by another task'')
           | PendingInbound \<Rightarrow> Inl (ValueError ''input has unknown state'')
           | _ \<Rightarrow>
               (if dget (sm_deferred st) inp \<noteq> None then deferred_prefetch_ready_t inp now st
                else Inl (ValueError (in_flight_message inp (pe_state entry))))))"

fun first_fit_end :: "int \<Rightarrow> int \<Rightarrow> (string \<times> time \<times> time \<times> int) list \<Rightarrow> time res" where
  "first_fit_end needed free [] = Inl (ValueError ''fast-output-reservation'')"
| "first_fit_end needed free ((_, _, e, n) # sched) =
     (if needed \<le> free + n then Inr e else first_fit_end needed (free + n) sched)"

definition reservation_ready_t :: "task_chain \<Rightarrow> int \<Rightarrow> time \<Rightarrow> sim_state \<Rightarrow> time res" where
  "reservation_ready_t c needed now st =
     (case tc_fast_memory_capacity c of
        None \<Rightarrow> Inr now
      | Some cap \<Rightarrow>
          (let free = cap - loc_total st ''fast'' - sm_workspace st
           in if needed \<le> free then Inr now
              else first_fit_end needed free (sort_key (\<lambda>(_, _, e, _). e) (predict_schedule ToSlow now st))))"

section \<open>One task\<close>

definition fast_output_bytes :: "sim_task \<Rightarrow> int" where
  "fast_output_bytes t = (\<Sum>out \<leftarrow> filter (\<lambda>out. oa_location out = ''fast'') (sk_outputs t). oa_size out)"

definition backing_output_bytes :: "sim_task \<Rightarrow> int" where
  "backing_output_bytes t = (\<Sum>out \<leftarrow> filter (\<lambda>out. oa_location out = ''backing'') (sk_outputs t). oa_size out)"

definition reservation_bytes :: "sim_task \<Rightarrow> int" where
  "reservation_bytes t = fast_output_bytes t + sk_workspace_bytes t"

text \<open>The predicted start: when the compute stream, the inputs and the fast memory are ready.\<close>

definition earliest_start :: "sim_config \<Rightarrow> sim_task \<Rightarrow> sim_state \<Rightarrow> time res" where
  "earliest_start cfg t st =
     (let probe = sm_busy_until st
      in bindE (foldE (\<lambda>inp target. bindE (input_ready_t inp probe st) (\<lambda>r. Inr (max target r))) (sk_inputs t) probe) (\<lambda>target.
         if 0 < reservation_bytes t
         then bindE (reservation_ready_t (sc_chain cfg) (reservation_bytes t) probe st) (\<lambda>r. Inr (max target r))
         else Inr target))"

definition ready_to_run :: "sim_config \<Rightarrow> sim_task \<Rightarrow> sim_state \<Rightarrow> bool" where
  "ready_to_run cfg t st \<longleftrightarrow>
     (\<forall>inp \<in> set (sk_inputs t). map_option pe_state (dget (sm_pool st) (inp, ''fast'')) = Some Live) \<and>
     (0 < reservation_bytes t \<longrightarrow>
        (case tc_fast_memory_capacity (sc_chain cfg) of
           None \<Rightarrow> True | Some cap \<Rightarrow> loc_total st ''fast'' + reservation_bytes t \<le> cap))"

fun wait_ready :: "nat \<Rightarrow> nat \<Rightarrow> sim_config \<Rightarrow> nat \<Rightarrow> sim_task \<Rightarrow> time \<Rightarrow> sim_state \<Rightarrow> (time \<times> sim_state) res" where
  "wait_ready fuel n cfg i t target st =
     (if ready_to_run cfg t st then Inr (target, st)
      else case n of
             0 \<Rightarrow> Inl OutOfFuel
           | Suc n \<Rightarrow>
               bindE (sim_try_start cfg FromSlow target i st) (\<lambda>st.
               bindE (sim_try_start cfg ToSlow target i st) (\<lambda>st.
               let next_end = min (end_of FromSlow st) (end_of ToSlow st)
               in if next_end = INF_T then Inl (ValueError ''fast-deadlock'')
                  else bindE (sim_advance fuel cfg next_end i st) (wait_ready fuel n cfg i t next_end))))"

definition reserve_alloc :: "output_alloc \<Rightarrow> sim_state \<Rightarrow> sim_state res" where
  "reserve_alloc out st =
     bindE (guardE (dget (sm_pool st) (oa_id out, oa_location out) = None)
              (ValueError ''output collides with existing object'')) (\<lambda>_.
     add_total (oa_location out) (oa_size out)
       (put_entry (oa_id out) (oa_location out)
          \<lparr>pe_size = oa_size out, pe_state = Reserved, pe_location = oa_location out, pe_type = oa_type out\<rparr> st))"

text \<open>The backing check, the reservation of workspace and outputs, and the hard invariant on fast memory.\<close>

definition reserve_task :: "sim_config \<Rightarrow> sim_task \<Rightarrow> sim_state \<Rightarrow> sim_state res" where
  "reserve_task cfg t st =
     bindE (guardE (case tc_backing_memory_capacity (sc_chain cfg) of None \<Rightarrow> True
                      | Some cap \<Rightarrow> loc_total st ''backing'' + backing_output_bytes t \<le> cap)
              (ValueError ''cannot allocate on backing'')) (\<lambda>_.
     bindE (foldE reserve_alloc (sk_outputs t) (st\<lparr>sm_workspace := sk_workspace_bytes t\<rparr>)) (\<lambda>st.
     bindE (guardE (case tc_fast_memory_capacity (sc_chain cfg) of None \<Rightarrow> True
                      | Some cap \<Rightarrow> loc_total st ''fast'' + sm_workspace st \<le> cap)
              (ValueError ''over-committed fast memory'')) (\<lambda>_. Inr st)))"

definition last_refs :: "task_chain \<Rightarrow> (string, int) dict" where
  "last_refs c =
     fold (\<lambda>(i, t) d. fold (\<lambda>trig. dset (tt_obj_id trig) (int i)) (sk_prefetch_after t)
            (fold (\<lambda>trig. dset (tt_obj_id trig) (int i)) (sk_offload_after t)
              (fold (\<lambda>oid. dset oid (int i)) (sk_inputs t) d))) (enumerate 0 (tc_tasks c)) []"

definition sim_release :: "sim_config \<Rightarrow> nat \<Rightarrow> string \<Rightarrow> sim_state \<Rightarrow> sim_state res" where
  "sim_release cfg i oid st =
     (case dget (sm_pool st) (oid, ''fast'') of
        None \<Rightarrow> Inl (ValueError ''cannot release: no fast copy'')
      | Some entry \<Rightarrow>
          (if pe_state entry \<noteq> Live then Inl (ValueError ''cannot release: not live'')
           else
             bindE (add_total ''fast'' (- pe_size entry) st) (\<lambda>st.
             let st = st\<lparr>sm_pool := ddel (oid, ''fast'') (sm_pool st)\<rparr>
             in if dget_or (last_refs (sc_chain cfg)) oid (- 1) \<le> int i \<and> dget (tc_final_locations (sc_chain cfg)) oid = None
                then case dget (sm_pool st) (oid, ''backing'') of
                       None \<Rightarrow> Inr st
                     | Some bk \<Rightarrow>
                         (if pe_state bk = Live
                          then bindE (add_total ''backing'' (- pe_size bk) st) (\<lambda>st.
                                 Inr (st\<lparr>sm_pool := ddel (oid, ''backing'') (sm_pool st)\<rparr>))
                          else Inr st)
                else Inr st)))"

definition sim_offload :: "sim_config \<Rightarrow> nat \<Rightarrow> time \<Rightarrow> transfer_trigger \<Rightarrow> sim_state \<Rightarrow> sim_state res" where
  "sim_offload cfg i end_t trig st =
     (let oid = tt_obj_id trig
      in case dget (sm_pool st) (oid, ''fast'') of
           None \<Rightarrow> Inl (ValueError ''cannot offload: fast entry absent'')
         | Some src \<Rightarrow>
             (if pe_state src \<noteq> Live then Inl (ValueError ''cannot offload: fast entry not live'')
              else
                bindE (case dget (sm_pool st) (oid, ''backing'') of
                    None \<Rightarrow> Inr ()
                  | Some bk \<Rightarrow>
                      (if pe_state bk \<noteq> Live then Inl (ValueError ''cannot offload: backing entry not live'')
                       else guardE (pe_size bk = pe_size src) (ValueError ''cannot offload: size mismatch''))) (\<lambda>_.
                bindE (sim_transfer_runtime (sc_chain cfg) ToSlow (pe_size src) (tt_runtime trig)) (\<lambda>rt.
                emit cfg ''transfer_enqueue'' end_t (Suc i) None (args_transfer oid ToSlow)
                  ((put_entry oid ''fast'' (src\<lparr>pe_state := PendingOutbound\<rparr>) st)\<lparr>sm_q_to := sm_q_to st @
                     [\<lparr>qx_obj_id = oid, qx_direction = ToSlow, qx_src_size = pe_size src, qx_runtime = rt,
                       qx_dst_type = Some (pe_type src)\<rparr>]\<rparr>)))))"

definition prefetch_job :: "sim_config \<Rightarrow> transfer_trigger \<Rightarrow> pool_entry \<Rightarrow> queued_tx res" where
  "prefetch_job cfg trig src =
     bindE (sim_transfer_runtime (sc_chain cfg) FromSlow (pe_size src) (tt_runtime trig)) (\<lambda>rt.
     Inr \<lparr>qx_obj_id = tt_obj_id trig, qx_direction = FromSlow, qx_src_size = pe_size src, qx_runtime = rt,
          qx_dst_type = Some (pe_type src)\<rparr>)"

definition in_states :: "pool_entry option \<Rightarrow> slot_state list \<Rightarrow> bool" where
  "in_states e ss = (case e of None \<Rightarrow> False | Some e \<Rightarrow> pe_state e \<in> set ss)"

definition sim_prefetch :: "sim_config \<Rightarrow> nat \<Rightarrow> time \<Rightarrow> transfer_trigger \<Rightarrow> sim_state \<Rightarrow> sim_state res" where
  "sim_prefetch cfg i end_t trig st =
     (let oid = tt_obj_id trig;
          src = dget (sm_pool st) (oid, ''backing''); dev = dget (sm_pool st) (oid, ''fast'')
      in if in_states dev [Live, Inbound] then Inl (ValueError ''cannot prefetch: fast copy already exists'')
         else if in_states dev [PendingOutbound, Outbound] \<or> in_states src [PendingInbound, Inbound]
         then
           bindE (case (src, dev) of
               (Some e, _) \<Rightarrow> prefetch_job cfg trig e
             | (None, Some e) \<Rightarrow> prefetch_job cfg trig e
             | (None, None) \<Rightarrow> Inl (AttributeError ''type'')) (\<lambda>tx.
           emit cfg ''transfer_deferred'' end_t (Suc i) None (args_transfer oid FromSlow)
             (st\<lparr>sm_deferred := dappend oid tx (sm_deferred st)\<rparr>))
         else
           case src of
             None \<Rightarrow> Inl (ValueError ''cannot prefetch: no recoverable backing source'')
           | Some e \<Rightarrow>
               (if pe_state e \<noteq> Live then Inl (ValueError ''cannot prefetch: no recoverable backing source'')
                else bindE (prefetch_job cfg trig e) (\<lambda>tx.
                     emit cfg ''transfer_enqueue'' end_t (Suc i) None (args_transfer oid FromSlow)
                       (st\<lparr>sm_q_from := sm_q_from st @ [tx]\<rparr>))))"

text \<open>The actions after a task's end: outputs, releases, offloads, prefetches, and the idle streams.\<close>

definition end_task :: "sim_config \<Rightarrow> nat \<Rightarrow> sim_task \<Rightarrow> time \<Rightarrow> sim_state \<Rightarrow> sim_state res" where
  "end_task cfg i t end_t st =
     bindE (foldE (\<lambda>out. set_entry_state (oa_id out) (oa_location out) Live) (sk_outputs t) (st\<lparr>sm_workspace := 0\<rparr>)) (\<lambda>st.
     bindE (emit cfg ''task_end'' end_t (Suc i) None (args_task (sk_id t)) st) (\<lambda>st.
     bindE (if sk_releases_after t = [] then Inr st
            else bindE (foldE (sim_release cfg i) (sk_releases_after t) st)
                   (emit cfg ''release'' end_t (Suc i) None (args_objects (sk_releases_after t)))) (\<lambda>st.
     bindE (foldE (sim_offload cfg i end_t) (sk_offload_after t) st) (\<lambda>st.
     bindE (foldE (sim_prefetch cfg i end_t) (sk_prefetch_after t) st) (\<lambda>st.
     bindE (sim_try_start cfg FromSlow end_t (Suc i) st) (sim_try_start cfg ToSlow end_t (Suc i)))))))"

definition begin_task :: "sim_config \<Rightarrow> nat \<Rightarrow> sim_task \<Rightarrow> time \<Rightarrow> sim_state \<Rightarrow> sim_state res" where
  "begin_task cfg i t start st =
     bindE (reserve_task cfg t st) (\<lambda>st.
     let end_t = start + sk_runtime t
     in emit cfg ''task_start'' start i (Some \<lparr>at_id = sk_id t, at_ends_at = end_t\<rparr>) (args_task (sk_id t))
          (st\<lparr>sm_intervals := sm_intervals st @ [\<lparr>ti_task_id = sk_id t, ti_start = start, ti_end = end_t,
                ti_track = ''compute''\<rparr>], sm_busy_until := end_t\<rparr>))"

definition sim_task_step :: "nat \<Rightarrow> sim_config \<Rightarrow> nat \<times> sim_task \<Rightarrow> sim_state \<Rightarrow> sim_state res" where
  "sim_task_step fuel cfg it st = (case it of (i, t) \<Rightarrow>
     bindE (earliest_start cfg t st) (\<lambda>target.
     bindE (sim_advance fuel cfg target i st) (\<lambda>st.
     bindE (wait_ready fuel fuel cfg i t target st) (\<lambda>(start, st).
     bindE (begin_task cfg i t start st) (\<lambda>st.
     let end_t = start + sk_runtime t
     in bindE (sim_advance fuel cfg end_t (Suc i) st) (end_task cfg i t end_t))))))"

section \<open>A whole run\<close>

definition load_object :: "sim_object \<Rightarrow> sim_state \<Rightarrow> sim_state res" where
  "load_object ob st =
     bindE (guardE (dget (sm_pool st) (so_id ob, so_location ob) = None) (ValueError ''duplicate in initial_memory'')) (\<lambda>_.
     add_total (so_location ob) (so_size ob)
       (put_entry (so_id ob) (so_location ob)
          \<lparr>pe_size = so_size ob, pe_state = Live, pe_location = so_location ob, pe_type = so_type ob\<rparr> st))"

definition empty_state :: sim_state where
  "empty_state =
     \<lparr>sm_pool = [], sm_events = [], sm_intervals = [], sm_memory_points = [], sm_in_from = None, sm_in_to = None,
      sm_q_from = [], sm_q_to = [], sm_busy_until = 0, sm_workspace = 0, sm_deferred = [], sm_seq = [],
      sm_total = [(''backing'', 0), (''fast'', 0)], sm_peak_fast = 0, sm_peak_backing = 0\<rparr>"

definition start_state :: "task_chain \<Rightarrow> sim_state res" where
  "start_state c =
     bindE (foldE load_object (tc_initial_memory c) empty_state) (\<lambda>st.
     bindE (check_initial_capacity c (sm_total st)) (\<lambda>_.
     Inr (st\<lparr>sm_peak_fast := loc_total st ''fast'', sm_peak_backing := loc_total st ''backing''\<rparr>)))"

definition run_impl :: "nat \<Rightarrow> task_chain \<Rightarrow> (string, time) dict option \<Rightarrow> bool \<Rightarrow> bool \<Rightarrow> event_log res" where
  "run_impl fuel c override snapshots memory_trace =
     (let cfg = \<lparr>sc_chain = c, sc_snapshots = snapshots, sc_memory_trace = memory_trace,
            sc_ref_starts = (if snapshots then (case override of Some d \<Rightarrow> d | None \<Rightarrow> precompute_task_starts c) else [])\<rparr>
      in bindE (start_state c) (\<lambda>st.
         bindE (foldE (sim_task_step fuel cfg) (enumerate 0 (tc_tasks c)) st) (\<lambda>st.
         bindE (sim_drain fuel cfg (length (tc_tasks c)) st) (\<lambda>st.
         bindE (guardE (sm_q_from st = [] \<and> sm_q_to st = [] \<and> sm_deferred st = [])
                  (ValueError ''simulator finished with transfers still queued'')) (\<lambda>_.
         Inr \<lparr>el_task_intervals = sm_intervals st, el_events = sm_events st,
              el_peak_fast_memory_bytes = sm_peak_fast st,
              el_peak_backing_memory_bytes = max (sm_peak_backing st) (loc_total st ''backing''),
              el_memory_trace = sm_memory_points st\<rparr>)))))"

definition sim_run :: "nat \<Rightarrow> task_chain \<Rightarrow> bool \<Rightarrow> bool \<Rightarrow> bool \<Rightarrow> event_log res" where
  "sim_run fuel c validate snapshots memory_trace =
     bindE (if validate then validate_chain c else Inr ()) (\<lambda>_.
     if \<not> snapshots then run_impl fuel c None False memory_trace
     else bindE (run_impl fuel c None False False) (\<lambda>first.
          let actual = fold (\<lambda>iv. dset (ti_task_id iv) (ti_start iv))
                (filter (\<lambda>iv. ti_track iv = ''compute'') (el_task_intervals first)) []
          in run_impl fuel c (Some actual) True memory_trace))"

declare sim_advance.simps [simp del] sim_drain.simps [simp del] wait_ready.simps [simp del]

lemma demo_sim_run:
  "case sim_run 20 demo_chain True False True of
     Inr lg \<Rightarrow> el_peak_fast_memory_bytes lg = 95 \<and> map ti_end (el_task_intervals lg) = [10, 13, 23, 26, 31] | Inl _ \<Rightarrow> False"
  by code_simp

end
