(* ===== verification/Sim_Moves.thy ===== *)
theory Sim_Moves
  imports Simulator Engine_Progress
begin

text \<open>
  The simulator's invariant and the operations of its transfer streams: the running totals are the sums
  of the pool, fast memory with the active workspace never exceeds its capacity, each stream serves one
  request at a time in order. Each operation keeps the invariant and bounds the transfers it adds, so
  that advancing to a time and draining end.
\<close>

section \<open>The pool and its totals\<close>

definition pool_bytes :: "string \<Rightarrow> sim_pool \<Rightarrow> int" where
  "pool_bytes loc pool = dsum (\<lambda>e. if pe_location e = loc then pe_size e else 0) pool"

definition pool_inv :: "sim_pool \<Rightarrow> (string, int) dict \<Rightarrow> bool" where
  "pool_inv pool tot \<longleftrightarrow> distinct (map fst pool) \<and>
     (\<forall>oid loc e. dget pool (oid, loc) = Some e \<longrightarrow> pe_location e = loc \<and> 0 \<le> pe_size e) \<and>
     tot = [(''backing'', pool_bytes ''backing'' pool), (''fast'', pool_bytes ''fast'' pool)]"

abbreviation pool_ok :: "sim_state \<Rightarrow> bool" where
  "pool_ok st \<equiv> pool_inv (sm_pool st) (sm_total st)"

lemma pool_ok_total: "pool_ok st \<Longrightarrow> loc \<in> {''fast'', ''backing''} \<Longrightarrow> loc_total st loc = pool_bytes loc (sm_pool st)"
  by (auto simp: pool_inv_def loc_total_def)

lemma pool_ok_entry:
  "pool_ok st \<Longrightarrow> dget (sm_pool st) (oid, loc) = Some e \<Longrightarrow> pe_location e = loc \<and> 0 \<le> pe_size e"
  by (auto simp: pool_inv_def)

lemma pool_bytes_set:
  assumes "pool_inv pool tot" and "dget pool (oid, loc) = Some e"
  shows "pool_bytes l (dset (oid, loc) (e\<lparr>pe_state := s\<rparr>) pool) = pool_bytes l pool"
  using assms by (simp add: pool_bytes_def dsum_dset)

lemma pool_inv_state:
  assumes "pool_inv pool tot" and "dget pool (oid, loc) = Some e"
  shows "pool_inv (dset (oid, loc) (e\<lparr>pe_state := s\<rparr>) pool) tot"
  using assms pool_bytes_set [OF assms] by (auto simp: pool_inv_def)

lemma add_total_shape:
  assumes "sm_total st = [(''backing'', b), (''fast'', f)]"
  shows "add_total loc n st =
    (if loc = ''backing'' then Inr (st\<lparr>sm_total := [(''backing'', b + n), (''fast'', f)]\<rparr>)
     else if loc = ''fast'' then Inr (st\<lparr>sm_total := [(''backing'', b), (''fast'', f + n)]\<rparr>)
     else Inl (KeyError loc))"
  by (simp add: add_total_def assms)

definition totals :: "sim_pool \<Rightarrow> (string, int) dict" where
  "totals pool = [(''backing'', pool_bytes ''backing'' pool), (''fast'', pool_bytes ''fast'' pool)]"

lemma totals_get: "dget_or (totals pool) l 0 = (if l \<in> {''fast'', ''backing''} then pool_bytes l pool else 0)"
  by (auto simp: totals_def dget_or_def)

lemma pool_inv_totals: "pool_inv pool tot \<longleftrightarrow> distinct (map fst pool) \<and>
     (\<forall>oid loc e. dget pool (oid, loc) = Some e \<longrightarrow> pe_location e = loc \<and> 0 \<le> pe_size e) \<and> tot = totals pool"
  by (simp add: pool_inv_def totals_def)

lemma add_total_totals:
  assumes "\<And>l. pool_bytes l pool' = pool_bytes l pool + (if l = loc then n else 0)" and "sm_total st = totals pool"
  shows "add_total loc n st = (if loc \<in> {''fast'', ''backing''} then Inr (st\<lparr>sm_total := totals pool'\<rparr>) else Inl (KeyError loc))"
  unfolding add_total_shape [OF assms(2) [unfolded totals_def]] totals_def assms(1) by simp

text \<open>A new entry with its bytes added, an entry deleted with its bytes taken off.\<close>

lemma add_entry_ok:
  assumes "pool_ok st" and "dget (sm_pool st) (oid, loc) = None" and "pe_location e = loc" and "0 \<le> pe_size e"
    and "add_total loc (pe_size e) (put_entry oid loc e st) = Inr st'"
  shows "pool_ok st'" and "loc \<in> {''fast'', ''backing''}"
    and "\<exists>tot. st' = st\<lparr>sm_pool := dset (oid, loc) e (sm_pool st), sm_total := tot\<rparr>"
    and "l \<in> {''fast'', ''backing''} \<Longrightarrow> loc_total st' l = loc_total st l + (if l = loc then pe_size e else 0)"
proof -
  let ?p = "dset (oid, loc) e (sm_pool st)"
  have bytes: "pool_bytes l ?p = pool_bytes l (sm_pool st) + (if l = loc then pe_size e else 0)" for l
    using assms(2,3) by (simp add: pool_bytes_def dsum_dset)
  have "sm_total (put_entry oid loc e st) = totals (sm_pool st)" using assms(1) by (simp add: put_entry_def pool_inv_totals)
  from add_total_totals [OF bytes this]
  have st': "st' = st\<lparr>sm_pool := ?p, sm_total := totals ?p\<rparr>" and loc: "loc \<in> {''fast'', ''backing''}"
    using assms(5) by (simp_all add: put_entry_def split: if_splits)
  show "pool_ok st'" using assms(1,3,4) by (auto simp: st' pool_inv_totals)
  show "loc \<in> {''fast'', ''backing''}" by (rule loc)
  show "\<exists>tot. st' = st\<lparr>sm_pool := ?p, sm_total := tot\<rparr>" using st' by blast
  show "loc_total st' l = loc_total st l + (if l = loc then pe_size e else 0)" if "l \<in> {''fast'', ''backing''}"
    using that assms(1) bytes [of l] by (simp add: loc_total_def st' pool_inv_totals totals_get)
qed

lemma delete_entry_ok:
  assumes "pool_ok st" and "dget (sm_pool st) (oid, loc) = Some e" and "loc \<in> {''fast'', ''backing''}"
  shows "\<exists>tot. add_total loc (- pe_size e) st = Inr (st\<lparr>sm_total := tot\<rparr>) \<and>
      pool_ok (st\<lparr>sm_total := tot, sm_pool := ddel (oid, loc) (sm_pool st)\<rparr>) \<and>
      (\<forall>l \<in> {''fast'', ''backing''}. dget_or tot l 0 = loc_total st l - (if l = loc then pe_size e else 0))"
proof -
  let ?p = "ddel (oid, loc) (sm_pool st)"
  have d: "distinct (map fst (sm_pool st))" and loc: "pe_location e = loc" using assms by (auto simp: pool_inv_def)
  have bytes: "pool_bytes l ?p = pool_bytes l (sm_pool st) + (if l = loc then - pe_size e else 0)" for l
    using assms(2) loc by (simp add: pool_bytes_def dsum_ddel [OF d])
  have tot: "sm_total st = totals (sm_pool st)" using assms(1) by (simp add: pool_inv_totals)
  have "add_total loc (- pe_size e) st = Inr (st\<lparr>sm_total := totals ?p\<rparr>)"
    using add_total_totals [OF bytes tot] assms(3) by simp
  moreover have "pool_ok (st\<lparr>sm_total := totals ?p, sm_pool := ?p\<rparr>)"
    using assms(1) by (auto simp: pool_inv_totals split: if_splits)
  moreover have "\<forall>l \<in> {''fast'', ''backing''}. dget_or (totals ?p) l 0 = loc_total st l - (if l = loc then pe_size e else 0)"
    unfolding loc_total_def tot totals_get bytes by auto
  ultimately show ?thesis by blast
qed

lemma set_entry_state_ok:
  assumes "pool_ok st"
  shows "outcome (\<lambda>x. x = KeyError oid) (\<lambda>st'. pool_ok st' \<and> (\<exists>p. st' = st\<lparr>sm_pool := p\<rparr>) \<and> (\<forall>l. loc_total st' l = loc_total st l))
    (set_entry_state oid loc s st)"
  using pool_inv_state [OF assms]
  by (auto simp: set_entry_state_def pool_at_def put_entry_def loc_total_def split: option.splits)

text \<open>A change of the pool and its totals only.\<close>

definition pool_step :: "sim_state \<Rightarrow> sim_state \<Rightarrow> bool" where
  "pool_step st st' \<longleftrightarrow> pool_ok st' \<and> (\<exists>p tot. st' = st\<lparr>sm_pool := p, sm_total := tot\<rparr>)"

definition lighter :: "sim_state \<Rightarrow> sim_state \<Rightarrow> bool" where
  "lighter st st' \<longleftrightarrow> (\<forall>l \<in> {''fast'', ''backing''}. loc_total st' l \<le> loc_total st l)"

lemma pool_step_refl: "pool_ok st \<Longrightarrow> pool_step st st"
  unfolding pool_step_def by (rule conjI, assumption, rule exI [of _ "sm_pool st"], rule exI [of _ "sm_total st"]) simp

lemma pool_step_trans: "pool_step a b \<Longrightarrow> pool_step b c \<Longrightarrow> pool_step a c"
  unfolding pool_step_def by fastforce

lemma lighter_refl: "lighter st st"
  by (simp add: lighter_def)

lemma lighter_trans: "lighter a b \<Longrightarrow> lighter b c \<Longrightarrow> lighter a c"
  unfolding lighter_def by force

lemma set_entry_state_step:
  assumes "pool_ok st"
  shows "outcome no_fuel_err (\<lambda>st'. pool_step st st' \<and> lighter st st') (set_entry_state oid loc s st)"
proof (rule outcome_weaken [OF set_entry_state_ok [OF assms]])
  fix st' assume "pool_ok st' \<and> (\<exists>p. st' = st\<lparr>sm_pool := p\<rparr>) \<and> (\<forall>l. loc_total st' l = loc_total st l)"
  then obtain p where p: "pool_ok st'" "st' = st\<lparr>sm_pool := p\<rparr>" and t: "\<forall>l. loc_total st' l = loc_total st l" by blast
  have "st' = st\<lparr>sm_pool := p, sm_total := sm_total st\<rparr>" using p(2) by simp
  then have "pool_step st st'" using p(1) unfolding pool_step_def by blast
  then show "pool_step st st' \<and> lighter st st'" using t by (simp add: lighter_def)
qed simp

lemma delete_entry_step:
  assumes "pool_ok st" and "dget (sm_pool st) (oid, loc) = Some e" and "loc \<in> {''fast'', ''backing''}"
  shows "outcome no_fuel_err (\<lambda>st'. pool_step st (st'\<lparr>sm_pool := ddel (oid, loc) (sm_pool st')\<rparr>) \<and>
      lighter st (st'\<lparr>sm_pool := ddel (oid, loc) (sm_pool st')\<rparr>) \<and> (\<exists>tot. st' = st\<lparr>sm_total := tot\<rparr>))
    (add_total loc (- pe_size e) st)"
proof -
  obtain tot where add: "add_total loc (- pe_size e) st = Inr (st\<lparr>sm_total := tot\<rparr>)"
    and ok: "pool_ok (st\<lparr>sm_total := tot, sm_pool := ddel (oid, loc) (sm_pool st)\<rparr>)"
    and t: "\<forall>l \<in> {''fast'', ''backing''}. dget_or tot l 0 = loc_total st l - (if l = loc then pe_size e else 0)"
    using delete_entry_ok [OF assms] by blast
  let ?st' = "st\<lparr>sm_total := tot, sm_pool := ddel (oid, loc) (sm_pool st)\<rparr>"
  have "?st' = st\<lparr>sm_pool := ddel (oid, loc) (sm_pool st), sm_total := tot\<rparr>" by simp
  then have "pool_step st ?st'" using ok unfolding pool_step_def by blast
  moreover have "lighter st ?st'" using t pool_ok_entry [OF assms(1,2)] by (auto simp: lighter_def loc_total_def)
  ultimately show ?thesis unfolding add by auto
qed

section \<open>Budget, work and streams\<close>

text \<open>The bytes a snapshot of the event log shows at a location.\<close>

definition snap_bytes :: "string \<Rightarrow> sim_event \<Rightarrow> int" where
  "snap_bytes loc ev = (\<Sum>m \<leftarrow> filter (\<lambda>m. me_location m = loc) (sn_memory (se_snapshot ev)). me_size m)"

definition events_ok :: "task_chain \<Rightarrow> sim_event list \<Rightarrow> bool" where
  "events_ok c evs \<longleftrightarrow> (\<forall>ev \<in> set evs. \<forall>loc \<in> {''fast'', ''backing''}. \<forall>cap. chain_capacity c loc = Some cap \<longrightarrow> snap_bytes loc ev \<le> cap)"

definition budget :: "task_chain \<Rightarrow> sim_state \<Rightarrow> bool" where
  "budget c st \<longleftrightarrow>
     (\<forall>cap. tc_fast_memory_capacity c = Some cap \<longrightarrow> loc_total st ''fast'' + sm_workspace st \<le> cap \<and> sm_peak_fast st \<le> cap) \<and>
     (\<forall>cap. tc_backing_memory_capacity c = Some cap \<longrightarrow> loc_total st ''backing'' \<le> cap \<and> sm_peak_backing st \<le> cap) \<and>
     events_ok c (sm_events st)"

lemma budget_lighter: "budget c st \<Longrightarrow> pool_step st st' \<Longrightarrow> lighter st st' \<Longrightarrow> budget c st'"
  unfolding budget_def pool_step_def lighter_def by force

definition job_ok :: "queued_tx \<Rightarrow> bool" where
  "job_ok tx \<longleftrightarrow> 0 \<le> qx_src_size tx \<and> 0 \<le> qx_runtime tx"

definition jobs_ok :: "sim_state \<Rightarrow> bool" where
  "jobs_ok st \<longleftrightarrow> (\<forall>tx \<in> set (sm_q_from st) \<union> set (sm_q_to st) \<union> (\<Union>kv \<in> set (sm_deferred st). set (snd kv)). job_ok tx) \<and>
     distinct (map fst (sm_deferred st))"

text \<open>The transfers still to complete.\<close>

definition lane_count :: "in_flight option \<Rightarrow> nat" where
  "lane_count x = (if x = None then 0 else 1)"

definition sim_work :: "sim_state \<Rightarrow> nat" where
  "sim_work st = length (sm_q_from st) + length (sm_q_to st) + lane_count (sm_in_from st) + lane_count (sm_in_to st) +
     deferred_count (sm_deferred st)"

text \<open>A stream serves one request at a time: intervals follow each other, and the last one is in flight or over.\<close>

definition serial :: "task_interval list \<Rightarrow> bool" where
  "serial ivs \<longleftrightarrow> sorted_wrt (\<lambda>a b. ti_end a \<le> ti_start b) ivs \<and> (\<forall>iv \<in> set ivs. ti_start iv \<le> ti_end iv)"

definition track :: "string \<Rightarrow> sim_state \<Rightarrow> task_interval list" where
  "track name st = filter (\<lambda>iv. ti_track iv = name) (sm_intervals st)"

definition stream_ok :: "direction \<Rightarrow> time \<Rightarrow> sim_state \<Rightarrow> bool" where
  "stream_ok d now st \<longleftrightarrow> serial (track (direction_name d) st) \<and>
     (\<forall>iv \<in> set (track (direction_name d) st). CHR '':'' \<in> set (ti_task_id iv)) \<and>
     (case sim_inflight d st of
        None \<Rightarrow> \<forall>iv \<in> set (track (direction_name d) st). ti_end iv \<le> now
      | Some fl \<Rightarrow> now \<le> fl_end_t fl \<and> (\<exists>pre iv. track (direction_name d) st = pre @ [iv] \<and> ti_end iv = fl_end_t fl))"

lemma stream_ok_cong:
  "sim_inflight d st' = sim_inflight d st \<Longrightarrow> track (direction_name d) st' = track (direction_name d) st \<Longrightarrow>
   stream_ok d now st' = stream_ok d now st"
  unfolding stream_ok_def by (simp only:)

lemma serial_snoc: "serial (ivs @ [iv]) \<longleftrightarrow> serial ivs \<and> (\<forall>a \<in> set ivs. ti_end a \<le> ti_start iv) \<and> ti_start iv \<le> ti_end iv"
  by (auto simp: serial_def sorted_wrt_append)

lemma stream_started:
  assumes "stream_ok d now st" and "sim_inflight d st = None"
    and "track (direction_name d) st' = track (direction_name d) st @ [iv]" and "ti_start iv = now" and "ti_end iv = fl_end_t fl"
    and "now \<le> fl_end_t fl" and "sim_inflight d st' = Some fl" and "CHR '':'' \<in> set (ti_task_id iv)"
  shows "stream_ok d now st'"
  using assms by (simp add: stream_ok_def serial_snoc)

lemma stream_finished:
  assumes "stream_ok d now st" and "sim_inflight d st = Some fl"
    and "track (direction_name d) st' = track (direction_name d) st" and "sim_inflight d st' = None"
  shows "stream_ok d (fl_end_t fl) st'"
proof -
  obtain pre iv where t: "track (direction_name d) st = pre @ [iv]" "ti_end iv = fl_end_t fl"
    and s: "serial (pre @ [iv])" and names: "\<forall>iv \<in> set (pre @ [iv]). CHR '':'' \<in> set (ti_task_id iv)"
    using assms(1,2) by (auto simp: stream_ok_def)
  have "ti_end a \<le> fl_end_t fl" if "a \<in> set (pre @ [iv])" for a
    using s that t(2) by (auto simp: serial_snoc)
  then show ?thesis using s t names by (simp add: stream_ok_def assms(3,4))
qed

lemma stream_later:
  assumes "stream_ok d now st" and "now \<le> now'" and "\<And>fl. sim_inflight d st = Some fl \<Longrightarrow> now' \<le> fl_end_t fl"
  shows "stream_ok d now' st"
  using assms by (fastforce simp: stream_ok_def split: option.splits)

definition sim_inv :: "task_chain \<Rightarrow> time \<Rightarrow> sim_state \<Rightarrow> bool" where
  "sim_inv c now st \<longleftrightarrow> pool_ok st \<and> budget c st \<and> jobs_ok st \<and> 0 \<le> sm_workspace st \<and>
     stream_ok FromSlow now st \<and> stream_ok ToSlow now st"

text \<open>What transfer operations leave alone: the compute stream and the workspace.\<close>

definition aside :: "sim_state \<Rightarrow> sim_state \<Rightarrow> bool" where
  "aside st st' \<longleftrightarrow> sm_busy_until st' = sm_busy_until st \<and> sm_workspace st' = sm_workspace st \<and>
     track ''compute'' st' = track ''compute'' st"

lemma aside_refl [simp]: "aside st st"
  by (simp add: aside_def)

lemma aside_trans: "aside a b \<Longrightarrow> aside b c \<Longrightarrow> aside a c"
  by (simp add: aside_def)

section \<open>Emitting events\<close>

text \<open>An event whose snapshot lists a pool, and the state after emitting: the peaks raised, perhaps an event added.\<close>

definition shows_pool :: "sim_pool \<Rightarrow> sim_event \<Rightarrow> bool" where
  "shows_pool pool ev \<longleftrightarrow> mset (map (\<lambda>m. (me_location m, me_size m)) (sn_memory (se_snapshot ev))) =
     mset (map (\<lambda>x. (snd (fst x), pe_size (snd x))) pool)"

definition logged :: "sim_state \<Rightarrow> sim_state \<Rightarrow> bool" where
  "logged st st' \<longleftrightarrow> (\<exists>ev mp. (\<forall>e \<in> set ev. e \<in> set (sm_events st) \<or> shows_pool (sm_pool st) e) \<and> st' = st\<lparr>sm_peak_fast := max (sm_peak_fast st) (loc_total st ''fast'' + sm_workspace st),
     sm_peak_backing := max (sm_peak_backing st) (loc_total st ''backing''), sm_events := ev, sm_memory_points := mp\<rparr>)"

lemma emit_memory_trace_outcome:
  "outcome no_fuel_err (\<lambda>st'. \<exists>mp. st' = st\<lparr>sm_memory_points := mp\<rparr>) (emit_memory_trace cfg t st)"
proof -
  have keep: "\<exists>mp. st = st\<lparr>sm_memory_points := mp\<rparr>" by (rule exI [of _ "sm_memory_points st"]) simp
  have bands: "outcome no_fuel_err (\<lambda>_. True) (fast_memory_bands (sm_pool st))"
    unfolding fast_memory_bands_def by (rule outcome_foldE_inv) (auto simp: add_band_def split: prod.splits option.splits)
  show ?thesis
    unfolding emit_memory_trace_def Let_def using keep
    by (auto intro!: outcome_bind [OF bands])
qed

lemma sum_list_mset_eq: "mset xs = mset ys \<Longrightarrow> sum_list (map f xs) = (sum_list (map f ys) :: int)"
  using sum_mset_sum_list [of "map f xs"] sum_mset_sum_list [of "map f ys"] by simp

lemma shows_pool_bytes:
  assumes "shows_pool pool ev" and "pool_inv pool tot"
  shows "snap_bytes loc ev = pool_bytes loc pool"
proof -
  let ?f = "\<lambda>x. if fst x = loc then snd x else (0::int)"
  have "snap_bytes loc ev = sum_list (map ?f (map (\<lambda>m. (me_location m, me_size m)) (sn_memory (se_snapshot ev))))"
    by (simp add: snap_bytes_def sum_list_map_filter' comp_def cong: if_cong)
  also have "\<dots> = sum_list (map ?f (map (\<lambda>x. (snd (fst x), pe_size (snd x))) pool))"
    by (rule sum_list_mset_eq [OF assms(1) [unfolded shows_pool_def]])
  also have "\<dots> = pool_bytes loc pool"
    unfolding pool_bytes_def dsum_def map_map
  proof (intro arg_cong [where f = sum_list] map_cong refl)
    fix x assume x: "x \<in> set pool"
    obtain oid l e where xe: "x = ((oid, l), e)" by (metis prod.collapse)
    then have "dget pool (oid, l) = Some e" using x assms(2) by (simp add: pool_inv_def)
    then have "pe_location e = l" using assms(2) by (auto simp: pool_inv_def)
    then show "(?f \<circ> (\<lambda>x. (snd (fst x), pe_size (snd x)))) x = (if pe_location (snd x) = loc then pe_size (snd x) else 0)"
      by (simp add: xe)
  qed
  finally show ?thesis .
qed

lemma take_snapshot_no_fuel:
  "outcome no_fuel_err (\<lambda>sn. shows_pool pool \<lparr>se_t = t, se_kind = k, se_snapshot = sn, se_args = a\<rparr>) (take_snapshot pool active remaining starts)"
proof -
  have "outcome no_fuel_err (\<lambda>_. True) (foldE (ref_task starts) remaining [])"
    by (rule outcome_foldE_inv) (auto simp: ref_task_def split: option.splits)
  then show ?thesis
    unfolding take_snapshot_def compute_reference_stream_def bindE_assoc
    by (rule outcome_bind) (simp add: shows_pool_def Let_def multiset.map_comp comp_def case_prod_beta)
qed

lemma emit_logged: "outcome no_fuel_err (logged st) (emit cfg kind t idx active args st)"
proof -
  let ?st = "st\<lparr>sm_peak_fast := max (sm_peak_fast st) (loc_total st ''fast'' + sm_workspace st),
    sm_peak_backing := max (sm_peak_backing st) (loc_total st ''backing'')\<rparr>"
  have 1: "logged st (?st\<lparr>sm_memory_points := mp, sm_events := sm_events st @ evs\<rparr>)" if "\<forall>e \<in> set evs. shows_pool (sm_pool st) e" for mp evs
    unfolding logged_def by (rule exI [of _ "sm_events st @ evs"], rule exI [of _ mp]) (use that in auto)
  have 2: "logged st (?st\<lparr>sm_memory_points := mp\<rparr>)" for mp
    using 1 [where mp = mp and evs = "[]"] by simp
  have 3: "outcome no_fuel_err (logged st) (bindE (take_snapshot (sm_pool st) active rem starts) (\<lambda>snap.
      Inr (?st\<lparr>sm_memory_points := mp, sm_events := sm_events st @ [\<lparr>se_t = t, se_kind = kind, se_snapshot = snap, se_args = args\<rparr>]\<rparr>)))"
    for mp active rem starts
    by (rule outcome_bind [OF take_snapshot_no_fuel]) (simp, rule 1, simp)
  show ?thesis
    unfolding emit_def Let_def
  proof (rule outcome_bind [OF emit_memory_trace_outcome], elim exE)
    fix st1 mp assume st1: "st1 = ?st\<lparr>sm_memory_points := mp\<rparr>"
    show "outcome no_fuel_err (logged st) (if \<not> sc_snapshots cfg then Inr st1
      else bindE (take_snapshot (sm_pool st1) active (drop idx (tc_tasks (sc_chain cfg))) (sc_ref_starts cfg))
        (\<lambda>snap. Inr (st1\<lparr>sm_events := sm_events st1 @ [\<lparr>se_t = t, se_kind = kind, se_snapshot = snap, se_args = args\<rparr>]\<rparr>)))"
      using 2 3 by (simp add: st1)
  qed
qed

lemma logged_frame:
  assumes "logged st st'"
  shows "sm_pool st' = sm_pool st" "sm_total st' = sm_total st" "sm_in_from st' = sm_in_from st" "sm_in_to st' = sm_in_to st"
    "sm_q_from st' = sm_q_from st" "sm_q_to st' = sm_q_to st" "sm_deferred st' = sm_deferred st"
    "sm_intervals st' = sm_intervals st" "sm_busy_until st' = sm_busy_until st" "sm_workspace st' = sm_workspace st"
    "sm_peak_fast st' = max (sm_peak_fast st) (loc_total st ''fast'' + sm_workspace st)"
    "sm_peak_backing st' = max (sm_peak_backing st) (loc_total st ''backing'')"
    "\<forall>e \<in> set (sm_events st'). e \<in> set (sm_events st) \<or> shows_pool (sm_pool st) e"
  using assms by (auto simp: logged_def)

lemma logged_inv:
  assumes "logged st st'"
  shows "sim_inv c now st \<Longrightarrow> sim_inv c now st'" and "aside st st'" and "sim_work st' = sim_work st"
proof -
  note f = logged_frame [OF assms]
  have lt: "loc_total st' l = loc_total st l" for l by (simp add: loc_total_def f)
  have fl: "sim_inflight d st' = sim_inflight d st" for d by (cases d) (simp_all add: sim_inflight_def f)
  have tr: "track n st' = track n st" for n by (simp add: track_def f)
  show "sim_inv c now st'" if inv: "sim_inv c now st"
  proof -
    have ok: "pool_ok st" and b: "budget c st" and ws: "0 \<le> sm_workspace st" using inv by (simp_all add: sim_inv_def)
    have "snap_bytes loc e \<le> cap" if "shows_pool (sm_pool st) e" "loc \<in> {''fast'', ''backing''}" "chain_capacity c loc = Some cap" for e loc cap
      using shows_pool_bytes [OF that(1) ok] pool_ok_total [OF ok that(2)] b ws that(2,3) by (auto simp: budget_def chain_capacity_def)
    then have "events_ok c (sm_events st')" using b f(13) unfolding budget_def events_ok_def by blast
    then show ?thesis using inv by (simp add: sim_inv_def budget_def jobs_ok_def stream_ok_cong [OF fl tr] f(1-12) lt)
  qed
  show "aside st st'" by (simp add: aside_def tr f)
  show "sim_work st' = sim_work st" by (simp add: sim_work_def f)
qed

section \<open>Transfers\<close>

lemma lane_simps [simp]:
  "sim_inflight d (set_inflight d x st) = x"
  "d' \<noteq> d \<Longrightarrow> sim_inflight d' (set_inflight d x st) = sim_inflight d' st"
  "sim_inflight d' (set_queue d q st) = sim_inflight d' st"
  "sim_queue d (set_queue d q st) = q"
  "sm_pool (set_inflight d x st) = sm_pool st" "sm_pool (set_queue d q st) = sm_pool st"
  "sm_total (set_inflight d x st) = sm_total st" "sm_total (set_queue d q st) = sm_total st"
  "sm_deferred (set_inflight d x st) = sm_deferred st" "sm_deferred (set_queue d q st) = sm_deferred st"
  "sm_events (set_inflight d x st) = sm_events st" "sm_events (set_queue d q st) = sm_events st"
  "sm_intervals (set_inflight d x st) = sm_intervals st" "sm_intervals (set_queue d q st) = sm_intervals st"
  "sm_workspace (set_inflight d x st) = sm_workspace st" "sm_workspace (set_queue d q st) = sm_workspace st"
  "sm_busy_until (set_inflight d x st) = sm_busy_until st" "sm_busy_until (set_queue d q st) = sm_busy_until st"
  "sm_peak_fast (set_inflight d x st) = sm_peak_fast st" "sm_peak_fast (set_queue d q st) = sm_peak_fast st"
  "sm_peak_backing (set_inflight d x st) = sm_peak_backing st" "sm_peak_backing (set_queue d q st) = sm_peak_backing st"
  "sm_q_from (set_inflight d x st) = sm_q_from st" "sm_q_to (set_inflight d x st) = sm_q_to st"
  "loc_total (set_inflight d x st) l = loc_total st l" "loc_total (set_queue d q st) l = loc_total st l"
  by (cases d; cases d'; simp add: sim_inflight_def set_inflight_def set_queue_def sim_queue_def loc_total_def)+

lemma direction_name_inj [simp]: "direction_name d = direction_name d' \<longleftrightarrow> d = d'"
  by (cases d; cases d') simp_all

lemma direction_not_compute [simp]: "direction_name d \<noteq> ''compute''" "''compute'' \<noteq> direction_name d"
  by (cases d; simp)+

lemma pool_step_frame:
  assumes "pool_step st st'"
  shows "sim_inflight d st' = sim_inflight d st" "sim_queue d st' = sim_queue d st" "track n st' = track n st"
    "sm_deferred st' = sm_deferred st" "sm_workspace st' = sm_workspace st" "sm_busy_until st' = sm_busy_until st"
    "sm_q_from st' = sm_q_from st" "sm_q_to st' = sm_q_to st" "sm_in_from st' = sm_in_from st" "sm_in_to st' = sm_in_to st"
    "sm_peak_fast st' = sm_peak_fast st" "sm_peak_backing st' = sm_peak_backing st" "sm_intervals st' = sm_intervals st"
    "sm_events st' = sm_events st"
  using assms by (cases d; auto simp: pool_step_def sim_inflight_def sim_queue_def track_def)+

text \<open>The destination of a transfer that is not blocked fits.\<close>

lemma source_marked:
  assumes ok: "pool_ok st"
  shows "outcome no_fuel_err (\<lambda>st1. pool_step st st1 \<and> lighter st st1 \<and> dget (sm_pool st1) (oid, dst_loc d) = dget (sm_pool st) (oid, dst_loc d))
      (case d of FromSlow \<Rightarrow> Inr st | ToSlow \<Rightarrow> set_entry_state oid ''fast'' Outbound st)"
proof (cases d)
  case FromSlow
  then show ?thesis using pool_step_refl [OF ok] lighter_refl by simp
next
  case ToSlow
  have "outcome no_fuel_err (\<lambda>st1. dget (sm_pool st1) (oid, dst_loc d) = dget (sm_pool st) (oid, dst_loc d)) (set_entry_state oid ''fast'' Outbound st)"
    using ToSlow by (auto simp: set_entry_state_def pool_at_def put_entry_def dst_loc_def split: option.splits)
  from outcome_conj [OF set_entry_state_step [OF ok] this] show ?thesis
    using ToSlow by (auto elim: outcome_weaken)
qed

lemma destination_added:
  assumes ok: "pool_ok st" and new: "dget (sm_pool st) (oid, dst_loc d) = None" and bud: "budget c st" and n: "0 \<le> qx_src_size tx"
    and room: "\<And>cap. chain_capacity c (dst_loc d) = Some cap \<Longrightarrow>
      loc_total st (dst_loc d) + qx_src_size tx + (if dst_loc d = ''fast'' then sm_workspace st else 0) \<le> cap"
  shows "outcome no_fuel_err (\<lambda>st'. pool_step st st' \<and> budget c st') (add_total (dst_loc d) (qx_src_size tx) (put_entry oid (dst_loc d) (new_inbound d tx) st))"
proof (rule outcomeI)
  have e: "pe_location (new_inbound d tx) = dst_loc d" "pe_size (new_inbound d tx) = qx_src_size tx" by (simp_all add: new_inbound_def)
  fix st' assume add: "add_total (dst_loc d) (qx_src_size tx) (put_entry oid (dst_loc d) (new_inbound d tx) st) = Inr st'"
  note a = add_entry_ok [OF ok new e(1), unfolded e(2), OF n add]
  have step: "pool_step st st'" using a(1,3) unfolding pool_step_def by blast
  have "budget c st'"
    using bud room a(4) [of "''fast''"] a(4) [of "''backing''"] pool_step_frame [OF step]
    by (cases d) (auto simp: budget_def chain_capacity_def dst_loc_def)
  with step show "pool_step st st' \<and> budget c st'" by blast
qed (auto simp: add_total_def split: option.splits)

lemma entry_overwritten:
  assumes ok: "pool_ok st" and e: "dget (sm_pool st) (oid, loc) = Some e"
  shows "pool_step st (put_entry oid loc (e\<lparr>pe_state := s\<rparr>) st)" and "lighter st (put_entry oid loc (e\<lparr>pe_state := s\<rparr>) st)"
  using set_entry_state_step [OF ok, of oid loc s] e by (simp_all add: set_entry_state_def pool_at_def)

lemma place_destination_ok:
  assumes ok: "pool_ok st" and bud: "budget c st" and free: "\<not> head_blocked c d tx st" and tx: "job_ok tx"
  shows "outcome no_fuel_err (\<lambda>st'. pool_step st st' \<and> budget c st') (place_destination d tx st)"
  unfolding place_destination_def Let_def
proof (rule outcome_bind [OF source_marked [OF ok]], elim conjE)
  let ?oid = "qx_obj_id tx" and ?loc = "dst_loc d"
  fix st1 assume s1: "pool_step st st1" "lighter st st1" and eq: "dget (sm_pool st1) (?oid, ?loc) = dget (sm_pool st) (?oid, ?loc)"
  have ok1: "pool_ok st1" using s1(1) by (simp add: pool_step_def)
  have b1: "budget c st1" by (rule budget_lighter [OF bud s1])
  show "outcome no_fuel_err (\<lambda>st'. pool_step st st' \<and> budget c st') (case dget (sm_pool st) (?oid, ?loc) of
      None \<Rightarrow> add_total ?loc (qx_src_size tx) (put_entry ?oid ?loc (new_inbound d tx) st1)
    | Some e \<Rightarrow> if d = ToSlow \<and> pe_size e \<noteq> qx_src_size tx then Inl (ValueError ''to_slow overwrite size mismatch'')
        else Inr (put_entry ?oid ?loc (e\<lparr>pe_state := Inbound\<rparr>) st1))"
  proof (cases "dget (sm_pool st) (?oid, ?loc)")
    case None
    have le: "loc_total st1 ?loc \<le> loc_total st ?loc" using s1(2) by (cases d) (simp_all add: lighter_def dst_loc_def)
    have "loc_total st1 ?loc + qx_src_size tx + (if ?loc = ''fast'' then sm_workspace st1 else 0) \<le> cap"
      if "chain_capacity c ?loc = Some cap" for cap
      using free that None le pool_step_frame(5) [OF s1(1)] by (simp add: head_blocked_def split: if_splits)
    note room = this
    have "0 \<le> qx_src_size tx" using tx by (simp add: job_ok_def)
    show ?thesis
      unfolding None option.case
      by (rule outcome_weaken [OF destination_added [OF ok1 eq [unfolded None] b1 \<open>0 \<le> qx_src_size tx\<close> room]])
        (auto intro: pool_step_trans [OF s1(1)])
  next
    case (Some e)
    show ?thesis
      using entry_overwritten [OF ok1 eq [unfolded Some]] budget_lighter [OF b1] pool_step_trans [OF s1(1)] by (simp add: Some)
  qed
qed

lemma jobs_ok_queue:
  "jobs_ok st \<Longrightarrow> sim_queue d st = tx # rest \<Longrightarrow> job_ok tx \<and> jobs_ok (set_queue d rest st)"
  by (cases d) (auto simp: jobs_ok_def sim_queue_def set_queue_def)

lemma sim_work_start:
  assumes "sim_inflight d st = None" and "sim_queue d st = tx # rest" and "sim_inflight d st' = Some fl" and "sim_queue d st' = rest"
    and "\<And>d'. d' \<noteq> d \<Longrightarrow> sim_inflight d' st' = sim_inflight d' st" and "\<And>d'. d' \<noteq> d \<Longrightarrow> sim_queue d' st' = sim_queue d' st"
    and "sm_deferred st' = sm_deferred st"
  shows "sim_work st' = sim_work st"
proof (cases d)
  case FromSlow
  then have "ToSlow \<noteq> d" by simp
  from assms(5,6) [OF this] show ?thesis
    using assms FromSlow by (simp add: sim_work_def sim_inflight_def sim_queue_def lane_count_def)
next
  case ToSlow
  then have "FromSlow \<noteq> d" by simp
  from assms(5,6) [OF this] show ?thesis
    using assms ToSlow by (simp add: sim_work_def sim_inflight_def sim_queue_def lane_count_def)
qed

lemma head_blocked_queue [simp]: "head_blocked c d tx (set_queue d' q st) = head_blocked c d tx st"
  by (cases d') (simp_all add: head_blocked_def set_queue_def loc_total_def Let_def split: option.splits)

text \<open>Starting a transfer keeps the invariant and the number of transfers to complete.\<close>

lemma start_transfer_ok:
  assumes inv: "sim_inv c now st" and fl: "sim_inflight d st = None" and tx: "job_ok tx"
  shows "outcome no_fuel_err (\<lambda>st'. sim_inv c now st' \<and> aside st st' \<and> sim_work st' = Suc (sim_work st)) (start_transfer cfg d tx now idx st)"
proof -
  have go: "outcome no_fuel_err (\<lambda>st'. sim_inv c now st' \<and> aside st st' \<and> sim_work st' = Suc (sim_work st))
      (emit cfg kind t idx active args ((set_inflight d (Some fl) st)\<lparr>sm_seq := sq, sm_intervals := sm_intervals st @ [iv]\<rparr>))"
    if fl': "fl_end_t fl = now + qx_runtime tx" and iv: "ti_start iv = now" "ti_end iv = now + qx_runtime tx" "ti_track iv = direction_name d"
      "CHR '':'' \<in> set (ti_task_id iv)"
    for fl sq iv kind t active args
  proof -
    let ?st = "(set_inflight d (Some fl) st)\<lparr>sm_seq := sq, sm_intervals := sm_intervals st @ [iv]\<rparr>"
    have infl: "sim_inflight d' ?st = (if d' = d then Some fl else sim_inflight d' st)" for d'
      by (cases d; cases d'; simp add: sim_inflight_def set_inflight_def)
    have tr: "track n ?st = (if n = direction_name d then track n st @ [iv] else track n st)" for n
      using iv by (simp add: track_def)
    have "stream_ok d' now ?st" for d'
    proof (cases "d' = d")
      case True
      have "stream_ok d now ?st"
        by (rule stream_started [of d now st ?st iv fl]) (use inv fl tx fl' iv tr infl in \<open>cases d; simp add: sim_inv_def job_ok_def\<close>)+
      then show ?thesis using True by simp
    next
      case False
      then have "stream_ok d' now ?st = stream_ok d' now st" by (intro stream_ok_cong) (simp_all add: infl tr)
      then show ?thesis using inv by (cases d') (simp_all add: sim_inv_def)
    qed
    then have inv': "sim_inv c now ?st" using inv by (simp add: sim_inv_def budget_def jobs_ok_def loc_total_def)
    have as: "aside st ?st" by (simp add: aside_def tr)
    have work: "sim_work ?st = Suc (sim_work st)"
      using fl by (cases d) (simp_all add: sim_work_def set_inflight_def sim_inflight_def lane_count_def)
    show ?thesis
    proof (rule outcome_weaken [OF emit_logged])
      fix st' assume lg: "logged ?st st'"
      show "sim_inv c now st' \<and> aside st st' \<and> sim_work st' = Suc (sim_work st)"
        using logged_inv(1) [OF lg inv'] aside_trans [OF as logged_inv(2) [OF lg]] logged_inv(3) [OF lg] work by simp
    qed
  qed
  show ?thesis unfolding start_transfer_def Let_def by (rule go) simp_all
qed

lemma sim_try_start_ok:
  assumes inv: "sim_inv c now st" and cfg: "sc_chain cfg = c"
  shows "outcome no_fuel_err (\<lambda>st'. sim_inv c now st' \<and> aside st st' \<and> sim_work st' = sim_work st) (sim_try_start cfg d now idx st)"
proof (cases "sim_inflight d st = None \<and> (\<exists>tx rest. sim_queue d st = tx # rest \<and> \<not> head_blocked c d tx st)")
  case False
  then show ?thesis using inv cfg by (auto simp: sim_try_start_def split: option.splits list.splits)
next
  case True
  then obtain tx rest where fl: "sim_inflight d st = None" and q: "sim_queue d st = tx # rest" and free: "\<not> head_blocked c d tx st"
    by blast
  have ok: "pool_ok st" "budget c st" "jobs_ok st" using inv by (simp_all add: sim_inv_def)
  note tx = jobs_ok_queue [OF ok(3) q]
  let ?st1 = "set_queue d rest st"
  have b1: "budget c ?st1" using ok(2) by (simp add: budget_def)
  have tr: "track n ?st1 = track n st" for n by (simp add: track_def)
  have str: "stream_ok d' now ?st1" for d'
    using inv stream_ok_cong [of d' ?st1 st now, OF _ tr] by (cases d') (simp_all add: sim_inv_def)
  have work: "Suc (sim_work ?st1) = sim_work st"
    using q by (cases d) (simp_all add: sim_work_def set_queue_def sim_queue_def)
  have place: "outcome no_fuel_err (\<lambda>st'. pool_step ?st1 st' \<and> budget c st') (place_destination d tx ?st1)"
    using ok(1) b1 free tx by (intro place_destination_ok) simp_all
  have "outcome no_fuel_err (\<lambda>st'. sim_inv c now st' \<and> aside st st' \<and> sim_work st' = sim_work st)
      (bindE (place_destination d tx ?st1) (start_transfer cfg d tx now idx))"
  proof (rule outcome_bind [OF place])
    fix st2 assume st2: "pool_step ?st1 st2 \<and> budget c st2"
    note f = pool_step_frame [OF conjunct1 [OF st2]]
    have "stream_ok d' now st2" for d' using str [of d'] stream_ok_cong [of d' st2 ?st1 now] f by simp
    then have inv2: "sim_inv c now st2"
      using st2 inv tx by (simp add: sim_inv_def pool_step_def jobs_ok_def f)
    have as: "aside st st2" by (simp add: aside_def f tr)
    have "sim_work st2 = sim_work ?st1" by (simp add: sim_work_def f)
    then have w2: "Suc (sim_work st2) = sim_work st" using work by simp
    show "outcome no_fuel_err (\<lambda>st'. sim_inv c now st' \<and> aside st st' \<and> sim_work st' = sim_work st) (start_transfer cfg d tx now idx st2)"
      by (rule outcome_weaken [OF start_transfer_ok [OF inv2]]) (use fl tx f w2 as aside_trans in auto)
  qed
  then show ?thesis using fl q free cfg by (simp add: sim_try_start_def)
qed

text \<open>Operations that keep the invariant at \<open>now\<close>, leave the compute stream alone and add at most \<open>k\<close> transfers.\<close>

definition sim_moves :: "task_chain \<Rightarrow> time \<Rightarrow> nat \<Rightarrow> sim_state \<Rightarrow> sim_state \<Rightarrow> bool" where
  "sim_moves c now k st st' \<longleftrightarrow> sim_inv c now st' \<and> aside st st' \<and> sim_work st' \<le> sim_work st + k"

lemma sim_moves_refl: "sim_inv c now st \<Longrightarrow> sim_moves c now k st st"
  by (simp add: sim_moves_def)

lemma sim_moves_trans: "sim_moves c t1 j a b \<Longrightarrow> sim_moves c t2 k b d \<Longrightarrow> sim_moves c t2 (j + k) a d"
  unfolding sim_moves_def by (auto intro: aside_trans)

lemma sim_moves_inv: "sim_moves c now k st st' \<Longrightarrow> sim_inv c now st'"
  by (simp add: sim_moves_def)

lemma sim_moves_bind:
  assumes "outcome no_fuel_err (sim_moves c t1 j st) m" and "\<And>st1. sim_inv c t1 st1 \<Longrightarrow> outcome no_fuel_err (sim_moves c t2 k st1) (f st1)"
  shows "outcome no_fuel_err (sim_moves c t2 (j + k) st) (bindE m f)"
proof (rule outcome_bind [OF assms(1)])
  fix st1 assume m: "sim_moves c t1 j st st1"
  show "outcome no_fuel_err (sim_moves c t2 (j + k) st) (f st1)"
    by (rule outcome_weaken [OF assms(2) [OF sim_moves_inv [OF m]]]) (auto intro: sim_moves_trans [OF m])
qed

lemma sim_moves_via: "sim_moves c t1 j st st1 \<Longrightarrow> outcome no_fuel_err (sim_moves c t2 k st1) m \<Longrightarrow> outcome no_fuel_err (sim_moves c t2 (j + k) st) m"
  by (erule outcome_weaken) (auto intro: sim_moves_trans)

lemma sim_moves_foldE:
  assumes "sim_inv c now st" and "\<And>x st. x \<in> set xs \<Longrightarrow> sim_inv c now st \<Longrightarrow> outcome no_fuel_err (sim_moves c now k st) (f x st)"
  shows "outcome no_fuel_err (sim_moves c now (k * length xs) st) (foldE f xs st)"
  using assms
proof (induction xs arbitrary: st)
  case Nil
  then show ?case by (simp add: sim_moves_refl)
next
  case (Cons x xs)
  have "outcome no_fuel_err (sim_moves c now (k + k * length xs) st) (bindE (f x st) (foldE f xs))"
    by (rule sim_moves_bind [OF Cons.prems(2)]) (use Cons in auto)
  then show ?case by simp
qed

lemma logged_moves: "sim_inv c now st \<Longrightarrow> logged st st' \<Longrightarrow> sim_moves c now 0 st st'"
  using logged_inv by (simp add: sim_moves_def)

lemma emit_moves: "sim_inv c now st \<Longrightarrow> outcome no_fuel_err (sim_moves c now 0 st) (emit cfg kind t idx active args st)"
  by (rule outcome_weaken [OF emit_logged]) (auto intro: logged_moves)

lemma try_start_sim_moves:
  "sim_inv c now st \<Longrightarrow> sc_chain cfg = c \<Longrightarrow> outcome no_fuel_err (sim_moves c now 0 st) (sim_try_start cfg d now idx st)"
  by (rule outcome_weaken [OF sim_try_start_ok]) (auto simp: sim_moves_def)

lemma in_dset: "x \<in> set (dset k v d) \<Longrightarrow> x = (k, v) \<or> x \<in> set d"
  by (induction d) (auto split: if_splits)

lemma queue_moves:
  assumes "sim_inv c now st" and "job_ok tx"
  shows "sim_moves c now 1 st (st\<lparr>sm_q_from := sm_q_from st @ [tx]\<rparr>)" and "sim_moves c now 1 st (st\<lparr>sm_q_to := sm_q_to st @ [tx]\<rparr>)"
    and "sim_moves c now 1 st (st\<lparr>sm_deferred := dappend oid tx (sm_deferred st)\<rparr>)"
proof -
  have f: "stream_ok d now (st\<lparr>sm_q_from := x\<rparr>) = stream_ok d now st" "stream_ok d now (st\<lparr>sm_q_to := x\<rparr>) = stream_ok d now st"
    "stream_ok d now (st\<lparr>sm_deferred := y\<rparr>) = stream_ok d now st" for d x y
    by (rule stream_ok_cong; cases d; simp add: sim_inflight_def track_def)+
  have a: "aside st (st\<lparr>sm_q_from := x\<rparr>)" "aside st (st\<lparr>sm_q_to := x\<rparr>)" "aside st (st\<lparr>sm_deferred := y\<rparr>)" for x y
    by (simp_all add: aside_def track_def)
  have d: "tx' \<in> set (dget_or (sm_deferred st) oid []) \<Longrightarrow> job_ok tx'" for tx'
    using assms(1) by (force simp: sim_inv_def jobs_ok_def dget_or_def split: option.splits dest: map_of_SomeD)
  have "job_ok tx'" if "kv \<in> set (dappend oid tx (sm_deferred st))" "tx' \<in> set (snd kv)" for kv tx'
  proof (cases "kv \<in> set (sm_deferred st)")
    case True
    then show ?thesis using assms(1) that(2) by (auto simp: sim_inv_def jobs_ok_def)
  next
    case False
    then have "kv = (oid, dget_or (sm_deferred st) oid [] @ [tx])" using in_dset that(1) unfolding dappend_def by fastforce
    then show ?thesis using d assms(2) that(2) by auto
  qed
  then show "sim_moves c now 1 st (st\<lparr>sm_deferred := dappend oid tx (sm_deferred st)\<rparr>)"
    using assms a(3) by (auto simp: sim_moves_def sim_inv_def f budget_def jobs_ok_def loc_total_def sim_work_def deferred_count_append)
  show "sim_moves c now 1 st (st\<lparr>sm_q_from := sm_q_from st @ [tx]\<rparr>)" "sim_moves c now 1 st (st\<lparr>sm_q_to := sm_q_to st @ [tx]\<rparr>)"
    using assms a(1,2) by (auto simp: sim_moves_def sim_inv_def f budget_def jobs_ok_def loc_total_def sim_work_def)
qed

lemma finish_slots_ok:
  assumes "pool_ok st"
  shows "outcome no_fuel_err (\<lambda>st'. pool_step st st' \<and> lighter st st') (finish_slots d oid st)"
proof (cases d)
  case FromSlow
  then show ?thesis using set_entry_state_step [OF assms] by (simp add: finish_slots_def)
next
  case ToSlow
  show ?thesis
  proof (cases "dget (sm_pool st) (oid, ''fast'')")
    case None
    then show ?thesis using ToSlow by (simp add: finish_slots_def pool_at_def)
  next
    case (Some e)
    have del: "outcome no_fuel_err (\<lambda>st'. pool_step st (st'\<lparr>sm_pool := ddel (oid, ''fast'') (sm_pool st')\<rparr>) \<and>
      lighter st (st'\<lparr>sm_pool := ddel (oid, ''fast'') (sm_pool st')\<rparr>)) (add_total ''fast'' (- pe_size e) st)"
      by (rule outcome_weaken [OF delete_entry_step [OF assms Some]]) auto
    have "outcome no_fuel_err (\<lambda>st'. pool_step st st' \<and> lighter st st') (set_entry_state oid ''backing'' Live st1)"
      if "pool_step st st1" "lighter st st1" for st1
    proof (rule outcome_weaken [OF set_entry_state_step])
      show "pool_ok st1" using that(1) by (simp add: pool_step_def)
    qed (use pool_step_trans [OF that(1)] lighter_trans [OF that(2)] in auto)
    then show ?thesis
      unfolding finish_slots_def ToSlow direction.case pool_at_def Some option.case bindE_simps
      by (intro outcome_bind [OF del]) blast
  qed
qed

lemma activate_moves: "sim_inv c now st \<Longrightarrow> job_ok tx \<Longrightarrow> outcome no_fuel_err (sim_moves c now 1 st) (activate cfg t idx tx st)"
  unfolding activate_def
  using sim_moves_via [OF queue_moves(1) emit_moves [OF sim_moves_inv [OF queue_moves(1)]]] by fastforce

lemma activate_waiters:
  assumes inv: "sim_inv c now st"
  shows "outcome no_fuel_err (sim_moves c now 0 st)
    (foldE (activate cfg t idx) (dget_or (sm_deferred st) oid []) (st\<lparr>sm_deferred := ddel oid (sm_deferred st)\<rparr>))"
proof -
  let ?w = "dget_or (sm_deferred st) oid []" and ?st = "st\<lparr>sm_deferred := ddel oid (sm_deferred st)\<rparr>"
  have str: "stream_ok d now ?st = stream_ok d now st" for d
    by (rule stream_ok_cong) (cases d; simp add: sim_inflight_def track_def)+
  have "set (ddel oid (sm_deferred st)) \<subseteq> set (sm_deferred st)" by (auto simp: AList.delete_eq)
  moreover have "jobs_ok st" using inv by (simp add: sim_inv_def)
  ultimately have "jobs_ok ?st" unfolding jobs_ok_def by (auto dest: subsetD)
  then have inv': "sim_inv c now ?st"
    using inv by (simp add: sim_inv_def str budget_def loc_total_def)
  have w: "job_ok tx" if "tx \<in> set ?w" for tx
    using inv that by (force simp: sim_inv_def jobs_ok_def dget_or_def split: option.splits dest: map_of_SomeD)
  have work: "sim_work ?st + length ?w \<le> sim_work st"
    using deferred_count_delete [of oid "sm_deferred st"] by (simp add: sim_work_def)
  have "outcome no_fuel_err (sim_moves c now (1 * length ?w) ?st) (foldE (activate cfg t idx) ?w ?st)"
    by (rule sim_moves_foldE [OF inv']) (use w activate_moves in blast)
  then show ?thesis
    by (rule outcome_weaken) (use work in \<open>auto simp: sim_moves_def aside_def track_def\<close>)
qed

text \<open>A completion at the end of the transfer in flight, when the other stream ends no earlier.\<close>

definition completed :: "task_chain \<Rightarrow> time \<Rightarrow> sim_state \<Rightarrow> sim_state \<Rightarrow> bool" where
  "completed c t st st' \<longleftrightarrow> sim_inv c t st' \<and> aside st st' \<and> Suc (sim_work st') \<le> sim_work st"

lemma completed_moves: "completed c t st st1 \<Longrightarrow> sim_moves c t' 0 st1 st' \<Longrightarrow> completed c t' st st'"
  unfolding completed_def sim_moves_def by (auto intro: aside_trans)

lemma completed_bind:
  assumes "outcome no_fuel_err (completed c t st) m"
    and "\<And>st1. sim_inv c t st1 \<Longrightarrow> outcome no_fuel_err (sim_moves c t 0 st1) (f st1)"
  shows "outcome no_fuel_err (completed c t st) (bindE m f)"
proof (rule outcome_bind [OF assms(1)])
  fix st1 assume m: "completed c t st st1"
  then have "sim_inv c t st1" by (simp add: completed_def)
  then show "outcome no_fuel_err (completed c t st) (f st1)"
    by (rule outcome_weaken [OF assms(2)]) (auto intro: completed_moves [OF m])
qed

lemma sim_complete_ok:
  assumes inv: "sim_inv c now st" and cfg: "sc_chain cfg = c" and t: "t = end_of d st"
    and other: "\<And>d' fl. sim_inflight d' st = Some fl \<Longrightarrow> t \<le> fl_end_t fl"
  shows "outcome no_fuel_err (completed c t st) (sim_complete cfg d t idx st)"
proof (cases "sim_inflight d st")
  case None
  then show ?thesis by (simp add: sim_complete_def)
next
  case (Some fl)
  then have t': "t = fl_end_t fl" using t by (simp add: end_of_def)
  have ok: "pool_ok st" "budget c st" "jobs_ok st" "stream_ok d' now st" for d' using inv by (cases d'; simp add: sim_inv_def)+
  have now: "now \<le> t" using ok(4) [of d] Some t' by (simp add: stream_ok_def)
  have closed: "completed c t st (set_inflight d None st1)" if s1: "pool_step st st1" "lighter st st1" for st1
  proof -
    let ?st = "set_inflight d None st1"
    note f = pool_step_frame [OF s1(1)]
    have infl: "sim_inflight d' ?st = (if d' = d then None else sim_inflight d' st)" for d' by (simp add: f)
    have tr: "track n ?st = track n st" for n by (simp add: track_def f)
    have "stream_ok d' t ?st" for d'
    proof (cases "d' = d")
      case True
      have "stream_ok d (fl_end_t fl) ?st" by (rule stream_finished [OF ok(4) Some tr]) simp
      then show ?thesis using True t' by simp
    next
      case False
      have "stream_ok d' t st" by (rule stream_later [OF ok(4) now other])
      moreover have "stream_ok d' t ?st = stream_ok d' t st" by (rule stream_ok_cong) (simp_all add: infl False tr)
      ultimately show ?thesis by simp
    qed
    moreover have "budget c ?st" using budget_lighter [OF ok(2) s1] by (simp add: budget_def)
    ultimately have "sim_inv c t ?st"
      using s1(1) ok(3) inv by (simp add: sim_inv_def pool_step_def jobs_ok_def f)
    moreover have "aside st ?st" by (simp add: aside_def f tr)
    moreover have "Suc (sim_work ?st) = sim_work st"
      using Some by (cases d) (simp_all add: sim_work_def set_inflight_def sim_inflight_def lane_count_def f)
    ultimately show ?thesis by (simp add: completed_def)
  qed
  have step1: "outcome no_fuel_err (completed c t st)
      (bindE (finish_slots d oid st) (\<lambda>st. emit cfg kind t idx act args (set_inflight d None st)))" for oid kind act args
  proof (rule outcome_bind [OF finish_slots_ok [OF ok(1)]])
    fix st1 assume "pool_step st st1 \<and> lighter st st1"
    then have cl: "completed c t st (set_inflight d None st1)" using closed by blast
    then have "sim_inv c t (set_inflight d None st1)" by (simp add: completed_def)
    then show "outcome no_fuel_err (completed c t st) (emit cfg kind t idx act args (set_inflight d None st1))"
      by (rule outcome_weaken [OF emit_moves]) (auto intro: completed_moves [OF cl])
  qed
  show ?thesis
    unfolding sim_complete_def Some option.case Let_def bindE_assoc [symmetric]
    by (rule completed_bind [OF step1]) (auto intro: activate_waiters sim_moves_refl)
qed

lemma complete_next_ok:
  assumes inv: "sim_inv c now st" and cfg: "sc_chain cfg = c" and t: "t = min (end_of FromSlow st) (end_of ToSlow st)"
  shows "outcome no_fuel_err (completed c t st) (complete_next cfg idx st)"
proof -
  have other: "t \<le> fl_end_t fl" if "sim_inflight d st = Some fl" for d fl
    using that t by (cases d) (simp_all add: end_of_def min_le_iff_disj)
  have start: "outcome no_fuel_err (sim_moves c t 0 st1) (sim_try_start cfg d t idx st1)" if "sim_inv c t st1" for d st1
    by (rule try_start_sim_moves [OF that cfg])
  have two: "outcome no_fuel_err (sim_moves c t 0 st1) (bindE (sim_try_start cfg d t idx st1) (sim_try_start cfg d' t idx))" if "sim_inv c t st1" for d d' st1
    using sim_moves_bind [OF start [OF that] start] by simp
  show ?thesis
  proof (cases "end_of FromSlow st \<le> end_of ToSlow st")
    case True
    then have t1: "t = end_of FromSlow st" using t by simp
    have "complete_next cfg idx st = bindE (sim_complete cfg FromSlow t idx st) (sim_try_start cfg FromSlow t idx)"
      using True t1 by (simp add: complete_next_def)
    then show ?thesis using completed_bind [OF sim_complete_ok [OF inv cfg t1] start] other by simp
  next
    case False
    then have t1: "t = end_of ToSlow st" using t by simp
    have "complete_next cfg idx st = bindE (sim_complete cfg ToSlow t idx st)
        (\<lambda>st. bindE (sim_try_start cfg ToSlow t idx st) (sim_try_start cfg FromSlow t idx))"
      using False t1 by (simp add: complete_next_def Let_def)
    then show ?thesis using completed_bind [OF sim_complete_ok [OF inv cfg t1] two] other by simp
  qed
qed

text \<open>Advancing to a time keeps the invariant and, with more fuel than transfers, does not run out of it.\<close>

lemma sim_advance_ok:
  assumes cfg: "sc_chain cfg = c"
  shows "sim_inv c now st \<Longrightarrow> now \<le> target \<Longrightarrow> sim_work st < n \<Longrightarrow>
    outcome no_fuel_err (sim_moves c target 0 st) (sim_advance n cfg target idx st)"
proof (induction n arbitrary: now st)
  case (Suc n)
  let ?t = "min (end_of FromSlow st) (end_of ToSlow st)"
  show ?case
  proof (cases "target < ?t")
    case True
    have "stream_ok d target st" for d
    proof (rule stream_later [OF _ Suc.prems(2)])
      show "stream_ok d now st" using Suc.prems(1) by (cases d) (simp_all add: sim_inv_def)
      show "target \<le> fl_end_t fl" if "sim_inflight d st = Some fl" for fl
        using True that by (cases d) (simp_all add: end_of_def)
    qed
    then have "sim_inv c target st" using Suc.prems(1) by (simp add: sim_inv_def)
    then show ?thesis using True by (subst sim_advance.simps) (simp add: sim_moves_refl)
  next
    case False
    have "outcome no_fuel_err (sim_moves c target 0 st) (bindE (complete_next cfg idx st) (sim_advance n cfg target idx))"
    proof (rule outcome_bind [OF complete_next_ok [OF Suc.prems(1) cfg refl]])
      fix st1 assume cm: "completed c ?t st st1"
      then have "outcome no_fuel_err (sim_moves c target 0 st1) (sim_advance n cfg target idx st1)"
        using False Suc.prems(3) by (intro Suc.IH [where now = ?t]) (auto simp: completed_def)
      then show "outcome no_fuel_err (sim_moves c target 0 st) (sim_advance n cfg target idx st1)"
        by (rule outcome_weaken) (use cm in \<open>auto simp: completed_def sim_moves_def intro: aside_trans\<close>)
    qed
    then show ?thesis by (subst sim_advance.simps) (simp only: False if_False nat.case)
  qed
qed simp

text \<open>An advance to the next completion completes something.\<close>

lemma sim_advance_progress:
  assumes cfg: "sc_chain cfg = c" and inv: "sim_inv c now st" and now: "now \<le> t" and t: "t = min (end_of FromSlow st) (end_of ToSlow st)"
    and n: "sim_work st < n"
  shows "outcome no_fuel_err (completed c t st) (sim_advance n cfg t idx st)"
proof -
  obtain m where m: "n = Suc m" using n by (cases n) auto
  have "outcome no_fuel_err (completed c t st) (bindE (complete_next cfg idx st) (sim_advance m cfg t idx))"
  proof (rule outcome_bind [OF complete_next_ok [OF inv cfg t]])
    fix st1 assume cm: "completed c t st st1"
    then have "outcome no_fuel_err (sim_moves c t 0 st1) (sim_advance m cfg t idx st1)"
      using n m by (intro sim_advance_ok [OF cfg, where now = t]) (auto simp: completed_def)
    then show "outcome no_fuel_err (completed c t st) (sim_advance m cfg t idx st1)"
      by (rule outcome_weaken) (auto intro: completed_moves [OF cm])
  qed
  then show ?thesis unfolding m using t by (subst sim_advance.simps) simp
qed

lemma sim_drain_ok:
  assumes cfg: "sc_chain cfg = c"
  shows "sim_inv c now st \<Longrightarrow> sim_work st < n \<Longrightarrow>
    outcome no_fuel_err (\<lambda>st'. (\<exists>t. sim_inv c t st') \<and> aside st st' \<and> sm_in_from st' = None \<and> sm_in_to st' = None) (sim_drain n cfg idx st)"
proof (induction n arbitrary: now st)
  case (Suc n)
  show ?case
  proof (cases "sm_in_from st = None \<and> sm_in_to st = None")
    case True
    then show ?thesis using Suc.prems(1) by (subst sim_drain.simps) auto
  next
    case False
    have "outcome no_fuel_err (\<lambda>st'. (\<exists>t. sim_inv c t st') \<and> aside st st' \<and> sm_in_from st' = None \<and> sm_in_to st' = None)
        (bindE (complete_next cfg idx st) (sim_drain n cfg idx))"
    proof (rule outcome_bind [OF complete_next_ok [OF Suc.prems(1) cfg refl]])
      fix st1 assume cm: "completed c (min (end_of FromSlow st) (end_of ToSlow st)) st st1"
      then have "sim_inv c (min (end_of FromSlow st) (end_of ToSlow st)) st1" "sim_work st1 < n"
        using Suc.prems(2) by (auto simp: completed_def)
      note ih = Suc.IH [OF this]
      show "outcome no_fuel_err (\<lambda>st'. (\<exists>t. sim_inv c t st') \<and> aside st st' \<and> sm_in_from st' = None \<and> sm_in_to st' = None) (sim_drain n cfg idx st1)"
        by (rule outcome_weaken [OF ih]) (use cm in \<open>auto simp: completed_def intro: aside_trans\<close>)
    qed
    then show ?thesis by (subst sim_drain.simps) (simp only: False if_False nat.case)
  qed
qed simp

end
