(* ===== verification/Sim_Safety.thy ===== *)
theory Sim_Safety
  imports Sim_Moves
begin

text \<open>
  Safety of a simulated run: tasks in order on the compute stream, peaks within capacity, the streams
  serial, and an end of every loop with fuel above the number of triggers of the chain.
\<close>

section \<open>Waiting for a task's inputs and memory\<close>

lemma next_end_ge:
  assumes "sim_inv c now st" and "min (end_of FromSlow st) (end_of ToSlow st) \<noteq> INF_T"
  shows "now \<le> min (end_of FromSlow st) (end_of ToSlow st)"
proof -
  have "now \<le> end_of d st \<or> end_of d st = INF_T" for d
    using assms(1) by (cases d) (auto simp: sim_inv_def stream_ok_def end_of_def split: option.splits)
  then show ?thesis using assms(2) unfolding min_def by (metis (full_types) order.trans linear)
qed

lemma wait_ready_ok:
  assumes cfg: "sc_chain cfg = c"
  shows "sim_inv c target st \<Longrightarrow> sim_work st < n \<Longrightarrow> sim_work st < fuel \<Longrightarrow>
    outcome no_fuel_err (\<lambda>(start, st'). target \<le> start \<and> sim_moves c start 0 st st' \<and> ready_to_run cfg t st')
      (wait_ready fuel n cfg i t target st)"
proof (induction n arbitrary: target st)
  case (Suc n)
  let ?Q = "\<lambda>st target (start, st'). target \<le> start \<and> sim_moves c start 0 st st' \<and> ready_to_run cfg t st'"
  show ?case
  proof (cases "ready_to_run cfg t st")
    case True
    then show ?thesis using Suc.prems(1) by (subst wait_ready.simps) (simp add: sim_moves_refl)
  next
    case False
    have rest: "outcome no_fuel_err (?Q st target) (let next_end = min (end_of FromSlow st2) (end_of ToSlow st2)
        in if next_end = INF_T then Inl (ValueError ''fast-deadlock'')
           else bindE (sim_advance fuel cfg next_end i st2) (wait_ready fuel n cfg i t next_end))"
      if st2: "sim_moves c target 0 st st2" for st2
    proof -
      let ?e = "min (end_of FromSlow st2) (end_of ToSlow st2)"
      have inv2: "sim_inv c target st2" and w2: "sim_work st2 \<le> sim_work st" using st2 by (simp_all add: sim_moves_def)
      have "outcome no_fuel_err (?Q st target) (bindE (sim_advance fuel cfg ?e i st2) (wait_ready fuel n cfg i t ?e))" if e: "?e \<noteq> INF_T"
      proof (rule outcome_bind [OF sim_advance_progress [OF cfg inv2 next_end_ge [OF inv2 e] refl]])
        show "sim_work st2 < fuel" using w2 Suc.prems(3) by simp
        fix st3 assume cm: "completed c ?e st2 st3"
        then have "sim_inv c ?e st3" "sim_work st3 < n" "sim_work st3 < fuel"
          using w2 Suc.prems(2,3) by (auto simp: completed_def)
        note ih = Suc.IH [OF this]
        have st3: "sim_moves c ?e 0 st st3"
          using cm st2 by (auto simp: completed_def sim_moves_def intro: aside_trans)
        show "outcome no_fuel_err (?Q st target) (wait_ready fuel n cfg i t ?e st3)"
        proof (rule outcome_weaken [OF ih], clarify)
          fix start st' assume "?e \<le> start" "sim_moves c start 0 st3 st'" "ready_to_run cfg t st'"
          then show "target \<le> start \<and> sim_moves c start 0 st st' \<and> ready_to_run cfg t st'"
            using next_end_ge [OF inv2 e] sim_moves_trans [OF st3] by (metis order.trans add_0)
        qed
      qed
      then show ?thesis by (simp add: Let_def)
    qed
    have start: "outcome no_fuel_err (sim_moves c target 0 st1) (sim_try_start cfg d target i st1)" if "sim_inv c target st1" for d st1
      by (rule try_start_sim_moves [OF that cfg])
    have both: "outcome no_fuel_err (sim_moves c target 0 st) (bindE (sim_try_start cfg FromSlow target i st) (sim_try_start cfg ToSlow target i))"
      using sim_moves_bind [OF start [OF Suc.prems(1)] start] by simp
    have "outcome no_fuel_err (?Q st target) (bindE (bindE (sim_try_start cfg FromSlow target i st) (sim_try_start cfg ToSlow target i)) (\<lambda>st.
        let next_end = min (end_of FromSlow st) (end_of ToSlow st)
        in if next_end = INF_T then Inl (ValueError ''fast-deadlock'')
           else bindE (sim_advance fuel cfg next_end i st) (wait_ready fuel n cfg i t next_end)))"
      by (rule outcome_bind [OF both rest])
    then show ?thesis
      by (subst wait_ready.simps) (simp only: False if_False nat.case bindE_assoc)
  qed
qed simp

lemma input_ready_no_fuel: "outcome no_fuel_err (\<lambda>_. True) (input_ready_t inp now st)"
  by (auto simp: input_ready_t_def deferred_prefetch_ready_t_def Let_def split: option.splits slot_state.splits list.splits)

lemma first_fit_end_no_fuel: "outcome no_fuel_err (\<lambda>_. True) (first_fit_end needed free sched)"
  by (induction needed free sched rule: first_fit_end.induct) auto

lemma earliest_start_ok: "outcome no_fuel_err (\<lambda>r. sm_busy_until st \<le> r) (earliest_start cfg t st)"
proof -
  have inputs: "outcome no_fuel_err (\<lambda>r. sm_busy_until st \<le> r)
      (foldE (\<lambda>inp target. bindE (input_ready_t inp probe st) (\<lambda>r. Inr (max target r))) inps (sm_busy_until st))" for probe inps
    by (rule outcome_foldE_inv) (auto intro!: outcome_bind [OF input_ready_no_fuel])
  have reserve: "outcome no_fuel_err (\<lambda>_. True) (reservation_ready_t c n now st)" for c n now
    by (auto simp: reservation_ready_t_def Let_def first_fit_end_no_fuel split: option.splits)
  show ?thesis
    unfolding earliest_start_def Let_def
    by (rule outcome_bind [OF inputs]) (auto intro!: outcome_bind [OF reserve])
qed


section \<open>Reserving outputs and starting a task\<close>

definition task_sane :: "sim_task \<Rightarrow> bool" where
  "task_sane t \<longleftrightarrow> 0 \<le> sk_runtime t \<and> 0 \<le> sk_workspace_bytes t \<and> (\<forall>out \<in> set (sk_outputs t). 0 \<le> oa_size out)"

lemma entry_added:
  assumes "pool_ok st" and "dget (sm_pool st) (oid, loc) = None" and "pe_location e = loc" and "0 \<le> pe_size e"
  shows "outcome no_fuel_err (\<lambda>st'. pool_step st st' \<and>
      loc_total st' ''backing'' = loc_total st ''backing'' + (if loc = ''backing'' then pe_size e else 0))
    (add_total loc (pe_size e) (put_entry oid loc e st))"
proof (rule outcomeI)
  show "no_fuel_err x" if "add_total loc (pe_size e) (put_entry oid loc e st) = Inl x" for x
    using that by (auto simp: add_total_def split: option.splits)
  show "pool_step st st' \<and> loc_total st' ''backing'' = loc_total st ''backing'' + (if loc = ''backing'' then pe_size e else 0)"
    if "add_total loc (pe_size e) (put_entry oid loc e st) = Inr st'" for st'
    using add_entry_ok [OF assms that] by (auto simp: pool_step_def)
qed

lemma reserve_alloc_ok:
  assumes "pool_ok st" and "0 \<le> oa_size out"
  shows "outcome no_fuel_err (\<lambda>st'. pool_step st st' \<and>
      loc_total st' ''backing'' = loc_total st ''backing'' + (if oa_location out = ''backing'' then oa_size out else 0))
    (reserve_alloc out st)"
proof -
  let ?e = "\<lparr>pe_size = oa_size out, pe_state = Reserved, pe_location = oa_location out, pe_type = oa_type out\<rparr>"
  show ?thesis
    unfolding reserve_alloc_def
    using entry_added [OF assms(1), of "oa_id out" "oa_location out" ?e, unfolded pool_entry.simps, OF _ refl assms(2)]
    by (intro outcome_guard) (simp, blast)
qed

lemma reserve_allocs_ok:
  assumes "pool_ok st" and "\<forall>out \<in> set outs. 0 \<le> oa_size out"
  shows "outcome no_fuel_err (\<lambda>st'. pool_step st st' \<and> loc_total st' ''backing'' = loc_total st ''backing'' +
      (\<Sum>out \<leftarrow> filter (\<lambda>out. oa_location out = ''backing'') outs. oa_size out)) (foldE reserve_alloc outs st)"
  using assms
proof (induction outs arbitrary: st)
  case Nil
  then show ?case by (simp add: pool_step_refl)
next
  case (Cons out outs)
  have "0 \<le> oa_size out" using Cons.prems(2) by simp
  note first = reserve_alloc_ok [OF Cons.prems(1) this]
  show ?case
    unfolding foldE.simps
  proof (rule outcome_bind [OF first])
    fix st1 assume st1: "pool_step st st1 \<and> loc_total st1 ''backing'' = loc_total st ''backing'' + (if oa_location out = ''backing'' then oa_size out else 0)"
    then have "pool_ok st1" by (simp add: pool_step_def)
    then show "outcome no_fuel_err (\<lambda>st'. pool_step st st' \<and> loc_total st' ''backing'' = loc_total st ''backing'' +
        (\<Sum>out \<leftarrow> filter (\<lambda>out. oa_location out = ''backing'') (out # outs). oa_size out)) (foldE reserve_alloc outs st1)"
      using st1 Cons.prems(2) by (intro outcome_weaken [OF Cons.IH]) (auto intro: pool_step_trans)
  qed
qed

text \<open>What reserving and the compute stream leave alone: the transfer streams.\<close>

definition compute_side :: "sim_state \<Rightarrow> sim_state \<Rightarrow> bool" where
  "compute_side st st' \<longleftrightarrow> sm_in_from st' = sm_in_from st \<and> sm_in_to st' = sm_in_to st \<and> sm_q_from st' = sm_q_from st \<and>
     sm_q_to st' = sm_q_to st \<and> sm_deferred st' = sm_deferred st \<and>
     track ''from_slow'' st' = track ''from_slow'' st \<and> track ''to_slow'' st' = track ''to_slow'' st"

lemma compute_side_frame:
  assumes "compute_side st st'"
  shows "sim_work st' = sim_work st" and "jobs_ok st' = jobs_ok st" and "stream_ok d now st' = stream_ok d now st"
proof -
  have "sim_inflight d st' = sim_inflight d st" "track (direction_name d) st' = track (direction_name d) st"
    using assms by (cases d; simp add: compute_side_def sim_inflight_def)+
  then show "stream_ok d now st' = stream_ok d now st" by (rule stream_ok_cong)
qed (use assms in \<open>simp_all add: compute_side_def sim_work_def jobs_ok_def\<close>)

lemma reserve_task_ok:
  assumes inv: "sim_inv c now st" and cfg: "sc_chain cfg = c" and sane: "task_sane t"
  shows "outcome no_fuel_err (\<lambda>st'. sim_inv c now st' \<and> compute_side st st' \<and> sm_intervals st' = sm_intervals st) (reserve_task cfg t st)"
proof -
  let ?st = "st\<lparr>sm_workspace := sk_workspace_bytes t\<rparr>"
  let ?backing = "case tc_backing_memory_capacity c of None \<Rightarrow> True | Some cap \<Rightarrow> loc_total st ''backing'' + backing_output_bytes t \<le> cap"
  let ?fast = "\<lambda>st'. case tc_fast_memory_capacity c of None \<Rightarrow> True | Some cap \<Rightarrow> loc_total st' ''fast'' + sm_workspace st' \<le> cap"
  have ok: "pool_ok ?st" using inv by (simp add: sim_inv_def)
  have sizes: "\<forall>out \<in> set (sk_outputs t). 0 \<le> oa_size out" using sane by (simp add: task_sane_def)
  have done_: "sim_inv c now st' \<and> compute_side st st' \<and> sm_intervals st' = sm_intervals st"
    if b: ?backing and f: "?fast st'" and step: "pool_step ?st st'"
      and add: "loc_total st' ''backing'' = loc_total ?st ''backing'' + backing_output_bytes t" for st'
  proof -
    have side: "compute_side st st'" using pool_step_frame [OF step] by (simp add: compute_side_def track_def)
    have "budget c st'" using inv b f add pool_step_frame [OF step] by (auto simp: sim_inv_def budget_def loc_total_def split: option.splits)
    moreover have "0 \<le> sm_workspace st'" using sane pool_step_frame [OF step] by (simp add: task_sane_def)
    moreover have "pool_ok st'" using step by (simp add: pool_step_def)
    ultimately show ?thesis using inv side compute_side_frame [OF side] pool_step_frame [OF step] by (simp add: sim_inv_def)
  qed
  show ?thesis
    unfolding reserve_task_def cfg
    by (rule outcome_guard, simp, rule outcome_bind [OF reserve_allocs_ok [OF ok sizes]], rule outcome_guard)
      (auto simp: backing_output_bytes_def [symmetric] dest: done_)
qed

text \<open>The compute stream: one interval per task in chain order, each as long as its task.\<close>

definition compute_ok :: "sim_task list \<Rightarrow> sim_state \<Rightarrow> bool" where
  "compute_ok ts st \<longleftrightarrow> serial (track ''compute'' st) \<and> 0 \<le> sm_busy_until st \<and> (\<forall>iv \<in> set (track ''compute'' st). 0 \<le> ti_start iv) \<and> (\<forall>iv \<in> set (track ''compute'' st). ti_end iv \<le> sm_busy_until st) \<and>
     list_all2 (\<lambda>t iv. ti_task_id iv = sk_id t \<and> ti_end iv = ti_start iv + sk_runtime t) ts (track ''compute'' st)"

lemma compute_ok_aside: "aside st st' \<Longrightarrow> compute_ok ts st' = compute_ok ts st"
  by (simp add: aside_def compute_ok_def)

lemma begin_task_ok:
  assumes inv: "sim_inv c start st" and cfg: "sc_chain cfg = c" and sane: "task_sane t" and comp: "compute_ok ts st"
    and start: "sm_busy_until st \<le> start"
  shows "outcome no_fuel_err (\<lambda>st'. sim_inv c start st' \<and> sim_work st' = sim_work st \<and> compute_ok (ts @ [t]) st' \<and>
      sm_busy_until st' = start + sk_runtime t) (begin_task cfg i t start st)"
  unfolding begin_task_def Let_def
proof (rule outcome_bind [OF reserve_task_ok [OF inv cfg sane]])
  let ?iv = "\<lparr>ti_task_id = sk_id t, ti_start = start, ti_end = start + sk_runtime t, ti_track = ''compute''\<rparr>"
  fix st1 assume st1: "sim_inv c start st1 \<and> compute_side st st1 \<and> sm_intervals st1 = sm_intervals st"
  let ?st = "st1\<lparr>sm_intervals := sm_intervals st1 @ [?iv], sm_busy_until := start + sk_runtime t\<rparr>"
  have side: "compute_side st1 ?st" by (simp add: compute_side_def track_def)
  have inv': "sim_inv c start ?st"
    using st1 compute_side_frame [OF side] by (simp add: sim_inv_def budget_def loc_total_def)
  have work: "sim_work ?st = sim_work st" using st1 compute_side_frame(1) [OF side] compute_side_frame(1) by auto
  have tr: "track ''compute'' ?st = track ''compute'' st @ [?iv]" using st1 by (simp add: track_def)
  have comp': "compute_ok (ts @ [t]) ?st"
    using comp start sane unfolding compute_ok_def tr
    by (fastforce simp: serial_snoc task_sane_def intro: list_all2_appendI)
  show "outcome no_fuel_err (\<lambda>st'. sim_inv c start st' \<and> sim_work st' = sim_work st \<and> compute_ok (ts @ [t]) st' \<and>
      sm_busy_until st' = start + sk_runtime t)
    (emit cfg ''task_start'' start i (Some \<lparr>at_id = sk_id t, at_ends_at = start + sk_runtime t\<rparr>) (args_task (sk_id t)) ?st)"
    by (rule outcome_weaken [OF emit_logged])
      (use inv' work comp' in \<open>auto simp: logged_inv compute_ok_aside [OF logged_inv(2)] logged_frame\<close>)
qed

section \<open>The actions after a task\<close>

lemma pool_moves: "sim_inv c now st \<Longrightarrow> pool_step st st' \<Longrightarrow> lighter st st' \<Longrightarrow> sim_moves c now 0 st st'"
proof -
  assume a: "sim_inv c now st" "pool_step st st'" "lighter st st'"
  note f = pool_step_frame [OF a(2)]
  have "budget c st'" using a by (intro budget_lighter [OF _ a(2,3)]) (simp add: sim_inv_def)
  moreover have "pool_ok st'" using a(2) by (simp add: pool_step_def)
  ultimately show ?thesis
    using a(1) by (simp add: sim_moves_def sim_inv_def jobs_ok_def stream_ok_cong [OF f(1) f(3)] aside_def sim_work_def f)
qed

lemma sim_moves_weaken: "sim_moves c now j st st' \<Longrightarrow> j \<le> k \<Longrightarrow> sim_moves c now k st st'"
  by (simp add: sim_moves_def)

lemma moves_within: "outcome no_fuel_err (sim_moves c now j st) m \<Longrightarrow> j \<le> k \<Longrightarrow> outcome no_fuel_err (sim_moves c now k st) m"
  by (erule outcome_weaken) (auto intro: sim_moves_weaken)

lemma moves_emit: "sim_moves c now k st st' \<Longrightarrow> outcome no_fuel_err (sim_moves c now k st) (emit cfg kind t idx active args st')"
  using sim_moves_via [OF _ emit_moves, of c now k st st' now] sim_moves_inv by fastforce

lemma drop_entry_moves:
  assumes inv: "sim_inv c now st" and e: "dget (sm_pool st) (oid, loc) = Some e" and loc: "loc \<in> {''fast'', ''backing''}"
  shows "outcome no_fuel_err (\<lambda>st'. sim_moves c now 0 st (st'\<lparr>sm_pool := ddel (oid, loc) (sm_pool st')\<rparr>)) (add_total loc (- pe_size e) st)"
proof (rule outcome_weaken [OF delete_entry_step [OF _ e loc]])
  show "pool_ok st" using inv by (simp add: sim_inv_def)
qed (auto intro: pool_moves [OF inv])

lemma sim_release_moves:
  assumes inv: "sim_inv c now st"
  shows "outcome no_fuel_err (sim_moves c now 0 st) (sim_release cfg i oid st)"
proof (cases "dget (sm_pool st) (oid, ''fast'')")
  case None
  then show ?thesis by (simp add: sim_release_def)
next
  case (Some e)
  have rest: "outcome no_fuel_err (sim_moves c now 0 st)
      (if b then case dget (sm_pool st1) (oid, ''backing'') of None \<Rightarrow> Inr st1
         | Some bk \<Rightarrow> if pe_state bk = Live then bindE (add_total ''backing'' (- pe_size bk) st1)
             (\<lambda>st. Inr (st\<lparr>sm_pool := ddel (oid, ''backing'') (sm_pool st)\<rparr>)) else Inr st1 else Inr st1)"
    if m: "sim_moves c now 0 st st1" for st1 b
  proof -
    have "outcome no_fuel_err (sim_moves c now 0 st1) (bindE (add_total ''backing'' (- pe_size bk) st1)
        (\<lambda>st. Inr (st\<lparr>sm_pool := ddel (oid, ''backing'') (sm_pool st)\<rparr>)))" if "dget (sm_pool st1) (oid, ''backing'') = Some bk" for bk
      by (rule outcome_bind [OF drop_entry_moves [OF sim_moves_inv [OF m] that]]) simp_all
    then show ?thesis using sim_moves_via [OF m] m by (auto split: option.splits)
  qed
  show ?thesis
    using Some by (auto simp: sim_release_def Let_def intro!: outcome_bind [OF drop_entry_moves [OF inv Some]] rest)
qed

lemma transfer_runtime_ok: "outcome no_fuel_err (\<lambda>r. 0 \<le> r) (sim_transfer_runtime c d n override)"
  by (auto simp: sim_transfer_runtime_def split: option.splits direction.splits)

lemma sim_offload_moves:
  assumes inv: "sim_inv c now st"
  shows "outcome no_fuel_err (sim_moves c now 1 st) (sim_offload cfg i now trig st)"
proof (cases "dget (sm_pool st) (tt_obj_id trig, ''fast'')")
  case None
  then show ?thesis by (simp add: sim_offload_def)
next
  case (Some src)
  let ?st1 = "put_entry (tt_obj_id trig) ''fast'' (src\<lparr>pe_state := PendingOutbound\<rparr>) st"
  have "set_entry_state (tt_obj_id trig) ''fast'' PendingOutbound st = Inr ?st1"
    using Some by (simp add: set_entry_state_def pool_at_def)
  then have m1: "sim_moves c now 0 st ?st1"
    using set_entry_state_step [of st "tt_obj_id trig" "''fast''" PendingOutbound] inv by (auto simp: sim_inv_def intro: pool_moves)
  have src: "0 \<le> pe_size src" using pool_ok_entry Some inv by (auto simp: sim_inv_def)
  have q: "sm_q_to ?st1 = sm_q_to st" by (simp add: put_entry_def)
  have "outcome no_fuel_err (sim_moves c now 1 st) (emit cfg k t j a r (?st1\<lparr>sm_q_to := sm_q_to st @
      [\<lparr>qx_obj_id = o1, qx_direction = ToSlow, qx_src_size = pe_size src, qx_runtime = rt, qx_dst_type = ty\<rparr>]\<rparr>))"
    if "0 \<le> rt" for rt k t j a r o1 ty
  proof -
    have "job_ok \<lparr>qx_obj_id = o1, qx_direction = ToSlow, qx_src_size = pe_size src, qx_runtime = rt, qx_dst_type = ty\<rparr>"
      using that src by (simp add: job_ok_def)
    from sim_moves_trans [OF m1 queue_moves(2) [OF sim_moves_inv [OF m1] this]]
    show ?thesis by (intro moves_emit) (simp add: q)
  qed
  then show ?thesis
    unfolding sim_offload_def Let_def using Some
    by (auto split: option.splits intro!: outcome_bind [OF transfer_runtime_ok] outcome_guard)
qed

lemma prefetch_job_ok: "0 \<le> pe_size e \<Longrightarrow> outcome no_fuel_err job_ok (prefetch_job cfg trig e)"
  unfolding prefetch_job_def by (rule outcome_bind [OF transfer_runtime_ok]) (simp add: job_ok_def)

lemma sim_prefetch_moves:
  assumes inv: "sim_inv c now st"
  shows "outcome no_fuel_err (sim_moves c now 1 st) (sim_prefetch cfg i now trig st)"
proof -
  have job: "outcome no_fuel_err job_ok (prefetch_job cfg trig e)" if "dget (sm_pool st) (oid, loc) = Some e" for oid loc e
    using that inv by (intro prefetch_job_ok) (auto simp: sim_inv_def dest: pool_ok_entry)
  have source: "outcome no_fuel_err (sim_moves c now 1 st) (case dget (sm_pool st) (oid, loc) of None \<Rightarrow> Inl (ValueError x)
      | Some e \<Rightarrow> if pe_state e \<noteq> Live then Inl (ValueError y)
          else bindE (prefetch_job cfg trig e) (\<lambda>tx. emit cfg k t j a r (st\<lparr>sm_q_from := sm_q_from st @ [tx]\<rparr>)))"
    for oid loc x y k t j a r
  proof (cases "dget (sm_pool st) (oid, loc)")
    case (Some e)
    show ?thesis
      unfolding Some option.case
      by (rule outcome_if, simp, rule outcome_bind [OF job [OF Some]], rule moves_emit, rule queue_moves(1) [OF inv])
  qed simp
  have deferred: "outcome no_fuel_err (sim_moves c now 1 st) (bindE (case (src, dev) of
         (Some e, _) \<Rightarrow> prefetch_job cfg trig e | (None, Some e) \<Rightarrow> prefetch_job cfg trig e | (None, None) \<Rightarrow> Inl (AttributeError ''type''))
      (\<lambda>tx. emit cfg k t j a r (st\<lparr>sm_deferred := dappend oid tx (sm_deferred st)\<rparr>)))"
    if "src = dget (sm_pool st) (oid, ''backing'')" "dev = dget (sm_pool st) (oid, ''fast'')" for src dev oid k t j a r
  proof (rule outcome_bind [of no_fuel_err job_ok])
    show "outcome no_fuel_err job_ok (case (src, dev) of (Some e, _) \<Rightarrow> prefetch_job cfg trig e
        | (None, Some e) \<Rightarrow> prefetch_job cfg trig e | (None, None) \<Rightarrow> Inl (AttributeError ''type''))"
      using that by (auto intro: job split: option.splits)
  qed (rule moves_emit, rule queue_moves(3) [OF inv])
  show ?thesis
    unfolding sim_prefetch_def Let_def
    by (rule outcome_if, simp, rule outcome_if, rule deferred [OF refl refl], rule source)
qed

lemma end_slots_moves:
  assumes "sim_inv c now st"
  shows "outcome no_fuel_err (sim_moves c now 0 st) (foldE (\<lambda>out. set_entry_state (oa_id out) (oa_location out) Live) outs st)"
proof -
  have "outcome no_fuel_err (sim_moves c now 0 st1) (set_entry_state (oa_id out) (oa_location out) Live st1)" if inv: "sim_inv c now st1" for st1 out
    using inv by (intro outcome_weaken [OF set_entry_state_step]) (auto simp: sim_inv_def intro!: pool_moves [OF inv])
  from sim_moves_foldE [OF assms this] show ?thesis by simp
qed

definition trigger_count :: "sim_task \<Rightarrow> nat" where
  "trigger_count t = length (sk_offload_after t) + length (sk_prefetch_after t)"

lemma end_task_ok:
  assumes inv: "sim_inv c now st" and cfg: "sc_chain cfg = c"
  shows "outcome no_fuel_err (sim_moves c now (trigger_count t) (st\<lparr>sm_workspace := 0\<rparr>)) (end_task cfg i t now st)"
proof -
  let ?st = "st\<lparr>sm_workspace := 0\<rparr>"
  have inv0: "sim_inv c now ?st"
  proof -
    have "compute_side st ?st" by (simp add: compute_side_def track_def)
    note f = compute_side_frame [OF this]
    show ?thesis using inv by (auto simp: sim_inv_def f budget_def loc_total_def)
  qed
  have release: "outcome no_fuel_err (sim_moves c now 0 st1) (if rs = [] then Inr st1
      else bindE (foldE (sim_release cfg i) rs st1) (emit cfg k tm j a r))" if "sim_inv c now st1" for st1 rs k tm j a r
    using sim_moves_bind [OF sim_moves_foldE [OF that sim_release_moves] emit_moves] that by (auto simp: sim_moves_refl)
  note steps = end_slots_moves emit_moves release sim_moves_foldE [OF _ sim_offload_moves] sim_moves_foldE [OF _ sim_prefetch_moves]
    try_start_sim_moves [OF _ cfg]
  have "outcome no_fuel_err (sim_moves c now (0 + (0 + (0 + (1 * length (sk_offload_after t) + (1 * length (sk_prefetch_after t) + (0 + 0))))) ) ?st)
      (end_task cfg i t now st)"
    unfolding end_task_def by (intro sim_moves_bind) (assumption | rule inv0 steps)+
  then show ?thesis by (simp add: trigger_count_def)
qed

section \<open>A task\<close>

lemma sim_task_step_ok:
  assumes cfg: "sc_chain cfg = c" and inv: "sim_inv c (sm_busy_until st) st" and comp: "compute_ok ts st" and sane: "task_sane t"
    and fuel: "sim_work st < fuel"
  shows "outcome no_fuel_err (\<lambda>st'. sim_inv c (sm_busy_until st') st' \<and> compute_ok (ts @ [t]) st' \<and> sim_work st' \<le> sim_work st + trigger_count t)
    (sim_task_step fuel cfg (i, t) st)"
  unfolding sim_task_step_def prod.case Let_def
proof (rule outcome_bind [OF earliest_start_ok])
  fix target assume target: "sm_busy_until st \<le> target"
  let ?Q = "\<lambda>st'. sim_inv c (sm_busy_until st') st' \<and> compute_ok (ts @ [t]) st' \<and> sim_work st' \<le> sim_work st + trigger_count t"
  show "outcome no_fuel_err ?Q (bindE (sim_advance fuel cfg target i st) (\<lambda>st. bindE (wait_ready fuel fuel cfg i t target st)
      (\<lambda>(start, st). bindE (begin_task cfg i t start st) (\<lambda>st.
        bindE (sim_advance fuel cfg (start + sk_runtime t) (Suc i) st) (end_task cfg i t (start + sk_runtime t))))))"
  proof (rule outcome_bind [OF sim_advance_ok [OF cfg inv target fuel]])
    fix st1 assume m1: "sim_moves c target 0 st st1"
    then have "sim_work st1 < fuel" using fuel by (simp add: sim_moves_def)
    note wait = wait_ready_ok [OF cfg sim_moves_inv [OF m1] this this]
    show "outcome no_fuel_err ?Q (bindE (wait_ready fuel fuel cfg i t target st1) (\<lambda>(start, st). bindE (begin_task cfg i t start st) (\<lambda>st.
        bindE (sim_advance fuel cfg (start + sk_runtime t) (Suc i) st) (end_task cfg i t (start + sk_runtime t)))))"
    proof (rule outcome_bind [OF wait], clarify)
      fix start st2 assume start: "target \<le> start" and m2: "sim_moves c start 0 st1 st2"
      let ?fin = "start + sk_runtime t"
      have m: "sim_moves c start 0 st st2" using sim_moves_trans [OF m1 m2] by simp
      then have comp2: "compute_ok ts st2" and busy: "sm_busy_until st2 \<le> start"
        using comp compute_ok_aside target start by (auto simp: sim_moves_def aside_def compute_ok_def)
      show "outcome no_fuel_err ?Q (bindE (begin_task cfg i t start st2) (\<lambda>st. bindE (sim_advance fuel cfg ?fin (Suc i) st) (end_task cfg i t ?fin)))"
      proof (rule outcome_bind [OF begin_task_ok [OF sim_moves_inv [OF m2] cfg sane comp2 busy]])
        fix st3 assume st3: "sim_inv c start st3 \<and> sim_work st3 = sim_work st2 \<and> compute_ok (ts @ [t]) st3 \<and> sm_busy_until st3 = ?fin"
        have adv: "outcome no_fuel_err (sim_moves c ?fin 0 st3) (sim_advance fuel cfg ?fin (Suc i) st3)"
          using st3 m fuel sane by (intro sim_advance_ok [OF cfg, where now = start]) (auto simp: sim_moves_def task_sane_def)
        show "outcome no_fuel_err ?Q (bindE (sim_advance fuel cfg ?fin (Suc i) st3) (end_task cfg i t ?fin))"
        proof (rule outcome_bind [OF adv])
          fix st4 assume m4: "sim_moves c ?fin 0 st3 st4"
          show "outcome no_fuel_err ?Q (end_task cfg i t ?fin st4)"
            by (rule outcome_weaken [OF end_task_ok [OF sim_moves_inv [OF m4] cfg]])
              (use m m4 st3 in \<open>auto simp: sim_moves_def aside_def compute_ok_def track_def sim_work_def\<close>)
        qed
      qed
    qed
  qed
qed

section \<open>A run\<close>

definition chain_sane :: "task_chain \<Rightarrow> bool" where
  "chain_sane c \<longleftrightarrow> (\<forall>t \<in> set (tc_tasks c). task_sane t) \<and> (\<forall>ob \<in> set (tc_initial_memory c). 0 \<le> so_size ob)"

definition trigger_total :: "task_chain \<Rightarrow> nat" where
  "trigger_total c = sum_list (map trigger_count (tc_tasks c))"

lemma load_object_step:
  assumes "pool_ok st" and "0 \<le> so_size ob"
  shows "outcome no_fuel_err (pool_step st) (load_object ob st)"
proof -
  let ?e = "\<lparr>pe_size = so_size ob, pe_state = Live, pe_location = so_location ob, pe_type = so_type ob\<rparr>"
  have "outcome no_fuel_err (pool_step st) (add_total (so_location ob) (so_size ob) (put_entry (so_id ob) (so_location ob) ?e st))"
    if "dget (sm_pool st) (so_id ob, so_location ob) = None"
    by (rule outcome_weaken [OF entry_added [OF assms(1) that, of ?e, unfolded pool_entry.simps, OF refl assms(2)]]) simp_all
  then show ?thesis unfolding load_object_def by (intro outcome_guard) simp_all
qed

lemma start_state_ok:
  assumes "chain_sane c"
  shows "outcome no_fuel_err (\<lambda>st. sim_inv c 0 st \<and> sim_work st = 0 \<and> compute_ok [] st \<and> sm_busy_until st = 0) (start_state c)"
proof -
  have empty: "pool_ok empty_state" by (simp add: empty_state_def pool_inv_def pool_bytes_def dsum_def)
  have load: "outcome no_fuel_err (pool_step empty_state) (foldE load_object (tc_initial_memory c) empty_state)"
  proof (rule outcome_foldE_inv, rule pool_step_refl [OF empty])
    fix ob st assume ob: "ob \<in> set (tc_initial_memory c)" and st: "pool_step empty_state st"
    then show "outcome no_fuel_err (pool_step empty_state) (load_object ob st)"
      using assms by (intro outcome_weaken [OF load_object_step]) (auto simp: chain_sane_def pool_step_def [of _ st] intro: pool_step_trans [OF st])
  qed
  have check: "outcome no_fuel_err (\<lambda>_. \<forall>loc \<in> {''fast'', ''backing''}. \<forall>cap. chain_capacity c loc = Some cap \<longrightarrow> dget_or tot loc 0 \<le> cap)
      (check_initial_capacity c tot)" for tot
    by (auto simp: check_initial_capacity_def guardE_def split: option.splits)
  show ?thesis
    unfolding start_state_def
  proof (rule outcome_bind [OF load], rule outcome_bind [OF check])
    fix st u assume st: "pool_step empty_state st"
      and cap: "\<forall>loc \<in> {''fast'', ''backing''}. \<forall>cap. chain_capacity c loc = Some cap \<longrightarrow> dget_or (sm_total st) loc 0 \<le> cap"
    let ?st = "st\<lparr>sm_peak_fast := loc_total st ''fast'', sm_peak_backing := loc_total st ''backing''\<rparr>"
    note f = pool_step_frame [OF st, unfolded empty_state_def, simplified]
    have tr: "track n ?st = []" for n by (simp add: track_def f)
    have inf: "sim_inflight d ?st = None" for d by (cases d) (simp_all add: sim_inflight_def f)
    have "stream_ok d 0 ?st" for d by (simp add: stream_ok_def tr inf serial_def)
    moreover have "budget c ?st" using cap by (auto simp: budget_def loc_total_def chain_capacity_def events_ok_def f)
    moreover have "pool_ok ?st" using st by (simp add: pool_step_def)
    ultimately show "outcome no_fuel_err (\<lambda>st. sim_inv c 0 st \<and> sim_work st = 0 \<and> compute_ok [] st \<and> sm_busy_until st = 0) (Inr ?st)"
      by (simp add: sim_inv_def jobs_ok_def sim_work_def lane_count_def deferred_count_def compute_ok_def serial_def tr f)
  qed
qed

lemma tasks_ok:
  assumes sane: "chain_sane c" and cfg: "sc_chain cfg = c" and fuel: "trigger_total c < fuel"
    and st: "sim_inv c 0 st" "sim_work st = 0" "compute_ok [] st" "sm_busy_until st = 0"
  shows "outcome no_fuel_err (\<lambda>st. (\<exists>now. sim_inv c now st) \<and> compute_ok (tc_tasks c) st \<and> sim_work st \<le> trigger_total c)
    (foldE (sim_task_step fuel cfg) (enumerate 0 (tc_tasks c)) st)"
proof -
  let ?P = "\<lambda>done st. sim_inv c (sm_busy_until st) st \<and> compute_ok (map snd done) st \<and> sim_work st \<le> sum_list (map (trigger_count \<circ> snd) done)"
  have "outcome no_fuel_err (?P (enumerate 0 (tc_tasks c))) (foldE (sim_task_step fuel cfg) (enumerate 0 (tc_tasks c)) st)"
  proof (rule outcome_foldE [where P = ?P])
    show "?P [] st" using st by simp
    fix "done" it todo st1 assume xs: "enumerate 0 (tc_tasks c) = done @ it # todo" and P: "?P done st1"
    obtain i t where it: "it = (i, t)" by (cases it)
    have ts: "tc_tasks c = map snd done @ t # map snd todo" using arg_cong [OF xs, of "map snd"] by (simp add: it)
    have "task_sane t" using sane ts by (simp add: chain_sane_def)
    moreover have "sim_work st1 < fuel" using P fuel by (simp add: trigger_total_def ts)
    ultimately show "outcome no_fuel_err (?P (done @ [it])) (sim_task_step fuel cfg it st1)"
      using P unfolding it by (intro outcome_weaken [OF sim_task_step_ok [OF cfg]]) auto
  qed
  then show ?thesis by (rule outcome_weaken) (auto simp: trigger_total_def simp flip: map_map)
qed

text \<open>What a finished run's log satisfies.\<close>

definition log_track :: "string \<Rightarrow> event_log \<Rightarrow> task_interval list" where
  "log_track n lg = filter (\<lambda>iv. ti_track iv = n) (el_task_intervals lg)"

definition log_ok :: "task_chain \<Rightarrow> event_log \<Rightarrow> bool" where
  "log_ok c lg \<longleftrightarrow>
     (\<forall>cap. tc_fast_memory_capacity c = Some cap \<longrightarrow> el_peak_fast_memory_bytes lg \<le> cap) \<and>
     (\<forall>cap. tc_backing_memory_capacity c = Some cap \<longrightarrow> el_peak_backing_memory_bytes lg \<le> cap) \<and>
     serial (log_track ''compute'' lg) \<and> serial (log_track ''from_slow'' lg) \<and> serial (log_track ''to_slow'' lg) \<and>
     events_ok c (el_events lg) \<and> (\<forall>iv \<in> set (log_track ''compute'' lg). 0 \<le> ti_start iv) \<and>
     (\<forall>iv \<in> set (log_track ''from_slow'' lg) \<union> set (log_track ''to_slow'' lg). CHR '':'' \<in> set (ti_task_id iv)) \<and>
     list_all2 (\<lambda>t iv. ti_task_id iv = sk_id t \<and> ti_end iv = ti_start iv + sk_runtime t) (tc_tasks c) (log_track ''compute'' lg)"

lemma run_impl_ok:
  assumes sane: "chain_sane c" and fuel: "trigger_total c < fuel"
  shows "outcome no_fuel_err (log_ok c) (run_impl fuel c override snapshots memory_trace)"
  unfolding run_impl_def Let_def
proof (rule outcome_bind [OF start_state_ok [OF sane]], elim conjE, rule outcome_bind, rule tasks_ok [OF sane _ fuel], simp, assumption+,
    elim conjE exE, rule outcome_bind, rule sim_drain_ok, simp, assumption)
  show "sim_work st < fuel" if "sim_work st \<le> trigger_total c" for st using that fuel by simp
  fix st st1 now
  let ?log = "\<lambda>st. \<lparr>el_task_intervals = sm_intervals st, el_events = sm_events st, el_peak_fast_memory_bytes = sm_peak_fast st,
    el_peak_backing_memory_bytes = max (sm_peak_backing st) (loc_total st ''backing''), el_memory_trace = sm_memory_points st\<rparr>"
  assume comp: "compute_ok (tc_tasks c) st"
    and end_: "(\<exists>t. sim_inv c t st1) \<and> aside st st1 \<and> sm_in_from st1 = None \<and> sm_in_to st1 = None"
  then obtain t where inv: "sim_inv c t st1" by blast
  have "compute_ok (tc_tasks c) st1" using comp end_ compute_ok_aside by blast
  then have "log_ok c (?log st1)"
    using inv by (auto simp: log_ok_def log_track_def sim_inv_def budget_def stream_ok_def compute_ok_def track_def split: option.splits)
  then show "outcome no_fuel_err (log_ok c) (bindE (guardE (sm_q_from st1 = [] \<and> sm_q_to st1 = [] \<and> sm_deferred st1 = [])
      (ValueError ''simulator finished with transfers still queued'')) (\<lambda>_. Inr (?log st1)))"
    by (intro outcome_guard) simp_all
qed

section \<open>Fuel\<close>

interpretation advance: fuelled_loop
  "\<lambda>f st. if target < min (end_of FromSlow st) (end_of ToSlow st) then Inr st else bindE (complete_next cfg idx st) f"
  "\<lambda>n. sim_advance n cfg target idx" for cfg target idx
  by unfold_locales (auto intro: fuel_le_bind simp: sim_advance.simps)

interpretation final: fuelled_loop
  "\<lambda>f st. if sm_in_from st = None \<and> sm_in_to st = None then Inr st else bindE (complete_next cfg idx st) f"
  "\<lambda>n. sim_drain n cfg idx" for cfg idx
  by unfold_locales (auto intro: fuel_le_bind simp: sim_drain.simps)

lemma wait_ready_fuel:
  "n \<le> m \<Longrightarrow> fuel \<le> fuel' \<Longrightarrow> fuel_le (wait_ready fuel n cfg i t target st) (wait_ready fuel' m cfg i t target st)"
proof (induction n arbitrary: m target st)
  case 0
  then show ?case by (simp add: wait_ready.simps fuel_le_def)
next
  case (Suc n)
  then obtain m' where "m = Suc m'" "n \<le> m'" by (cases m) auto
  with Suc.IH Suc.prems(2) show ?case
    by (subst (1 2) wait_ready.simps) (auto intro!: fuel_le_bind advance.loop_mono simp: Let_def)
qed

lemma sim_task_step_fuel: "n \<le> m \<Longrightarrow> fuel_le (sim_task_step n cfg it st) (sim_task_step m cfg it st)"
  unfolding sim_task_step_def Let_def
  by (cases it) (auto intro!: fuel_le_bind wait_ready_fuel advance.loop_mono)

lemma run_impl_fuel: "n \<le> m \<Longrightarrow> fuel_le (run_impl n c override snapshots mt) (run_impl m c override snapshots mt)"
  unfolding run_impl_def Let_def
  by (intro fuel_le_bind fuel_le_foldE sim_task_step_fuel final.loop_mono fuel_le_refl)

lemma sim_run_fuel: "n \<le> m \<Longrightarrow> fuel_le (sim_run n c v s mt) (sim_run m c v s mt)"
  unfolding sim_run_def Let_def
  by (cases s) (auto intro!: fuel_le_bind run_impl_fuel)

lemma guardE_no_fuel: "no_fuel_err e \<Longrightarrow> outcome no_fuel_err (\<lambda>_. True) (guardE b e)"
  by (simp add: guardE_def)

lemma foldE_no_fuel: "(\<And>x s. outcome no_fuel_err (\<lambda>_. True) (f x s)) \<Longrightarrow> outcome no_fuel_err (\<lambda>_. True) (foldE f xs s)"
  by (rule outcome_foldE_inv) simp_all

lemma bindE_no_fuel:
  "outcome no_fuel_err (\<lambda>_. True) m \<Longrightarrow> (\<And>a. outcome no_fuel_err (\<lambda>_. True) (f a)) \<Longrightarrow> outcome no_fuel_err (\<lambda>_. True) (bindE m f)"
  by (rule outcome_bind)

lemmas plain_checks = bindE_no_fuel foldE_no_fuel guardE_no_fuel

lemma validate_ids_no_fuel: "outcome no_fuel_err (\<lambda>_. True) (validate_id_resolution c)"
  unfolding validate_id_resolution_def resolve_task_def fresh_key_def known_id_def check_outputs_def check_final_def Let_def
  by (intro plain_checks outcome_if; simp add: guardE_def split: prod.splits)

lemma validate_triggers_no_fuel: "outcome no_fuel_err (\<lambda>_. True) (validate_triggers c)"
  unfolding validate_triggers_def trigger_task_def check_offload_def check_prefetch_def fresh_key_def Let_def
  by (intro plain_checks outcome_if; simp)

lemma validate_releases_no_fuel: "outcome no_fuel_err (\<lambda>_. True) (validate_releases_mutation c)"
  unfolding validate_releases_mutation_def release_task_def check_input_def check_final_residency_def Let_def
  by (intro plain_checks outcome_if; simp add: guardE_def split: prod.splits option.splits)

lemma validate_capacity_no_fuel: "outcome no_fuel_err (\<lambda>_. True) (validate_capacity c)"
proof -
  have "outcome no_fuel_err (\<lambda>_. True) (initial_alloc c)"
    unfolding initial_alloc_def by (rule foldE_no_fuel) (simp add: add_alloc_def split: option.splits)
  moreover have "outcome no_fuel_err (\<lambda>_. True) (check_initial_capacity c al)" for al
    unfolding check_initial_capacity_def by (intro plain_checks) simp
  ultimately show ?thesis
    unfolding validate_capacity_def by (intro bindE_no_fuel) (auto simp: guardE_def split: option.splits prod.splits)
qed

lemma validate_chain_no_fuel: "outcome no_fuel_err (\<lambda>_. True) (validate_chain c)"
  unfolding validate_chain_def
  by (intro bindE_no_fuel validate_ids_no_fuel validate_triggers_no_fuel validate_releases_no_fuel validate_capacity_no_fuel)

lemma sim_run_ok:
  assumes "chain_sane c" and "trigger_total c < fuel"
  shows "outcome no_fuel_err (log_ok c) (sim_run fuel c validate snapshots memory_trace)"
proof -
  have "outcome no_fuel_err (\<lambda>_. True) (if validate then validate_chain c else Inr ())"
    by (simp add: validate_chain_no_fuel)
  then show ?thesis
    unfolding sim_run_def Let_def
    by (rule outcome_bind) (use run_impl_ok [OF assms] in \<open>auto intro: outcome_bind [OF run_impl_ok [OF assms]]\<close>)
qed

lemma sim_run_log:
  "chain_sane c \<Longrightarrow> trigger_total c < fuel \<Longrightarrow> sim_run fuel c v s mt = Inr lg \<Longrightarrow> log_ok c lg"
  using sim_run_ok [of c fuel v s mt] by simp

lemma demo_snapshot_run:
  "case sim_run 20 demo_chain True True True of
     Inr lg \<Rightarrow> length (el_events lg) = 14 \<and> map ti_end (log_track ''compute'' lg) = [10, 23] | Inl _ \<Rightarrow> False"
  by code_simp

lemma demo_chain_sane: "chain_sane demo_chain" "trigger_total demo_chain < 20"
  by code_simp+

lemma demo_snapshot_log:
  obtains lg where "sim_run 20 demo_chain True True True = Inr lg" "length (el_events lg) = 14" "map ti_end (log_track ''compute'' lg) = [10, 23]"
  using demo_snapshot_run by (auto split: sum.splits)

lemma serial_span:
  assumes "serial ivs" and "\<forall>iv \<in> set ivs. 0 \<le> ti_start iv"
    and "list_all2 (\<lambda>t iv. ti_task_id iv = sk_id t \<and> ti_end iv = ti_start iv + sk_runtime t) ts ivs" and "ts \<noteq> []"
  shows "(\<Sum>t \<leftarrow> ts. sk_runtime t) \<le> ti_end (last ivs)"
  using assms
proof (induction ts arbitrary: ivs rule: rev_induct)
  case (snoc t ts)
  obtain ivs' iv where ivs: "ivs = ivs' @ [iv]" "ti_end iv = ti_start iv + sk_runtime t"
    and l: "list_all2 (\<lambda>t iv. ti_task_id iv = sk_id t \<and> ti_end iv = ti_start iv + sk_runtime t) ts ivs'"
    using snoc.prems(3) by (auto simp: list_all2_append1 list_all2_Cons1)
  have "(\<Sum>t \<leftarrow> ts. sk_runtime t) \<le> ti_start iv"
  proof (cases ts)
    case Nil
    then show ?thesis using snoc.prems(2) ivs by simp
  next
    case Cons
    then have "ivs' \<noteq> []" using l by auto
    then have "last ivs' \<in> set ivs'" by simp
    then have "ti_end (last ivs') \<le> ti_start iv" using snoc.prems(1) unfolding ivs(1) serial_snoc by blast
    moreover have "(\<Sum>t \<leftarrow> ts. sk_runtime t) \<le> ti_end (last ivs')"
      using snoc.prems l ivs Cons by (intro snoc.IH) (auto simp: serial_snoc)
    ultimately show ?thesis by linarith
  qed
  then show ?case using ivs by simp
qed simp

section \<open>Results\<close>

definition log_peak :: "string \<Rightarrow> event_log \<Rightarrow> int" where
  "log_peak loc lg = (if loc = ''fast'' then el_peak_fast_memory_bytes lg else el_peak_backing_memory_bytes lg)"

text \<open>C7. A simulation never uses more memory than there is: in a run that returns, the recorded peak of
  each bounded location, fast memory including the active workspace, and the bytes every snapshot of the
  event log shows there are within its capacity.\<close>

theorem sim_within_capacity:
  assumes "chain_sane c" and "trigger_total c < fuel" and "sim_run fuel c validate snapshots memory_trace = Inr lg"
    and "loc \<in> {''fast'', ''backing''}" and "chain_capacity c loc = Some cap"
  shows "log_peak loc lg \<le> cap \<and> list_all (\<lambda>ev. snap_bytes loc ev \<le> cap) (el_events lg)"
  using sim_run_log [OF assms(1-3)] assms(4,5)
  by (auto simp: log_ok_def log_peak_def events_ok_def list_all_iff chain_capacity_def split: if_splits)

theorem sim_within_capacity_witness:
  "\<exists>lg. sim_run 20 demo_chain True True True = Inr lg \<and> length (el_events lg) = 14 \<and>
     log_peak ''fast'' lg \<le> 100 \<and> list_all (\<lambda>ev. snap_bytes ''fast'' ev \<le> 100) (el_events lg)"
proof -
  obtain lg where lg: "sim_run 20 demo_chain True True True = Inr lg" "length (el_events lg) = 14" by (rule demo_snapshot_log)
  have "chain_capacity demo_chain ''fast'' = Some 100" by code_simp
  with sim_within_capacity [OF demo_chain_sane lg(1), of "''fast''" 100] lg show ?thesis by blast
qed

text \<open>C8. The simulator terminates: the fuel of its three loops, advancing to a time, waiting for a task's
  inputs and memory, and the final drain, never runs out when it exceeds the number of transfer triggers of
  the chain, and the result does not depend on it.\<close>

theorem sim_terminates:
  assumes "chain_sane c" and "trigger_total c < fuel"
  shows "sim_run fuel c validate snapshots memory_trace \<noteq> Inl OutOfFuel \<and>
    sim_run fuel c validate snapshots memory_trace = sim_run (Suc (trigger_total c)) c validate snapshots memory_trace"
proof -
  let ?run = "\<lambda>n. sim_run n c validate snapshots memory_trace"
  have no: "?run n \<noteq> Inl OutOfFuel" if "trigger_total c < n" for n
    using outcome_Inl [OF sim_run_ok [OF assms(1) that]] by fastforce
  have "fuel_le (?run (Suc (trigger_total c))) (?run fuel)" using assms(2) by (intro sim_run_fuel) simp
  then show ?thesis using no [OF assms(2)] no [of "Suc (trigger_total c)"] by (auto simp: fuel_le_def)
qed

theorem sim_terminates_witness:
  "trigger_total demo_chain < 20 \<and> sim_run 20 demo_chain True True True \<noteq> Inl OutOfFuel \<and>
   sim_run 20 demo_chain True True True = sim_run (Suc (trigger_total demo_chain)) demo_chain True True True"
  using sim_terminates [OF demo_chain_sane] demo_chain_sane(2) by blast

text \<open>C9. Each stream of a simulation serves one request at a time: its intervals follow each other without
  overlap in the order they started, and the compute stream runs exactly the chain's tasks in chain order,
  each for its runtime.\<close>

theorem sim_streams_serial:
  assumes "chain_sane c" and "trigger_total c < fuel" and "sim_run fuel c validate snapshots memory_trace = Inr lg"
  shows "list_all (\<lambda>n. serial (log_track n lg)) [''compute'', ''from_slow'', ''to_slow''] \<and>
    list_all2 (\<lambda>t iv. ti_task_id iv = sk_id t \<and> ti_end iv = ti_start iv + sk_runtime t) (tc_tasks c) (log_track ''compute'' lg)"
  using sim_run_log [OF assms] by (simp add: log_ok_def)

theorem sim_streams_serial_witness:
  "\<exists>lg. sim_run 20 demo_chain True True True = Inr lg \<and> map ti_end (log_track ''compute'' lg) = [10, 23] \<and>
     list_all (\<lambda>n. serial (log_track n lg)) [''compute'', ''from_slow'', ''to_slow''] \<and>
     map ti_task_id (log_track ''compute'' lg) = map sk_id (tc_tasks demo_chain)"
proof -
  obtain lg where lg: "sim_run 20 demo_chain True True True = Inr lg" "map ti_end (log_track ''compute'' lg) = [10, 23]"
    by (rule demo_snapshot_log)
  note s = sim_streams_serial [OF demo_chain_sane lg(1)]
  then have "map sk_id (tc_tasks demo_chain) = map ti_task_id (log_track ''compute'' lg)"
    by (auto simp: list_all2_conv_all_nth intro: nth_equalityI)
  with s lg show ?thesis by (intro exI [of _ lg]) simp
qed

text \<open>A simulated makespan is at least the compute time: the last task ends no earlier than the sum of
  the chain's task runtimes.\<close>

theorem sim_makespan_bound:
  assumes "chain_sane c" and "trigger_total c < fuel" and "sim_run fuel c validate snapshots memory_trace = Inr lg"
    and "tc_tasks c \<noteq> []"
  shows "(\<Sum>t \<leftarrow> tc_tasks c. sk_runtime t) \<le> ti_end (last (log_track ''compute'' lg))"
  using sim_run_log [OF assms(1-3)] assms(4) by (intro serial_span) (auto simp: log_ok_def)

theorem sim_makespan_bound_witness:
  "\<exists>lg. sim_run 20 demo_chain True True True = Inr lg \<and> map ti_end (log_track ''compute'' lg) = [10, 23] \<and>
     (\<Sum>t \<leftarrow> tc_tasks demo_chain. sk_runtime t) \<le> ti_end (last (log_track ''compute'' lg))"
proof -
  obtain lg where lg: "sim_run 20 demo_chain True True True = Inr lg" "map ti_end (log_track ''compute'' lg) = [10, 23]"
    by (rule demo_snapshot_log)
  have "tc_tasks demo_chain \<noteq> []" by code_simp
  from sim_makespan_bound [OF demo_chain_sane lg(1) this] lg show ?thesis by (intro exI [of _ lg] conjI)
qed

end
