(* ===== verification/Stall_Report.thy ===== *)
theory Stall_Report
  imports Sim_Safety
begin

text \<open>
  The stall report, \<open>src/dataflow_sim/engine/stall_report.py\<close>: where the time of a simulated plan went.
  Compute gaps are attributed to an input that arrived at their end, to a copy to slow memory that ended
  then, or to neither; each transfer stream gets the windows in which a triggered transfer was waiting.
  The dictionaries keyed by direction are lists over the two directions.
\<close>

section \<open>Model\<close>

record stall_report =
  sr_makespan_us :: time
  sr_compute_busy_us :: time
  sr_stall_us :: time
  sr_input_wait_us :: time
  sr_capacity_wait_us :: time
  sr_other_wait_us :: time
  sr_stall_by_object :: "(string, time) dict"
  sr_stream_busy_us :: "(direction, time) dict"
  sr_backlog_us :: "(direction, time) dict"
  sr_backlog_windows :: "(direction, (time \<times> time) list) dict"
  sr_transfer_backlog_overlap :: "(string, time) dict"

text \<open>The name of a transfer interval after the first colon, up to the first hash.\<close>

definition transfer_obj :: "string \<Rightarrow> string res" where
  "transfer_obj tid =
     (case dropWhile (\<lambda>ch. ch \<noteq> CHR '':'') tid of
        [] \<Rightarrow> Inl IndexError
      | _ # obj \<Rightarrow> Inr (takeWhile (\<lambda>ch. ch \<noteq> CHR ''#'') obj))"

definition sweep_point :: "time \<times> int \<Rightarrow> (time \<times> time) list \<times> int \<times> time option \<Rightarrow> (time \<times> time) list \<times> int \<times> time option" where
  "sweep_point ev s = (case (ev, s) of ((t, delta), (windows, prev, open_t)) \<Rightarrow>
     let depth = prev + delta
     in if prev = 0 \<and> 0 < depth then (windows, depth, Some t)
        else if 0 < prev \<and> depth = 0
        then (case open_t of
                None \<Rightarrow> (windows, depth, None)
              | Some o1 \<Rightarrow> ((if o1 < t then windows @ [(o1, t)] else windows), depth, None))
        else (windows, depth, open_t))"

definition merge_windows :: "(time \<times> int) list \<Rightarrow> (time \<times> time) list" where
  "merge_windows points = fst (fold sweep_point (sort points) ([], 0, None))"

definition overlap :: "time \<Rightarrow> time \<Rightarrow> (time \<times> time) list \<Rightarrow> time" where
  "overlap a0 a1 windows =
     (\<Sum>(w0, w1) \<leftarrow> windows. let lo = max a0 w0; hi = min a1 w1 in if lo < hi then hi - lo else 0)"

definition duration :: "task_interval \<Rightarrow> time" where
  "duration iv = ti_end iv - ti_start iv"

text \<open>\<open>ends_at[direction]\<close>: the objects whose transfer ends at a time.\<close>

definition add_end :: "task_interval \<Rightarrow> (time, string set) dict \<Rightarrow> (time, string set) dict res" where
  "add_end iv d = bindE (transfer_obj (ti_task_id iv)) (\<lambda>obj. Inr (dset (ti_end iv) (insert obj (dget_or d (ti_end iv) {})) d))"

record stalls =
  ss_prev_end :: time
  ss_stall :: time
  ss_input_wait :: time
  ss_capacity_wait :: time
  ss_other_wait :: time
  ss_by_object :: "(string, time) dict"

definition add_stall ::
  "(string, sim_task) dict \<Rightarrow> (time, string set) dict \<Rightarrow> (time, string set) dict \<Rightarrow> task_interval \<Rightarrow> stalls \<Rightarrow> stalls" where
  "add_stall tasks arrivals departures iv s =
     (let gap = ti_start iv - ss_prev_end s;
          s = s\<lparr>ss_prev_end := ti_end iv\<rparr>
      in if gap \<le> 0 then s
         else
           let s = s\<lparr>ss_stall := ss_stall s + gap\<rparr>;
               blocking = (case dget tasks (ti_task_id iv) of
                   None \<Rightarrow> []
                 | Some task \<Rightarrow> sorted_list_of_set (dget_or arrivals (ti_start iv) {} \<inter> set (sk_inputs task)))
           in if blocking \<noteq> []
              then let share = gap / of_nat (length blocking)
                   in s\<lparr>ss_input_wait := ss_input_wait s + gap,
                        ss_by_object := fold (\<lambda>oid d. dset oid (dget_or d oid 0 + share) d) blocking (ss_by_object s)\<rparr>
              else if dget departures (ti_start iv) \<noteq> None
              then s\<lparr>ss_capacity_wait := ss_capacity_wait s + gap\<rparr>
              else s\<lparr>ss_other_wait := ss_other_wait s + gap\<rparr>)"

definition triggers_of :: "direction \<Rightarrow> sim_task \<Rightarrow> transfer_trigger list" where
  "triggers_of d t = (case d of FromSlow \<Rightarrow> sk_prefetch_after t | ToSlow \<Rightarrow> sk_offload_after t)"

definition trigger_times :: "task_chain \<Rightarrow> (string, time) dict \<Rightarrow> direction \<Rightarrow> (string, time list) dict" where
  "trigger_times c ends d =
     fold (\<lambda>t acc. case dget ends (sk_id t) of
               None \<Rightarrow> acc
             | Some t_end \<Rightarrow> fold (\<lambda>trig. dappend (tt_obj_id trig) t_end) (triggers_of d t) acc) (tc_tasks c) []"

text \<open>The times at which the transfers of a stream were waiting: from the trigger to the start.\<close>

definition add_wait ::
  "(string, time list) dict \<Rightarrow> task_interval \<Rightarrow> (time \<times> time) list \<times> (string, nat) dict \<Rightarrow>
   ((time \<times> time) list \<times> (string, nat) dict) res" where
  "add_wait fired iv acc = (case acc of (waits, seen) \<Rightarrow>
     bindE (transfer_obj (ti_task_id iv)) (\<lambda>obj.
     let idx = dget_or seen obj 0;
         fires = dget_or fired obj [];
         enqueue = min (if idx < length fires then fires ! idx else ti_start iv) (ti_start iv)
     in Inr (if enqueue < ti_start iv then waits @ [(enqueue, ti_start iv)] else waits, dset obj (Suc idx) seen)))"

definition deltas :: "(time \<times> time) list \<Rightarrow> (time \<times> int) list" where
  "deltas waits = concat (map (\<lambda>(enqueue, start). [(enqueue, 1), (start, - 1)]) waits)"

definition stream_waits :: "(string, time list) dict \<Rightarrow> task_interval list \<Rightarrow> (time \<times> time) list res" where
  "stream_waits fired ivs = bindE (foldE (add_wait fired) (sort_key ti_start ivs) ([], [])) (\<lambda>(waits, _). Inr waits)"

definition add_overlap :: "(time \<times> time) list \<Rightarrow> task_interval \<Rightarrow> (string, time) dict \<Rightarrow> (string, time) dict res" where
  "add_overlap windows iv d =
     bindE (transfer_obj (ti_task_id iv)) (\<lambda>obj.
     let ov = overlap (ti_start iv) (ti_end iv) windows
     in Inr (if ov \<noteq> 0 then dset obj (dget_or d obj 0 + ov) d else d))"

definition compute_stalls :: "task_chain \<Rightarrow> event_log \<Rightarrow> stalls res" where
  "compute_stalls c lg =
     bindE (foldE add_end (log_track ''from_slow'' lg) []) (\<lambda>arrivals.
     bindE (foldE add_end (log_track ''to_slow'' lg) []) (\<lambda>departures.
     Inr (fold (add_stall (fold (\<lambda>t. dset (sk_id t) t) (tc_tasks c) []) arrivals departures) (log_track ''compute'' lg)
            \<lparr>ss_prev_end = 0, ss_stall = 0, ss_input_wait = 0, ss_capacity_wait = 0, ss_other_wait = 0, ss_by_object = []\<rparr>)))"

definition stream_windows :: "task_chain \<Rightarrow> event_log \<Rightarrow> direction \<Rightarrow> (time \<times> time) list res" where
  "stream_windows c lg d =
     (let compute_end = fold (\<lambda>iv. dset (ti_task_id iv) (ti_end iv)) (log_track ''compute'' lg) []
      in bindE (stream_waits (trigger_times c compute_end d) (log_track (direction_name d) lg)) (\<lambda>waits.
         Inr (merge_windows (deltas waits))))"

definition add_overlaps ::
  "event_log \<Rightarrow> direction \<Rightarrow> (time \<times> time) list \<Rightarrow> (string, time) dict \<Rightarrow> (string, time) dict res" where
  "add_overlaps lg d windows ov =
     (if windows = [] then Inr ov else foldE (add_overlap windows) (log_track (direction_name d) lg) ov)"

definition build_stall_report :: "task_chain \<Rightarrow> event_log \<Rightarrow> stall_report res" where
  "build_stall_report c lg =
     bindE (compute_stalls c lg) (\<lambda>s.
     bindE (stream_windows c lg FromSlow) (\<lambda>windows_from.
     bindE (stream_windows c lg ToSlow) (\<lambda>windows_to.
     bindE (add_overlaps lg FromSlow windows_from []) (\<lambda>ov.
     bindE (add_overlaps lg ToSlow windows_to ov) (\<lambda>ov.
     let busy = (\<lambda>n. \<Sum>iv \<leftarrow> log_track n lg. duration iv);
         waiting = (\<lambda>ws. \<Sum>(a, b) \<leftarrow> ws. b - a)
     in Inr \<lparr>sr_makespan_us = (if el_task_intervals lg = [] then 0 else Max (set (map ti_end (el_task_intervals lg)))),
             sr_compute_busy_us = busy ''compute'',
             sr_stall_us = ss_stall s, sr_input_wait_us = ss_input_wait s,
             sr_capacity_wait_us = ss_capacity_wait s, sr_other_wait_us = ss_other_wait s,
             sr_stall_by_object = ss_by_object s,
             sr_stream_busy_us = [(FromSlow, busy ''from_slow''), (ToSlow, busy ''to_slow'')],
             sr_backlog_us = [(FromSlow, waiting windows_from), (ToSlow, waiting windows_to)],
             sr_backlog_windows = [(FromSlow, windows_from), (ToSlow, windows_to)],
             sr_transfer_backlog_overlap = ov\<rparr>)))))"

section \<open>Backlog windows\<close>

definition covers :: "(time \<times> time) list \<Rightarrow> time \<Rightarrow> bool" where
  "covers ws t \<longleftrightarrow> list_ex (\<lambda>(a, b). a \<le> t \<and> t < b) ws"

definition depth_at :: "(time \<times> int) list \<Rightarrow> time \<Rightarrow> int" where
  "depth_at evs t = (\<Sum>(u, delta) \<leftarrow> evs. if u \<le> t then delta else 0)"

lemma covers_simps [simp]: "covers [] t \<longleftrightarrow> False" "covers (ws @ [(a, b)]) t \<longleftrightarrow> covers ws t \<or> a \<le> t \<and> t < b"
  by (auto simp: covers_def)

lemma depth_at_simps [simp]:
  "depth_at [] t = 0" "depth_at ((u, delta) # evs) t = (if u \<le> t then delta else 0) + depth_at evs t"
  by (simp_all add: depth_at_def)

lemma depth_at_later: "\<forall>x \<in> set evs. t < fst x \<Longrightarrow> depth_at evs t = 0"
  by (induction evs) (auto simp: depth_at_def)

lemma sweep_eq:
  "sweep_point (t, delta) (windows, prev, open_t) =
     (if prev = 0 \<and> 0 < prev + delta then (windows, prev + delta, Some t)
      else if 0 < prev \<and> prev + delta = 0
      then (case open_t of
              None \<Rightarrow> (windows, prev + delta, None)
            | Some o1 \<Rightarrow> ((if o1 < t then windows @ [(o1, t)] else windows), prev + delta, None))
      else (windows, prev + delta, open_t))"
  by (simp add: sweep_point_def Let_def)

text \<open>The sweep_point covers the times at which the depth is positive, when it never sinks below zero and ends at zero.\<close>

lemma sweep_covers:
  assumes "sorted (map fst evs)" and "\<forall>x \<in> set evs. snd x = 1 \<or> snd x = - 1"
    and "\<forall>k. 0 \<le> depth + sum_list (map snd (take k evs))" and "depth + sum_list (map snd evs) = 0"
    and "case op of None \<Rightarrow> depth = 0 | Some a \<Rightarrow> 0 < depth \<and> (\<forall>x \<in> set evs. a \<le> fst x)"
  shows "covers (fst (fold sweep_point evs (ws, depth, op))) t \<longleftrightarrow> covers ws t \<or>
    (case op of None \<Rightarrow> 0 < depth_at evs t | Some a \<Rightarrow> a \<le> t \<and> 0 < depth + depth_at evs t)"
  using assms
proof (induction evs arbitrary: ws depth op)
  case Nil
  then show ?case by (auto split: option.splits)
next
  case (Cons ev evs)
  obtain u delta where ev: "ev = (u, delta)" by (cases ev)
  have later: "t < u \<Longrightarrow> depth_at evs t = 0" using Cons.prems(1) by (intro depth_at_later) (auto simp: ev)
  have delta: "delta = 1 \<or> delta = - 1" using Cons.prems(2) by (auto simp: ev)
  have pre: "0 \<le> depth + delta + sum_list (map snd (take k evs))" for k
    using Cons.prems(3) [rule_format, of "Suc k"] by (simp add: ev add.assoc)
  have depth: "0 \<le> depth" "0 \<le> depth + delta" using Cons.prems(3) [rule_format, of 0] pre [of 0] by simp_all
  note IH = Cons.IH [of "depth + delta"]
  have hyps: "sorted (map fst evs)" "\<forall>x \<in> set evs. snd x = 1 \<or> snd x = - 1" "\<forall>k. 0 \<le> depth + delta + sum_list (map snd (take k evs))"
    "depth + delta + sum_list (map snd evs) = 0"
    using Cons.prems(1,2,4) pre by (auto simp: ev)
  show ?case
  proof (cases op)
    case None
    then have "depth = 0" "delta = 1" using Cons.prems(5) depth delta by auto
    moreover have "\<forall>x \<in> set evs. u \<le> fst x" using Cons.prems(1) by (auto simp: ev)
    ultimately show ?thesis
      using None IH [OF hyps, of "Some u" ws] later by (auto simp: ev sweep_eq)
  next
    case (Some a)
    then have a: "0 < depth" "a \<le> u" "\<forall>x \<in> set evs. a \<le> fst x" using Cons.prems(5) by (auto simp: ev)
    show ?thesis
    proof (cases "depth + delta = 0")
      case True
      let ?ws = "if a < u then ws @ [(a, u)] else ws"
      have "covers (fst (fold sweep_point evs (?ws, depth + delta, None))) t \<longleftrightarrow> covers ?ws t \<or> 0 < depth_at evs t"
        using IH [OF hyps, of None ?ws] True by simp
      moreover have "covers ?ws t \<longleftrightarrow> covers ws t \<or> a \<le> t \<and> t < u" by auto
      ultimately show ?thesis using Some a True later by (auto simp: ev sweep_eq)
    next
      case False
      then have "0 < depth + delta" using depth by simp
      then show ?thesis
        using Some a False IH [OF hyps, of "Some a" ws] later by (auto simp: ev sweep_eq)
    qed
  qed
qed

lemma deltas_simps [simp]: "deltas [] = []" "deltas ((a, b) # ws) = (a, 1) # (b, - 1) # deltas ws"
  by (simp_all add: deltas_def)

lemma sort_filter_length: "length (filter p (sort xs)) = length (filter p xs)"
  by (simp add: filter_sort)

lemma deltas_counts:
  "length (filter (\<lambda>x. snd x = 1 \<and> fst x < s) (deltas ws)) = length (filter (\<lambda>(a, b). a < s) ws)"
  "length (filter (\<lambda>x. snd x = - 1 \<and> fst x \<le> s) (deltas ws)) = length (filter (\<lambda>(a, b). b \<le> s) ws)"
  by (induction ws) auto

lemma sum_signs:
  "\<forall>x \<in> set xs. snd x = 1 \<or> snd x = - (1::int) \<Longrightarrow>
   sum_list (map snd xs) = int (length (filter (\<lambda>x. snd x = 1) xs)) - int (length (filter (\<lambda>x. snd x = - 1) xs))"
  by (induction xs) auto

lemma deltas_signs: "x \<in> set (deltas ws) \<Longrightarrow> snd x = 1 \<or> snd x = - 1"
  by (induction ws) auto

text \<open>Every end in a prefix of the sorted events has its begin there.\<close>

lemma prefix_balance:
  assumes "list_all (\<lambda>(a, b). a < b) ws"
  shows "0 \<le> sum_list (map snd (take k (sort (deltas ws))))"
proof -
  define L P Q where "L = sort (deltas ws)" and "P = take k L" and "Q = drop k L"
  have L: "L = P @ Q" by (simp add: P_def Q_def)
  have signs: "\<forall>x \<in> set P. snd x = 1 \<or> snd x = - 1"
    using deltas_signs set_take_subset [of k L] unfolding P_def L_def set_sort by blast
  have order: "x \<le> y" if "x \<in> set P" "y \<in> set Q" for x y
    using that sorted_sort [of "deltas ws"] unfolding L_def [symmetric] L sorted_append by blast
  have "length (filter (\<lambda>x. snd x = - 1) P) \<le> length (filter (\<lambda>x. snd x = 1) P)"
  proof (cases "filter (\<lambda>x. snd x = - 1) P = []")
    case False
    define s where "s = Max (fst ` set (filter (\<lambda>x. snd x = - 1) P))"
    have "set (filter (\<lambda>x. snd x = - 1) P) \<noteq> {}" using False unfolding set_empty .
    then have "s \<in> fst ` set (filter (\<lambda>x. snd x = - 1) P)" unfolding s_def by (intro Max_in) blast+
    then have sP: "(s, - 1) \<in> set P" by force
    have le: "fst x \<le> s" if "x \<in> set P" "snd x = - 1" for x unfolding s_def using that by (intro Max_ge) auto
    have "filter (\<lambda>x. snd x = - 1) P = filter (\<lambda>x. snd x = - 1 \<and> fst x \<le> s) P" using le by (intro filter_cong) auto
    then have "length (filter (\<lambda>x. snd x = - 1) P) \<le> length (filter (\<lambda>x. snd x = - 1 \<and> fst x \<le> s) L)" by (simp add: L)
    also have "\<dots> = length (filter (\<lambda>(a, b). b \<le> s) ws)" by (simp add: L_def sort_filter_length deltas_counts)
    also have "\<dots> \<le> length (filter (\<lambda>(a, b). a < s) ws)" using assms by (induction ws) auto
    also have "\<dots> = length (filter (\<lambda>x. snd x = 1 \<and> fst x < s) L)" by (simp add: L_def sort_filter_length deltas_counts)
    also have "\<dots> = length (filter (\<lambda>x. snd x = 1 \<and> fst x < s) P)"
    proof -
      have "\<not> (snd y = 1 \<and> fst y < s)" if "y \<in> set Q" for y using order [OF sP that] by (cases y) auto
      then show ?thesis by (simp add: L)
    qed
    also have "\<dots> \<le> length (filter (\<lambda>x. snd x = 1) P)" by (induction P) auto
    finally show ?thesis .
  qed simp
  then show ?thesis using sum_signs [OF signs] by (simp add: P_def L_def)
qed

lemma depth_of_waits:
  assumes "list_all (\<lambda>(a, b). a < b) ws"
  shows "0 < depth_at (sort (deltas ws)) t \<longleftrightarrow> covers ws t"
proof -
  have "depth_at (sort (deltas ws)) t = depth_at (deltas ws) t"
    unfolding depth_at_def by (rule sum_list_mset_eq) simp
  also have "\<dots> = int (length (filter (\<lambda>(a, b). a \<le> t \<and> t < b) ws))"
    using assms by (induction ws) (auto split: if_splits)
  finally show ?thesis by (auto simp: covers_def list_ex_iff filter_empty_conv)
qed

lemma merge_windows_covers:
  assumes "list_all (\<lambda>(a, b). a < b) ws"
  shows "covers (merge_windows (deltas ws)) t \<longleftrightarrow> covers ws t"
proof -
  have "sorted_wrt (\<lambda>x y. fst x \<le> fst y) (sort (deltas ws))"
    by (rule sorted_wrt_mono_rel [OF _ sorted_sort]) (auto simp: less_eq_prod_def)
  then have sorted: "sorted (map fst (sort (deltas ws)))" by (simp add: sorted_map)
  have "sum_list (map snd (deltas ws)) = 0" by (induction ws) auto
  then have zero: "sum_list (map snd (sort (deltas ws))) = 0"
    using sum_list_mset_eq [of "sort (deltas ws)" "deltas ws" snd] by simp
  have "covers (fst (fold sweep_point (sort (deltas ws)) ([], 0, None))) t \<longleftrightarrow> 0 < depth_at (sort (deltas ws)) t"
    using sweep_covers [OF sorted, of 0 None "[]" t] prefix_balance [OF assms] zero deltas_signs by simp
  then show ?thesis by (simp add: merge_windows_def depth_of_waits [OF assms])
qed

text \<open>The windows lie in order and apart.\<close>

lemma sweep_ordered:
  assumes "sorted (map fst evs)" and "sorted_wrt (\<lambda>x y. snd x \<le> fst y) ws" and "\<forall>x \<in> set ws. fst x < snd x"
    and "\<forall>x \<in> set ws. \<forall>ev \<in> set evs. snd x \<le> fst ev" and "\<forall>x \<in> set ws. \<forall>a. op = Some a \<longrightarrow> snd x \<le> a"
  shows "sorted_wrt (\<lambda>x y. snd x \<le> fst y) (fst (fold sweep_point evs (ws, depth, op))) \<and> (\<forall>x \<in> set (fst (fold sweep_point evs (ws, depth, op))). fst x < snd x)"
  using assms
proof (induction evs arbitrary: ws depth op)
  case (Cons ev evs)
  obtain u delta where ev: "ev = (u, delta)" by (cases ev)
  obtain ws' depth' op' where s: "sweep_point ev (ws, depth, op) = (ws', depth', op')" by (cases "sweep_point ev (ws, depth, op)")
  have u: "\<forall>ev \<in> set evs. u \<le> fst ev" using Cons.prems(1) by (auto simp: ev)
  have "ws' = ws \<or> (\<exists>a. op = Some a \<and> a < u \<and> ws' = ws @ [(a, u)] \<and> op' = None)" and "op' = op \<or> op' = Some u \<or> op' = None"
    using s by (auto simp: ev sweep_eq split: if_splits option.splits)
  then have "sorted_wrt (\<lambda>x y. snd x \<le> fst y) ws'" "\<forall>x \<in> set ws'. fst x < snd x"
    "\<forall>x \<in> set ws'. \<forall>ev \<in> set evs. snd x \<le> fst ev" "\<forall>x \<in> set ws'. \<forall>a. op' = Some a \<longrightarrow> snd x \<le> a"
    using Cons.prems u by (fastforce simp: ev sorted_wrt_append)+
  then show ?case using Cons.IH [of ws' op' depth'] Cons.prems(1) s by simp
qed simp

lemma merge_windows_ordered:
  "sorted_wrt (\<lambda>x y. snd x \<le> fst y) (merge_windows points) \<and> (\<forall>x \<in> set (merge_windows points). fst x < snd x)"
proof -
  have "sorted_wrt (\<lambda>x y. fst x \<le> fst y) (sort points)"
    by (rule sorted_wrt_mono_rel [OF _ sorted_sort]) (auto simp: less_eq_prod_def)
  then have "sorted (map fst (sort points))" by (simp add: sorted_map)
  from sweep_ordered [OF this, of "[]" None 0] show ?thesis by (simp add: merge_windows_def)
qed

section \<open>Accounting\<close>

definition total_of :: "('k, time) dict \<Rightarrow> time" where
  "total_of d = (\<Sum>p \<leftarrow> d. snd p)"

lemma total_of_add: "total_of (dset k (dget_or d k 0 + x) d) = total_of d + x"
  by (induction d) (auto simp: total_of_def dget_or_def)

lemma total_of_shares: "total_of (fold (\<lambda>k d. dset k (dget_or d k 0 + x) d) ks d) = total_of d + of_nat (length ks) * x"
  by (induction ks arbitrary: d) (simp_all add: total_of_add distrib_right)

definition split_ok :: "stalls \<Rightarrow> bool" where
  "split_ok s \<longleftrightarrow> ss_stall s = ss_input_wait s + ss_capacity_wait s + ss_other_wait s \<and> total_of (ss_by_object s) = ss_input_wait s"

lemma add_stall_split: "split_ok s \<Longrightarrow> split_ok (add_stall tasks arr dep iv s)"
  unfolding add_stall_def Let_def
  by (auto simp: split_ok_def total_of_shares split: option.splits)

lemma fold_stall_split: "split_ok s \<Longrightarrow> split_ok (fold (add_stall tasks arr dep) ivs s)"
  by (induction ivs arbitrary: s) (auto intro: add_stall_split)

lemma add_stall_gap:
  assumes "ss_prev_end s \<le> ti_start iv"
  shows "ss_prev_end (add_stall tasks arr dep iv s) = ti_end iv"
    and "ss_stall (add_stall tasks arr dep iv s) = ss_stall s + (ti_start iv - ss_prev_end s)"
  using assms unfolding add_stall_def Let_def by (auto split: option.splits)

lemma fold_stall_time:
  assumes "serial ivs" and "\<forall>iv \<in> set ivs. ss_prev_end s \<le> ti_start iv"
  shows "ss_stall (fold (add_stall tasks arr dep) ivs s) + (\<Sum>iv \<leftarrow> ivs. duration iv) =
    ss_stall s + (if ivs = [] then 0 else ti_end (last ivs) - ss_prev_end s)"
  using assms
proof (induction ivs arbitrary: s)
  case (Cons iv ivs)
  let ?s = "add_stall tasks arr dep iv s"
  have le: "ss_prev_end s \<le> ti_start iv" using Cons.prems(2) by simp
  note g = add_stall_gap [OF le, of tasks arr dep]
  have "serial ivs" "\<forall>x \<in> set ivs. ss_prev_end ?s \<le> ti_start x" using Cons.prems(1) by (auto simp: serial_def g(1))
  from Cons.IH [OF this] show ?case by (auto simp: g duration_def)
qed simp

lemma no_error_foldE: "(\<And>x s. x \<in> set xs \<Longrightarrow> \<exists>s'. f x s = Inr s') \<Longrightarrow> \<exists>s'. foldE f xs s = Inr s'"
  by (induction xs arbitrary: s) (auto simp: bindE_eq_Inr, metis)

lemma transfer_obj_named: "CHR '':'' \<in> set tid \<Longrightarrow> \<exists>obj. transfer_obj tid = Inr obj"
  by (auto simp: transfer_obj_def split: list.splits)

lemma stream_waits_ok:
  assumes "\<forall>iv \<in> set ivs. CHR '':'' \<in> set (ti_task_id iv)"
  shows "\<exists>ws. stream_waits fired ivs = Inr ws"
proof -
  have "\<exists>s'. foldE (add_wait fired) (sort_key ti_start ivs) ([], []) = Inr s'"
  proof (rule no_error_foldE)
    fix iv s assume "iv \<in> set (sort_key ti_start ivs)"
    then obtain obj where "transfer_obj (ti_task_id iv) = Inr obj" using assms transfer_obj_named by auto
    then show "\<exists>s'. add_wait fired iv s = Inr s'" by (cases s) (simp add: add_wait_def Let_def)
  qed
  then show ?thesis by (auto simp: stream_waits_def)
qed

lemma stream_waits_strict: "stream_waits fired ivs = Inr ws \<Longrightarrow> list_all (\<lambda>(a, b). a < b) ws"
proof -
  have "outcome (\<lambda>_. True) (\<lambda>(ws, _). list_all (\<lambda>(a, b). a < b) ws) (foldE (add_wait fired) ivs' ([], []))" for ivs'
  proof (rule outcome_foldE_inv)
    fix iv and s :: "(time \<times> time) list \<times> (string, nat) dict" assume "case s of (ws, _) \<Rightarrow> list_all (\<lambda>(a, b). a < b) ws"
    then show "outcome (\<lambda>_. True) (\<lambda>(ws, _). list_all (\<lambda>(a, b). a < b) ws) (add_wait fired iv s)"
      by (cases s; cases "transfer_obj (ti_task_id iv)") (auto simp: add_wait_def Let_def)
  qed simp
  then show "stream_waits fired ivs = Inr ws \<Longrightarrow> list_all (\<lambda>(a, b). a < b) ws"
    by (fastforce simp: stream_waits_def bindE_eq_Inr dest: outcome_Inr)
qed

lemma folds_ok:
  assumes "\<forall>iv \<in> set ivs. CHR '':'' \<in> set (ti_task_id iv)"
  shows "\<exists>d'. foldE add_end ivs d = Inr d'" and "\<exists>d'. foldE (add_overlap ws) ivs e = Inr d'"
proof -
  have obj: "\<exists>obj. transfer_obj (ti_task_id iv) = Inr obj" if "iv \<in> set ivs" for iv
    using assms that transfer_obj_named by blast
  show "\<exists>d'. foldE add_end ivs d = Inr d'" by (rule no_error_foldE) (auto simp: add_end_def dest!: obj)
  show "\<exists>d'. foldE (add_overlap ws) ivs e = Inr d'" by (rule no_error_foldE) (auto simp: add_overlap_def Let_def dest!: obj)
qed

definition named_transfers :: "event_log \<Rightarrow> bool" where
  "named_transfers lg \<longleftrightarrow> (\<forall>d. \<forall>iv \<in> set (log_track (direction_name d) lg). CHR '':'' \<in> set (ti_task_id iv))"

lemma compute_stalls_ok:
  assumes "named_transfers lg"
  shows "\<exists>s. compute_stalls c lg = Inr s \<and> split_ok s \<and>
    (serial (log_track ''compute'' lg) \<longrightarrow> (\<forall>iv \<in> set (log_track ''compute'' lg). 0 \<le> ti_start iv) \<longrightarrow>
     (\<Sum>iv \<leftarrow> log_track ''compute'' lg. duration iv) + ss_stall s =
       (if log_track ''compute'' lg = [] then 0 else ti_end (last (log_track ''compute'' lg))))"
proof -
  let ?s0 = "\<lparr>ss_prev_end = 0, ss_stall = 0, ss_input_wait = 0, ss_capacity_wait = 0, ss_other_wait = 0, ss_by_object = []\<rparr>"
  have named: "\<forall>iv \<in> set (log_track (direction_name d) lg). CHR '':'' \<in> set (ti_task_id iv)" for d
    using assms by (simp add: named_transfers_def)
  obtain arr where arr: "foldE add_end (log_track ''from_slow'' lg) [] = Inr arr"
    using folds_ok(1) [OF named [of FromSlow]] by auto
  obtain dep where dep: "foldE add_end (log_track ''to_slow'' lg) [] = Inr dep"
    using folds_ok(1) [OF named [of ToSlow]] by auto
  have split: "split_ok (fold (add_stall tasks arr dep) ivs ?s0)" for tasks ivs
    by (rule fold_stall_split) (simp add: split_ok_def total_of_def)
  show ?thesis
    using split fold_stall_time [where s = ?s0 and arr = arr and dep = dep and ivs = "log_track ''compute'' lg"]
    by (simp add: compute_stalls_def arr dep add.commute)
qed

lemma build_report_ok:
  assumes "named_transfers lg"
  shows "\<exists>r s. build_stall_report c lg = Inr r \<and> compute_stalls c lg = Inr s \<and>
    sr_compute_busy_us r = (\<Sum>iv \<leftarrow> log_track ''compute'' lg. duration iv) \<and> sr_stall_us r = ss_stall s \<and>
    sr_input_wait_us r = ss_input_wait s \<and> sr_capacity_wait_us r = ss_capacity_wait s \<and>
    sr_other_wait_us r = ss_other_wait s \<and> sr_stall_by_object r = ss_by_object s"
proof -
  have named: "\<forall>iv \<in> set (log_track (direction_name d) lg). CHR '':'' \<in> set (ti_task_id iv)" for d
    using assms by (simp add: named_transfers_def)
  obtain s where s: "compute_stalls c lg = Inr s" using compute_stalls_ok [OF assms] by blast
  have "\<exists>ws. bindE (stream_waits fired (log_track (direction_name d) lg)) (\<lambda>w. Inr (merge_windows (deltas w))) = Inr ws" for fired d
    using stream_waits_ok [OF named, of fired d] by auto
  then have windows: "\<exists>ws. stream_windows c lg d = Inr ws" for d unfolding stream_windows_def Let_def .
  have overlaps: "\<exists>ov'. add_overlaps lg d ws ov = Inr ov'" for d ws ov
    using folds_ok(2) [OF named] by (simp add: add_overlaps_def)
  obtain w1 w2 where w: "stream_windows c lg FromSlow = Inr w1" "stream_windows c lg ToSlow = Inr w2" using windows by meson
  obtain o1 where o1: "add_overlaps lg FromSlow w1 [] = Inr o1" using overlaps by blast
  obtain o2 where o2: "add_overlaps lg ToSlow w2 o1 = Inr o2" using overlaps by blast
  show ?thesis by (simp add: build_stall_report_def s w o1 o2)
qed

lemma sim_run_named:
  assumes "chain_sane c" and "trigger_total c < fuel" and "sim_run fuel c validate snapshots memory_trace = Inr lg"
  shows "named_transfers lg"
proof -
  have "\<forall>iv \<in> set (log_track (direction_name d) lg). CHR '':'' \<in> set (ti_task_id iv)" for d
    using sim_run_log [OF assms] by (cases d) (auto simp: log_ok_def)
  then show ?thesis by (simp add: named_transfers_def)
qed

section \<open>Results\<close>

text \<open>C31. The backlog windows are exact: swept from waits that end after they begin, they cover a time
  exactly when some transfer was waiting then, and they lie in order without overlap, so that the backlog of
  a stream is the length of the times at which it had waiting work.\<close>

theorem backlog_windows_exact:
  assumes "list_all (\<lambda>(a, b). a < b) waits"
  shows "(covers (merge_windows (deltas waits)) t \<longleftrightarrow> covers waits t) \<and>
    sorted_wrt (\<lambda>x y. snd x \<le> fst y) (merge_windows (deltas waits)) \<and> list_all (\<lambda>x. fst x < snd x) (merge_windows (deltas waits))"
  using merge_windows_covers [OF assms] merge_windows_ordered [of "deltas waits"] by (simp add: list_all_iff)

theorem backlog_windows_exact_witness:
  "merge_windows (deltas [(1, 4), (2, 5), (7, 8)]) = [(1, 5), (7, 8)] \<and>
   covers (merge_windows (deltas [(1, 4), (2, 5), (7, 8)])) 3 \<and> \<not> covers (merge_windows (deltas [(1, 4), (2, 5), (7, 8)])) 6"
  using backlog_windows_exact [of "[(1, 4), (2, 5), (7, 8)]" 3] backlog_windows_exact [of "[(1, 4), (2, 5), (7, 8)]" 6]
  by (simp add: covers_def) code_simp

text \<open>C30. Every finished simulation has a stall report that accounts for all of its compute time: busy time is
  the sum of the task runtimes, busy and stalled time together reach the end of the last task, and stalled
  time is split without loss into waits for inputs, which are shared out over the objects waited for, waits
  for capacity, and others.\<close>

theorem stall_report_accounts:
  assumes "chain_sane c" and "trigger_total c < fuel" and "sim_run fuel c validate snapshots memory_trace = Inr lg"
    and "tc_tasks c \<noteq> []"
  shows "\<exists>r. build_stall_report c lg = Inr r \<and> sr_compute_busy_us r = (\<Sum>t \<leftarrow> tc_tasks c. sk_runtime t) \<and>
    sr_compute_busy_us r + sr_stall_us r = ti_end (last (log_track ''compute'' lg)) \<and>
    sr_stall_us r = sr_input_wait_us r + sr_capacity_wait_us r + sr_other_wait_us r \<and>
    total_of (sr_stall_by_object r) = sr_input_wait_us r"
proof -
  note named = sim_run_named [OF assms(1-3)]
  have log: "serial (log_track ''compute'' lg)" "\<forall>iv \<in> set (log_track ''compute'' lg). 0 \<le> ti_start iv"
    and all2: "list_all2 (\<lambda>t iv. ti_task_id iv = sk_id t \<and> ti_end iv = ti_start iv + sk_runtime t) (tc_tasks c) (log_track ''compute'' lg)"
    using sim_run_log [OF assms(1-3)] by (auto simp: log_ok_def)
  have busy: "(\<Sum>iv \<leftarrow> log_track ''compute'' lg. duration iv) = (\<Sum>t \<leftarrow> tc_tasks c. sk_runtime t)"
    using all2 by (induction rule: list_all2_induct) (auto simp: duration_def)
  have "log_track ''compute'' lg \<noteq> []" using all2 assms(4) by auto
  with build_report_ok [OF named, of c] compute_stalls_ok [OF named, of c] log busy show ?thesis
    by (auto simp: split_ok_def)
qed

theorem stall_report_accounts_witness:
  "\<exists>lg r. sim_run 20 demo_chain True True True = Inr lg \<and> build_stall_report demo_chain lg = Inr r \<and>
     sr_compute_busy_us r + sr_stall_us r = 23 \<and>
     sr_stall_us r = sr_input_wait_us r + sr_capacity_wait_us r + sr_other_wait_us r"
proof -
  obtain lg where lg: "sim_run 20 demo_chain True True True = Inr lg" "map ti_end (log_track ''compute'' lg) = [10, 23]"
    by (rule demo_snapshot_log)
  have "ti_end (last (log_track ''compute'' lg)) = last (map ti_end (log_track ''compute'' lg))"
    using lg(2) by (intro last_map [symmetric]) auto
  then have last: "ti_end (last (log_track ''compute'' lg)) = 23" by (simp add: lg(2))
  have "tc_tasks demo_chain \<noteq> []" by code_simp
  from stall_report_accounts [OF demo_chain_sane lg(1) this] last lg(1) show ?thesis by auto
qed

end
