(* ===== verification/Recompute_Plan.thy ===== *)
theory Recompute_Plan
  imports Stall_Report
begin

text \<open>
  Recompute selection, \<open>src/dataflow_sim/planning/recompute.py\<close> over the declarations of
  \<open>src/dataflow_sim/workloads/common/recompute.py\<close>. The chain builder and the residency policy are the
  arguments of the planner, as in the code; so are the answers of the wall clock (\<open>over n\<close>: is the budget
  spent at its \<open>n\<close>-th reading). The simulator runs with the fuel that \<open>sim_run\<close> never exhausts. An
  infinite makespan is \<open>None\<close>; the measured planning time is left out of the result.
\<close>

section \<open>Model\<close>

record sim_option =
  rp_level :: int
  rp_saved_bytes :: int
  rp_recompute_us :: time
  rp_label :: string

record sim_rewrite =
  rq_object_id :: string
  rq_f_task_id :: string
  rq_r_task_id :: string
  rq_options :: "sim_option list"
  rq_f_compute_block_key :: string
  rq_r_compute_block_key :: string
  rq_group_key :: string

record recompute_step =
  rc_converted :: "string list"
  rc_makespan_us :: "time option"
  rc_accepted :: bool

type_synonym levels = "(string, int) dict"
type_synonym variant = "levels \<times> task_chain \<times> stall_report"
type_synonym evaluator = "levels \<Rightarrow> (task_chain \<times> stall_report) res"

record plan_result =
  pl_levels :: levels
  pl_chain :: task_chain
  pl_makespan_us :: time
  pl_baseline_makespan_us :: "time option"
  pl_history :: "recompute_step list"
  pl_report :: stall_report

definition variant_makespan :: "variant \<Rightarrow> time" where
  "variant_makespan v = sr_makespan_us (snd (snd v))"

definition evaluate :: "(levels \<Rightarrow> task_chain res) \<Rightarrow> (task_chain \<Rightarrow> task_chain res) \<Rightarrow> evaluator" where
  "evaluate build_variant policy_fn lv =
     bindE (build_variant lv) (\<lambda>bare.
     bindE (policy_fn bare) (\<lambda>annotated.
     bindE (sim_run (Suc (trigger_total annotated)) annotated True False False) (\<lambda>lg.
     bindE (build_stall_report annotated lg) (\<lambda>report. Inr (annotated, report)))))"

definition is_value_error :: "err \<Rightarrow> bool" where
  "is_value_error e = (case e of ValueError _ \<Rightarrow> True | _ \<Rightarrow> False)"

definition next_level :: "sim_rewrite \<Rightarrow> int \<Rightarrow> int" where
  "next_level rw current =
     (case find (\<lambda>opt. current < rp_level opt) (rq_options rw) of Some opt \<Rightarrow> rp_level opt | None \<Rightarrow> current)"

definition option_at :: "sim_rewrite \<Rightarrow> int \<Rightarrow> sim_option res" where
  "option_at rw level =
     (case find (\<lambda>opt. rp_level opt = level) (rq_options rw) of
        Some opt \<Rightarrow> Inr opt | None \<Rightarrow> Inl (ValueError ''rewrite has no level''))"

definition add_candidate ::
  "levels \<Rightarrow> stall_report \<Rightarrow> string \<times> sim_rewrite \<Rightarrow> (string \<times> time) list \<Rightarrow> (string \<times> time) list res" where
  "add_candidate lv report kv out = (case kv of (obj_id, rw) \<Rightarrow>
     let current = dget_or lv obj_id 0; nxt = next_level rw current
     in if nxt = current then Inr out
        else
          bindE (option_at rw current) (\<lambda>cur_opt.
          bindE (option_at rw nxt) (\<lambda>nxt_opt.
          let benefit = dget_or (sr_stall_by_object report) obj_id 0 + dget_or (sr_transfer_backlog_overlap report) obj_id 0;
              net = benefit - (rp_recompute_us nxt_opt - rp_recompute_us cur_opt)
          in Inr (if 0 < net then out @ [(obj_id, net)] else out))))"

definition ranked_candidates :: "levels \<Rightarrow> (string, sim_rewrite) dict \<Rightarrow> stall_report \<Rightarrow> (string \<times> time) list res" where
  "ranked_candidates lv by_obj report =
     bindE (foldE (add_candidate lv report) by_obj []) (\<lambda>out. Inr (sort_key (\<lambda>(o1, net). (- net, o1)) out))"

definition convert :: "(string, sim_rewrite) dict \<Rightarrow> string \<times> time \<Rightarrow> levels \<Rightarrow> levels res" where
  "convert by_obj cand lv =
     (case (dget by_obj (fst cand), dget lv (fst cand)) of
        (Some rw, Some l) \<Rightarrow> Inr (dset (fst cand) (next_level rw l) lv)
      | _ \<Rightarrow> Inl (KeyError (fst cand)))"

definition top_level :: "sim_rewrite \<Rightarrow> int res" where
  "top_level rw = (if rq_options rw = [] then Inl IndexError else Inr (rp_level (last (rq_options rw))))"

definition all_levels :: "sim_rewrite list \<Rightarrow> levels res" where
  "all_levels rws = foldE (\<lambda>rw lv. bindE (top_level rw) (\<lambda>l. Inr (dset (rq_object_id rw) l lv))) rws []"

definition half_levels :: "sim_rewrite list \<Rightarrow> levels res" where
  "half_levels rws =
     foldE (\<lambda>(n, rw) lv. bindE (if even n then top_level rw else Inr 0) (\<lambda>l. Inr (dset (rq_object_id rw) l lv)))
       (enumerate 0 rws) []"

definition zero_levels :: "sim_rewrite list \<Rightarrow> levels" where
  "zero_levels rws = fold (\<lambda>rw. dset (rq_object_id rw) 0) rws []"

text \<open>One seed: its plan replaces a best plan that is missing or slower.\<close>

definition try_seed ::
  "evaluator \<Rightarrow> string \<times> levels \<Rightarrow> variant option \<times> recompute_step list \<Rightarrow> (variant option \<times> recompute_step list) res" where
  "try_seed ev seed s = (case (seed, s) of ((name, lv), (best, history)) \<Rightarrow>
     case ev lv of
       Inl e \<Rightarrow> if is_value_error e then Inr s else Inl e
     | Inr (chain, report) \<Rightarrow>
         (let accepted = (case best of None \<Rightarrow> True | Some b \<Rightarrow> sr_makespan_us report < variant_makespan b)
          in Inr (if accepted then Some (lv, chain, report) else best,
                  history @ [\<lparr>rc_converted = [''<seed:'' @ name @ ''>''], rc_makespan_us = Some (sr_makespan_us report),
                              rc_accepted = accepted\<rparr>])))"

record plan_state =
  ps_current :: variant
  ps_best :: variant
  ps_history :: "recompute_step list"
  ps_polls :: nat

text \<open>A feasible trial: recorded, and taken when it beats the current plan.\<close>

definition judge :: "variant \<Rightarrow> string list \<Rightarrow> plan_state \<Rightarrow> bool \<times> plan_state" where
  "judge v names st =
     (let accepted = (variant_makespan v < variant_makespan (ps_current st));
          st = st\<lparr>ps_history := ps_history st @
            [\<lparr>rc_converted = names, rc_makespan_us = Some (variant_makespan v), rc_accepted = accepted\<rparr>]\<rparr>
      in (accepted,
          if accepted
          then st\<lparr>ps_current := v, ps_best := (if variant_makespan v < variant_makespan (ps_best st) then v else ps_best st)\<rparr>
          else st))"

text \<open>The batch loop: shrink the batch until a trial beats the current plan, or none is left.\<close>

function try_batches ::
  "evaluator \<Rightarrow> (nat \<Rightarrow> bool) \<Rightarrow> (string, sim_rewrite) dict \<Rightarrow> (string \<times> time) list \<Rightarrow> nat \<Rightarrow> plan_state \<Rightarrow> (bool \<times> plan_state) res" where
  "try_batches ev over by_obj cands batch st =
     (if batch = 0 then Inr (False, st)
      else if over (ps_polls st) then Inr (False, st\<lparr>ps_polls := Suc (ps_polls st)\<rparr>)
      else
        bindE (foldE (convert by_obj) (take batch cands) (fst (ps_current st))) (\<lambda>lv.
        let st = st\<lparr>ps_polls := Suc (ps_polls st)\<rparr>
        in case ev lv of
             Inl e \<Rightarrow> if is_value_error e then try_batches ev over by_obj cands (batch div 2) st else Inl e
           | Inr cr \<Rightarrow>
               (case judge (lv, cr) (map fst (take batch cands)) st of (accepted, st) \<Rightarrow>
                if accepted then Inr (True, st) else try_batches ev over by_obj cands (batch div 2) st)))"
  by pat_completeness auto

termination
  by (relation "measure (\<lambda>(_, _, _, _, batch, _). batch)") auto

fun plan_iters :: "nat \<Rightarrow> evaluator \<Rightarrow> (nat \<Rightarrow> bool) \<Rightarrow> (string, sim_rewrite) dict \<Rightarrow> plan_state \<Rightarrow> plan_state res" where
  "plan_iters 0 ev over by_obj st = Inr st"
| "plan_iters (Suc n) ev over by_obj st =
     (if over (ps_polls st) then Inr (st\<lparr>ps_polls := Suc (ps_polls st)\<rparr>)
      else
        let st = st\<lparr>ps_polls := Suc (ps_polls st)\<rparr>
        in bindE (ranked_candidates (fst (ps_current st)) by_obj (snd (snd (ps_current st)))) (\<lambda>cands.
           if cands = [] then Inr st
           else bindE (try_batches ev over by_obj cands (max 1 (length cands div 2)) st) (\<lambda>(accepted, st).
                if accepted then plan_iters n ev over by_obj st else Inr st)))"

text \<open>The baseline: the all-saved plan, or its infeasibility recorded.\<close>

definition plan_baseline :: "evaluator \<Rightarrow> levels \<Rightarrow> (variant option \<times> recompute_step list \<times> err option) res" where
  "plan_baseline ev lv =
     (case ev lv of
        Inr (chain, report) \<Rightarrow> Inr (Some (lv, chain, report), [], None)
      | Inl e \<Rightarrow>
          (if is_value_error e
           then Inr (None, [\<lparr>rc_converted = [''<baseline:infeasible>''], rc_makespan_us = None, rc_accepted = False\<rparr>], Some e)
           else Inl e))"

text \<open>The evidence loop from the all-saved plan, or from the best seed when that plan is infeasible.\<close>

definition refine_plan ::
  "evaluator \<Rightarrow> (nat \<Rightarrow> bool) \<Rightarrow> (string, sim_rewrite) dict \<Rightarrow> nat \<Rightarrow> variant option \<Rightarrow> err option \<Rightarrow>
   variant option \<times> recompute_step list \<Rightarrow> plan_result res" where
  "refine_plan ev over by_obj max_iters start baseline_error s = (case s of (best, history) \<Rightarrow>
     case best of
       None \<Rightarrow> Inl (case baseline_error of Some e \<Rightarrow> e | None \<Rightarrow> RuntimeError ''recompute planning found no feasible variant'')
     | Some b \<Rightarrow>
         bindE (plan_iters max_iters ev over by_obj
             \<lparr>ps_current = (case start of Some v \<Rightarrow> v | None \<Rightarrow> b), ps_best = b, ps_history = history, ps_polls = 0\<rparr>) (\<lambda>st.
         case ps_best st of (lv, chain, report) \<Rightarrow>
           Inr \<lparr>pl_levels = lv, pl_chain = chain, pl_makespan_us = sr_makespan_us report,
                pl_baseline_makespan_us = map_option variant_makespan start,
                pl_history = ps_history st, pl_report = report\<rparr>))"

definition plan_with_recompute ::
  "(levels \<Rightarrow> task_chain res) \<Rightarrow> sim_rewrite list \<Rightarrow> (task_chain \<Rightarrow> task_chain res) \<Rightarrow> nat \<Rightarrow> (nat \<Rightarrow> bool) \<Rightarrow> plan_result res" where
  "plan_with_recompute build_variant rws policy_fn max_iters over =
     (let ev = evaluate build_variant policy_fn;
          by_obj = fold (\<lambda>rw. dset (rq_object_id rw) rw) rws []
      in bindE (plan_baseline ev (zero_levels rws)) (\<lambda>(start, history, baseline_error).
         bindE (all_levels rws) (\<lambda>all_lv.
         bindE (half_levels rws) (\<lambda>half_lv.
         bindE (foldE (try_seed ev) [(''all'', all_lv), (''half'', half_lv)] (start, history))
           (refine_plan ev over by_obj max_iters start baseline_error)))))"

declare try_batches.simps [simp del]

section \<open>The best plan seen\<close>

definition evaluated :: "evaluator \<Rightarrow> variant \<Rightarrow> bool" where
  "evaluated ev v \<longleftrightarrow> ev (fst v) = Inr (snd v)"

definition no_step_beats :: "time \<Rightarrow> recompute_step list \<Rightarrow> bool" where
  "no_step_beats m history \<longleftrightarrow> list_all (\<lambda>s. case rc_makespan_us s of None \<Rightarrow> True | Some m' \<Rightarrow> m \<le> m') history"

lemma no_step_beats_simps [simp]:
  "no_step_beats m []" "no_step_beats m (h @ [s]) \<longleftrightarrow> no_step_beats m h \<and> (case rc_makespan_us s of None \<Rightarrow> True | Some m' \<Rightarrow> m \<le> m')"
  by (simp_all add: no_step_beats_def)

lemma no_step_beats_mono: "no_step_beats m h \<Longrightarrow> m' \<le> m \<Longrightarrow> no_step_beats m' h"
  by (induction h rule: rev_induct) (auto split: option.splits)

definition plan_ok :: "evaluator \<Rightarrow> plan_state \<Rightarrow> bool" where
  "plan_ok ev st \<longleftrightarrow> evaluated ev (ps_current st) \<and> evaluated ev (ps_best st) \<and>
     variant_makespan (ps_best st) \<le> variant_makespan (ps_current st) \<and> no_step_beats (variant_makespan (ps_best st)) (ps_history st)"

definition plan_step :: "evaluator \<Rightarrow> plan_state \<Rightarrow> plan_state \<Rightarrow> bool" where
  "plan_step ev st st' \<longleftrightarrow> plan_ok ev st' \<and> variant_makespan (ps_best st') \<le> variant_makespan (ps_best st)"

lemma plan_step_refl: "plan_ok ev st \<Longrightarrow> plan_step ev st st"
  by (simp add: plan_step_def)

lemma plan_step_trans: "plan_step ev a b \<Longrightarrow> plan_step ev b c \<Longrightarrow> plan_step ev a c"
  by (auto simp: plan_step_def)

lemma plan_step_poll: "plan_ok ev st \<Longrightarrow> plan_step ev st (st\<lparr>ps_polls := n\<rparr>)"
  by (simp add: plan_step_def plan_ok_def)

lemma judge_ok:
  assumes "plan_ok ev st" and "ev lv = Inr cr"
  shows "plan_step ev st (snd (judge (lv, cr) names st))"
  using assms by (auto simp: judge_def Let_def plan_step_def plan_ok_def evaluated_def intro: no_step_beats_mono)

lemma try_batches_ok:
  "plan_ok ev st \<Longrightarrow> outcome (\<lambda>_. True) (\<lambda>(_, st'). plan_step ev st st') (try_batches ev over by_obj cands batch st)"
proof (induction batch arbitrary: st rule: less_induct)
  case (less batch)
  let ?st = "st\<lparr>ps_polls := Suc (ps_polls st)\<rparr>"
  have poll: "plan_step ev st ?st" by (rule plan_step_poll [OF less.prems])
  have next_: "outcome (\<lambda>_. True) (\<lambda>(_, st'). plan_step ev st st') (try_batches ev over by_obj cands (batch div 2) st1)"
    if "batch \<noteq> 0" "plan_step ev st st1" for st1
  proof (rule outcome_weaken [OF less.IH])
    show "batch div 2 < batch" "plan_ok ev st1" using that by (auto simp: plan_step_def)
  qed (use that plan_step_trans in auto)
  have trial: "outcome (\<lambda>_. True) (\<lambda>(_, st'). plan_step ev st st') (case judge (lv, cr) names ?st of (accepted, st) \<Rightarrow>
      if accepted then Inr (True, st) else try_batches ev over by_obj cands (batch div 2) st)"
    if "batch \<noteq> 0" "ev lv = Inr cr" for lv cr names
  proof -
    have "plan_step ev st (snd (judge (lv, cr) names ?st))"
      using judge_ok [where ev = ev and lv = lv and cr = cr and st = ?st, OF _ that(2)] poll plan_step_trans [OF poll]
      by (simp add: plan_step_def)
    then show ?thesis using next_ [OF that(1)] by (cases "judge (lv, cr) names ?st") auto
  qed
  show ?case
    using less.prems poll next_ trial
    by (subst try_batches.simps) (auto simp: Let_def plan_step_refl intro!: outcome_bind_eq split: sum.splits)
qed

lemma plan_iters_ok: "plan_ok ev st \<Longrightarrow> outcome (\<lambda>_. True) (plan_step ev st) (plan_iters n ev over by_obj st)"
proof (induction n arbitrary: st)
  case (Suc n)
  let ?st = "st\<lparr>ps_polls := Suc (ps_polls st)\<rparr>"
  have poll: "plan_step ev st ?st" by (rule plan_step_poll [OF Suc.prems])
  then have ok: "plan_ok ev ?st" by (simp add: plan_step_def)
  have rest: "outcome (\<lambda>_. True) (plan_step ev st) (case r of (accepted, st) \<Rightarrow> if accepted then plan_iters n ev over by_obj st else Inr st)"
    if "case r of (_, st') \<Rightarrow> plan_step ev ?st st'" for r
  proof (cases r)
    case (Pair accepted st1)
    then have s1: "plan_step ev st st1" using that plan_step_trans [OF poll] by simp
    then have "outcome (\<lambda>_. True) (plan_step ev st) (plan_iters n ev over by_obj st1)"
      by (intro outcome_weaken [OF Suc.IH]) (auto simp: plan_step_def)
    then show ?thesis using Pair s1 by simp
  qed
  show ?case
    using poll by (auto simp: Let_def intro!: outcome_bind_eq outcome_bind [OF try_batches_ok [OF ok] rest])
qed (simp add: plan_step_refl)

text \<open>The seeds keep the best of what was evaluated, the baseline \<open>start\<close> included.\<close>

definition seeds_ok :: "evaluator \<Rightarrow> variant option \<Rightarrow> variant option \<times> recompute_step list \<Rightarrow> bool" where
  "seeds_ok ev start s = (case s of
     (None, h) \<Rightarrow> start = None \<and> (\<forall>m. no_step_beats m h)
   | (Some b, h) \<Rightarrow> evaluated ev b \<and> no_step_beats (variant_makespan b) h \<and>
       (\<forall>v. start = Some v \<longrightarrow> variant_makespan b \<le> variant_makespan v))"

lemma try_seed_ok:
  assumes "seeds_ok ev start s"
  shows "outcome (\<lambda>_. True) (seeds_ok ev start) (try_seed ev seed s)"
proof (cases "ev (snd seed)")
  case (Inl e)
  then show ?thesis using assms by (cases seed; cases s) (simp add: try_seed_def)
next
  case (Inr cr)
  then show ?thesis
    using assms
    by (cases seed; cases s; cases "fst s"; cases cr)
      (auto simp: try_seed_def Let_def seeds_ok_def evaluated_def variant_makespan_def intro: no_step_beats_mono)
qed

lemma plan_baseline_ok:
  "outcome (\<lambda>_. True) (\<lambda>(start, h, e). seeds_ok ev start (start, h) \<and> (\<forall>v. start = Some v \<longrightarrow> evaluated ev v)) (plan_baseline ev lv)"
  by (cases "ev lv") (auto simp: plan_baseline_def seeds_ok_def evaluated_def no_step_beats_def)

definition result_ok :: "evaluator \<Rightarrow> plan_result \<Rightarrow> bool" where
  "result_ok ev r \<longleftrightarrow> ev (pl_levels r) = Inr (pl_chain r, pl_report r) \<and> pl_makespan_us r = sr_makespan_us (pl_report r) \<and>
     no_step_beats (pl_makespan_us r) (pl_history r) \<and> (\<forall>b. pl_baseline_makespan_us r = Some b \<longrightarrow> pl_makespan_us r \<le> b)"

lemma refine_plan_ok:
  assumes ok: "seeds_ok ev start s" and start: "\<forall>v. start = Some v \<longrightarrow> evaluated ev v"
  shows "outcome (\<lambda>_. True) (result_ok ev) (refine_plan ev over by_obj n start e s)"
proof (cases "fst s")
  case (Some b)
  then obtain h where s: "s = (Some b, h)" by (cases s) simp
  let ?st = "\<lparr>ps_current = case start of None \<Rightarrow> b | Some v \<Rightarrow> v, ps_best = b, ps_history = h, ps_polls = 0\<rparr>"
  have "plan_ok ev ?st" using ok start s by (auto simp: plan_ok_def seeds_ok_def split: option.splits)
  then show ?thesis
    unfolding refine_plan_def s prod.case option.case
    by (rule outcome_bind [OF plan_iters_ok])
      (use ok s in \<open>auto simp: plan_step_def plan_ok_def evaluated_def result_ok_def seeds_ok_def variant_makespan_def split: prod.splits\<close>)
qed (cases s, simp add: refine_plan_def)

lemma plan_result_ok:
  "outcome (\<lambda>_. True) (result_ok (evaluate build_variant policy_fn)) (plan_with_recompute build_variant rws policy_fn max_iters over)"
  unfolding plan_with_recompute_def Let_def
proof (rule outcome_bind [OF plan_baseline_ok], clarify, rule outcome_bind_eq, simp, rule outcome_bind_eq, simp)
  let ?ev = "evaluate build_variant policy_fn"
  fix start h e all_lv half_lv
  assume s0: "seeds_ok ?ev start (start, h)" and start: "\<forall>v. start = Some v \<longrightarrow> evaluated ?ev v"
  have "outcome (\<lambda>_. True) (seeds_ok ?ev start) (foldE (try_seed ?ev) [(''all'', all_lv), (''half'', half_lv)] (start, h))"
    by (rule outcome_foldE_inv) (auto intro: s0 try_seed_ok)
  then show "outcome (\<lambda>_. True) (result_ok ?ev) (bindE (foldE (try_seed ?ev) [(''all'', all_lv), (''half'', half_lv)] (start, h))
      (refine_plan ?ev over (fold (\<lambda>rw. dset (rq_object_id rw) rw) rws []) max_iters start e))"
    by (rule outcome_bind) (rule refine_plan_ok [OF _ start])
qed

section \<open>Infeasibility\<close>

definition option_levels :: "sim_rewrite \<Rightarrow> int set" where
  "option_levels rw = rp_level ` set (rq_options rw)"

definition rewrites_ok :: "sim_rewrite list \<Rightarrow> bool" where
  "rewrites_ok rws \<longleftrightarrow> list_all (\<lambda>rw. 0 \<in> option_levels rw) rws"

definition levels_ok :: "(string, sim_rewrite) dict \<Rightarrow> levels \<Rightarrow> bool" where
  "levels_ok by_obj lv \<longleftrightarrow> distinct (map fst by_obj) \<and>
     (\<forall>oid rw. dget by_obj oid = Some rw \<longrightarrow> (\<exists>l \<in> option_levels rw. dget lv oid = Some l))"

lemma levels_ok_get: "levels_ok by_obj lv \<Longrightarrow> dget by_obj oid = Some rw \<Longrightarrow> \<exists>l. l \<in> option_levels rw \<and> dget lv oid = Some l"
  unfolding levels_ok_def by blast

lemma levels_okI:
  "distinct (map fst by_obj) \<Longrightarrow> (\<And>oid rw. dget by_obj oid = Some rw \<Longrightarrow> \<exists>l \<in> option_levels rw. dget lv oid = Some l) \<Longrightarrow> levels_ok by_obj lv"
  unfolding levels_ok_def by blast

lemma levels_ok_Nil: "levels_ok [] lv"
  by (simp add: levels_ok_def)

lemma levels_ok_mem:
  assumes "levels_ok by_obj lv" and "(oid, rw) \<in> set by_obj"
  shows "\<exists>l. l \<in> option_levels rw \<and> dget lv oid = Some l"
proof (rule levels_ok_get [OF assms(1)])
  have "distinct (map fst by_obj)" using assms(1) unfolding levels_ok_def by blast
  then show "dget by_obj oid = Some rw" using assms(2) by (rule map_of_is_SomeI)
qed

lemma next_level_option: "l \<in> option_levels rw \<Longrightarrow> next_level rw l \<in> option_levels rw"
  by (auto simp: next_level_def option_levels_def find_Some_iff split: option.splits)

lemma option_at_ok: "l \<in> option_levels rw \<Longrightarrow> \<exists>opt. option_at rw l = Inr opt"
  by (fastforce simp: option_at_def option_levels_def find_None_iff split: option.splits)

lemma add_candidate_ok:
  assumes "levels_ok by_obj lv" and "kv \<in> set by_obj" and "fst ` set out \<subseteq> fst ` set by_obj"
  shows "\<exists>out'. add_candidate lv report kv out = Inr out' \<and> fst ` set out' \<subseteq> fst ` set by_obj"
proof -
  obtain oid rw where kv: "kv = (oid, rw)" by (cases kv)
  then obtain l where l: "l \<in> option_levels rw" "dget lv oid = Some l" using levels_ok_mem [OF assms(1)] assms(2) by blast
  obtain o1 o2 where "option_at rw l = Inr o1" "option_at rw (next_level rw l) = Inr o2"
    using option_at_ok l(1) next_level_option by meson
  then show ?thesis using l(2) assms(2,3) by (force simp: add_candidate_def kv dget_or_def Let_def)
qed

lemma ranked_candidates_ok:
  assumes "levels_ok by_obj lv"
  shows "\<exists>cands. ranked_candidates lv by_obj report = Inr cands \<and> fst ` set cands \<subseteq> fst ` set by_obj"
proof -
  have "\<exists>out'. foldE (add_candidate lv report) kvs out = Inr out' \<and> fst ` set out' \<subseteq> fst ` set by_obj"
    if "set kvs \<subseteq> set by_obj" "fst ` set out \<subseteq> fst ` set by_obj" for kvs out
    using that
  proof (induction kvs arbitrary: out)
    case (Cons kv kvs)
    then obtain out1 where "add_candidate lv report kv out = Inr out1" "fst ` set out1 \<subseteq> fst ` set by_obj"
      using add_candidate_ok [OF assms, of kv out report] by auto
    then show ?case using Cons by simp
  qed simp
  from this [of by_obj "[]"] show ?thesis by (auto simp: ranked_candidates_def)
qed

lemma convert_ok:
  assumes "levels_ok by_obj lv" and "fst cand \<in> fst ` set by_obj"
  shows "\<exists>lv'. convert by_obj cand lv = Inr lv' \<and> levels_ok by_obj lv'"
proof -
  obtain rw where rw: "dget by_obj (fst cand) = Some rw" using assms(2) by (cases "dget by_obj (fst cand)") (auto simp: map_of_eq_None_iff)
  then obtain l where l: "l \<in> option_levels rw" "dget lv (fst cand) = Some l" using levels_ok_get [OF assms(1)] by blast
  have "levels_ok by_obj (dset (fst cand) (next_level rw l) lv)"
  proof (rule levels_okI)
    show "distinct (map fst by_obj)" using assms(1) unfolding levels_ok_def by blast
    fix oid rw' assume rw': "dget by_obj oid = Some rw'"
    show "\<exists>l' \<in> option_levels rw'. dget (dset (fst cand) (next_level rw l) lv) oid = Some l'"
    proof (cases "oid = fst cand")
      case True
      then have "rw' = rw" using rw rw' by (metis option.inject)
      then show ?thesis using True next_level_option [OF l(1)] by simp
    next
      case False
      then show ?thesis using levels_ok_get [OF assms(1) rw'] by auto
    qed
  qed
  then show ?thesis using rw l(2) by (simp add: convert_def)
qed

lemma converts_ok:
  "levels_ok by_obj lv \<Longrightarrow> fst ` set cands \<subseteq> fst ` set by_obj \<Longrightarrow> \<exists>lv'. foldE (convert by_obj) cands lv = Inr lv' \<and> levels_ok by_obj lv'"
proof (induction cands arbitrary: lv)
  case (Cons c cs)
  then obtain lv1 where "convert by_obj c lv = Inr lv1" "levels_ok by_obj lv1"
    using convert_ok [OF Cons.prems(1), of c] by auto
  then show ?case using Cons by simp
qed simp

text \<open>The level dictionaries of the planner follow the rewrites: each object has a level of its last rewrite.\<close>

lemma levels_ok_update:
  "levels_ok by_obj lv \<Longrightarrow> l \<in> option_levels rw \<Longrightarrow> levels_ok (dset (rq_object_id rw) rw by_obj) (dset (rq_object_id rw) l lv)"
proof (rule levels_okI)
  assume lv: "levels_ok by_obj lv" and l: "l \<in> option_levels rw"
  then show "distinct (map fst (dset (rq_object_id rw) rw by_obj))" unfolding levels_ok_def by blast
  show "\<exists>l' \<in> option_levels rw'. dget (dset (rq_object_id rw) l lv) oid = Some l'" if "dget (dset (rq_object_id rw) rw by_obj) oid = Some rw'" for oid rw'
    using that l levels_ok_get [OF lv, of oid rw'] by (auto split: if_splits)
qed

lemma zero_levels_ok:
  assumes "rewrites_ok rws"
  shows "levels_ok (fold (\<lambda>rw. dset (rq_object_id rw) rw) rws []) (zero_levels rws)"
proof -
  have "levels_ok (fold (\<lambda>rw. dset (rq_object_id rw) rw) rws by_obj) (fold (\<lambda>rw. dset (rq_object_id rw) 0) rws lv)"
    if "levels_ok by_obj lv" for by_obj lv
    using that assms unfolding rewrites_ok_def by (induction rws arbitrary: by_obj lv) (auto intro: levels_ok_update)
  from this [OF levels_ok_Nil] show ?thesis by (simp add: zero_levels_def)
qed

lemma seed_levels_ok:
  assumes "rewrites_ok rws"
  shows "\<exists>lv. foldE (\<lambda>(n, rw) lv. bindE (if p n then top_level rw else Inr 0) (\<lambda>l. Inr (dset (rq_object_id rw) l lv))) (enumerate k rws) lv0 = Inr lv \<and>
    (levels_ok by_obj lv0 \<longrightarrow> levels_ok (fold (\<lambda>rw. dset (rq_object_id rw) rw) rws by_obj) lv)"
  using assms
proof (induction rws arbitrary: k lv0 by_obj)
  case (Cons rw rws)
  have "0 \<in> option_levels rw" "rewrites_ok rws" using Cons.prems by (simp_all add: rewrites_ok_def)
  then have "rq_options rw \<noteq> []" by (auto simp: option_levels_def)
  then have "top_level rw = Inr (rp_level (last (rq_options rw)))" "rp_level (last (rq_options rw)) \<in> option_levels rw"
    by (simp_all add: top_level_def option_levels_def)
  with \<open>0 \<in> option_levels rw\<close> obtain l where l: "(if p k then top_level rw else Inr 0) = Inr l" "l \<in> option_levels rw"
    by (cases "p k") auto
  then show ?case
    using Cons.IH [OF \<open>rewrites_ok rws\<close>, of "Suc k" "dset (rq_object_id rw) l lv0" "dset (rq_object_id rw) rw by_obj"] levels_ok_update [OF _ l(2)]
    by auto
qed simp

lemma foldE_enumerate: "foldE (\<lambda>(n, x). f x) (enumerate k xs) s = foldE f xs s"
  by (induction xs arbitrary: k s) (auto intro!: arg_cong2 [where f = bindE])

lemma all_levels_ok:
  assumes "rewrites_ok rws"
  shows "\<exists>lv. all_levels rws = Inr lv \<and> levels_ok (fold (\<lambda>rw. dset (rq_object_id rw) rw) rws []) lv"
  using seed_levels_ok [OF assms, where p = "\<lambda>_. True" and k = 0 and by_obj = "[]" and ?lv0.0 = "[]"]
  by (simp add: all_levels_def foldE_enumerate levels_ok_Nil)

lemma half_levels_ok:
  assumes "rewrites_ok rws"
  shows "\<exists>lv. half_levels rws = Inr lv \<and> levels_ok (fold (\<lambda>rw. dset (rq_object_id rw) rw) rws []) lv"
  using seed_levels_ok [OF assms, where p = even and k = 0 and by_obj = "[]" and ?lv0.0 = "[]"]
  by (simp add: half_levels_def levels_ok_Nil)

text \<open>Inside the loops a \<open>ValueError\<close> is never raised: trials that are infeasible are caught.\<close>

abbreviation other_err :: "err \<Rightarrow> bool" where
  "other_err e \<equiv> \<not> is_value_error e"

lemma try_batches_feasible:
  assumes "fst ` set cands \<subseteq> fst ` set by_obj"
  shows "levels_ok by_obj (fst (ps_current st)) \<Longrightarrow>
    outcome other_err (\<lambda>(_, st'). levels_ok by_obj (fst (ps_current st'))) (try_batches ev over by_obj cands batch st)"
proof (induction batch arbitrary: st rule: less_induct)
  case (less batch)
  have "fst ` set (take batch cands) \<subseteq> fst ` set by_obj" using assms set_take_subset [of batch cands] by blast
  then obtain lv where lv: "foldE (convert by_obj) (take batch cands) (fst (ps_current st)) = Inr lv" "levels_ok by_obj lv"
    using converts_ok [OF less.prems] by blast
  have next_: "outcome other_err (\<lambda>(_, st'). levels_ok by_obj (fst (ps_current st'))) (try_batches ev over by_obj cands (batch div 2) st1)"
    if "batch \<noteq> 0" "fst (ps_current st1) = fst (ps_current st)" for st1
    using that less.prems by (intro less.IH) auto
  show ?case
    using less.prems lv next_
    by (subst try_batches.simps) (auto simp: Let_def judge_def split: sum.splits)
qed

lemma plan_iters_feasible:
  "levels_ok by_obj (fst (ps_current st)) \<Longrightarrow> outcome other_err (\<lambda>_. True) (plan_iters n ev over by_obj st)"
proof (induction n arbitrary: st)
  case (Suc n)
  let ?st = "st\<lparr>ps_polls := Suc (ps_polls st)\<rparr>"
  obtain cands where c: "ranked_candidates (fst (ps_current st)) by_obj (snd (snd (ps_current st))) = Inr cands" "fst ` set cands \<subseteq> fst ` set by_obj"
    using ranked_candidates_ok [OF Suc.prems] by blast
  have "outcome other_err (\<lambda>_. True) (bindE (try_batches ev over by_obj cands (max 1 (length cands div 2)) ?st)
      (\<lambda>(accepted, st). if accepted then plan_iters n ev over by_obj st else Inr st))"
    using Suc.prems by (intro outcome_bind [OF try_batches_feasible [OF c(2)]]) (auto intro: Suc.IH)
  then show ?case using c(1) by (simp add: Let_def)
qed simp

definition infeasible :: "evaluator \<Rightarrow> levels \<Rightarrow> bool" where
  "infeasible ev lv = (case ev lv of Inl e \<Rightarrow> is_value_error e | Inr _ \<Rightarrow> False)"

text \<open>While no plan is found, all tried levels are infeasible.\<close>

definition tried :: "evaluator \<Rightarrow> (string, sim_rewrite) dict \<Rightarrow> levels list \<Rightarrow> variant option \<Rightarrow> bool" where
  "tried ev by_obj lvs best = (case best of None \<Rightarrow> list_all (infeasible ev) lvs | Some b \<Rightarrow> levels_ok by_obj (fst b))"

lemma try_seed_tried:
  assumes "tried ev by_obj lvs (fst s)" and "levels_ok by_obj lv"
  shows "outcome other_err (\<lambda>s'. tried ev by_obj (lvs @ [lv]) (fst s')) (try_seed ev (name, lv) s)"
  using assms by (cases s; cases "fst s"; cases "ev lv") (auto simp: try_seed_def tried_def infeasible_def Let_def)

lemma seeds_tried:
  assumes "tried ev by_obj [lv0] (fst s)" and "levels_ok by_obj lv1" and "levels_ok by_obj lv2"
  shows "outcome other_err (\<lambda>s'. tried ev by_obj [lv0, lv1, lv2] (fst s')) (foldE (try_seed ev) [(n1, lv1), (n2, lv2)] s)"
proof -
  have "outcome other_err (\<lambda>s'. tried ev by_obj [lv0, lv1, lv2] (fst s')) (bindE (try_seed ev (n1, lv1) s) (\<lambda>s. try_seed ev (n2, lv2) s))"
    by (rule outcome_bind [OF try_seed_tried [OF assms(1,2)]])
      (use try_seed_tried [of ev by_obj "[lv0, lv1]", OF _ assms(3)] in simp)
  moreover have "foldE (try_seed ev) [x] = try_seed ev x" for x
  proof
    show "foldE (try_seed ev) [x] s = try_seed ev x s" for s by (cases "try_seed ev x s") simp_all
  qed
  ultimately show ?thesis by (simp only: foldE.simps)
qed

lemma plan_baseline_tried:
  "levels_ok by_obj lv \<Longrightarrow> outcome other_err (\<lambda>(start, h, e). tried ev by_obj [lv] start) (plan_baseline ev lv)"
  by (auto simp: plan_baseline_def tried_def infeasible_def split: sum.splits)

lemma refine_plan_tried:
  assumes "tried ev by_obj lvs (fst s)" and "tried ev by_obj lvs0 start"
  shows "outcome (\<lambda>e. is_value_error e \<longrightarrow> list_all (infeasible ev) lvs) (\<lambda>_. True) (refine_plan ev over by_obj n start err s)"
proof (cases "fst s")
  case None
  then show ?thesis using assms(1) by (cases s) (simp add: refine_plan_def tried_def)
next
  case (Some b)
  then obtain h where s: "s = (Some b, h)" by (cases s) simp
  let ?st = "\<lparr>ps_current = case start of None \<Rightarrow> b | Some v \<Rightarrow> v, ps_best = b, ps_history = h, ps_polls = 0\<rparr>"
  have "levels_ok by_obj (fst (ps_current ?st))" using assms s by (auto simp: tried_def split: option.splits)
  then have "outcome other_err (\<lambda>_. True) (plan_iters n ev over by_obj ?st)" by (rule plan_iters_feasible)
  then have "outcome other_err (\<lambda>_. True) (refine_plan ev over by_obj n start err s)"
    unfolding refine_plan_def s prod.case option.case by (rule outcome_bind) (auto split: prod.splits)
  then show ?thesis by (rule outcome_weaken) auto
qed

section \<open>A concrete workload\<close>

text \<open>One rewrite with two levels; at level 1 the builder gives a chain with faster copies.\<close>

definition demo_rewrite :: sim_rewrite where
  "demo_rewrite =
     \<lparr>rq_object_id = ''a'', rq_f_task_id = ''f'', rq_r_task_id = ''r'',
      rq_options = [\<lparr>rp_level = 0, rp_saved_bytes = 50, rp_recompute_us = 0, rp_label = ''save''\<rparr>,
                    \<lparr>rp_level = 1, rp_saved_bytes = 0, rp_recompute_us = 2, rp_label = ''recompute''\<rparr>],
      rq_f_compute_block_key = [], rq_r_compute_block_key = [], rq_group_key = []\<rparr>"

definition demo_build :: "levels \<Rightarrow> task_chain res" where
  "demo_build lv = Inr (if dget lv ''a'' = Some 1 then demo_chain\<lparr>tc_bandwidth_to_slow := Some 30, tc_bandwidth_from_slow := Some 30\<rparr> else demo_chain)"

definition demo_plan :: "plan_result res" where
  "demo_plan = plan_with_recompute demo_build [demo_rewrite] Inr 2 (\<lambda>_. False)"

lemma demo_plan_run:
  "case demo_plan of Inr r \<Rightarrow> pl_baseline_makespan_us r = Some 31 \<and> length (pl_history r) = 2 | Inl _ \<Rightarrow> False"
  by code_simp

section \<open>Results\<close>

text \<open>C32. The recompute planner returns the best plan it saw: the levels it returns evaluate to the chain and
  report it returns (built, annotated by the policy and simulated), the reported makespan is that of the
  report, and no plan it recorded, the all-saved baseline included, has a smaller one.\<close>

theorem plan_is_best_seen:
  assumes "plan_with_recompute build_variant rws policy_fn max_iters over = Inr r"
  shows "evaluate build_variant policy_fn (pl_levels r) = Inr (pl_chain r, pl_report r) \<and>
    pl_makespan_us r = sr_makespan_us (pl_report r) \<and> no_step_beats (pl_makespan_us r) (pl_history r) \<and>
    (case pl_baseline_makespan_us r of None \<Rightarrow> True | Some b \<Rightarrow> pl_makespan_us r \<le> b)"
  using outcome_Inr [OF plan_result_ok assms] by (auto simp: result_ok_def split: option.splits)

theorem plan_is_best_seen_witness:
  "\<exists>r. plan_with_recompute demo_build [demo_rewrite] Inr 2 (\<lambda>_. False) = Inr r \<and> length (pl_history r) = 2 \<and>
     pl_makespan_us r \<le> 31 \<and> no_step_beats (pl_makespan_us r) (pl_history r) \<and>
     evaluate demo_build Inr (pl_levels r) = Inr (pl_chain r, pl_report r)"
proof -
  obtain r where r: "plan_with_recompute demo_build [demo_rewrite] Inr 2 (\<lambda>_. False) = Inr r"
    and base: "pl_baseline_makespan_us r = Some 31" "length (pl_history r) = 2"
    using demo_plan_run by (auto simp: demo_plan_def split: sum.splits)
  from plan_is_best_seen [OF r] r base show ?thesis by auto
qed

text \<open>C33. The planner calls a workload infeasible only when it is: if every rewrite offers level 0, a
  \<open>ValueError\<close> leaves it only when the all-saved plan and both seeds, every activation and every other
  activation recomputed, each failed with a \<open>ValueError\<close>.\<close>

theorem plan_infeasible_only_if:
  assumes "rewrites_ok rws" and "plan_with_recompute build_variant rws policy_fn max_iters over = Inl e" and "is_value_error e"
  shows "\<exists>all_lv half_lv. all_levels rws = Inr all_lv \<and> half_levels rws = Inr half_lv \<and>
    list_all (infeasible (evaluate build_variant policy_fn)) [zero_levels rws, all_lv, half_lv]"
proof -
  let ?ev = "evaluate build_variant policy_fn" and ?by = "fold (\<lambda>rw. dset (rq_object_id rw) rw) rws []"
  obtain all_lv where al: "all_levels rws = Inr all_lv" "levels_ok ?by all_lv" using all_levels_ok [OF assms(1)] by blast
  obtain half_lv where hl: "half_levels rws = Inr half_lv" "levels_ok ?by half_lv" using half_levels_ok [OF assms(1)] by blast
  let ?lvs = "[zero_levels rws, all_lv, half_lv]"
  let ?E = "\<lambda>e. is_value_error e \<longrightarrow> list_all (infeasible ?ev) ?lvs"
  have weaken: "outcome other_err Q m \<Longrightarrow> outcome ?E Q m" for Q and m :: "'z res"
    by (erule outcome_weaken) auto
  have "outcome ?E (\<lambda>_. True) (plan_with_recompute build_variant rws policy_fn max_iters over)"
    unfolding plan_with_recompute_def Let_def al(1) hl(1) bindE_simps
  proof (rule outcome_bind [OF weaken [OF plan_baseline_tried [OF zero_levels_ok [OF assms(1)]]]], clarify)
    fix start h err assume start: "tried ?ev ?by [zero_levels rws] start"
    show "outcome ?E (\<lambda>_. True) (bindE (foldE (try_seed ?ev) [(''all'', all_lv), (''half'', half_lv)] (start, h))
        (refine_plan ?ev over ?by max_iters start err))"
      using start by (intro outcome_bind [OF weaken [OF seeds_tried [OF _ al(2) hl(2)]]] refine_plan_tried) simp_all
  qed
  then show ?thesis using al(1) hl(1) outcome_Inl [OF _ assms(2)] assms(3) by blast
qed

theorem plan_infeasible_only_if_witness:
  "\<exists>all_lv half_lv. all_levels [demo_rewrite] = Inr all_lv \<and> half_levels [demo_rewrite] = Inr half_lv \<and>
     list_all (infeasible (evaluate demo_build (\<lambda>_. Inl (ValueError ''no plan'')))) [zero_levels [demo_rewrite], all_lv, half_lv]"
proof (rule plan_infeasible_only_if)
  show "rewrites_ok [demo_rewrite]" by code_simp
  show "plan_with_recompute demo_build [demo_rewrite] (\<lambda>_. Inl (ValueError ''no plan'')) 2 (\<lambda>_. False) = Inl (ValueError ''no plan'')"
    by (simp add: plan_with_recompute_def evaluate_def demo_build_def plan_baseline_def is_value_error_def try_seed_def refine_plan_def
        all_levels_def half_levels_def top_level_def demo_rewrite_def)
qed (simp add: is_value_error_def)

end
