(* ===== verification/Policy_Common.thy ===== *)
theory Policy_Common
  imports Recompute_Plan
begin

text \<open>
  The helpers the residency planners share, \<open>src/dataflow_sim/policies/_common.py\<close>: structural queries on a bare
  chain, the assembly of an annotated chain, the write-back of objects that must end in backing memory, and the
  verification by simulation that repairs a chain on two kinds of refusal, recognised by two regular expressions
  on the text of the error. Of the simulator's messages the one these expressions parse is spelled out in full
  (\<open>in_flight_message\<close>); the others are shortened and carry no ids. The order in which Python
  enumerates the set of pre-placed objects is an argument.
\<close>

section \<open>Model\<close>

definition ideal_start_step :: "sim_task \<Rightarrow> (string, time) dict \<times> time \<Rightarrow> (string, time) dict \<times> time" where
  "ideal_start_step task st = (case st of (starts, t) \<Rightarrow> (dset (sk_id task) t starts, t + sk_runtime task))"

definition compute_ideal_starts :: "task_chain \<Rightarrow> (string, time) dict" where
  "compute_ideal_starts bare = fst (fold ideal_start_step (tc_tasks bare) ([], 0))"

text \<open>\<open>d.setdefault(k, v)\<close>.\<close>

definition dset_default :: "'k \<Rightarrow> 'v \<Rightarrow> ('k, 'v) dict \<Rightarrow> ('k, 'v) dict" where
  "dset_default k v d = (case dget d k of None \<Rightarrow> dset k v d | Some _ \<Rightarrow> d)"

definition chain_object_sizes :: "task_chain \<Rightarrow> (string, int) dict" where
  "chain_object_sizes bare =
     fold (\<lambda>task. fold (\<lambda>out. dset_default (oa_id out) (oa_size out)) (sk_outputs task)) (tc_tasks bare)
       (fold (\<lambda>ob. dset (so_id ob) (so_size ob)) (tc_initial_memory bare) [])"

definition chain_object_types :: "task_chain \<Rightarrow> (string, string) dict" where
  "chain_object_types bare =
     fold (\<lambda>task. fold (\<lambda>out. dset_default (oa_id out) (oa_type out)) (sk_outputs task)) (tc_tasks bare)
       (fold (\<lambda>ob. dset (so_id ob) (so_type ob)) (tc_initial_memory bare) [])"

definition compute_uses :: "task_chain \<Rightarrow> (string, time) dict \<Rightarrow> (string, time list) dict res" where
  "compute_uses bare starts =
     foldE (\<lambda>task uses.
         case dget starts (sk_id task) of
           None \<Rightarrow> Inl (KeyError (sk_id task))
         | Some t \<Rightarrow> Inr (fold (\<lambda>inp. dappend inp t) (sk_inputs task) uses)) (tc_tasks bare) []"

text \<open>\<open>None\<close> is infinity.\<close>

definition next_use_after :: "(string, time list) dict \<Rightarrow> string \<Rightarrow> time \<Rightarrow> time option" where
  "next_use_after uses obj t =
     (let lst = dget_or uses obj []; idx = bisect_left lst t in if idx < length lst then Some (lst ! idx) else None)"

definition last_use_task_idx :: "task_chain \<Rightarrow> (string, nat) dict" where
  "last_use_task_idx bare = fold (\<lambda>(i, task). fold (\<lambda>inp. dset inp i) (sk_inputs task)) (enumerate 0 (tc_tasks bare)) []"

record use_event =
  ue_task_idx :: nat
  ue_ideal_start :: time

definition add_use :: "nat \<Rightarrow> time \<Rightarrow> string \<Rightarrow> (string, nat list) dict \<times> (string, use_event list) dict \<Rightarrow>
   (string, nat list) dict \<times> (string, use_event list) dict" where
  "add_use i t inp acc = (case acc of (seen, by_obj) \<Rightarrow>
     if i \<in> set (dget_or seen inp []) then (seen, by_obj)
     else (dappend inp i seen, dappend inp \<lparr>ue_task_idx = i, ue_ideal_start = t\<rparr> by_obj))"

definition object_uses_by_task_idx :: "task_chain \<Rightarrow> (string, time) dict \<Rightarrow> (string, use_event list) dict res" where
  "object_uses_by_task_idx bare starts =
     bindE (foldE (\<lambda>(i, task) acc.
         case dget starts (sk_id task) of
           None \<Rightarrow> Inl (KeyError (sk_id task))
         | Some t \<Rightarrow> Inr (fold (add_use i t) (sk_inputs task) acc)) (enumerate 0 (tc_tasks bare)) ([], [])) (\<lambda>acc. Inr (snd acc))"

record annotation =
  an_release :: "string list"
  an_offload :: "string list"
  an_prefetch :: "string list"

text \<open>\<open>list(dict.fromkeys(xs))\<close>: duplicates dropped, the first occurrence kept.\<close>

definition fromkeys :: "string list \<Rightarrow> string list" where
  "fromkeys xs = rev (remdups (rev xs))"

definition plain_trigger :: "string \<Rightarrow> transfer_trigger" where
  "plain_trigger oid = \<lparr>tt_obj_id = oid, tt_runtime = None\<rparr>"

definition preplace :: "(string, sim_object) dict \<Rightarrow> string \<Rightarrow> sim_object list \<Rightarrow> sim_object list res" where
  "preplace backing_objs oid acc =
     (case dget backing_objs oid of
        None \<Rightarrow> Inl (KeyError oid)
      | Some src \<Rightarrow> Inr (acc @ [\<lparr>so_id = so_id src, so_size = so_size src, so_location = ''fast'', so_type = so_type src\<rparr>]))"

definition apply_annotation :: "(nat, annotation) dict \<Rightarrow> nat \<Rightarrow> sim_task \<Rightarrow> sim_task" where
  "apply_annotation annotations i task =
     (let ann = dget_or annotations i \<lparr>an_release = [], an_offload = [], an_prefetch = []\<rparr>
      in \<lparr>sk_id = sk_id task, sk_inputs = sk_inputs task, sk_outputs = sk_outputs task, sk_runtime = sk_runtime task,
          sk_workspace_bytes = 0, sk_releases_after = fromkeys (an_release ann),
          sk_offload_after = map plain_trigger (fromkeys (an_offload ann)),
          sk_prefetch_after = map plain_trigger (fromkeys (an_prefetch ann)), sk_mutates_inputs = sk_mutates_inputs task\<rparr>)"

definition apply_annotations :: "task_chain \<Rightarrow> string list \<Rightarrow> (nat, annotation) dict \<Rightarrow> int option \<Rightarrow> task_chain res" where
  "apply_annotations bare initial_compute annotations fast_capacity =
     (let backing_objs = fold (\<lambda>ob. dset (so_id ob) ob) (filter (\<lambda>ob. so_location ob = ''backing'') (tc_initial_memory bare)) []
      in bindE (foldE (preplace backing_objs) initial_compute (tc_initial_memory bare)) (\<lambda>initial.
         Inr \<lparr>tc_initial_memory = initial, tc_tasks = map (\<lambda>(i, task). apply_annotation annotations i task) (enumerate 0 (tc_tasks bare)),
              tc_final_locations = tc_final_locations bare, tc_fast_memory_capacity = fast_capacity,
              tc_backing_memory_capacity = tc_backing_memory_capacity bare,
              tc_bandwidth_from_slow = tc_bandwidth_from_slow bare, tc_bandwidth_to_slow = tc_bandwidth_to_slow bare\<rparr>))"

text \<open>The last task that produces or reads each object that must end in backing memory.\<close>

definition anchor_step :: "string set \<Rightarrow> nat \<times> sim_task \<Rightarrow> (string, nat) dict \<Rightarrow> (string, nat) dict" where
  "anchor_step protected_objs it anchors = (case it of (i, task) \<Rightarrow>
     fold (\<lambda>oid d. if oid \<in> protected_objs then dset oid i d else d) (map oa_id (sk_outputs task) @ sk_inputs task) anchors)"

definition last_anchors :: "task_chain \<Rightarrow> (string, nat) dict" where
  "last_anchors c =
     fold (anchor_step (set (map fst (filter (\<lambda>(_, loc). loc = ''backing'') (tc_final_locations c))))) (enumerate 0 (tc_tasks c)) []"

definition writeback_task :: "(string, nat) dict \<Rightarrow> nat \<Rightarrow> sim_task \<Rightarrow> sim_task" where
  "writeback_task anchors i task =
     (let terminal = set (map fst (filter (\<lambda>(_, anchor). anchor \<le> i) anchors));
          here = map fst (filter (\<lambda>(_, anchor). anchor = i) anchors)
      in task\<lparr>sk_releases_after := filter (\<lambda>r. r \<notin> terminal) (sk_releases_after task),
              sk_offload_after := filter (\<lambda>tr. tt_obj_id tr \<notin> terminal) (sk_offload_after task) @ map plain_trigger here,
              sk_prefetch_after := filter (\<lambda>tr. tt_obj_id tr \<notin> terminal) (sk_prefetch_after task)\<rparr>)"

definition add_gradient_writebacks :: "task_chain \<Rightarrow> task_chain" where
  "add_gradient_writebacks c =
     (if filter (\<lambda>(_, loc). loc = ''backing'') (tc_final_locations c) = [] then c
      else c\<lparr>tc_tasks := map (\<lambda>(i, task). writeback_task (last_anchors c) i task) (enumerate 0 (tc_tasks c))\<rparr>)"

text \<open>Repairs. \<open>mentions oid trs\<close>: some trigger is for the object.\<close>

definition mentions :: "string \<Rightarrow> transfer_trigger list \<Rightarrow> bool" where
  "mentions oid trs = list_ex (\<lambda>tr. tt_obj_id tr = oid) trs"

definition without :: "string \<Rightarrow> transfer_trigger list \<Rightarrow> transfer_trigger list" where
  "without oid trs = filter (\<lambda>tr. tt_obj_id tr \<noteq> oid) trs"

fun drop_first_prefetch :: "string \<Rightarrow> sim_task list \<Rightarrow> sim_task list" where
  "drop_first_prefetch oid [] = []"
| "drop_first_prefetch oid (t # ts) =
     (if mentions oid (sk_prefetch_after t) then t\<lparr>sk_prefetch_after := without oid (sk_prefetch_after t)\<rparr> # ts
      else t # drop_first_prefetch oid ts)"

definition remove_offload :: "task_chain \<Rightarrow> string \<Rightarrow> task_chain option" where
  "remove_offload c oid =
     (case filter (\<lambda>i. mentions oid (sk_offload_after (tc_tasks c ! i))) [0..<length (tc_tasks c)] of
        [] \<Rightarrow> None
      | idxs \<Rightarrow>
          (let i = last idxs; ts = tc_tasks c; cur = ts ! i
           in Some (c\<lparr>tc_tasks := take i ts @ cur\<lparr>sk_offload_after := without oid (sk_offload_after cur)\<rparr> #
                                 drop_first_prefetch oid (drop (Suc i) ts)\<rparr>)))"

definition shift_prefetch_earlier :: "task_chain \<Rightarrow> string \<Rightarrow> string \<Rightarrow> task_chain option" where
  "shift_prefetch_earlier c task_id oid =
     (case find (\<lambda>i. sk_id (tc_tasks c ! i) = task_id) [0..<length (tc_tasks c)] of
        None \<Rightarrow> None
      | Some i \<Rightarrow>
          (if i = 0 then None
           else
             let ts = tc_tasks c; cur = ts ! i; prev = ts ! (i - 1); new_pre = without oid (sk_prefetch_after cur)
             in if length new_pre = length (sk_prefetch_after cur) then None
                else Some (c\<lparr>tc_tasks := (ts[i := cur\<lparr>sk_prefetch_after := new_pre\<rparr>])
                              [i - 1 := prev\<lparr>sk_prefetch_after := sk_prefetch_after prev @ [plain_trigger oid]\<rparr>]\<rparr>)))"

text \<open>Regular expressions of literal characters and groups \<open>(\S+)\<close>. A group takes the longest run of characters that are
  no white space and gives characters back until the rest matches; a search tries each position in turn.\<close>

datatype pattern_item = Lit char | Group

definition non_space :: "char \<Rightarrow> bool" where
  "non_space ch = (let n = of_char ch :: nat in \<not> (9 \<le> n \<and> n \<le> 13 \<or> 28 \<le> n \<and> n \<le> 32 \<or> n = 133 \<or> n = 160))"

primrec match_group :: "(string \<Rightarrow> string list option) \<Rightarrow> string \<Rightarrow> nat \<Rightarrow> string list option" where
  "match_group rest s 0 = None"
| "match_group rest s (Suc k) =
     (case rest (drop (Suc k) s) of Some groups \<Rightarrow> Some (take (Suc k) s # groups) | None \<Rightarrow> match_group rest s k)"

primrec match_here :: "pattern_item list \<Rightarrow> string \<Rightarrow> string list option" where
  "match_here [] s = Some []"
| "match_here (p # ps) s =
     (case p of
        Lit ch \<Rightarrow> (case s of [] \<Rightarrow> None | x # xs \<Rightarrow> if x = ch then match_here ps xs else None)
      | Group \<Rightarrow> match_group (match_here ps) s (length (takeWhile non_space s)))"

primrec re_search :: "pattern_item list \<Rightarrow> string \<Rightarrow> string list option" where
  "re_search ps [] = match_here ps []"
| "re_search ps (x # xs) = (case match_here ps (x # xs) of Some groups \<Rightarrow> Some groups | None \<Rightarrow> re_search ps xs)"

definition PREFETCH_CAP_ERR :: "pattern_item list" where
  "PREFETCH_CAP_ERR =
     map Lit (''task '' @ [CHR 0x27]) @ Group # map Lit (CHR 0x27 # '' cannot prefetch '' @ [CHR 0x27]) @ Group #
     map Lit (CHR 0x27 # '': insufficient compute capacity'')"

definition OFFLOAD_IN_FLIGHT_ERR :: "pattern_item list" where
  "OFFLOAD_IN_FLIGHT_ERR =
     map Lit (''input '' @ [CHR 0x27]) @ Group # map Lit (CHR 0x27 # '' is being offloaded (state='') @ Group # map Lit '')''"

datatype refusal = PrefetchRefused string string | OffloadInFlight string

definition blame :: "string \<Rightarrow> refusal option" where
  "blame msg =
     (case re_search PREFETCH_CAP_ERR msg of
        Some groups \<Rightarrow> Some (PrefetchRefused (groups ! 0) (groups ! 1))
      | None \<Rightarrow>
          (case re_search OFFLOAD_IN_FLIGHT_ERR msg of
             Some groups \<Rightarrow> Some (OffloadInFlight (groups ! 0))
           | None \<Rightarrow> None))"

definition repair :: "refusal \<Rightarrow> task_chain \<Rightarrow> task_chain option" where
  "repair r c = (case r of PrefetchRefused task_id oid \<Rightarrow> shift_prefetch_earlier c task_id oid | OffloadInFlight oid \<Rightarrow> remove_offload c oid)"

definition simulate_chain :: "task_chain \<Rightarrow> event_log res" where
  "simulate_chain c = sim_run (Suc (trigger_total c)) c True True False"

fun verify_and_refine :: "nat \<Rightarrow> task_chain \<Rightarrow> task_chain res" where
  "verify_and_refine 0 c = bindE (simulate_chain c) (\<lambda>_. Inr c)"
| "verify_and_refine (Suc n) c =
     (case simulate_chain c of
        Inr _ \<Rightarrow> Inr c
      | Inl (ValueError msg) \<Rightarrow>
          (case blame msg of
             None \<Rightarrow> Inl (ValueError msg)
           | Some r \<Rightarrow> (case repair r c of None \<Rightarrow> Inl (ValueError msg) | Some c' \<Rightarrow> verify_and_refine n c'))
      | Inl e \<Rightarrow> Inl e)"

definition try_makespan :: "task_chain \<Rightarrow> nat \<Rightarrow> time option" where
  "try_makespan c iters =
     (case verify_and_refine iters c of
        Inl _ \<Rightarrow> None
      | Inr refined \<Rightarrow>
          (case simulate_chain refined of
             Inl _ \<Rightarrow> None
           | Inr lg \<Rightarrow> if el_task_intervals lg = [] then None else Some (Max (set (map ti_end (el_task_intervals lg))))))"

section \<open>Ideal times of use\<close>

definition start_of :: "task_chain \<Rightarrow> nat \<Rightarrow> time" where
  "start_of c i = (\<Sum>t \<leftarrow> take i (tc_tasks c). sk_runtime t)"

definition reads_at :: "task_chain \<Rightarrow> string \<Rightarrow> nat \<Rightarrow> time list" where
  "reads_at c obj i = replicate (length (filter (\<lambda>inp. inp = obj) (sk_inputs (tc_tasks c ! i)))) (start_of c i)"

lemma ideal_starts_total: "snd (fold ideal_start_step ts (d, t)) = t + (\<Sum>k \<leftarrow> ts. sk_runtime k)"
  by (induction ts arbitrary: d t) (auto simp: ideal_start_step_def)

lemma ideal_starts_get:
  assumes "distinct (map sk_id ts)" and "i < length ts"
  shows "dget (fst (fold ideal_start_step ts ([], 0))) (sk_id (ts ! i)) = Some (\<Sum>k \<leftarrow> take i ts. sk_runtime k)"
  using assms
proof (induction ts rule: rev_induct)
  case (snoc x ts)
  let ?p = "fold ideal_start_step ts ([], 0)"
  have "snd ?p = (\<Sum>k \<leftarrow> ts. sk_runtime k)" by (simp add: ideal_starts_total)
  then have step: "fst (fold ideal_start_step (ts @ [x]) ([], 0)) = dset (sk_id x) (\<Sum>k \<leftarrow> ts. sk_runtime k) (fst ?p)"
    by (simp add: ideal_start_step_def split_beta)
  show ?case
  proof (cases "i < length ts")
    case True
    have "sk_id x \<notin> sk_id ` set ts" using snoc.prems(1) by auto
    then have "sk_id (ts ! i) \<noteq> sk_id x" using nth_mem [OF True] by (metis imageI)
    with True show ?thesis unfolding step using snoc by (simp add: nth_append)
  next
    case False
    with snoc.prems(2) show ?thesis unfolding step by (simp add: nth_append)
  qed
qed simp

lemma ideal_start_of:
  "distinct (map sk_id (tc_tasks c)) \<Longrightarrow> i < length (tc_tasks c) \<Longrightarrow>
   dget (compute_ideal_starts c) (sk_id (tc_tasks c ! i)) = Some (start_of c i)"
  by (simp add: compute_ideal_starts_def start_of_def ideal_starts_get)

lemma fold_dappend_get:
  "dget_or (fold (\<lambda>inp. dappend inp t) inps u) obj [] = dget_or u obj [] @ replicate (length (filter (\<lambda>inp. inp = obj) inps)) t"
proof (induction inps arbitrary: u)
  case (Cons inp inps)
  show ?case unfolding fold_simps comp_apply Cons.IH by (simp add: dget_or_def dappend_get)
qed simp

lemma compute_uses_get:
  assumes "distinct (map sk_id (tc_tasks c))"
  shows "\<exists>uses. compute_uses c (compute_ideal_starts c) = Inr uses \<and>
    (\<forall>obj. dget_or uses obj [] = concat (map (reads_at c obj) [0..<length (tc_tasks c)]))"
proof -
  let ?f = "\<lambda>task uses. case dget (compute_ideal_starts c) (sk_id task) of
           None \<Rightarrow> Inl (KeyError (sk_id task)) | Some t \<Rightarrow> Inr (fold (\<lambda>inp. dappend inp t) (sk_inputs task) uses)"
  have "n \<le> length (tc_tasks c) \<Longrightarrow>
      \<exists>uses. foldE ?f (take n (tc_tasks c)) [] = Inr uses \<and> (\<forall>obj. dget_or uses obj [] = concat (map (reads_at c obj) [0..<n]))" for n
  proof (induction n)
    case (Suc n)
    then obtain u where "foldE ?f (take n (tc_tasks c)) [] = Inr u" "\<forall>obj. dget_or u obj [] = concat (map (reads_at c obj) [0..<n])"
      by auto
    then show ?case using Suc.prems assms
      by (simp add: take_Suc_conv_app_nth foldE_append ideal_start_of fold_dappend_get reads_at_def [of c _ n])
  qed (simp add: dget_or_def)
  from this [of "length (tc_tasks c)"] show ?thesis by (simp add: compute_uses_def)
qed

lemma start_of_mono:
  assumes "\<forall>t \<in> set (tc_tasks c). 0 \<le> sk_runtime t" and "i \<le> j"
  shows "start_of c i \<le> start_of c j"
proof -
  obtain rest where "take j (tc_tasks c) = take i (tc_tasks c) @ rest" and "set rest \<subseteq> set (tc_tasks c)"
    using assms(2) by (metis append_take_drop_id min.absorb1 set_drop_subset set_take_subset subset_trans take_take)
  then show ?thesis unfolding start_of_def using assms(1) by (force intro!: sum_list_nonneg)
qed

lemma reads_sorted:
  assumes "\<forall>t \<in> set (tc_tasks c). 0 \<le> sk_runtime t"
  shows "sorted (concat (map (reads_at c obj) [0..<n]))"
proof (induction n)
  case (Suc n)
  have "x \<le> start_of c n" if "x \<in> set (reads_at c obj i)" "i < n" for x i
    using that start_of_mono [OF assms, of i n] by (simp add: reads_at_def split: if_splits)
  with Suc show ?case by (fastforce simp: sorted_append reads_at_def [of c obj n])
qed simp

lemma set_reads:
  "set (concat (map (reads_at c obj) [0..<n])) = start_of c ` {i. i < n \<and> obj \<in> set (sk_inputs (tc_tasks c ! i))}"
  by (auto simp: reads_at_def filter_empty_conv split: if_splits)

text \<open>The first element that is at least the key, found by bisection.\<close>

lemma bisect_first:
  assumes "sorted xs"
  shows "(if bisect_left xs t < length xs then Some (xs ! bisect_left xs t) else None) =
    (let later = {x \<in> set xs. t \<le> x} in if later = {} then None else Some (Min later))"
proof -
  note spec = bisect_left_spec [OF assms, where x = t]
  let ?b = "bisect_left xs t"
  have later: "x \<in> {x \<in> set xs. t \<le> x} \<longleftrightarrow> (\<exists>j. ?b \<le> j \<and> j < length xs \<and> x = xs ! j)" for x
    using spec by (auto simp: in_set_conv_nth) (metis leD leI)
  show ?thesis
  proof (cases "?b < length xs")
    case True
    then have here: "xs ! ?b \<in> {x \<in> set xs. t \<le> x}" using later by blast
    have "xs ! ?b \<le> y" if "y \<in> {x \<in> set xs. t \<le> x}" for y
      using that sorted_nth_mono [OF assms] unfolding later by blast
    then have "Min {x \<in> set xs. t \<le> x} = xs ! ?b" using here by (intro Min_eqI) simp_all
    moreover have "{x \<in> set xs. t \<le> x} \<noteq> {}" using here by blast
    ultimately show ?thesis using True by (simp only: Let_def if_True if_False)
  next
    case False
    then have "{x \<in> set xs. t \<le> x} = {}" using later by fastforce
    then show ?thesis using False by simp
  qed
qed

section \<open>Write-backs\<close>

definition touched_by :: "string \<Rightarrow> sim_task \<Rightarrow> bool" where
  "touched_by oid task \<longleftrightarrow> oid \<in> oa_id ` set (sk_outputs task) \<union> set (sk_inputs task)"

text \<open>The last task that touches an object which must end in backing memory.\<close>

definition anchor_of :: "task_chain \<Rightarrow> string \<Rightarrow> nat option" where
  "anchor_of c oid =
     (if (oid, ''backing'') \<in> set (tc_final_locations c)
      then find (\<lambda>i. touched_by oid (tc_tasks c ! i)) (rev [0..<length (tc_tasks c)]) else None)"

text \<open>What a task does with one object when it ends.\<close>

definition about :: "string \<Rightarrow> sim_task \<Rightarrow> string list \<times> transfer_trigger list \<times> transfer_trigger list" where
  "about oid t = (filter (\<lambda>r. r = oid) (sk_releases_after t), filter (\<lambda>tr. tt_obj_id tr = oid) (sk_offload_after t),
     filter (\<lambda>tr. tt_obj_id tr = oid) (sk_prefetch_after t))"

lemma fold_anchor_get:
  "dget (fold (\<lambda>oid d. if oid \<in> P then dset oid i d else d) xs d) oid = (if oid \<in> P \<and> oid \<in> set xs then Some i else dget d oid)"
  by (induction xs arbitrary: d) auto

lemma fold_anchor_distinct:
  "distinct (map fst d) \<Longrightarrow> distinct (map fst (fold (\<lambda>oid d. if oid \<in> P then dset oid i d else d) xs d))"
  by (induction xs arbitrary: d) auto

lemma anchor_step_get:
  "dget (anchor_step P (i, t) d) oid = (if oid \<in> P \<and> touched_by oid t then Some i else dget d oid)"
  by (auto simp: anchor_step_def fold_anchor_get touched_by_def)

lemma anchors_get:
  "dget (fold (anchor_step P) (enumerate 0 ts) []) oid = (if oid \<in> P then find (\<lambda>i. touched_by oid (ts ! i)) (rev [0..<length ts]) else None)"
proof (induction ts rule: rev_induct)
  case (snoc t ts)
  have "find (\<lambda>i. touched_by oid ((ts @ [t]) ! i)) (rev [0..<length ts]) = find (\<lambda>i. touched_by oid (ts ! i)) (rev [0..<length ts])"
    by (intro find_cong) (auto simp: nth_append)
  with snoc show ?case by (simp add: enumerate_append_eq anchor_step_get)
qed simp

lemma anchors_distinct: "distinct (map fst d) \<Longrightarrow> distinct (map fst (fold (anchor_step P) its d))"
  by (induction its arbitrary: d) (auto simp: anchor_step_def split_beta intro!: fold_anchor_distinct)

lemma last_anchors_get: "dget (last_anchors c) oid = anchor_of c oid"
proof -
  have "oid \<in> set (map fst (filter (\<lambda>(_, loc). loc = ''backing'') (tc_final_locations c))) \<longleftrightarrow> (oid, ''backing'') \<in> set (tc_final_locations c)"
    by force
  then show ?thesis by (simp only: last_anchors_def anchors_get anchor_of_def)
qed

lemma last_anchors_distinct: "distinct (map fst (last_anchors c))"
  by (simp add: last_anchors_def anchors_distinct)

lemma filter_key:
  assumes "distinct (map fst d)"
  shows "filter (\<lambda>k. k = oid) (map fst (filter (\<lambda>(_, v). v = i) d)) = (if dget d oid = Some i then [oid] else [])"
  using assms
proof (induction d)
  case (Cons kv d)
  have "dget d (fst kv) = None" using Cons.prems by (simp add: map_of_eq_None_iff)
  with Cons show ?case by (cases kv) auto
qed simp

lemma map_filter_plain:
  "filter (\<lambda>tr. tt_obj_id tr = oid) (map plain_trigger xs) = map plain_trigger (filter (\<lambda>k. k = oid) xs)"
  by (induction xs) (auto simp: plain_trigger_def)

lemma writeback_about:
  assumes "distinct (map fst anchors)"
  shows "about oid (writeback_task anchors i t) =
    (case dget anchors oid of
       None \<Rightarrow> about oid t
     | Some k \<Rightarrow> if i < k then about oid t else if i = k then ([], [plain_trigger oid], []) else ([], [], []))"
proof -
  let ?T = "set (map fst (filter (\<lambda>(_, anchor). anchor \<le> i) anchors))"
  have T: "oid \<in> ?T \<longleftrightarrow> (\<exists>k \<le> i. dget anchors oid = Some k)"
    using assms by (force simp: map_of_eq_Some_iff [OF assms])
  have keep: "filter (\<lambda>x. f x = oid \<and> f x \<notin> ?T) xs = (if oid \<in> ?T then [] else filter (\<lambda>x. f x = oid) xs)" for f :: "'a \<Rightarrow> string" and xs
    by (auto intro!: filter_cong simp: filter_empty_conv)
  have keep': "filter (\<lambda>x. x = oid \<and> x \<notin> ?T) xs = (if oid \<in> ?T then [] else filter (\<lambda>x. x = oid) xs)" for xs
    using keep [of "\<lambda>x. x"] by simp
  have step: "about oid (writeback_task anchors i t) =
    (if oid \<in> ?T then ([], if dget anchors oid = Some i then [plain_trigger oid] else [], [])
     else case about oid t of (r, off, pre) \<Rightarrow> (r, off @ (if dget anchors oid = Some i then [plain_trigger oid] else []), pre))"
    unfolding about_def writeback_task_def Let_def
    by (simp add: map_filter_plain filter_key [OF assms] keep keep' conj_commute del: set_map map_map)
  show ?thesis unfolding step T by (auto simp: not_less split: option.split prod.split)
qed

text \<open>The object's last such task is this one or an earlier one.\<close>

definition ends_by :: "task_chain \<Rightarrow> nat \<Rightarrow> string \<Rightarrow> bool" where
  "ends_by c i oid = (case anchor_of c oid of None \<Rightarrow> False | Some k \<Rightarrow> k \<le> i)"

lemma terminal_ids: "oid \<in> set (map fst (filter (\<lambda>(_, anchor). anchor \<le> i) (last_anchors c))) \<longleftrightarrow> ends_by c i oid"
proof -
  have "oid \<in> set (map fst (filter (\<lambda>(_, anchor). anchor \<le> i) (last_anchors c))) \<longleftrightarrow> (\<exists>k \<le> i. dget (last_anchors c) oid = Some k)"
    by (force simp: map_of_eq_Some_iff [OF last_anchors_distinct])
  then show ?thesis by (auto simp: ends_by_def last_anchors_get split: option.splits)
qed

lemma writeback_task_exact:
  "writeback_task (last_anchors c) i t =
     t\<lparr>sk_releases_after := filter (\<lambda>r. \<not> ends_by c i r) (sk_releases_after t),
       sk_offload_after := filter (\<lambda>tr. \<not> ends_by c i (tt_obj_id tr)) (sk_offload_after t) @
         map plain_trigger (map fst (filter (\<lambda>(_, anchor). anchor = i) (last_anchors c))),
       sk_prefetch_after := filter (\<lambda>tr. \<not> ends_by c i (tt_obj_id tr)) (sk_prefetch_after t)\<rparr>"
  by (simp only: writeback_task_def Let_def terminal_ids)

lemma written_here:
  "distinct (map fst (filter (\<lambda>(_, anchor). anchor = i) (last_anchors c)))"
  "set (map fst (filter (\<lambda>(_, anchor). anchor = i) (last_anchors c))) = {oid. anchor_of c oid = Some i}"
  using last_anchors_distinct [of c]
  by (force simp: distinct_map_filter map_of_eq_Some_iff [OF last_anchors_distinct] simp flip: last_anchors_get)+

lemma no_backing_no_anchor: "filter (\<lambda>(_, loc). loc = ''backing'') (tc_final_locations c) = [] \<Longrightarrow> anchor_of c oid = None"
  by (auto simp: anchor_of_def filter_empty_conv)

section \<open>Repairs\<close>

text \<open>A repaired chain is the same chain up to the offload and prefetch directives of its tasks.\<close>

definition same_task :: "sim_task \<Rightarrow> sim_task \<Rightarrow> bool" where
  "same_task t t' \<longleftrightarrow> t' = t\<lparr>sk_offload_after := sk_offload_after t', sk_prefetch_after := sk_prefetch_after t'\<rparr>"

definition same_work :: "task_chain \<Rightarrow> task_chain \<Rightarrow> bool" where
  "same_work c c' \<longleftrightarrow> c' = c\<lparr>tc_tasks := tc_tasks c'\<rparr> \<and> list_all2 same_task (tc_tasks c) (tc_tasks c')"

lemma same_task_refl [simp]: "same_task t t"
  by (simp add: same_task_def)

lemma same_task_trans: "same_task a b \<Longrightarrow> same_task b c \<Longrightarrow> same_task a c"
  by (cases a; cases b; cases c) (simp add: same_task_def)

lemma same_task_upd [simp]:
  "same_task t (t\<lparr>sk_offload_after := x\<rparr>)" "same_task t (t\<lparr>sk_prefetch_after := y\<rparr>)"
  by (cases t; simp add: same_task_def)+

lemma same_tasks_refl [simp]: "list_all2 same_task ts ts"
  by (simp add: list_all2_refl)

lemma same_work_refl: "same_work c c"
  by (simp add: same_work_def)

lemma same_work_trans:
  assumes "same_work a b" and "same_work b c"
  shows "same_work a c"
proof -
  have "list_all2 same_task (tc_tasks a) (tc_tasks c)"
    using assms list_all2_trans [of same_task same_task same_task] same_task_trans unfolding same_work_def by blast
  moreover have "c = a\<lparr>tc_tasks := tc_tasks c\<rparr>"
    using assms by (cases a; cases b; cases c) (simp add: same_work_def)
  ultimately show ?thesis by (simp only: same_work_def)
qed

lemma same_tasks_update:
  "list_all2 same_task ts us \<Longrightarrow> (k < length ts \<Longrightarrow> same_task (ts ! k) x) \<Longrightarrow> list_all2 same_task ts (us[k := x])"
  by (simp add: list_all2_conv_all_nth) (metis nth_list_update_eq nth_list_update_neq)

lemma same_work_tasks: "list_all2 same_task (tc_tasks c) ts \<Longrightarrow> same_work c (c\<lparr>tc_tasks := ts\<rparr>)"
  by (simp add: same_work_def)

lemma same_task_sane: "same_task t t' \<Longrightarrow> task_sane t \<Longrightarrow> task_sane t'"
  by (cases t; cases t') (simp add: same_task_def task_sane_def)

lemma same_work_sane:
  assumes "same_work c c'" and "chain_sane c"
  shows "chain_sane c'"
proof -
  have "tc_initial_memory c' = tc_initial_memory c" using assms(1) by (cases c; cases c') (simp add: same_work_def)
  then show ?thesis using assms same_task_sane by (fastforce simp: chain_sane_def same_work_def list_all2_conv_all_nth in_set_conv_nth)
qed

lemma same_work_capacity: "same_work c c' \<Longrightarrow> chain_capacity c' loc = chain_capacity c loc"
  by (cases c; cases c') (simp add: same_work_def chain_capacity_def)

lemma drop_first_prefetch_same: "list_all2 same_task ts (drop_first_prefetch oid ts)"
  by (induction ts) auto

lemma remove_offload_same:
  assumes "remove_offload c oid = Some c'"
  shows "same_work c c'"
proof -
  let ?idxs = "filter (\<lambda>i. mentions oid (sk_offload_after (tc_tasks c ! i))) [0..<length (tc_tasks c)]"
  let ?ts = "tc_tasks c" and ?i = "last ?idxs"
  have ne: "?idxs \<noteq> []" and c': "c' = c\<lparr>tc_tasks := take ?i ?ts @ (?ts ! ?i)\<lparr>sk_offload_after := without oid (sk_offload_after (?ts ! ?i))\<rparr> #
      drop_first_prefetch oid (drop (Suc ?i) ?ts)\<rparr>"
    using assms by (auto simp: remove_offload_def Let_def split: list.splits)
  have "?i < length ?ts" using last_in_set [OF ne] by simp
  then have "list_all2 same_task (take ?i ?ts @ ?ts ! ?i # drop (Suc ?i) ?ts)
      (take ?i ?ts @ (?ts ! ?i)\<lparr>sk_offload_after := without oid (sk_offload_after (?ts ! ?i))\<rparr> # drop_first_prefetch oid (drop (Suc ?i) ?ts))"
    by (intro list_all2_appendI) (simp_all add: drop_first_prefetch_same)
  then show ?thesis unfolding c' using \<open>?i < length ?ts\<close> by (intro same_work_tasks) (simp only: id_take_nth_drop [symmetric])
qed

lemma shift_prefetch_same:
  assumes "shift_prefetch_earlier c tid oid = Some c'"
  shows "same_work c c'"
proof -
  obtain i where i: "c' = c\<lparr>tc_tasks := ((tc_tasks c)[i := (tc_tasks c ! i)\<lparr>sk_prefetch_after := without oid (sk_prefetch_after (tc_tasks c ! i))\<rparr>])
      [i - 1 := (tc_tasks c ! (i - 1))\<lparr>sk_prefetch_after := sk_prefetch_after (tc_tasks c ! (i - 1)) @ [plain_trigger oid]\<rparr>]\<rparr>" and "i \<noteq> 0"
    using assms by (auto simp: shift_prefetch_earlier_def Let_def split: option.splits if_splits)
  then show ?thesis unfolding i(1) by (intro same_work_tasks same_tasks_update) simp_all
qed

lemma repair_same: "repair r c = Some c' \<Longrightarrow> same_work c c'"
  by (auto simp: repair_def remove_offload_same shift_prefetch_same split: refusal.splits)

lemma refined_same: "verify_and_refine n c = Inr c' \<Longrightarrow> same_work c c' \<and> (\<exists>lg. simulate_chain c' = Inr lg)"
proof (induction n c rule: verify_and_refine.induct)
  case (1 c)
  then show ?case by (auto simp: bindE_eq_Inr same_work_refl)
next
  case (2 n c)
  show ?case
  proof (cases "simulate_chain c")
    case (Inr lg)
    then show ?thesis using "2.prems" by (auto simp: same_work_refl)
  next
    case (Inl e)
    with "2.prems" obtain msg r c1 where e: "e = ValueError msg" "blame msg = Some r" and r: "repair r c = Some c1"
      and "verify_and_refine n c1 = Inr c'"
      by (auto split: err.splits option.splits)
    then show ?thesis using "2.IH" [OF Inl e r] same_work_trans [OF repair_same [OF r]] by blast
  qed
qed

lemma simulated_makespan:
  assumes "chain_sane c" and "tc_tasks c \<noteq> []" and "simulate_chain c = Inr lg"
  shows "el_task_intervals lg \<noteq> []" and "(\<Sum>t \<leftarrow> tc_tasks c. sk_runtime t) \<le> Max (set (map ti_end (el_task_intervals lg)))"
proof -
  have ok: "log_ok c lg" using sim_run_log [OF assms(1) _ assms(3) [unfolded simulate_chain_def]] by simp
  then have ne: "log_track ''compute'' lg \<noteq> []" using assms(2) by (auto simp: log_ok_def)
  then show "el_task_intervals lg \<noteq> []" by (auto simp: log_track_def)
  have "(\<Sum>t \<leftarrow> tc_tasks c. sk_runtime t) \<le> ti_end (last (log_track ''compute'' lg))"
    using ok assms(2) by (intro serial_span) (auto simp: log_ok_def)
  also have "\<dots> \<le> Max (set (map ti_end (el_task_intervals lg)))"
    using last_in_set [OF ne] by (intro Max_ge) (auto simp: log_track_def)
  finally show "(\<Sum>t \<leftarrow> tc_tasks c. sk_runtime t) \<le> Max (set (map ti_end (el_task_intervals lg)))" .
qed

lemma same_work_runtimes:
  assumes "same_work c c'"
  shows "map sk_runtime (tc_tasks c') = map sk_runtime (tc_tasks c)"
proof -
  have "sk_runtime t' = sk_runtime t" if "same_task t t'" for t t' using that by (cases t; cases t') (simp add: same_task_def)
  then show ?thesis using assms by (auto simp: same_work_def list_all2_conv_all_nth intro!: nth_equalityI)
qed

section \<open>Messages\<close>

text \<open>A pattern needs its literal characters to be there.\<close>

lemma match_group_Some:
  "match_group rest s k = Some gs \<Longrightarrow> \<exists>j \<le> k. \<exists>gs'. rest (drop j s) = Some gs'"
  by (induction k) (auto split: option.splits intro: le_SucI)

lemma match_here_literals: "match_here ps s = Some gs \<Longrightarrow> count_list ps (Lit ch) \<le> count_list s ch"
proof (induction ps arbitrary: s gs)
  case (Cons p ps)
  show ?case
  proof (cases p)
    case (Lit x)
    with Cons show ?thesis by (auto split: list.splits if_splits)
  next
    case Group
    then obtain j gs' where "match_here ps (drop j s) = Some gs'" using Cons.prems by (auto dest: match_group_Some)
    then have "count_list ps (Lit ch) \<le> count_list (drop j s) ch" by (rule Cons.IH)
    also have "\<dots> \<le> count_list (take j s) ch + count_list (drop j s) ch" by simp
    also have "\<dots> = count_list s ch" by (simp flip: count_list_append)
    finally show ?thesis using Group by simp
  qed
qed simp

lemma re_search_literals: "re_search ps s = Some gs \<Longrightarrow> count_list ps (Lit ch) \<le> count_list s ch"
proof (induction s)
  case (Cons x s)
  then show ?case using match_here_literals [of ps "x # s" gs ch] by (auto split: option.splits if_splits)
qed (use match_here_literals [of ps "[]"] in simp)

lemma match_here_lits: "match_here (map Lit l @ ps) (l @ s) = match_here ps s"
  by (induction l) simp_all

lemma match_group_longest:
  "rest (drop (Suc k) s) = Some gs \<Longrightarrow> (\<And>j. Suc k < j \<Longrightarrow> j \<le> n \<Longrightarrow> rest (drop j s) = None) \<Longrightarrow> Suc k \<le> n \<Longrightarrow>
   match_group rest s n = Some (take (Suc k) s # gs)"
proof (induction n)
  case (Suc n)
  then show ?case by (cases "Suc k = Suc n") simp_all
qed simp

text \<open>An id of characters that \<open>repr\<close> leaves alone, none of them white space, is read back from the message.\<close>

definition plain_id :: "string \<Rightarrow> bool" where
  "plain_id s \<longleftrightarrow> s \<noteq> [] \<and> list_all (\<lambda>ch. non_space ch \<and> repr_char (CHR 0x27) ch = [ch]) s"

lemma plain_quote: "plain_id s \<Longrightarrow> CHR 0x27 \<notin> set s"
  by (auto simp: plain_id_def list_all_iff repr_char_def Let_def)

lemma plain_repr:
  assumes "plain_id s"
  shows "py_repr s = CHR 0x27 # s @ [CHR 0x27]"
proof -
  have "concat (map (repr_char (CHR 0x27)) s) = s" if "list_all (\<lambda>ch. repr_char (CHR 0x27) ch = [ch]) s" for s
    using that by (induction s) auto
  from this [of s] have "concat (map (repr_char (CHR 0x27)) s) = s" using assms by (simp add: plain_id_def list_all_iff)
  then show ?thesis using plain_quote [OF assms] by (simp add: py_repr_def Let_def)
qed

lemma offload_read_back:
  assumes "plain_id oid" and "st \<in> {PendingOutbound, Outbound}"
  shows "match_here OFFLOAD_IN_FLIGHT_ERR (in_flight_message oid st) = Some [oid, state_name st]"
proof -
  let ?P = "map Lit (CHR 0x27 # '' is being offloaded (state='') @ Group # map Lit '')''"
  let ?t = "'' is being offloaded (state='' @ state_name st @ '') and no re-prefetch is scheduled; compute cannot use it''"
  have msg: "in_flight_message oid st = (''input '' @ [CHR 0x27]) @ (oid @ CHR 0x27 # ?t)"
    by (simp add: in_flight_message_def plain_repr [OF assms(1)])
  have after: "match_here ?P (CHR 0x27 # ?t) = Some [state_name st]" "match_here ?P ?t = None"
    using assms(2) by (auto simp: state_name_def non_space_def of_char_def)
  have "takeWhile non_space (oid @ CHR 0x27 # ?t) = oid @ [CHR 0x27]"
    using assms(1) by (subst takeWhile_append2) (auto simp: plain_id_def list_all_iff non_space_def of_char_def)
  moreover obtain k where "length oid = Suc k" using assms(1) by (cases oid) (auto simp: plain_id_def)
  moreover have "match_here ?P (drop j (oid @ CHR 0x27 # ?t)) = None" if "length oid < j" "j \<le> Suc (length oid)" for j
  proof -
    have "j = Suc (length oid)" using that by simp
    then show ?thesis using after(2) by simp
  qed
  ultimately have "match_group (match_here ?P) (oid @ CHR 0x27 # ?t) (length (takeWhile non_space (oid @ CHR 0x27 # ?t))) =
      Some [oid, state_name st]"
    using match_group_longest [of "match_here ?P" k "oid @ CHR 0x27 # ?t" "[state_name st]" "Suc (length oid)"] after(1) by simp
  then show ?thesis
    unfolding OFFLOAD_IN_FLIGHT_ERR_def msg match_here_lits by simp
qed

lemma blame_in_flight:
  assumes "plain_id oid" and "st \<in> {PendingOutbound, Outbound}"
  shows "blame (in_flight_message oid st) = Some (OffloadInFlight oid)"
proof -
  have "count_list oid (CHR 0x27) = 0" using plain_quote [OF assms(1)] by (simp add: count_list_0_iff)
  then have "count_list (in_flight_message oid st) (CHR 0x27) = 2"
    using assms(2) by (auto simp: in_flight_message_def plain_repr [OF assms(1)] state_name_def)
  moreover have "count_list PREFETCH_CAP_ERR (Lit (CHR 0x27)) = 4" by (simp add: PREFETCH_CAP_ERR_def)
  ultimately have "re_search PREFETCH_CAP_ERR (in_flight_message oid st) = None"
    using re_search_literals [of PREFETCH_CAP_ERR "in_flight_message oid st" _ "CHR 0x27"]
    by (cases "re_search PREFETCH_CAP_ERR (in_flight_message oid st)") fastforce+
  moreover have "re_search OFFLOAD_IN_FLIGHT_ERR (in_flight_message oid st) = Some [oid, state_name st]"
    using offload_read_back [OF assms] by (cases "in_flight_message oid st") simp_all
  ultimately show ?thesis by (simp add: blame_def)
qed

lemma demo_simulates: "\<not> isl (simulate_chain demo_chain)"
  by code_simp

section \<open>Results\<close>

text \<open>C34. A plan that verification accepts runs: whatever repairs it took, the returned chain simulates without a
  refusal within the capacity of both memories, has the tasks of the given one up to their offload and prefetch
  directives, and the makespan probe gives a time no shorter than the total run time of the tasks.\<close>

theorem verified_plan_runs:
  assumes "chain_sane c" and "verify_and_refine n c = Inr c'"
  shows "\<exists>lg. simulate_chain c' = Inr lg \<and> same_work c c' \<and>
      (\<forall>loc \<in> {''fast'', ''backing''}. \<forall>cap. chain_capacity c loc = Some cap \<longrightarrow> log_peak loc lg \<le> cap) \<and>
      (tc_tasks c \<noteq> [] \<longrightarrow> (\<exists>m. try_makespan c n = Some m \<and> (\<Sum>t \<leftarrow> tc_tasks c. sk_runtime t) \<le> m))"
proof -
  from refined_same [OF assms(2)] obtain lg where same: "same_work c c'" and lg: "simulate_chain c' = Inr lg" by blast
  have sane: "chain_sane c'" by (rule same_work_sane [OF same assms(1)])
  then have ok: "log_ok c' lg" using sim_run_log [OF _ _ lg [unfolded simulate_chain_def]] by simp
  have caps: "log_peak loc lg \<le> cap" if "loc \<in> {''fast'', ''backing''}" "chain_capacity c loc = Some cap" for loc cap
    using ok that same_work_capacity [OF same, of loc] by (auto simp: log_ok_def log_peak_def chain_capacity_def)
  have rt: "map sk_runtime (tc_tasks c') = map sk_runtime (tc_tasks c)" by (rule same_work_runtimes [OF same])
  have "\<exists>m. try_makespan c n = Some m \<and> (\<Sum>t \<leftarrow> tc_tasks c. sk_runtime t) \<le> m" if "tc_tasks c \<noteq> []"
  proof -
    have "tc_tasks c' \<noteq> []" using that rt by auto
    from simulated_makespan [OF sane this lg] show ?thesis unfolding rt by (simp add: try_makespan_def assms(2) lg)
  qed
  then show ?thesis using same lg caps by blast
qed

text \<open>C35. The write-back pass is exact. Only tasks change, and of a task only its releases, offloads and prefetches.
  Each keeps its order and loses the objects that must end in backing memory and whose last producing or reading task
  is this one or an earlier one; the task then offloads, once each, those whose last such task it is. So for such an object its last task offloads it and does nothing else with it, later tasks do not
  move it, and earlier ones are as the planner left them; an object that no task touches is never written back.\<close>

theorem writebacks_exact:
  assumes "i < length (tc_tasks c)"
  shows "(\<exists>here. distinct here \<and> set here = {oid. anchor_of c oid = Some i} \<and>
      tc_tasks (add_gradient_writebacks c) ! i =
        (tc_tasks c ! i)\<lparr>sk_releases_after := filter (\<lambda>r. \<not> ends_by c i r) (sk_releases_after (tc_tasks c ! i)),
          sk_offload_after := filter (\<lambda>tr. \<not> ends_by c i (tt_obj_id tr)) (sk_offload_after (tc_tasks c ! i)) @ map plain_trigger here,
          sk_prefetch_after := filter (\<lambda>tr. \<not> ends_by c i (tt_obj_id tr)) (sk_prefetch_after (tc_tasks c ! i))\<rparr>) \<and>
    add_gradient_writebacks c = c\<lparr>tc_tasks := tc_tasks (add_gradient_writebacks c)\<rparr> \<and>
    length (tc_tasks (add_gradient_writebacks c)) = length (tc_tasks c) \<and>
    about oid (tc_tasks (add_gradient_writebacks c) ! i) =
      (case anchor_of c oid of
         None \<Rightarrow> about oid (tc_tasks c ! i)
       | Some k \<Rightarrow> if i < k then about oid (tc_tasks c ! i) else if i = k then ([], [plain_trigger oid], []) else ([], [], []))"
proof -
  let ?here = "map fst (filter (\<lambda>(_, anchor). anchor = i) (last_anchors c))"
  have task: "tc_tasks (add_gradient_writebacks c) ! i = writeback_task (last_anchors c) i (tc_tasks c ! i)"
  proof (cases "filter (\<lambda>(_, loc). loc = ''backing'') (tc_final_locations c) = []")
    case True
    then have "dget (last_anchors c) oid = None" for oid by (simp add: last_anchors_get no_backing_no_anchor)
    from this [of "fst (hd (last_anchors c))"] have "last_anchors c = []" by (cases "last_anchors c") auto
    then show ?thesis using True by (simp add: add_gradient_writebacks_def writeback_task_def)
  next
    case False
    then show ?thesis using assms by (simp add: add_gradient_writebacks_def nth_enumerate_eq)
  qed
  show ?thesis
  proof (intro conjI exI)
    show "distinct ?here" "set ?here = {oid. anchor_of c oid = Some i}" by (rule written_here)+
    show "tc_tasks (add_gradient_writebacks c) ! i =
        (tc_tasks c ! i)\<lparr>sk_releases_after := filter (\<lambda>r. \<not> ends_by c i r) (sk_releases_after (tc_tasks c ! i)),
          sk_offload_after := filter (\<lambda>tr. \<not> ends_by c i (tt_obj_id tr)) (sk_offload_after (tc_tasks c ! i)) @ map plain_trigger ?here,
          sk_prefetch_after := filter (\<lambda>tr. \<not> ends_by c i (tt_obj_id tr)) (sk_prefetch_after (tc_tasks c ! i))\<rparr>"
      unfolding task by (rule writeback_task_exact)
    show "about oid (tc_tasks (add_gradient_writebacks c) ! i) =
      (case anchor_of c oid of
         None \<Rightarrow> about oid (tc_tasks c ! i)
       | Some k \<Rightarrow> if i < k then about oid (tc_tasks c ! i) else if i = k then ([], [plain_trigger oid], []) else ([], [], []))"
      unfolding task by (simp only: writeback_about [OF last_anchors_distinct] last_anchors_get)
  qed (simp_all add: add_gradient_writebacks_def)
qed

text \<open>C37. The eviction key of the planners is exact: for a chain with distinct task ids and run times that are not
  negative, the next use of an object at or after a time is the earliest ideal start, at or after it, of a task that
  reads the object, and is infinite when there is none.\<close>

theorem next_use_exact:
  assumes "distinct (map sk_id (tc_tasks c))" and "\<forall>task \<in> set (tc_tasks c). 0 \<le> sk_runtime task"
  shows "\<exists>uses. compute_uses c (compute_ideal_starts c) = Inr uses \<and>
    next_use_after uses obj t =
      (let later = {s \<in> start_of c ` {i. i < length (tc_tasks c) \<and> obj \<in> set (sk_inputs (tc_tasks c ! i))}. t \<le> s}
       in if later = {} then None else Some (Min later))"
proof -
  obtain uses where uses: "compute_uses c (compute_ideal_starts c) = Inr uses"
    "dget_or uses obj [] = concat (map (reads_at c obj) [0..<length (tc_tasks c)])"
    using compute_uses_get [OF assms(1)] by blast
  show ?thesis
    using uses bisect_first [OF reads_sorted [OF assms(2)], of obj "length (tc_tasks c)" t]
    unfolding set_reads by (auto simp: next_use_after_def)
qed

theorem verified_plan_runs_witness:
  "\<exists>lg. verify_and_refine 20 demo_chain = Inr demo_chain \<and> simulate_chain demo_chain = Inr lg \<and> log_peak ''fast'' lg \<le> 100 \<and>
     (\<exists>m. try_makespan demo_chain 20 = Some m \<and> 20 \<le> m)"
proof -
  have "verify_and_refine (Suc n) demo_chain = Inr demo_chain" for n using demo_simulates by (cases "simulate_chain demo_chain") simp_all
  from this [of 19] have ran: "verify_and_refine 20 demo_chain = Inr demo_chain" by simp
  have "chain_sane demo_chain" "chain_capacity demo_chain ''fast'' = Some 100" "tc_tasks demo_chain \<noteq> []"
    "(\<Sum>t \<leftarrow> tc_tasks demo_chain. sk_runtime t) = 20" by code_simp+
  with verified_plan_runs [OF this(1) ran] ran show ?thesis by auto
qed

theorem writebacks_exact_witness:
  "1 < length (tc_tasks demo_chain) \<and> sk_inputs (tc_tasks (add_gradient_writebacks demo_chain) ! 1) = [''y'', ''w''] \<and>
   about ''y'' (tc_tasks (add_gradient_writebacks demo_chain) ! 1) = ([], [plain_trigger ''y''], []) \<and>
   about ''w'' (tc_tasks (add_gradient_writebacks demo_chain) ! 1) = ([], [demo_trigger ''w''], [])"
proof -
  have i: "1 < length (tc_tasks demo_chain)" and "anchor_of demo_chain ''y'' = Some 1" "anchor_of demo_chain ''w'' = None"
    "sk_inputs (tc_tasks demo_chain ! 1) = [''y'', ''w'']" "about ''w'' (tc_tasks demo_chain ! 1) = ([], [demo_trigger ''w''], [])"
    by code_simp+
  then show ?thesis using writebacks_exact [OF i, of "''y''"] writebacks_exact [OF i, of "''w''"] by auto
qed

theorem next_use_exact_witness:
  "\<exists>uses. compute_uses demo_chain (compute_ideal_starts demo_chain) = Inr uses \<and> next_use_after uses ''w'' 5 = Some 10"
proof -
  have "distinct (map sk_id (tc_tasks demo_chain))" "\<forall>task \<in> set (tc_tasks demo_chain). 0 \<le> sk_runtime task" by code_simp+
  from next_use_exact [OF this, of "''w''" 5]
  obtain uses where uses: "compute_uses demo_chain (compute_ideal_starts demo_chain) = Inr uses"
    and nx: "next_use_after uses ''w'' 5 =
      (let later = {s \<in> start_of demo_chain ` {i. i < length (tc_tasks demo_chain) \<and> ''w'' \<in> set (sk_inputs (tc_tasks demo_chain ! i))}. 5 \<le> s}
       in if later = {} then None else Some (Min later))" by blast
  have reads: "{i. i < length (tc_tasks demo_chain) \<and> ''w'' \<in> set (sk_inputs (tc_tasks demo_chain ! i))} = {1}"
    by (auto simp: demo_chain_def less_Suc_eq)
  have "start_of demo_chain 1 = 10" by code_simp
  then have later: "{s \<in> start_of demo_chain ` {1}. 5 \<le> s} = {10}" by (simp only: image_insert image_empty) auto
  have "next_use_after uses ''w'' 5 = Some 10" using nx unfolding reads later Let_def by simp
  with uses show ?thesis by blast
qed

end
