(* ===== verification/Store_Alloc.thy ===== *)
theory Store_Alloc
  imports Program_IR "HOL-Library.Multiset"
begin

text \<open>
  The first-fit allocator of the resident object store, class \<open>SlabAllocator\<close> of \<open>src/dataflow/service/store.py\<close>.
  An \<open>Extent\<close> is a pair of offset and size; the free list keeps its order. The contract that the store relies
  on is the locale \<open>extent_allocator\<close>: it counts, for every byte, how many extents cover it, so that carving,
  returning and coalescing are additions.
\<close>

section \<open>Model\<close>

type_synonym extent = "int \<times> int"

record slab_alloc =
  sa_capacity :: int
  sa_free :: "extent list"
  sa_used_bytes :: int
  sa_peak_bytes :: int

definition STORE_ALIGN :: int where
  "STORE_ALIGN = 4096"

definition new_alloc :: "int \<Rightarrow> slab_alloc" where
  "new_alloc cap = \<lparr>sa_capacity = cap, sa_free = [(0, cap)], sa_used_bytes = 0, sa_peak_bytes = 0\<rparr>"

definition need_of :: "int \<Rightarrow> int" where
  "need_of sz = - ((- sz) div STORE_ALIGN) * STORE_ALIGN"

text \<open>The first free extent that is large enough: the piece cut from its front, and the free list left.\<close>

fun first_extent :: "int \<Rightarrow> extent list \<Rightarrow> (extent \<times> extent list) option" where
  "first_extent need [] = None"
| "first_extent need ((off, n) # es) =
     (if need \<le> n then Some ((off, need), if n = need then es else (off + need, n - need) # es)
      else map_option (\<lambda>(got, rest). (got, (off, n) # rest)) (first_extent need es))"

definition alloc_extent :: "slab_alloc \<Rightarrow> int \<Rightarrow> (extent \<times> slab_alloc) res" where
  "alloc_extent s sz =
     (case first_extent (need_of sz) (sa_free s) of
        None \<Rightarrow> Inl (ServiceError ''CAPACITY'')
      | Some (got, rest) \<Rightarrow>
          (let used = sa_used_bytes s + need_of sz
           in Inr (got, s\<lparr>sa_free := rest, sa_used_bytes := used,
                          sa_peak_bytes := (if sa_peak_bytes s < used then used else sa_peak_bytes s)\<rparr>)))"

text \<open>The address-ordered insertion, and the pass that merges an extent into the one before it.\<close>

definition insert_extent :: "extent \<Rightarrow> extent list \<Rightarrow> extent list" where
  "insert_extent ext es = takeWhile (\<lambda>e. fst e \<le> fst ext) es @ ext # dropWhile (\<lambda>e. fst e \<le> fst ext) es"

definition merge_extent :: "extent \<Rightarrow> extent list \<Rightarrow> extent list" where
  "merge_extent e merged =
     (if merged \<noteq> [] \<and> fst (last merged) + snd (last merged) = fst e
      then butlast merged @ [(fst (last merged), snd (last merged) + snd e)]
      else merged @ [e])"

definition release_extent :: "slab_alloc \<Rightarrow> extent \<Rightarrow> slab_alloc" where
  "release_extent s ext =
     s\<lparr>sa_used_bytes := sa_used_bytes s - snd ext, sa_free := fold merge_extent (insert_extent ext (sa_free s)) []\<rparr>"

record alloc_stats =
  as_capacity_bytes :: int
  as_used_bytes :: int
  as_peak_bytes :: int
  as_free_bytes :: int
  as_largest_free_extent :: int
  as_free_extents :: nat

definition stats :: "slab_alloc \<Rightarrow> alloc_stats" where
  "stats s =
     \<lparr>as_capacity_bytes = sa_capacity s, as_used_bytes = sa_used_bytes s, as_peak_bytes = sa_peak_bytes s,
      as_free_bytes = sa_capacity s - sa_used_bytes s,
      as_largest_free_extent = (if sa_free s = [] then 0 else Max (set (map snd (sa_free s)))),
      as_free_extents = length (sa_free s)\<rparr>"

section \<open>Counting the extents over a byte\<close>

definition hits :: "int \<Rightarrow> extent \<Rightarrow> int" where
  "hits x e = (if fst e \<le> x \<and> x < fst e + snd e then 1 else 0)"

definition cover :: "int \<Rightarrow> extent multiset \<Rightarrow> int" where
  "cover x H = sum_mset (image_mset (hits x) H)"

definition bytes_of :: "extent multiset \<Rightarrow> int" where
  "bytes_of H = sum_mset (image_mset snd H)"

abbreviation sizes_ok :: "extent multiset \<Rightarrow> bool" where
  "sizes_ok H \<equiv> \<forall>e \<in># H. 0 \<le> snd e"

lemma cover_simps [simp]:
  "cover x {#} = 0" "cover x (add_mset e H) = hits x e + cover x H" "cover x (H + K) = cover x H + cover x K"
  by (simp_all add: cover_def)

lemma bytes_of_simps [simp]:
  "bytes_of {#} = 0" "bytes_of (add_mset e H) = snd e + bytes_of H" "bytes_of (H + K) = bytes_of H + bytes_of K"
  by (simp_all add: bytes_of_def)

lemma hits_nonneg [simp]: "0 \<le> hits x e"
  by (simp add: hits_def)

lemma cover_nonneg: "0 \<le> cover x H"
  by (induction H) (auto simp: add_nonneg_nonneg)

lemma hits_split: "0 \<le> a \<Longrightarrow> 0 \<le> b \<Longrightarrow> hits x (off, a + b) = hits x (off, a) + hits x (off + a, b)"
  by (auto simp: hits_def)

lemma hits_empty: "snd e \<le> 0 \<Longrightarrow> hits x e = 0"
  by (auto simp: hits_def)

section \<open>The contract\<close>

locale extent_allocator =
  fixes inv :: "'s \<Rightarrow> bool"
    and free :: "'s \<Rightarrow> extent multiset"
    and capacity :: "'s \<Rightarrow> int"
    and used :: "'s \<Rightarrow> int"
    and alloc :: "'s \<Rightarrow> int \<Rightarrow> (extent \<times> 's) res"
    and release :: "'s \<Rightarrow> extent \<Rightarrow> 's"
  assumes alloc_inv: "\<lbrakk>inv s; 0 \<le> n; alloc s n = Inr (e, s')\<rbrakk> \<Longrightarrow> inv s'"
    and alloc_capacity: "\<lbrakk>inv s; 0 \<le> n; alloc s n = Inr (e, s')\<rbrakk> \<Longrightarrow> capacity s' = capacity s"
    and alloc_fits: "\<lbrakk>inv s; 0 \<le> n; alloc s n = Inr (e, s')\<rbrakk> \<Longrightarrow> n \<le> snd e"
    and alloc_cover: "\<lbrakk>inv s; 0 \<le> n; alloc s n = Inr (e, s')\<rbrakk> \<Longrightarrow> cover x (free s) = hits x e + cover x (free s')"
    and alloc_used: "\<lbrakk>inv s; 0 \<le> n; alloc s n = Inr (e, s')\<rbrakk> \<Longrightarrow> used s' = used s + snd e"
    and release_inv: "\<lbrakk>inv s; 0 \<le> snd e\<rbrakk> \<Longrightarrow> inv (release s e)"
    and release_capacity: "\<lbrakk>inv s; 0 \<le> snd e\<rbrakk> \<Longrightarrow> capacity (release s e) = capacity s"
    and release_cover: "\<lbrakk>inv s; 0 \<le> snd e\<rbrakk> \<Longrightarrow> cover x (free (release s e)) = hits x e + cover x (free s)"
    and release_used: "\<lbrakk>inv s; 0 \<le> snd e\<rbrakk> \<Longrightarrow> used (release s e) = used s - snd e"
begin

text \<open>A client holds the extents \<open>H\<close>: every byte of the slab is covered once, by a free or a held extent, and no
  other byte is.\<close>

definition holds :: "'s \<Rightarrow> extent multiset \<Rightarrow> bool" where
  "holds s H \<longleftrightarrow> inv s \<and> sizes_ok H \<and> used s = bytes_of H \<and>
     (\<forall>x. cover x (free s) + cover x H = (if 0 \<le> x \<and> x < capacity s then 1 else 0))"

lemma holds_alloc: "\<lbrakk>holds s H; 0 \<le> n; alloc s n = Inr (e, s')\<rbrakk> \<Longrightarrow> holds s' (add_mset e H)"
  using alloc_inv [of s n e s'] alloc_capacity [of s n e s'] alloc_fits [of s n e s'] alloc_cover [of s n e s']
    alloc_used [of s n e s'] by (simp add: holds_def) (auto simp: algebra_simps)

lemma holds_release: "holds s (add_mset e H) \<Longrightarrow> holds (release s e) H"
  using release_inv [of s e] release_capacity [of s e] release_cover [of s e] release_used [of s e]
  by (simp add: holds_def) (auto simp: algebra_simps)

lemma holds_disjoint:
  assumes "holds s (add_mset a (add_mset b H))"
  shows "{fst a..<fst a + snd a} \<inter> {fst b..<fst b + snd b} = {}"
proof -
  have "\<not> (x \<in> {fst a..<fst a + snd a} \<and> x \<in> {fst b..<fst b + snd b})" for x
  proof -
    have "cover x (free s) + (hits x a + (hits x b + cover x H)) \<le> 1" using assms by (simp add: holds_def)
    then have "\<not> (hits x a = 1 \<and> hits x b = 1)" using cover_nonneg [of x H] cover_nonneg [of x "free s"] by linarith
    then show ?thesis by (auto simp: hits_def)
  qed
  then show ?thesis by blast
qed

lemma holds_inside:
  assumes "holds s (add_mset e H)"
  shows "{fst e..<fst e + snd e} \<subseteq> {0..<capacity s}"
proof
  fix x assume "x \<in> {fst e..<fst e + snd e}"
  then have "hits x e = 1" by (auto simp: hits_def)
  moreover have "cover x (free s) + (hits x e + cover x H) = (if 0 \<le> x \<and> x < capacity s then 1 else 0)"
    using assms by (simp add: holds_def)
  ultimately have "0 \<le> x \<and> x < capacity s"
    using cover_nonneg [of x H] cover_nonneg [of x "free s"] by (auto split: if_splits)
  then show "x \<in> {0..<capacity s}" by simp
qed

end

section \<open>The allocator meets the contract\<close>

lemma need_of_align_up: "need_of n = align_up STORE_ALIGN n"
proof -
  have "- ((- n) div STORE_ALIGN) = (n + STORE_ALIGN - 1) div STORE_ALIGN"
    by (simp add: STORE_ALIGN_def)
  then show ?thesis by (simp add: need_of_def align_up_def)
qed

lemma need_of_ge: "n \<le> need_of n"
  by (simp add: need_of_align_up align_up_ge STORE_ALIGN_def)

lemma first_extent_spec:
  assumes "first_extent need es = Some (got, rest)" and "sizes_ok (mset es)" and "0 \<le> need"
  shows "snd got = need \<and> sizes_ok (mset rest) \<and> cover x (mset es) = hits x got + cover x (mset rest)"
  using assms
proof (induction need es arbitrary: rest rule: first_extent.induct)
  case (1 need)
  then show ?case by simp
next
  case (2 need off n es)
  show ?case
  proof (cases "need \<le> n")
    case True
    then have "hits x (off, n) = hits x (off, need) + hits x (off + need, n - need)"
      using hits_split [of need "n - need" x off] 2(4) by simp
    with True 2 show ?thesis by (auto simp: hits_empty split: if_splits)
  next
    case False
    then obtain rest' where "first_extent need es = Some (got, rest')" "rest = (off, n) # rest'"
      using 2(2) by auto
    with False 2 show ?thesis by auto
  qed
qed

lemma mset_insert_extent: "mset (insert_extent e es) = add_mset e (mset es)"
proof -
  have "mset es = mset (takeWhile (\<lambda>k. fst k \<le> fst e) es) + mset (dropWhile (\<lambda>k. fst k \<le> fst e) es)"
    by (simp flip: mset_append)
  then show ?thesis by (simp add: insert_extent_def)
qed

lemma merge_extent_spec:
  assumes "sizes_ok (mset ms)" and "0 \<le> snd e"
  shows "sizes_ok (mset (merge_extent e ms)) \<and> cover x (mset (merge_extent e ms)) = hits x e + cover x (mset ms)"
proof (cases "ms \<noteq> [] \<and> fst (last ms) + snd (last ms) = fst e")
  case True
  then obtain off n es where ms: "ms = es @ [(off, n)]" and "fst e = off + n"
    by (metis append_butlast_last_id prod.collapse)
  moreover have "hits x (off, n + snd e) = hits x (off, n) + hits x (off + n, snd e)"
    using assms ms by (intro hits_split) auto
  ultimately show ?thesis using assms by (cases e) (auto simp: merge_extent_def)
next
  case False
  with assms show ?thesis by (auto simp: merge_extent_def)
qed

lemma merge_all_spec:
  "\<lbrakk>sizes_ok (mset ms); sizes_ok (mset es)\<rbrakk> \<Longrightarrow>
   sizes_ok (mset (fold merge_extent es ms)) \<and> cover x (mset (fold merge_extent es ms)) = cover x (mset es) + cover x (mset ms)"
proof (induction es arbitrary: ms)
  case Nil
  then show ?case by simp
next
  case (Cons e es)
  have m: "sizes_ok (mset (merge_extent e ms))" "cover x (mset (merge_extent e ms)) = hits x e + cover x (mset ms)"
    using merge_extent_spec [of ms e x] Cons.prems by auto
  have "sizes_ok (mset es)" using Cons.prems(2) by simp
  from Cons.IH [OF m(1) this] m(2) show ?case by simp
qed

definition free_bag :: "slab_alloc \<Rightarrow> extent multiset" where
  "free_bag s = mset (sa_free s)"

definition free_ok :: "slab_alloc \<Rightarrow> bool" where
  "free_ok s \<longleftrightarrow> sizes_ok (free_bag s)"

lemma release_extent_spec:
  assumes "free_ok s" and "0 \<le> snd e"
  shows "free_ok (release_extent s e) \<and> cover x (free_bag (release_extent s e)) = hits x e + cover x (free_bag s)"
proof -
  have "sizes_ok (mset (insert_extent e (sa_free s)))" using assms by (auto simp: free_ok_def free_bag_def mset_insert_extent)
  from merge_all_spec [OF _ this, of "[]" x] show ?thesis
    by (simp add: free_ok_def free_bag_def release_extent_def mset_insert_extent)
qed

lemma alloc_extent_spec:
  assumes "alloc_extent s n = Inr (e, s')" and "free_ok s" and "0 \<le> n"
  shows "free_ok s' \<and> sa_capacity s' = sa_capacity s \<and> n \<le> snd e \<and> sa_used_bytes s' = sa_used_bytes s + snd e \<and>
    cover x (free_bag s) = hits x e + cover x (free_bag s')"
proof -
  obtain rest where fit: "first_extent (need_of n) (sa_free s) = Some (e, rest)" and s': "sa_free s' = rest"
      "sa_used_bytes s' = sa_used_bytes s + need_of n" "sa_capacity s' = sa_capacity s"
    using assms(1) by (auto simp: alloc_extent_def Let_def split: option.splits)
  have "0 \<le> need_of n" using need_of_ge [of n] assms(3) by linarith
  from first_extent_spec [OF fit _ this, of x] assms(2) s' need_of_ge [of n] show ?thesis
    by (simp add: free_ok_def free_bag_def)
qed

interpretation store_slab: extent_allocator free_ok free_bag sa_capacity sa_used_bytes alloc_extent release_extent
proof
  fix s e
  show "sa_capacity (release_extent s e) = sa_capacity s" "sa_used_bytes (release_extent s e) = sa_used_bytes s - snd e"
    by (simp_all add: release_extent_def)
qed (meson alloc_extent_spec release_extent_spec)+

lemma new_alloc_holds: "0 \<le> cap \<Longrightarrow> store_slab.holds (new_alloc cap) {#}"
  by (auto simp: store_slab.holds_def new_alloc_def free_ok_def free_bag_def hits_def)

end
