(* ===== verification/Store.thy ===== *)
theory Store
  imports Store_Alloc "HOL-Library.Word" "HOL-Library.List_Lexorder" "HOL-Library.Char_ord"
begin

text \<open>
  The resident object store, \<open>src/dataflow/service/store.py\<close> with the store handlers of
  \<open>handlers_store.py\<close>: a catalog of named objects over one slab. The slab is the byte array of the fake boot,
  which has the allocator and catalog behaviour of the pinned slab. The clock reading \<open>time.time()\<close> is an
  argument. An operation that raises leaves the store as it was and returns \<open>res\<close>; those that can raise after a
  change return the store with their result: \<open>wipe\<close>, which stops at a leased object, a put from a file that ends
  early, and a fill. (The assignment to the view in \<open>put\<close> and \<open>duplicate\<close> has the length of the object; it can
  fail only in a store whose extents are already corrupt.)
\<close>

section \<open>Model\<close>

type_synonym byte = "8 word"

record write_stamp =
  ws_by :: string
  ws_t :: time

record store_object =
  st_id :: string
  st_size_bytes :: int
  st_meta :: "(string, json) dict"
  st_extent :: extent
  st_protected :: bool
  st_lease_refs :: int
  st_version :: int
  st_last_write :: "write_stamp option"

definition new_object :: "string \<Rightarrow> int \<Rightarrow> (string, json) dict \<Rightarrow> extent \<Rightarrow> store_object" where
  "new_object oid sz meta ext =
     \<lparr>st_id = oid, st_size_bytes = sz, st_meta = meta, st_extent = ext, st_protected = False, st_lease_refs = 0,
      st_version = 0, st_last_write = None\<rparr>"

record store =
  so_alloc :: slab_alloc
  so_objects :: "(string, store_object) dict"
  so_bytes :: "byte list"
  so_transients :: "(string, string \<times> extent) dict"

definition new_store :: "int \<Rightarrow> store" where
  "new_store cap =
     \<lparr>so_alloc = new_alloc cap, so_objects = [], so_bytes = replicate (nat cap) 0, so_transients = []\<rparr>"

text \<open>Python slices: a negative bound counts from the end, a bound beyond the end is cut off. Assigning to a
  slice of a memoryview needs bytes of its length.\<close>

definition clip :: "nat \<Rightarrow> int \<Rightarrow> nat" where
  "clip len i = nat (if i < 0 then max 0 (i + int len) else min i (int len))"

definition read_slice :: "byte list \<Rightarrow> int \<Rightarrow> int \<Rightarrow> byte list" where
  "read_slice bs a b = take (clip (length bs) b - clip (length bs) a) (drop (clip (length bs) a) bs)"

definition write_slice :: "byte list \<Rightarrow> int \<Rightarrow> int \<Rightarrow> byte list \<Rightarrow> byte list res" where
  "write_slice bs a b data =
     (let lo = clip (length bs) a; hi = clip (length bs) b
      in if length data = hi - lo then Inr (take lo bs @ data @ drop (lo + length data) bs)
         else Inl (ValueError ''memoryview assignment: lvalue and rvalue have different structures''))"

text \<open>\<open>view_extent(ext, n)\<close> and \<open>view(rec)\<close>, read and assigned.\<close>

definition view_extent :: "store \<Rightarrow> extent \<Rightarrow> int \<Rightarrow> byte list" where
  "view_extent s ext n = read_slice (so_bytes s) (fst ext) (fst ext + n)"

definition fill_extent :: "store \<Rightarrow> extent \<Rightarrow> int \<Rightarrow> byte list \<Rightarrow> store res" where
  "fill_extent s ext n data =
     bindE (write_slice (so_bytes s) (fst ext) (fst ext + n) data) (\<lambda>bs. Inr (s\<lparr>so_bytes := bs\<rparr>))"

definition view :: "store \<Rightarrow> store_object \<Rightarrow> byte list" where
  "view s rec = view_extent s (st_extent rec) (st_size_bytes rec)"

definition write_view :: "store \<Rightarrow> store_object \<Rightarrow> byte list \<Rightarrow> store res" where
  "write_view s rec data = fill_extent s (st_extent rec) (st_size_bytes rec) data"

definition require :: "store \<Rightarrow> string \<Rightarrow> store_object res" where
  "require s oid = (case dget (so_objects s) oid of None \<Rightarrow> Inl (ServiceError ''UNKNOWN_OBJECT'') | Some rec \<Rightarrow> Inr rec)"

abbreviation set_object :: "string \<Rightarrow> store_object \<Rightarrow> store \<Rightarrow> store" where
  "set_object oid rec s \<equiv> s\<lparr>so_objects := dset oid rec (so_objects s)\<rparr>"

abbreviation drop_object :: "string \<Rightarrow> extent \<Rightarrow> store \<Rightarrow> store" where
  "drop_object oid ext s \<equiv> s\<lparr>so_alloc := release_extent (so_alloc s) ext, so_objects := ddel oid (so_objects s)\<rparr>"

text \<open>A carved object enters the catalog; an existing one is checked.\<close>

definition carve_object :: "store \<Rightarrow> string \<Rightarrow> int \<Rightarrow> (string, json) dict \<Rightarrow> (store_object \<times> store) res" where
  "carve_object s oid sz meta =
     bindE (alloc_extent (so_alloc s) sz) (\<lambda>(ext, a).
     let rec = new_object oid sz meta ext
     in Inr (rec, set_object oid rec (s\<lparr>so_alloc := a\<rparr>)))"

definition put_target :: "store \<Rightarrow> string \<Rightarrow> int \<Rightarrow> (string, json) dict option \<Rightarrow> (store_object \<times> store) res" where
  "put_target s oid sz meta =
     (case dget (so_objects s) oid of
        Some rec \<Rightarrow>
          bindE (guardE (st_lease_refs rec = 0) (ServiceError ''LEASED'')) (\<lambda>_.
          bindE (guardE (st_size_bytes rec = sz) (ServiceError ''BINDING_MISMATCH'')) (\<lambda>_. Inr (rec, s)))
      | None \<Rightarrow> carve_object s oid sz (case meta of None \<Rightarrow> [] | Some m \<Rightarrow> m))"

definition put ::
  "store \<Rightarrow> string \<Rightarrow> byte list option \<Rightarrow> int option \<Rightarrow> (string, json) dict option \<Rightarrow> string \<Rightarrow> time \<Rightarrow> (store_object \<times> store) res" where
  "put s oid data size_bytes meta writer now =
     (case (case data of Some d \<Rightarrow> Some (int (length d)) | None \<Rightarrow> size_bytes) of
        None \<Rightarrow> Inl (ServiceError ''BAD_REQUEST'')
      | Some sz \<Rightarrow>
          bindE (put_target s oid sz meta) (\<lambda>(rec, s).
          let rec = (case meta of Some m \<Rightarrow> if m \<noteq> [] then rec\<lparr>st_meta := m\<rparr> else rec | None \<Rightarrow> rec)
          in bindE (case data of Some d \<Rightarrow> write_view s rec d | None \<Rightarrow> Inr s) (\<lambda>s.
             let rec = rec\<lparr>st_version := st_version rec + 1, st_last_write := Some \<lparr>ws_by = writer, ws_t = now\<rparr>\<rparr>
             in Inr (rec, set_object oid rec s))))"

definition get_bytes :: "store \<Rightarrow> string \<Rightarrow> byte list res" where
  "get_bytes s oid = bindE (require s oid) (\<lambda>rec. Inr (view s rec))"

definition store_release :: "store \<Rightarrow> string \<Rightarrow> bool \<Rightarrow> (bool \<times> store) res" where
  "store_release s oid force =
     (case dget (so_objects s) oid of
        None \<Rightarrow> Inr (False, s)
      | Some rec \<Rightarrow>
          bindE (guardE (\<not> (st_protected rec \<and> \<not> force)) (ServiceError ''PROTECTED'')) (\<lambda>_.
          bindE (guardE (st_lease_refs rec = 0) (ServiceError ''LEASED'')) (\<lambda>_.
          Inr (True, drop_object oid (st_extent rec) s))))"

definition protect :: "store \<Rightarrow> string \<Rightarrow> bool \<Rightarrow> store res" where
  "protect s oid value = bindE (require s oid) (\<lambda>rec. Inr (set_object oid (rec\<lparr>st_protected := value\<rparr>) s))"

definition resolve_scope :: "store \<Rightarrow> string \<Rightarrow> string list res" where
  "resolve_scope s scope =
     (if scope = ''backing'' \<or> scope = ''all'' then Inr (sort (dkeys (so_objects s)))
      else if scope = ''fast'' then Inr []
      else Inl (ServiceError ''BAD_REQUEST''))"

record wipe_report =
  wr_freed_bytes :: int
  wr_n_objects :: nat
  wr_skipped :: "string list"

text \<open>The loop of \<open>wipe\<close>; a leased object stops it where it is.\<close>

fun wipe_ids :: "string list \<Rightarrow> bool \<Rightarrow> wipe_report \<Rightarrow> store \<Rightarrow> wipe_report res \<times> store" where
  "wipe_ids [] force r s = (Inr r, s)"
| "wipe_ids (oid # ids) force r s =
     (case dget (so_objects s) oid of
        None \<Rightarrow> wipe_ids ids force r s
      | Some rec \<Rightarrow>
          if st_protected rec \<and> \<not> force then wipe_ids ids force (r\<lparr>wr_skipped := wr_skipped r @ [oid]\<rparr>) s
          else if st_lease_refs rec \<noteq> 0 then (Inl (ServiceError ''LEASED''), s)
          else wipe_ids ids force
                 (r\<lparr>wr_freed_bytes := wr_freed_bytes r + st_size_bytes rec, wr_n_objects := Suc (wr_n_objects r)\<rparr>)
                 (drop_object oid (st_extent rec) s))"

definition reset_peak :: "slab_alloc \<Rightarrow> slab_alloc" where
  "reset_peak a = a\<lparr>sa_peak_bytes := sa_used_bytes a\<rparr>"

definition wipe :: "store \<Rightarrow> string \<Rightarrow> bool \<Rightarrow> wipe_report res \<times> store" where
  "wipe s scope force =
     (case resolve_scope s scope of
        Inl e \<Rightarrow> (Inl e, s)
      | Inr ids \<Rightarrow>
          (case wipe_ids ids force \<lparr>wr_freed_bytes = 0, wr_n_objects = 0, wr_skipped = []\<rparr> s of
             (Inl e, s) \<Rightarrow> (Inl e, s)
           | (Inr r, s) \<Rightarrow> (Inr r, s\<lparr>so_alloc := reset_peak (so_alloc s)\<rparr>)))"

text \<open>Inbound peer transfers: a refusal is a code, not an exception.\<close>

definition reserve_inbound :: "store \<Rightarrow> string \<Rightarrow> int \<Rightarrow> bool \<Rightarrow> string + extent \<times> store" where
  "reserve_inbound s dest_id sz overwrite =
     (let refusal = (case dget (so_objects s) dest_id of
             None \<Rightarrow> None
           | Some rec \<Rightarrow>
               if st_lease_refs rec \<noteq> 0 then Some ''BUSY''
               else if \<not> overwrite then Some ''COLLISION''
               else if st_size_bytes rec \<noteq> sz then Some ''COLLISION''
               else None)
      in case refusal of
           Some code \<Rightarrow> Inl code
         | None \<Rightarrow>
             (case alloc_extent (so_alloc s) sz of
                Inl _ \<Rightarrow> Inl ''CAPACITY''
              | Inr (ext, a) \<Rightarrow> Inr (ext, s\<lparr>so_alloc := a\<rparr>)))"

definition release_raw :: "store \<Rightarrow> extent \<Rightarrow> store" where
  "release_raw s ext = s\<lparr>so_alloc := release_extent (so_alloc s) ext\<rparr>"

definition adopt_inbound ::
  "store \<Rightarrow> string \<Rightarrow> extent \<Rightarrow> int \<Rightarrow> (string, json) dict option \<Rightarrow> string \<Rightarrow> time \<Rightarrow> (store_object \<times> store) res" where
  "adopt_inbound s dest_id ext sz meta from_peer now =
     (let fresh = new_object dest_id sz (case meta of None \<Rightarrow> [] | Some m \<Rightarrow> m) ext;
          stamp = Some \<lparr>ws_by = ''peer:'' @ from_peer, ws_t = now\<rparr>
      in case dget (so_objects s) dest_id of
           None \<Rightarrow>
             (let rec = fresh\<lparr>st_version := 1, st_last_write := stamp\<rparr> in Inr (rec, set_object dest_id rec s))
         | Some old \<Rightarrow>
             bindE (guardE (st_lease_refs old = 0) (ServiceError ''LEASED'')) (\<lambda>_.
             let rec = fresh\<lparr>st_protected := st_protected old, st_version := st_version old + 1, st_last_write := stamp\<rparr>
             in Inr (rec, set_object dest_id rec (release_raw s (st_extent old)))))"

definition alloc_scratch :: "store \<Rightarrow> int \<Rightarrow> (extent \<times> store) res" where
  "alloc_scratch s n = bindE (alloc_extent (so_alloc s) n) (\<lambda>(ext, a). Inr (ext, s\<lparr>so_alloc := a\<rparr>))"

definition acquire_lease :: "string \<Rightarrow> store \<Rightarrow> store res" where
  "acquire_lease oid s =
     (case dget (so_objects s) oid of
        None \<Rightarrow> Inl (KeyError oid)
      | Some rec \<Rightarrow> Inr (set_object oid (rec\<lparr>st_lease_refs := st_lease_refs rec + 1\<rparr>) s))"

definition acquire_leases :: "store \<Rightarrow> string list \<Rightarrow> store res" where
  "acquire_leases s ids =
     bindE (guardE (list_all (\<lambda>oid. dget (so_objects s) oid \<noteq> None) ids) (ServiceError ''UNKNOWN_OBJECT'')) (\<lambda>_.
     foldE acquire_lease ids s)"

definition release_lease :: "string \<Rightarrow> store \<Rightarrow> store" where
  "release_lease oid s =
     (case dget (so_objects s) oid of
        None \<Rightarrow> s
      | Some rec \<Rightarrow>
          if 0 < st_lease_refs rec
          then set_object oid (rec\<lparr>st_lease_refs := st_lease_refs rec - 1\<rparr>) s else s)"

definition release_leases :: "store \<Rightarrow> string list \<Rightarrow> store" where
  "release_leases s ids = fold release_lease ids s"

definition rollback_one :: "string \<Rightarrow> store \<Rightarrow> store" where
  "rollback_one oid s =
     (case dget (so_objects s) oid of None \<Rightarrow> s | Some rec \<Rightarrow> drop_object oid (st_extent rec) s)"

definition rollback_created :: "store \<Rightarrow> string list \<Rightarrow> store" where
  "rollback_created s ids = fold rollback_one ids s"

definition duplicate :: "store \<Rightarrow> string \<Rightarrow> string \<Rightarrow> time \<Rightarrow> (store_object \<times> store) res" where
  "duplicate s src dst now =
     bindE (require s src) (\<lambda>old.
     bindE (guardE (dget (so_objects s) dst = None) (ServiceError ''BAD_REQUEST'')) (\<lambda>_.
     bindE (carve_object s dst (st_size_bytes old) (st_meta old)) (\<lambda>(rec, s).
     bindE (write_view s rec (view s old)) (\<lambda>s.
     let rec = rec\<lparr>st_last_write := Some \<lparr>ws_by = ''duplicate:'' @ src, ws_t = now\<rparr>\<rparr>
     in Inr (rec, set_object dst rec s)))))"

definition transient_token :: "nat \<Rightarrow> string \<Rightarrow> int \<Rightarrow> string" where
  "transient_token n owner off =
     ''t'' @ show_nat n @ ''-'' @ owner @ ''-'' @ (if off < 0 then ''-'' else []) @ show_nat (nat \<bar>off\<bar>)"

definition alloc_transient :: "store \<Rightarrow> string \<Rightarrow> int \<Rightarrow> ((int \<times> extent \<times> string) \<times> store) res" where
  "alloc_transient s owner sz =
     bindE (alloc_extent (so_alloc s) sz) (\<lambda>(ext, a).
     let token = transient_token (length (so_transients s)) owner (fst ext)
     in Inr ((fst ext, ext, token), s\<lparr>so_alloc := a, so_transients := dset token (owner, ext) (so_transients s)\<rparr>))"

definition free_transient :: "store \<Rightarrow> string \<Rightarrow> store res" where
  "free_transient s token =
     (case dget (so_transients s) token of
        None \<Rightarrow> Inl (KeyError token)
      | Some (owner, ext) \<Rightarrow>
          Inr (s\<lparr>so_transients := ddel token (so_transients s), so_alloc := release_extent (so_alloc s) ext\<rparr>))"

definition transient_usage :: "store \<Rightarrow> int \<times> (string, int) dict" where
  "transient_usage s =
     (let by_owner = fold (\<lambda>(_, owner, ext) d. dset owner (dget_or d owner 0 + snd ext) d) (so_transients s) []
      in (\<Sum>kv \<leftarrow> by_owner. snd kv, by_owner))"

record store_usage = alloc_stats +
  us_n_objects :: nat
  us_resident_bytes :: int
  us_transient_bytes :: int
  us_by_owner :: "(string, int) dict"

definition usage :: "store \<Rightarrow> store_usage" where
  "usage s =
     (let tu = transient_usage s
      in alloc_stats.extend (stats (so_alloc s))
           (store_usage.fields (length (so_objects s)) (dsum st_size_bytes (so_objects s)) (fst tu) (snd tu)))"

definition largest :: "store \<Rightarrow> nat \<Rightarrow> (string \<times> int) list" where
  "largest s n = take n (sort_key (\<lambda>kv. - snd kv) (map (\<lambda>(_, rec). (st_id rec, st_size_bytes rec)) (so_objects s)))"

section \<open>Handlers\<close>

definition with_store :: "store \<Rightarrow> ('a \<times> store) res \<Rightarrow> 'a res \<times> store" where
  "with_store s r = (case r of Inl e \<Rightarrow> (Inl e, s) | Inr (x, s') \<Rightarrow> (Inr x, s'))"

text \<open>The read loop of \<open>put_from_file\<close>: \<open>readinto\<close> fills the view until it is full or the file ends. A file is the
  size that \<open>stat\<close> reported and the bytes that reading it delivers; \<open>None\<close> is a path with no file.\<close>

definition read_into :: "store \<Rightarrow> store_object \<Rightarrow> byte list \<Rightarrow> store_object res \<times> store" where
  "read_into s rec content =
     (let n = min (length content) (length (view s rec))
      in case fill_extent s (st_extent rec) (int n) (take n content) of
           Inl e \<Rightarrow> (Inl e, s)
         | Inr s \<Rightarrow> (if int n < st_size_bytes rec then Inl (ServiceError ''IO_ERROR'') else Inr rec, s))"

definition put_from_file ::
  "store \<Rightarrow> string \<Rightarrow> (nat \<times> byte list) option \<Rightarrow> (string, json) dict option \<Rightarrow> string \<Rightarrow> time \<Rightarrow> store_object res \<times> store" where
  "put_from_file s oid file meta writer now =
     (case file of
        None \<Rightarrow> (Inl (ServiceError ''IO_ERROR''), s)
      | Some (sz, content) \<Rightarrow>
          (case put s oid None (Some (int sz)) meta writer now of
             Inl e \<Rightarrow> (Inl e, s)
           | Inr (rec, s) \<Rightarrow> read_into s rec content))"

definition put_object ::
  "store \<Rightarrow> string \<Rightarrow> (nat \<times> byte list) option option \<Rightarrow> byte list option \<Rightarrow> (string, json) dict option \<Rightarrow> string \<Rightarrow> time \<Rightarrow> store_object res \<times> store" where
  "put_object s oid path payload meta session now =
     (case path of
        Some file \<Rightarrow> put_from_file s oid file meta session now
      | None \<Rightarrow>
          with_store s (case payload of
             None \<Rightarrow> Inl (ServiceError ''BAD_REQUEST'')
           | Some d \<Rightarrow> put s oid (Some d) None meta session now))"

definition create_object :: "store \<Rightarrow> string \<Rightarrow> int \<Rightarrow> (string, json) dict option \<Rightarrow> string \<Rightarrow> time \<Rightarrow> (store_object \<times> store) res" where
  "create_object s oid sz meta session now = put s oid None (Some sz) meta session now"

text \<open>The fill of \<open>materialize_object\<close>; the token ids come from a random generator, so their bytes are given.\<close>

datatype fill = FillZeros int | FillFile "(nat \<times> byte list) option" | FillTokens "byte list" | FillRetired | FillUnknown

definition materialize :: "store \<Rightarrow> string \<Rightarrow> fill \<Rightarrow> string \<Rightarrow> time \<Rightarrow> store_object res \<times> store" where
  "materialize s oid kind session now =
     (case kind of
        FillZeros n \<Rightarrow>
          (case put s oid None (Some n) None session now of
             Inl e \<Rightarrow> (Inl e, s)
           | Inr (rec, s) \<Rightarrow>
               (case write_view s rec (replicate (nat (st_size_bytes rec)) 0) of
                  Inl e \<Rightarrow> (Inl e, s)
                | Inr s \<Rightarrow> (Inr rec, s)))
      | FillFile file \<Rightarrow> put_from_file s oid file None session now
      | FillTokens ids \<Rightarrow> with_store s (put s oid (Some ids) None None session now)
      | FillRetired \<Rightarrow> (Inl (ServiceError ''BAD_REQUEST''), s)
      | FillUnknown \<Rightarrow> (Inl (ServiceError ''BAD_REQUEST''), s))"

definition query_backing :: "store \<Rightarrow> store_usage \<times> (string \<times> int) list" where
  "query_backing s = (usage s, largest s 10)"

end
