(* ===== verification/Store_Safety.thy ===== *)
theory Store_Safety
  imports Store
begin

text \<open>
  The invariant of the object store and what each operation does to it: the extents of the catalog, of the
  transients and of the raw clients tile the slab, and reading an object gives what was last written to it.
\<close>

section \<open>Values of a dictionary as a multiset\<close>

definition vals :: "('v \<Rightarrow> 'b) \<Rightarrow> ('k, 'v) dict \<Rightarrow> 'b multiset" where
  "vals f d = image_mset (\<lambda>kv. f (snd kv)) (mset d)"

lemma vals_simps [simp]: "vals f [] = {#}" "vals f (kv # d) = add_mset (f (snd kv)) (vals f d)"
  by (simp_all add: vals_def)

lemma vals_new: "dget d k = None \<Longrightarrow> vals f (dset k v d) = add_mset (f v) (vals f d)"
  by (induction d) (auto split: if_splits)

lemma vals_same: "dget d k = Some w \<Longrightarrow> f v = f w \<Longrightarrow> vals f (dset k v d) = vals f d"
  by (induction d) (auto split: if_splits)

lemma vals_del: "distinct (dkeys d) \<Longrightarrow> dget d k = Some w \<Longrightarrow> vals f d = add_mset (f w) (vals f (ddel k d))"
proof (induction d)
  case Nil
  then show ?case by simp
next
  case (Cons kv d)
  then show ?case by (cases "fst kv = k") (auto simp: delete_id)
qed

lemma vals_member: "dget d k = Some w \<Longrightarrow> f w \<in># vals f d"
  by (induction d) (auto split: if_splits)

lemma vals_pair:
  assumes "dget d k = Some v" and "dget d j = Some w" and "k \<noteq> j"
  obtains H where "vals f d = add_mset (f v) (add_mset (f w) H)"
proof -
  have "\<exists>H. vals f d = add_mset (f v) (add_mset (f w) H)"
    using assms
  proof (induction d)
    case Nil
    then show ?case by simp
  next
    case (Cons kv d)
    consider "fst kv = k" | "fst kv = j" | "fst kv \<noteq> k" "fst kv \<noteq> j" by blast
    then show ?case
    proof cases
      case 1
      then have "f w \<in># vals f d" using Cons.prems by (intro vals_member [of d j]) (auto split: if_splits)
      then obtain H where "vals f d = add_mset (f w) H" by (meson mset_add)
      with 1 Cons.prems show ?thesis by auto
    next
      case 2
      then have "f v \<in># vals f d" using Cons.prems by (intro vals_member [of d k]) (auto split: if_splits)
      then obtain H where "vals f d = add_mset (f v) H" by (meson mset_add)
      with 2 Cons.prems show ?thesis by (auto simp: add_mset_commute)
    next
      case 3
      then obtain H where "vals f d = add_mset (f v) (add_mset (f w) H)" using Cons by auto
      then have "vals f (kv # d) = add_mset (f v) (add_mset (f w) (add_mset (f (snd kv)) H))"
        by (simp add: add_mset_commute)
      then show ?thesis by blast
    qed
  qed
  then show thesis using that by blast
qed

section \<open>Bytes\<close>

lemma read_slice_nth:
  assumes "0 \<le> n" and "{a..<a + n} \<subseteq> {0..<int (length bs)}"
  shows "read_slice bs a (a + n) = map (\<lambda>i. bs ! nat i) [a..a + n - 1]"
proof (cases "n = 0")
  case True
  then show ?thesis by (simp add: read_slice_def)
next
  case False
  then have "a \<in> {a..<a + n}" "a + n - 1 \<in> {a..<a + n}" using assms(1) by auto
  then have r: "0 \<le> a" "a + n \<le> int (length bs)" using assms(2) by fastforce+
  show ?thesis using r False assms(1) by (intro nth_equalityI) (auto simp: read_slice_def clip_def nat_add_distrib)
qed

lemma write_slice_ok:
  assumes "{a..<a + int (length data)} \<subseteq> {0..<int (length bs)}"
  obtains bs' where "write_slice bs a (a + int (length data)) data = Inr bs'" and "length bs' = length bs"
    and "\<And>i. 0 \<le> i \<Longrightarrow> bs' ! nat i = (if a \<le> i \<and> i < a + int (length data) then data ! nat (i - a) else bs ! nat i)"
proof (cases "data = []")
  case True
  then have "write_slice bs a (a + int (length data)) data = Inr bs" by (simp add: write_slice_def Let_def)
  then show thesis by (rule that) (use True in auto)
next
  case False
  then have "a \<in> {a..<a + int (length data)}" "a + int (length data) - 1 \<in> {a..<a + int (length data)}" by auto
  then have r: "0 \<le> a" "a + int (length data) \<le> int (length bs)" using assms by fastforce+
  let ?bs = "take (nat a) bs @ data @ drop (nat a + length data) bs"
  have "write_slice bs a (a + int (length data)) data = Inr ?bs"
    using r by (auto simp: write_slice_def Let_def clip_def)
  moreover have "length ?bs = length bs" using r by auto
  moreover have "?bs ! nat i = (if a \<le> i \<and> i < a + int (length data) then data ! nat (i - a) else bs ! nat i)" if "0 \<le> i" for i
    using r that by (auto simp: nth_append nat_less_iff nat_diff_distrib)
  ultimately show thesis using that by blast
qed

section \<open>Tokens of transient extents\<close>

lemma show_nat_digits: "ch \<in> set (show_nat n) \<Longrightarrow> (48 :: nat) \<le> of_char ch \<and> of_char ch < (58 :: nat)"
proof (induction n rule: show_nat.induct)
  case (1 n)
  then show ?case by (subst (asm) (2) show_nat.simps) (auto split: if_splits)
qed

definition decode :: "string \<Rightarrow> nat" where
  "decode = foldl (\<lambda>a ch. 10 * a + (of_char ch - 48)) 0"

lemma decode_show: "decode (show_nat n) = n"
proof (induction n rule: show_nat.induct)
  case (1 n)
  then show ?case by (subst show_nat.simps) (auto simp: decode_def)
qed

lemma token_offset:
  assumes "transient_token n owner off = transient_token n' owner' off'" and "0 \<le> off" and "0 \<le> off'"
  shows "off = off'"
proof -
  let ?tail = "\<lambda>str. takeWhile (\<lambda>ch. ch \<noteq> CHR ''-'') (rev str)"
  have tail: "?tail (transient_token m o1 x) = rev (show_nat (nat x))" if "0 \<le> x" for m o1 x
  proof -
    have "ch \<noteq> CHR ''-''" if "ch \<in> set (show_nat (nat x))" for ch
      using show_nat_digits [OF that] by auto
    then show ?thesis using that by (subst transient_token_def) (simp add: takeWhile_append takeWhile_eq_all_conv)
  qed
  have "show_nat (nat off) = show_nat (nat off')" using arg_cong [OF assms(1), of ?tail] tail assms(2,3) by simp
  then have "nat off = nat off'" by (metis decode_show)
  with assms(2,3) show ?thesis by simp
qed
section \<open>The invariant\<close>

text \<open>The extents the store holds, and \<open>out\<close>, those of its raw clients (inbound reservations and scratch).\<close>

definition held :: "store \<Rightarrow> extent multiset" where
  "held s = vals st_extent (so_objects s) + vals snd (so_transients s)"

definition resident_ok :: "string \<Rightarrow> store_object \<Rightarrow> bool" where
  "resident_ok oid rec \<longleftrightarrow> st_id rec = oid \<and> 0 \<le> st_size_bytes rec \<and> st_size_bytes rec \<le> snd (st_extent rec) \<and>
     0 \<le> st_lease_refs rec \<and> 0 \<le> st_version rec"

definition transient_ok :: "string \<Rightarrow> string \<times> extent \<Rightarrow> bool" where
  "transient_ok tok oe \<longleftrightarrow> 0 < snd (snd oe) \<and> (\<exists>n. tok = transient_token n (fst oe) (fst (snd oe)))"

definition store_inv :: "store \<Rightarrow> extent multiset \<Rightarrow> bool" where
  "store_inv s out \<longleftrightarrow> store_slab.holds (so_alloc s) (held s + out) \<and>
     int (length (so_bytes s)) = sa_capacity (so_alloc s) \<and>
     distinct (dkeys (so_objects s)) \<and> distinct (dkeys (so_transients s)) \<and>
     (\<forall>oid rec. dget (so_objects s) oid = Some rec \<longrightarrow> resident_ok oid rec) \<and>
     (\<forall>tok oe. dget (so_transients s) tok = Some oe \<longrightarrow> transient_ok tok oe)"

text \<open>The abstract store: a map from ids to byte strings.\<close>

type_synonym catalog = "string \<Rightarrow> byte list option"

definition contents :: "store \<Rightarrow> catalog" where
  "contents s oid = map_option (view s) (dget (so_objects s) oid)"

lemma held_object: "dget (so_objects s) oid = Some rec \<Longrightarrow> st_extent rec \<in># held s"
  by (simp add: held_def vals_member)

lemma held_transient: "dget (so_transients s) tok = Some oe \<Longrightarrow> snd oe \<in># held s"
  by (simp add: held_def vals_member [of _ _ _ snd])

lemma extent_inside:
  assumes "store_inv s out" and "e \<in># held s + out" and "n \<le> snd e"
  shows "{fst e..<fst e + n} \<subseteq> {0..<int (length (so_bytes s))}"
proof -
  obtain H where "held s + out = add_mset e H" using assms(2) by (meson mset_add)
  then have "{fst e..<fst e + snd e} \<subseteq> {0..<sa_capacity (so_alloc s)}"
    using assms(1) by (intro store_slab.holds_inside [of "so_alloc s" _ H]) (simp add: store_inv_def)
  moreover have "{fst e..<fst e + n} \<subseteq> {fst e..<fst e + snd e}" using assms(3) by auto
  moreover have "int (length (so_bytes s)) = sa_capacity (so_alloc s)" using assms(1) by (simp add: store_inv_def)
  ultimately show ?thesis by (metis order_trans)
qed

text \<open>Writing into a part of a held extent: that part of the extent is read back, and no other held extent
  changes.\<close>

lemma fill_part_ok:
  assumes inv: "store_inv s out" and split: "held s + out = add_mset e H" and lo: "0 \<le> lo" and len: "lo + int (length data) \<le> n" "n \<le> snd e"
  obtains bs where "fill_extent s (fst e + lo, m) (int (length data)) data = Inr (s\<lparr>so_bytes := bs\<rparr>)" and "length bs = length (so_bytes s)"
    and "view_extent (s\<lparr>so_bytes := bs\<rparr>) e n =
      take (nat lo) (view_extent s e n) @ data @ drop (nat lo + length data) (view_extent s e n)"
    and "\<And>k n. k \<in># H \<Longrightarrow> 0 \<le> n \<Longrightarrow> n \<le> snd k \<Longrightarrow> view_extent (s\<lparr>so_bytes := bs\<rparr>) k n = view_extent s k n"
proof -
  let ?n = "int (length data)" and ?a = "fst e + lo"
  have "e \<in># held s + out" using split by simp
  note inside = extent_inside [OF inv this len(2)]
  have n: "0 \<le> n" using lo len(1) by linarith
  have "{?a..<?a + ?n} \<subseteq> {fst e..<fst e + n}" using lo len by auto
  from order_trans [OF this inside] obtain bs where w: "write_slice (so_bytes s) ?a (?a + ?n) data = Inr bs" and l: "length bs = length (so_bytes s)"
    and nth: "\<And>i. 0 \<le> i \<Longrightarrow> bs ! nat i = (if ?a \<le> i \<and> i < ?a + ?n then data ! nat (i - ?a) else so_bytes s ! nat i)"
    using write_slice_ok [of ?a data] by metis
  have nonneg: "0 \<le> i" if "fst e \<le> i" "i < fst e + n" for i using inside that by auto
  show thesis
  proof (rule that [of bs])
    show "fill_extent s (?a, m) ?n data = Inr (s\<lparr>so_bytes := bs\<rparr>)" by (simp add: fill_extent_def w)
    have "map (\<lambda>i. bs ! nat i) [fst e..fst e + n - 1] =
        take (nat lo) (map (\<lambda>i. so_bytes s ! nat i) [fst e..fst e + n - 1]) @ data @
        drop (nat lo + length data) (map (\<lambda>i. so_bytes s ! nat i) [fst e..fst e + n - 1])"
      using lo len n by (intro nth_equalityI) (auto simp: nth nonneg nth_append nat_diff_distrib)
    then show "view_extent (s\<lparr>so_bytes := bs\<rparr>) e n =
        take (nat lo) (view_extent s e n) @ data @ drop (nat lo + length data) (view_extent s e n)"
      using inside l n by (simp add: view_extent_def read_slice_nth)
  next
    fix k n' assume k: "k \<in># H" and n': "0 \<le> n'" "n' \<le> snd k"
    then obtain H' where "held s + out = add_mset e (add_mset k H')" using split by (metis mset_add)
    then have "{fst e..<fst e + snd e} \<inter> {fst k..<fst k + snd k} = {}"
      using inv by (intro store_slab.holds_disjoint [of "so_alloc s" _ _ H']) (simp add: store_inv_def)
    then have apart: "\<not> (?a \<le> i \<and> i < ?a + ?n)" if "fst k \<le> i" "i < fst k + n'" for i
      using that n' len lo by auto
    have "k \<in># held s + out" using k split by simp
    note ik = extent_inside [OF inv this n'(2)]
    have "0 \<le> i" if "fst k \<le> i" "i < fst k + n'" for i using ik that by auto
    then have "map (\<lambda>i. bs ! nat i) [fst k..fst k + n' - 1] = map (\<lambda>i. so_bytes s ! nat i) [fst k..fst k + n' - 1]"
      using nth apart by auto
    then show "view_extent (s\<lparr>so_bytes := bs\<rparr>) k n' = view_extent s k n'"
      using ik n'(1) l by (simp add: view_extent_def read_slice_nth)
  qed (use l in simp_all)
qed

lemma view_extent_length:
  "store_inv s out \<Longrightarrow> e \<in># held s + out \<Longrightarrow> 0 \<le> n \<Longrightarrow> n \<le> snd e \<Longrightarrow> int (length (view_extent s e n)) = n"
  using extent_inside [of s out e n] by (simp add: view_extent_def read_slice_nth)

lemma fill_extent_ok:
  assumes inv: "store_inv s out" and split: "held s + out = add_mset e H" and len: "int (length data) \<le> snd e"
  obtains bs where "fill_extent s e (int (length data)) data = Inr (s\<lparr>so_bytes := bs\<rparr>)" and "length bs = length (so_bytes s)"
    and "view_extent (s\<lparr>so_bytes := bs\<rparr>) e (int (length data)) = data"
    and "\<And>k n. k \<in># H \<Longrightarrow> 0 \<le> n \<Longrightarrow> n \<le> snd k \<Longrightarrow> view_extent (s\<lparr>so_bytes := bs\<rparr>) k n = view_extent s k n"
proof -
  have "e \<in># held s + out" using split by simp
  then have "length (view_extent s e (int (length data))) = length data"
    using view_extent_length [OF inv _ _ len] by simp
  then show thesis using fill_part_ok [OF inv split, of 0 data "int (length data)" "snd e"] len that by auto
qed

section \<open>Catalog updates\<close>

lemma view_frame [simp]:
  "view (s\<lparr>so_alloc := a\<rparr>) = view s" "view (s\<lparr>so_objects := d\<rparr>) = view s" "view (s\<lparr>so_transients := t\<rparr>) = view s"
  by (simp_all add: view_def view_extent_def fun_eq_iff)

lemma held_frame [simp]: "held (s\<lparr>so_alloc := a\<rparr>) = held s" "held (s\<lparr>so_bytes := bs\<rparr>) = held s"
  by (simp_all add: held_def)

lemma contents_frame [simp]:
  "contents (s\<lparr>so_alloc := a\<rparr>) = contents s" "contents (s\<lparr>so_transients := t\<rparr>) = contents s"
  by (simp_all add: contents_def fun_eq_iff)

lemma contents_set [simp]: "contents (s\<lparr>so_objects := dset oid rec (so_objects s)\<rparr>) = (contents s)(oid \<mapsto> view s rec)"
  by (simp add: contents_def fun_eq_iff)

lemma contents_del [simp]: "contents (s\<lparr>so_objects := ddel oid (so_objects s)\<rparr>) = (contents s)(oid := None)"
  by (simp add: contents_def fun_eq_iff)

lemma contents_get: "dget (so_objects s) oid = Some rec \<Longrightarrow> contents s oid = Some (view s rec)"
  by (simp add: contents_def)

lemma store_inv_bytes: "store_inv s out \<Longrightarrow> length bs = length (so_bytes s) \<Longrightarrow> store_inv (s\<lparr>so_bytes := bs\<rparr>) out"
  by (simp add: store_inv_def)

lemma resident: "store_inv s out \<Longrightarrow> dget (so_objects s) oid = Some rec \<Longrightarrow> resident_ok oid rec"
  unfolding store_inv_def by blast

lemma view_length:
  assumes "store_inv s out" and "dget (so_objects s) oid = Some rec"
  shows "int (length (view s rec)) = st_size_bytes rec"
proof -
  have r: "resident_ok oid rec" by (rule resident [OF assms])
  have "st_extent rec \<in># held s + out" using held_object [OF assms(2)] by simp
  from extent_inside [OF assms(1) this, of "st_size_bytes rec"] r show ?thesis
    by (simp add: resident_ok_def view_def view_extent_def read_slice_nth)
qed

text \<open>Bytes written over a part of a byte string.\<close>

definition overlay :: "int \<Rightarrow> byte list \<Rightarrow> byte list \<Rightarrow> byte list" where
  "overlay lo d old = take (nat lo) old @ d @ drop (nat lo + length d) old"

lemma overlay_whole: "length d = length old \<Longrightarrow> overlay 0 d old = d"
  by (simp add: overlay_def)

lemma overlay_view_ok:
  assumes inv: "store_inv s out" and get: "dget (so_objects s) oid = Some rec" and lo: "0 \<le> lo" "lo + int (length d) \<le> st_size_bytes rec"
  obtains bs where "fill_extent s (fst (st_extent rec) + lo, m) (int (length d)) d = Inr (s\<lparr>so_bytes := bs\<rparr>)"
    and "store_inv (s\<lparr>so_bytes := bs\<rparr>) out" and "contents (s\<lparr>so_bytes := bs\<rparr>) = (contents s)(oid \<mapsto> overlay lo d (view s rec))"
proof -
  have "st_extent rec \<in># held s + out" using held_object [OF get] by simp
  then obtain H where H: "held s + out = add_mset (st_extent rec) H" by (meson mset_add)
  have fits: "st_size_bytes rec \<le> snd (st_extent rec)" using resident [OF inv get] by (simp add: resident_ok_def)
  obtain bs where bs: "fill_extent s (fst (st_extent rec) + lo, m) (int (length d)) d = Inr (s\<lparr>so_bytes := bs\<rparr>)"
      "length bs = length (so_bytes s)" "view_extent (s\<lparr>so_bytes := bs\<rparr>) (st_extent rec) (st_size_bytes rec) = overlay lo d (view s rec)"
    and rest: "\<And>k n. k \<in># H \<Longrightarrow> 0 \<le> n \<Longrightarrow> n \<le> snd k \<Longrightarrow> view_extent (s\<lparr>so_bytes := bs\<rparr>) k n = view_extent s k n"
    using fill_part_ok [OF inv H lo fits, of m] unfolding overlay_def view_def by metis
  have "contents (s\<lparr>so_bytes := bs\<rparr>) k = ((contents s)(oid \<mapsto> overlay lo d (view s rec))) k" for k
  proof (cases "k = oid")
    case True
    then show ?thesis using get bs(3) by (simp add: contents_def view_def)
  next
    case other: False
    show ?thesis
    proof (cases "dget (so_objects s) k")
      case None
      then show ?thesis using other by (simp add: contents_def)
    next
      case (Some r)
      obtain K where "vals st_extent (so_objects s) = add_mset (st_extent rec) (add_mset (st_extent r) K)"
        using vals_pair [OF get Some] other by metis
      then have "st_extent r \<in># H" using H by (auto simp: held_def)
      then have "view (s\<lparr>so_bytes := bs\<rparr>) r = view s r"
        using rest [of "st_extent r"] resident [OF inv Some] by (simp add: view_def resident_ok_def)
      then show ?thesis using Some other by (simp add: contents_def)
    qed
  qed
  then have "contents (s\<lparr>so_bytes := bs\<rparr>) = (contents s)(oid \<mapsto> overlay lo d (view s rec))" by blast
  with that bs(1,2) store_inv_bytes [OF inv] show thesis by blast
qed

lemma write_view_ok:
  assumes inv: "store_inv s out" and get: "dget (so_objects s) oid = Some rec" and len: "int (length data) = st_size_bytes rec"
  obtains bs where "write_view s rec data = Inr (s\<lparr>so_bytes := bs\<rparr>)" and "store_inv (s\<lparr>so_bytes := bs\<rparr>) out"
    and "contents (s\<lparr>so_bytes := bs\<rparr>) = (contents s)(oid \<mapsto> data)"
proof -
  have "overlay 0 data (view s rec) = data" using view_length [OF inv get] len by (intro overlay_whole) simp
  then show thesis
    using overlay_view_ok [OF inv get, of 0 data "snd (st_extent rec)"] len that by (auto simp: write_view_def)
qed

text \<open>A record replaced by one with the same extent.\<close>

lemma set_object_inv:
  assumes "store_inv s out" and "dget (so_objects s) oid = Some old" and "resident_ok oid rec" and "st_extent rec = st_extent old"
  shows "store_inv (set_object oid rec s) out"
proof -
  have "held (set_object oid rec s) = held s"
    using vals_same [OF assms(2), of st_extent rec] assms(4) by (simp add: held_def)
  with assms(1,3) show ?thesis unfolding store_inv_def by (auto split: if_splits)
qed

lemma carve_object_ok:
  assumes "store_inv s out" and "dget (so_objects s) oid = None" and "0 \<le> sz" and "carve_object s oid sz meta = Inr (rec, s')"
  shows "store_inv s' out" and "dget (so_objects s') oid = Some rec" and "contents s' = (contents s)(oid \<mapsto> view s rec)"
    and "st_size_bytes rec = sz" and "st_lease_refs rec = 0" and "st_version rec = 0" and "st_id rec = oid"
    and "\<And>k. k \<noteq> oid \<Longrightarrow> dget (so_objects s') k = dget (so_objects s) k" and "view s' = view s"
proof -
  obtain ext a where al: "alloc_extent (so_alloc s) sz = Inr (ext, a)" and rec: "rec = new_object oid sz meta ext"
    and s': "s' = set_object oid rec (s\<lparr>so_alloc := a\<rparr>)"
    using assms(4) by (auto simp: carve_object_def bindE_eq_Inr Let_def)
  have h: "store_slab.holds a (add_mset ext (held s + out))"
    using assms(1) store_slab.holds_alloc [OF _ assms(3) al] by (simp add: store_inv_def)
  have cap: "sa_capacity a = sa_capacity (so_alloc s)" "sz \<le> snd ext"
    using assms(1,3) al alloc_extent_spec [OF al] by (auto simp: store_inv_def store_slab.holds_def)
  have "held s' = add_mset ext (held s)"
    using vals_new [OF assms(2), of st_extent rec] by (simp add: s' held_def rec new_object_def)
  then show "store_inv s' out"
    using assms(1) h cap assms(3) unfolding store_inv_def
    by (auto simp: s' rec new_object_def resident_ok_def split: if_splits)
  show "contents s' = (contents s)(oid \<mapsto> view s rec)" by (simp add: s' contents_def fun_eq_iff)
qed (use assms in \<open>auto simp: carve_object_def bindE_eq_Inr Let_def new_object_def\<close>)

lemma drop_object_inv:
  assumes "store_inv s out" and "dget (so_objects s) oid = Some rec"
  shows "store_inv (drop_object oid (st_extent rec) s) out" and "contents (drop_object oid (st_extent rec) s) = (contents s)(oid := None)"
proof -
  let ?s = "drop_object oid (st_extent rec) s"
  have "distinct (dkeys (so_objects s))" using assms(1) unfolding store_inv_def by blast
  from vals_del [OF this assms(2)] have "held s + out = add_mset (st_extent rec) (held ?s + out)"
    by (simp add: held_def)
  then have "store_slab.holds (release_extent (so_alloc s) (st_extent rec)) (held ?s + out)"
    using assms(1) store_slab.holds_release by (simp add: store_inv_def)
  moreover have "sa_capacity (release_extent (so_alloc s) (st_extent rec)) = sa_capacity (so_alloc s)"
    by (simp add: release_extent_def)
  ultimately show "store_inv ?s out" using assms(1) unfolding store_inv_def by (auto split: if_splits)
  show "contents ?s = (contents s)(oid := None)" by (simp add: contents_def fun_eq_iff)
qed

section \<open>Operations\<close>

definition is_service_error :: "err \<Rightarrow> bool" where
  "is_service_error e = (case e of ServiceError _ \<Rightarrow> True | _ \<Rightarrow> False)"

lemma is_service_error_simps [simp]: "is_service_error (ServiceError c)"
  by (simp add: is_service_error_def)

text \<open>An object was stored: nothing else in the catalog changed and the object was not leased; it holds the data
  given, or what it held before.\<close>

definition stored :: "store \<Rightarrow> string \<Rightarrow> byte list option \<Rightarrow> int \<Rightarrow> store_object \<times> store \<Rightarrow> bool" where
  "stored s oid data sz rs \<longleftrightarrow> (case rs of (rec, s') \<Rightarrow>
     dget (so_objects s') oid = Some rec \<and> st_size_bytes rec = sz \<and> st_lease_refs rec = 0 \<and>
     (\<forall>k. k \<noteq> oid \<longrightarrow> dget (so_objects s') k = dget (so_objects s) k) \<and>
     (\<forall>old. dget (so_objects s) oid = Some old \<longrightarrow> st_lease_refs old = 0) \<and>
     contents s' = (contents s)(oid \<mapsto> view s' rec) \<and>
     (case data of Some d \<Rightarrow> view s' rec = d | None \<Rightarrow> (\<forall>old. contents s oid = Some old \<longrightarrow> view s' rec = old)))"

lemma carve_error: "carve_object s oid sz meta = Inl e \<Longrightarrow> is_service_error e"
  by (auto simp: carve_object_def alloc_extent_def bindE_eq_Inl Let_def split: option.splits)

lemma put_target_ok:
  assumes inv: "store_inv s out" and sz: "0 \<le> sz"
  shows "outcome is_service_error (\<lambda>(rec, s'). store_inv s' out \<and> stored s oid None sz (rec, s')) (put_target s oid sz meta)"
proof (cases "dget (so_objects s) oid")
  case None
  show ?thesis
  proof (rule outcomeI)
    fix e assume "put_target s oid sz meta = Inl e"
    then show "is_service_error e" using None by (auto simp: put_target_def dest: carve_error)
  next
    fix rs assume "put_target s oid sz meta = Inr rs"
    then obtain rec s' m where rs: "rs = (rec, s')" and c: "carve_object s oid sz m = Inr (rec, s')"
      using None by (cases rs) (auto simp: put_target_def)
    note ok = carve_object_ok [OF inv None sz c]
    show "case rs of (rec, s') \<Rightarrow> store_inv s' out \<and> stored s oid None sz (rec, s')"
      using ok None by (simp add: rs stored_def contents_def)
  qed
next
  case (Some rec)
  then show ?thesis using inv by (auto simp: put_target_def stored_def contents_get)
qed

text \<open>A write to a stored object, and an update of its bookkeeping.\<close>

lemma stored_write:
  assumes inv: "store_inv s1 out" and st: "stored s oid data sz (rec, s1)" and len: "int (length d) = sz"
  shows "outcome is_service_error (\<lambda>s'. store_inv s' out \<and> stored s oid (Some d) sz (rec, s')) (write_view s1 rec d)"
proof -
  have get: "dget (so_objects s1) oid = Some rec" and "int (length d) = st_size_bytes rec"
    using st len by (simp_all add: stored_def)
  then obtain bs where "write_view s1 rec d = Inr (s1\<lparr>so_bytes := bs\<rparr>)" and "store_inv (s1\<lparr>so_bytes := bs\<rparr>) out"
    and c: "contents (s1\<lparr>so_bytes := bs\<rparr>) = (contents s1)(oid \<mapsto> d)"
    using write_view_ok [OF inv] by metis
  moreover have "view (s1\<lparr>so_bytes := bs\<rparr>) rec = d"
    using contents_get [of "s1\<lparr>so_bytes := bs\<rparr>" oid rec] get c by simp
  ultimately show ?thesis using st c by (simp add: stored_def)
qed

lemma stored_update:
  assumes inv: "store_inv s1 out" and st: "stored s oid data sz (rec, s1)" and "resident_ok oid rec'"
    and same: "st_extent rec' = st_extent rec" "st_size_bytes rec' = st_size_bytes rec" "st_lease_refs rec' = st_lease_refs rec"
  shows "store_inv (set_object oid rec' s1) out" and "stored s oid data sz (rec', set_object oid rec' s1)"
proof -
  have get: "dget (so_objects s1) oid = Some rec" using st by (simp add: stored_def)
  show "store_inv (set_object oid rec' s1) out" by (rule set_object_inv [OF inv get assms(3) same(1)])
  have "view s1 rec' = view s1 rec" using same by (simp add: view_def)
  then show "stored s oid data sz (rec', set_object oid rec' s1)" using st same by (simp add: stored_def split: option.splits)
qed

lemma put_ok:
  assumes inv: "store_inv s out" and sz: "sz = (case data of Some d \<Rightarrow> int (length d) | None \<Rightarrow> n)" "0 \<le> sz"
  shows "outcome is_service_error (\<lambda>(rec, s'). store_inv s' out \<and> stored s oid data sz (rec, s')) (put s oid data (Some n) meta writer now)"
proof -
  have pick: "(case data of Some d \<Rightarrow> Some (int (length d)) | None \<Rightarrow> Some n) = Some sz"
    using sz by (simp split: option.splits)
  show ?thesis unfolding put_def pick option.case Let_def
  proof (rule outcome_bind [OF put_target_ok [OF inv sz(2)]], clarify)
    fix rec s1 assume inv1: "store_inv s1 out" and st1: "stored s oid None sz (rec, s1)"
    let ?rec = "case meta of Some m \<Rightarrow> if m \<noteq> [] then rec\<lparr>st_meta := m\<rparr> else rec | None \<Rightarrow> rec"
    have same: "st_extent ?rec = st_extent rec" "st_size_bytes ?rec = st_size_bytes rec" "st_lease_refs ?rec = st_lease_refs rec"
        "st_version ?rec = st_version rec" "st_id ?rec = st_id rec"
      by (simp_all split: option.splits)
    have ok: "resident_ok oid rec" using inv1 st1 resident by (auto simp: stored_def)
    have wrote: "outcome is_service_error (\<lambda>s2. store_inv s2 out \<and> stored s oid data sz (rec, s2))
        (case data of Some d \<Rightarrow> write_view s1 ?rec d | None \<Rightarrow> Inr s1)"
    proof (cases data)
      case None
      then show ?thesis using inv1 st1 by simp
    next
      case (Some d)
      have "write_view s1 ?rec d = write_view s1 rec d" using same by (simp add: write_view_def)
      then show ?thesis using stored_write [OF inv1 st1, of d] Some sz by simp
    qed
    show "outcome is_service_error (\<lambda>(rec, s'). store_inv s' out \<and> stored s oid data sz (rec, s'))
      (bindE (case data of None \<Rightarrow> Inr s1 | Some d \<Rightarrow> write_view s1 ?rec d)
        (\<lambda>s. Inr (?rec\<lparr>st_version := st_version ?rec + 1, st_last_write := Some \<lparr>ws_by = writer, ws_t = now\<rparr>\<rparr>,
           set_object oid (?rec\<lparr>st_version := st_version ?rec + 1, st_last_write := Some \<lparr>ws_by = writer, ws_t = now\<rparr>\<rparr>) s)))"
      by (rule outcome_bind [OF wrote], unfold outcome_simps prod.case, intro conjI; (elim conjE)?; rule stored_update)
        (use ok same in \<open>auto simp: resident_ok_def\<close>)
  qed
qed

lemma put_data_ok:
  "store_inv s out \<Longrightarrow> outcome is_service_error (\<lambda>(rec, s'). store_inv s' out \<and> stored s oid (Some d) (int (length d)) (rec, s'))
     (put s oid (Some d) None meta writer now)"
  using put_ok [where data = "Some d" and n = 0] by (simp add: put_def)

lemma put_then_write:
  assumes inv: "store_inv s out" and len: "\<And>rec. st_size_bytes rec = n \<Longrightarrow> int (length (f rec)) = n" and "0 \<le> n"
  shows "outcome is_service_error (\<lambda>(rec, s'). store_inv s' out \<and> stored s oid (Some (f rec)) n (rec, s'))
    (bindE (put s oid None (Some n) meta writer now) (\<lambda>(rec, s). bindE (write_view s rec (f rec)) (\<lambda>s. Inr (rec, s))))"
proof (rule outcome_bind [OF put_ok [OF inv, of n]])
  fix rs assume st: "case rs of (rec, s1) \<Rightarrow> store_inv s1 out \<and> stored s oid None n (rec, s1)"
  obtain rec s1 where rs: "rs = (rec, s1)" by (cases rs)
  have "st_size_bytes rec = n" using st by (simp add: rs stored_def)
  with len st have "outcome is_service_error (\<lambda>s'. store_inv s' out \<and> stored s oid (Some (f rec)) n (rec, s')) (write_view s1 rec (f rec))"
    by (intro stored_write) (auto simp: rs)
  then show "outcome is_service_error (\<lambda>(rec, s'). store_inv s' out \<and> stored s oid (Some (f rec)) n (rec, s'))
      (case rs of (rec, s) \<Rightarrow> bindE (write_view s rec (f rec)) (\<lambda>s. Inr (rec, s)))"
    unfolding rs prod.case by (rule outcome_bind) simp
qed (use assms(3) in simp_all)

text \<open>A file read into an object that was just stored: the bytes it delivers replace the first ones.\<close>

lemma read_into_ok:
  assumes inv: "store_inv s1 out" and st: "stored s oid None n (rec, s1)" and rd: "read_into s1 rec content = (r, s')"
  shows "store_inv s' out \<and> (if int (length content) < n then r = Inl (ServiceError ''IO_ERROR'') else r = Inr rec) \<and>
    contents s' = (contents s)(oid \<mapsto> overlay 0 (take (nat n) content) (view s1 rec))"
proof -
  have get: "dget (so_objects s1) oid = Some rec" and sz: "st_size_bytes rec = n" and c1: "contents s1 = (contents s)(oid \<mapsto> view s1 rec)"
    using st by (simp_all add: stored_def)
  have len: "int (length (view s1 rec)) = n" using view_length [OF inv get] sz by simp
  let ?n = "min (length content) (length (view s1 rec))"
  have "nat n = length (view s1 rec)" using len by simp
  then have n: "take ?n content = take (nat n) content" by (simp add: min_def)
  have fits: "0 + int (length (take ?n content)) \<le> st_size_bytes rec" using len sz by simp
  obtain bs where bs: "fill_extent s1 (st_extent rec) (int ?n) (take ?n content) = Inr (s1\<lparr>so_bytes := bs\<rparr>)"
    "store_inv (s1\<lparr>so_bytes := bs\<rparr>) out" "contents (s1\<lparr>so_bytes := bs\<rparr>) = (contents s1)(oid \<mapsto> overlay 0 (take ?n content) (view s1 rec))"
    by (rule overlay_view_ok [OF inv get _ fits, of "snd (st_extent rec)"]) auto
  have "(int ?n < st_size_bytes rec) = (int (length content) < n)" using len sz by linarith
  then show ?thesis using rd bs c1 sz unfolding n by (auto simp: read_into_def Let_def n split: if_splits)
qed

text \<open>Operations on the catalog that leave the bytes alone.\<close>

lemma contents_gone:
  assumes "so_bytes s' = so_bytes s" and "\<And>k. dget (so_objects s') k = (if k \<in> gone then None else dget (so_objects s) k)"
  shows "contents s' = contents s |` (- gone)"
proof -
  have "view s' = view s" using assms(1) by (simp add: view_def view_extent_def fun_eq_iff)
  then have "contents s' k = (contents s |` (- gone)) k" for k
    using assms(2) [of k] by (simp add: contents_def restrict_map_def)
  then show ?thesis by blast
qed

definition droppable :: "store \<Rightarrow> bool \<Rightarrow> string set" where
  "droppable s force = {k. \<exists>rec. dget (so_objects s) k = Some rec \<and> (force \<or> \<not> st_protected rec)}"

text \<open>Objects left the store: \<open>gone\<close> among the droppable ones, none leased.\<close>

definition dropped :: "store \<Rightarrow> bool \<Rightarrow> string set \<Rightarrow> store \<Rightarrow> bool" where
  "dropped s force gone s' \<longleftrightarrow> so_bytes s' = so_bytes s \<and>
     (\<forall>k. dget (so_objects s') k = (if k \<in> gone then None else dget (so_objects s) k)) \<and>
     gone \<subseteq> droppable s force \<and> (\<forall>k rec. k \<in> gone \<longrightarrow> dget (so_objects s) k = Some rec \<longrightarrow> st_lease_refs rec = 0)"

lemma dropped_none: "dropped s force {} s"
  by (simp add: dropped_def)

lemma dropped_one:
  assumes "dget (so_objects s) oid = Some rec" and "force \<or> \<not> st_protected rec" and "st_lease_refs rec = 0"
    and "dropped (drop_object oid (st_extent rec) s) force gone s'"
  shows "dropped s force (insert oid gone) s'"
proof -
  have "k \<in> droppable s force" if "k \<in> insert oid gone" for k
    using assms that by (auto simp: dropped_def droppable_def split: if_splits)
  moreover have "st_lease_refs r = 0" if "k \<in> insert oid gone" "dget (so_objects s) k = Some r" for k r
    using assms that unfolding dropped_def by (cases "k = oid") auto
  ultimately show ?thesis using assms(4) by (auto simp: dropped_def)
qed

lemma wipe_ids_ok:
  assumes "store_inv s out" and "wipe_ids ids force r s = (res, s')"
  shows "store_inv s' out \<and> (\<exists>gone. dropped s force gone s' \<and> (\<forall>r'. res = Inr r' \<longrightarrow> droppable s force \<inter> set ids \<subseteq> gone))"
  using assms
proof (induction ids force r s rule: wipe_ids.induct)
  case (1 force r s)
  then show ?case using dropped_none by auto
next
  case (2 oid ids force r s)
  show ?case
  proof (cases "dget (so_objects s) oid")
    case None
    with 2 have "store_inv s' out \<and> (\<exists>gone. dropped s force gone s' \<and> (\<forall>r'. res = Inr r' \<longrightarrow> droppable s force \<inter> set ids \<subseteq> gone))" by simp
    moreover have "oid \<notin> droppable s force" using None by (simp add: droppable_def)
    ultimately show ?thesis by auto
  next
    case (Some rec)
    consider (skip) "st_protected rec \<and> \<not> force" | (leased) "\<not> (st_protected rec \<and> \<not> force)" "st_lease_refs rec \<noteq> 0"
      | (drop) "\<not> (st_protected rec \<and> \<not> force)" "st_lease_refs rec = 0" by blast
    then show ?thesis
    proof cases
      case skip
      with 2 Some have "store_inv s' out \<and> (\<exists>gone. dropped s force gone s' \<and> (\<forall>r'. res = Inr r' \<longrightarrow> droppable s force \<inter> set ids \<subseteq> gone))" by simp
      moreover have "oid \<notin> droppable s force" using Some skip by (simp add: droppable_def)
      ultimately show ?thesis by auto
    next
      case leased
      with 2 Some have "res = Inl (ServiceError ''LEASED'')" "s' = s" by auto
      moreover have "dropped s force {} s" by (rule dropped_none)
      ultimately show ?thesis using 2(4) by blast
    next
      case drop
      let ?s = "drop_object oid (st_extent rec) s"
      from drop 2 Some drop_object_inv(1) [OF 2(4) Some] obtain gone where i: "store_inv s' out" and d: "dropped ?s force gone s'"
        and all: "\<And>r'. res = Inr r' \<Longrightarrow> droppable ?s force \<inter> set ids \<subseteq> gone" by auto
      have "droppable s force - {oid} \<subseteq> droppable ?s force" by (auto simp: droppable_def)
      then have "\<And>r'. res = Inr r' \<Longrightarrow> droppable s force \<inter> set (oid # ids) \<subseteq> insert oid gone" using all by fastforce
      moreover have "dropped s force (insert oid gone) s'" using drop by (intro dropped_one [OF Some _ _ d]) auto
      ultimately show ?thesis using i by blast
    qed
  qed
qed

lemma wipe_ok:
  assumes "store_inv s out" and "wipe s scope force = (res, s')"
  shows "store_inv s' out \<and> (\<exists>gone. dropped s force gone s' \<and>
    (\<forall>r. res = Inr r \<longrightarrow> gone = (if scope = ''fast'' then {} else droppable s force)))"
proof (cases "resolve_scope s scope")
  case (Inl e)
  then show ?thesis using assms dropped_none by (auto simp: wipe_def)
next
  case (Inr ids)
  let ?r = "\<lparr>wr_freed_bytes = 0, wr_n_objects = 0, wr_skipped = []\<rparr>"
  obtain res1 s1 where w: "wipe_ids ids force ?r s = (res1, s1)" by (cases "wipe_ids ids force ?r s")
  obtain gone where i: "store_inv s1 out" and d: "dropped s force gone s1"
    and all: "\<And>r. res1 = Inr r \<Longrightarrow> droppable s force \<inter> set ids \<subseteq> gone"
    using wipe_ids_ok [OF assms(1) w] by blast
  have "scope = ''fast'' \<and> ids = [] \<or> scope \<noteq> ''fast'' \<and> ids = sort (dkeys (so_objects s))"
    using Inr by (simp add: resolve_scope_def split: if_splits) auto
  then have ids: "set ids = (if scope = ''fast'' then {} else fst ` set (so_objects s))" by (elim disjE) simp_all
  have "droppable s force \<subseteq> fst ` set (so_objects s)" by (force simp: droppable_def dest: map_of_SomeD)
  show ?thesis
  proof (cases "scope = ''fast''")
    case True
    then have "ids = []" using ids by auto
    then show ?thesis using assms Inr True dropped_none
      by (auto simp: wipe_def reset_peak_def store_inv_def store_slab.holds_def free_ok_def free_bag_def dropped_def)
  next
    case False
    have "gone = droppable s force" if "res1 = Inr r" for r
      using all [OF that] d ids False \<open>droppable s force \<subseteq> fst ` set (so_objects s)\<close> by (auto simp: dropped_def)
    with i d assms(2) Inr False w show ?thesis
      by (auto simp: wipe_def reset_peak_def store_inv_def store_slab.holds_def free_ok_def free_bag_def dropped_def held_def split: sum.splits)
  qed
qed

lemma rollback_ok:
  assumes "store_inv s out"
  shows "store_inv (rollback_created s ids) out \<and> contents (rollback_created s ids) = contents s |` (- set ids)"
  using assms
proof (induction ids arbitrary: s)
  case Nil
  then show ?case by (simp add: rollback_created_def)
next
  case (Cons oid ids)
  have "store_inv (rollback_one oid s) out \<and> contents (rollback_one oid s) = (contents s)(oid := None)"
    using drop_object_inv [OF Cons.prems] Cons.prems
    by (auto simp: rollback_one_def contents_def fun_eq_iff split: option.splits)
  with Cons.IH [of "rollback_one oid s"] show ?case
    by (auto simp: rollback_created_def restrict_map_def fun_eq_iff)
qed

text \<open>Lease counts and protection change the record only.\<close>

lemma update_record:
  assumes "store_inv s out" and "dget (so_objects s) oid = Some old" and "resident_ok oid rec"
    and "st_extent rec = st_extent old" and "st_size_bytes rec = st_size_bytes old"
  shows "store_inv (set_object oid rec s) out \<and> contents (set_object oid rec s) = contents s"
proof -
  have "view s rec = view s old" using assms(4,5) by (simp add: view_def)
  then have "(contents s)(oid \<mapsto> view s rec) = contents s" using contents_get [OF assms(2)] by (simp add: fun_upd_idem)
  then show ?thesis using set_object_inv [OF assms(1-4)] by simp
qed

lemma release_leases_ok: "store_inv s out \<Longrightarrow> store_inv (release_leases s ids) out \<and> contents (release_leases s ids) = contents s"
proof (induction ids arbitrary: s)
  case Nil
  then show ?case by (simp add: release_leases_def)
next
  case (Cons oid ids)
  have "store_inv (release_lease oid s) out \<and> contents (release_lease oid s) = contents s"
  proof (cases "dget (so_objects s) oid")
    case None
    then show ?thesis using Cons.prems by (simp add: release_lease_def)
  next
    case (Some rec)
    then show ?thesis using Cons.prems resident [OF Cons.prems Some] update_record [OF Cons.prems Some]
      by (simp add: release_lease_def resident_ok_def)
  qed
  with Cons.IH [of "release_lease oid s"] show ?case by (simp add: release_leases_def)
qed

lemma acquire_leases_ok:
  assumes inv: "store_inv s out"
  shows "outcome is_service_error (\<lambda>s'. store_inv s' out \<and> contents s' = contents s) (acquire_leases s ids)"
proof -
  have "outcome is_service_error (\<lambda>s'. store_inv s' out \<and> contents s' = contents s) (foldE acquire_lease ids s)"
    if all: "list_all (\<lambda>oid. dget (so_objects s) oid \<noteq> None) ids"
  proof (rule outcome_foldE_inv)
    show "store_inv s out \<and> contents s = contents s" using inv by simp
  next
    fix oid s1 assume mem: "oid \<in> set ids" and s1: "store_inv s1 out \<and> contents s1 = contents s"
    have "contents s oid \<noteq> None" using all mem by (auto simp: list_all_iff contents_def)
    then have "contents s1 oid \<noteq> None" using s1 by simp
    then obtain rec where get: "dget (so_objects s1) oid = Some rec" by (auto simp: contents_def)
    have i: "store_inv s1 out" using s1 by blast
    have "resident_ok oid (rec\<lparr>st_lease_refs := st_lease_refs rec + 1\<rparr>)" using resident [OF i get] by (simp add: resident_ok_def)
    from update_record [OF i get this] get s1
    show "outcome is_service_error (\<lambda>s'. store_inv s' out \<and> contents s' = contents s) (acquire_lease oid s1)"
      by (simp add: acquire_lease_def)
  qed
  then show ?thesis by (simp add: acquire_leases_def)
qed

text \<open>Extents handed to raw clients, and taken back.\<close>

lemma alloc_raw_ok:
  assumes "store_inv s out" and "0 \<le> n" and "alloc_extent (so_alloc s) n = Inr (ext, a)"
  shows "store_inv (s\<lparr>so_alloc := a\<rparr>) (add_mset ext out)"
proof -
  have h: "store_slab.holds (so_alloc s) (held s + out)" using assms(1) by (simp add: store_inv_def)
  then have "free_ok (so_alloc s)" by (simp add: store_slab.holds_def)
  then have "sa_capacity a = sa_capacity (so_alloc s)" using alloc_extent_spec [OF assms(3) _ assms(2)] by blast
  with assms(1) store_slab.holds_alloc [OF h assms(2,3)] show ?thesis by (simp add: store_inv_def)
qed

lemma release_raw_ok: "store_inv s (add_mset ext out) \<Longrightarrow> store_inv (release_raw s ext) out"
  using store_slab.holds_release [of "so_alloc s" ext "held s + out"]
  unfolding store_inv_def by (auto simp: release_raw_def release_extent_def)

lemma adopt_ok:
  assumes inv: "store_inv s (add_mset ext out)" and sz: "0 \<le> sz" "sz \<le> snd ext" and ad: "adopt_inbound s oid ext sz meta peer now = Inr (rec, s')"
  shows "store_inv s' out \<and> contents s' = (contents s)(oid \<mapsto> view_extent s ext sz) \<and>
    (\<forall>old. dget (so_objects s) oid = Some old \<longrightarrow> st_lease_refs old = 0)"
proof (cases "dget (so_objects s) oid")
  case None
  then have s': "s' = set_object oid rec s" and rec: "st_extent rec = ext" "st_size_bytes rec = sz" "resident_ok oid rec"
    using ad sz by (auto simp: adopt_inbound_def Let_def new_object_def resident_ok_def)
  have "held s' = add_mset ext (held s)" using vals_new [OF None, of st_extent rec] rec by (simp add: s' held_def)
  then have "store_inv s' out" using inv rec(3) unfolding store_inv_def by (auto simp: s' split: if_splits)
  moreover have "view s rec = view_extent s ext sz" using rec by (simp add: view_def)
  ultimately show ?thesis using None by (simp add: s')
next
  case (Some old)
  then have lease: "st_lease_refs old = 0" and s': "s' = set_object oid rec (release_raw s (st_extent old))"
    and rec: "st_extent rec = ext" "st_size_bytes rec = sz" "resident_ok oid rec"
    using ad sz resident [OF inv Some] by (auto simp: adopt_inbound_def Let_def new_object_def resident_ok_def split: if_splits)
  let ?s = "drop_object oid (st_extent old) s"
  have "store_inv ?s (add_mset ext out)" by (rule drop_object_inv(1) [OF inv Some])
  moreover have "held s' = add_mset ext (held ?s)"
  proof -
    have "vals st_extent (dset oid rec (so_objects s)) = add_mset ext (vals st_extent (ddel oid (so_objects s)))"
      using vals_del [of "dset oid rec (so_objects s)" oid rec st_extent] inv rec by (simp add: store_inv_def delete_update_same)
    then show ?thesis by (simp add: s' held_def release_raw_def)
  qed
  moreover have "distinct (dkeys (dset oid rec (so_objects s)))" using inv by (simp add: store_inv_def)
  ultimately have "store_inv s' out" using rec(3) unfolding store_inv_def by (auto simp: s' release_raw_def split: if_splits)
  moreover have "view s rec = view_extent s ext sz" using rec by (simp add: view_def)
  then have "contents s' = (contents s)(oid \<mapsto> view_extent s ext sz)" by (simp add: s' release_raw_def contents_def fun_eq_iff)
  ultimately show ?thesis using lease Some by simp
qed

lemma duplicate_ok:
  assumes inv: "store_inv s out"
  shows "outcome is_service_error (\<lambda>(rec, s'). store_inv s' out \<and>
    (\<exists>d. contents s src = Some d \<and> contents s dst = None \<and> contents s' = (contents s)(dst \<mapsto> d))) (duplicate s src dst now)"
proof (cases "dget (so_objects s) src")
  case None
  then show ?thesis by (simp add: duplicate_def require_def)
next
  case (Some old)
  have sz: "0 \<le> st_size_bytes old" and len: "int (length (view s old)) = st_size_bytes old"
    using resident [OF inv Some] view_length [OF inv Some] by (simp_all add: resident_ok_def)
  show ?thesis
  proof (cases "dget (so_objects s) dst")
    case None
    show ?thesis
    proof (cases "carve_object s dst (st_size_bytes old) (st_meta old)")
      case (Inl e)
      then show ?thesis using carve_error [OF Inl] Some None by (simp add: duplicate_def require_def)
    next
      case (Inr rs)
      obtain rec s1 where rs: "rs = (rec, s1)" by (cases rs)
      note c = carve_object_ok [OF inv None sz Inr [unfolded rs]]
      have "stored s dst None (st_size_bytes old) (rec, s1)" using c None by (simp add: stored_def contents_def)
      from stored_write [OF c(1) this len]
      obtain s2 where w: "write_view s1 rec (view s old) = Inr s2 \<or> (\<exists>e. write_view s1 rec (view s old) = Inl e \<and> is_service_error e)"
        and ok: "write_view s1 rec (view s old) = Inr s2 \<Longrightarrow> store_inv s2 out \<and> stored s dst (Some (view s old)) (st_size_bytes old) (rec, s2)"
        by (cases "write_view s1 rec (view s old)") auto
      let ?rec = "rec\<lparr>st_last_write := Some \<lparr>ws_by = ''duplicate:'' @ src, ws_t = now\<rparr>\<rparr>"
      have "store_inv (set_object dst ?rec s2) out \<and> contents (set_object dst ?rec s2) = (contents s)(dst \<mapsto> view s old)"
        if "write_view s1 rec (view s old) = Inr s2"
      proof -
        note i = ok [OF that]
        have get: "dget (so_objects s2) dst = Some rec" using i by (simp add: stored_def)
        have "resident_ok dst ?rec" using i resident [OF _ get] by (auto simp: resident_ok_def)
        from update_record [OF _ get this, of out] i show ?thesis by (simp add: stored_def)
      qed
      then show ?thesis using w Some None Inr contents_get [OF Some] c(9)
        by (auto simp: duplicate_def require_def rs contents_def Let_def)
    qed
  qed (use Some in \<open>simp add: duplicate_def require_def\<close>)
qed

lemma alloc_transient_ok:
  assumes inv: "store_inv s out" and n: "0 < n" and al: "alloc_transient s owner n = Inr (r, s')"
  shows "store_inv s' out \<and> contents s' = contents s"
proof -
  obtain ext a where a: "alloc_extent (so_alloc s) n = Inr (ext, a)"
    and s': "s' = s\<lparr>so_alloc := a, so_transients := dset (transient_token (length (so_transients s)) owner (fst ext)) (owner, ext) (so_transients s)\<rparr>"
    using al by (auto simp: alloc_transient_def bindE_eq_Inr Let_def)
  let ?tok = "transient_token (length (so_transients s)) owner (fst ext)"
  have raw: "store_inv (s\<lparr>so_alloc := a\<rparr>) (add_mset ext out)" using alloc_raw_ok [OF inv _ a] n by simp
  have "free_ok (so_alloc s)" using inv by (simp add: store_inv_def store_slab.holds_def)
  then have pos: "0 < snd ext" using alloc_extent_spec [OF a] n by fastforce
  have start: "0 \<le> fst e" if "e \<in># add_mset ext (held s + out)" "0 < snd e" for e
    using extent_inside [OF raw, of e "snd e"] that by auto
  have fresh: "dget (so_transients s) ?tok = None"
  proof (rule ccontr)
    assume "dget (so_transients s) ?tok \<noteq> None"
    then obtain oe where get: "dget (so_transients s) ?tok = Some oe" by blast
    then have ok: "transient_ok ?tok oe" using inv unfolding store_inv_def by blast
    then obtain m where "?tok = transient_token m (fst oe) (fst (snd oe))" and oe: "0 < snd (snd oe)" by (auto simp: transient_ok_def)
    then have same: "fst ext = fst (snd oe)"
      using start [of ext] start [of "snd oe"] pos held_transient [OF get] by (intro token_offset) auto
    obtain H where "held s = add_mset (snd oe) H" using held_transient [OF get] by (meson mset_add)
    then have "store_slab.holds a (add_mset ext (add_mset (snd oe) (H + out)))" using raw by (simp add: store_inv_def)
    from store_slab.holds_disjoint [OF this] have "fst ext \<notin> {fst (snd oe)..<fst (snd oe) + snd (snd oe)}"
      using pos by auto
    then show False using same oe by simp
  qed
  have "held s' = add_mset ext (held s)" using vals_new [OF fresh, of snd "(owner, ext)"] by (simp add: s' held_def)
  moreover have "transient_ok ?tok (owner, ext)" using pos by (auto simp: transient_ok_def)
  moreover have "distinct (dkeys (so_transients s'))" using inv by (simp add: s' store_inv_def)
  ultimately have "store_inv s' out" using raw unfolding store_inv_def by (auto simp: s' split: if_splits)
  then show ?thesis by (simp add: s' contents_def fun_eq_iff)
qed

lemma free_transient_ok:
  assumes inv: "store_inv s out" and fr: "free_transient s tok = Inr s'"
  shows "store_inv s' out \<and> contents s' = contents s"
proof -
  obtain oe where get: "dget (so_transients s) tok = Some oe"
    and s': "s' = s\<lparr>so_transients := ddel tok (so_transients s), so_alloc := release_extent (so_alloc s) (snd oe)\<rparr>"
    using fr by (auto simp: free_transient_def split: option.splits)
  have "distinct (dkeys (so_transients s))" using inv unfolding store_inv_def by blast
  from vals_del [OF this get, of snd] have "held s = add_mset (snd oe) (held s')" by (simp add: held_def s')
  then have "store_slab.holds (so_alloc s') (held s' + out)"
    using inv store_slab.holds_release by (simp add: store_inv_def s')
  moreover have "distinct (dkeys (so_transients s'))" using inv by (simp add: s' store_inv_def)
  ultimately have "store_inv s' out"
    using inv unfolding store_inv_def by (auto simp: s' release_extent_def split: if_splits)
  then show ?thesis by (simp add: s' contents_def fun_eq_iff)
qed

end
