(* ===== verification/Store_Clients.thy ===== *)
theory Store_Clients
  imports Store_Safety
begin

text \<open>
  The clients that write into catalogued objects in place: a run (\<open>run\<close> of \<open>src/dataflow/service/handlers_runs.py\<close>,
  its lease pre-pass and its binding of residents) and a restore (\<open>restore_snapshot\<close> and \<open>restore_job\<close> of
  \<open>handlers_snapshot.py\<close>, from the resolved placements on). What the tasks of a run write is an argument; so is what
  reading the payload file delivers. Events, counters and the hash check, which precedes every write, are left out.
\<close>

section \<open>Runs\<close>

definition rebound :: "(string, string) dict \<Rightarrow> object_spec \<Rightarrow> string" where
  "rebound rebind spec = dget_or rebind (os_id spec) (os_id spec)"

definition lease_prepass :: "store \<Rightarrow> (string, string) dict \<Rightarrow> object_spec list \<Rightarrow> unit res" where
  "lease_prepass s rebind specs =
     foldE (\<lambda>spec _. case dget (so_objects s) (rebound rebind spec) of
         None \<Rightarrow> Inr ()
       | Some robj \<Rightarrow> guardE (st_lease_refs robj = 0) (ServiceError ''LEASED'')) specs ()"

text \<open>Binding advances the version of each resident; a refusal leaves the earlier ones advanced.\<close>

fun bind_residents :: "(string, string) dict \<Rightarrow> object_spec list \<Rightarrow> store \<Rightarrow> unit res \<times> store" where
  "bind_residents rebind [] s = (Inr (), s)"
| "bind_residents rebind (spec # specs) s =
     (let target = rebound rebind spec
      in case dget (so_objects s) target of
           None \<Rightarrow> (Inl (ServiceError ''MISSING_INPUTS''), s)
         | Some robj \<Rightarrow>
             if st_size_bytes robj \<noteq> os_size_bytes spec then (Inl (ServiceError ''BINDING_MISMATCH''), s)
             else bind_residents rebind specs (set_object target (robj\<lparr>st_version := st_version robj + 1\<rparr>) s))"

text \<open>A task writes into the buffer of a bound resident, which covers the bytes of the object.\<close>

definition write_bound :: "string \<times> int \<times> byte list \<Rightarrow> store \<Rightarrow> store" where
  "write_bound w s = (case w of (target, lo, d) \<Rightarrow>
     (case dget (so_objects s) target of
       None \<Rightarrow> s
     | Some robj \<Rightarrow>
         if 0 \<le> lo \<and> lo + int (length d) \<le> st_size_bytes robj
         then (case fill_extent s (fst (st_extent robj) + lo, snd (st_extent robj)) (int (length d)) d of Inl _ \<Rightarrow> s | Inr s \<Rightarrow> s)
         else s))"

definition run_residents ::
  "store \<Rightarrow> (string, string) dict \<Rightarrow> object_spec list \<Rightarrow> (string \<times> int \<times> byte list) list \<Rightarrow> unit res \<times> store" where
  "run_residents s rebind specs writes =
     (case lease_prepass s rebind specs of
        Inl e \<Rightarrow> (Inl e, s)
      | Inr _ \<Rightarrow>
          (case bind_residents rebind specs s of
             (Inl e, s) \<Rightarrow> (Inl e, s)
           | (Inr _, s) \<Rightarrow> (Inr (), fold write_bound (filter (\<lambda>w. fst w \<in> rebound rebind ` set specs) writes) s)))"

section \<open>Restores\<close>

text \<open>\<open>required\<close> maps each target to its size and creation metadata.\<close>

type_synonym required = "(string, int \<times> (string, json) dict option) dict"

definition check_target :: "store \<Rightarrow> bool \<Rightarrow> string \<times> int \<times> (string, json) dict option \<Rightarrow> unit \<Rightarrow> unit res" where
  "check_target s overwrite w u = (case w of (target, sz, _) \<Rightarrow>
     (case dget (so_objects s) target of
       None \<Rightarrow> Inr ()
     | Some rec \<Rightarrow>
         bindE (guardE (st_lease_refs rec = 0) (ServiceError ''LEASED'')) (\<lambda>_.
         bindE (guardE (st_size_bytes rec = sz) (ServiceError ''BINDING_MISMATCH'')) (\<lambda>_.
         guardE overwrite (ServiceError ''COLLISION'')))))"

text \<open>Absent targets are created one after the other; a refusal leaves those created before it.\<close>

fun create_targets :: "required \<Rightarrow> time \<Rightarrow> string list \<Rightarrow> store \<Rightarrow> string list res \<times> store" where
  "create_targets [] now created s = (Inr created, s)"
| "create_targets ((target, sz, meta) # required) now created s =
     (case dget (so_objects s) target of
        Some _ \<Rightarrow> create_targets required now created s
      | None \<Rightarrow>
          (case put s target None (Some sz) meta ''restore'' now of
             Inl e \<Rightarrow> (Inl e, s)
           | Inr (_, s) \<Rightarrow> create_targets required now (created @ [target]) s))"

definition admit_restore :: "store \<Rightarrow> required \<Rightarrow> bool \<Rightarrow> time \<Rightarrow> string list res \<times> store" where
  "admit_restore s required overwrite now =
     (case foldE (check_target s overwrite) required () of
        Inl e \<Rightarrow> (Inl e, s)
      | Inr _ \<Rightarrow>
          (case create_targets required now [] s of
             (Inl e, s) \<Rightarrow> (Inl e, s)
           | (Inr created, s) \<Rightarrow>
               (case acquire_leases s (sort (dkeys required)) of
                  Inl e \<Rightarrow> (Inl e, rollback_created s created)
                | Inr s \<Rightarrow> (Inr created, s))))"

text \<open>One placement: \<open>readinto\<close> fills the range until it is full or the payload ends.\<close>

definition place_bytes :: "store \<Rightarrow> string \<Rightarrow> nat \<Rightarrow> nat \<Rightarrow> byte list \<Rightarrow> unit res \<times> store" where
  "place_bytes s target lo hi content =
     (case dget (so_objects s) target of
        None \<Rightarrow> (Inl (KeyError target), s)
      | Some rec \<Rightarrow>
          (let n = min (length content) (min hi (length (view s rec)) - lo)
           in case fill_extent s (fst (st_extent rec) + int lo, snd (st_extent rec)) (int n) (take n content) of
                Inl e \<Rightarrow> (Inl e, s)
              | Inr s \<Rightarrow> (if n < hi - lo then Inl (ServiceError ''IO_ERROR'') else Inr (), s)))"

text \<open>The end of a restore: protection of identity slices and the write stamps, then the leases; and its failure.\<close>

definition update_object :: "(store_object \<Rightarrow> store_object) \<Rightarrow> string \<Rightarrow> store \<Rightarrow> store" where
  "update_object f oid s = (case dget (so_objects s) oid of None \<Rightarrow> s | Some rec \<Rightarrow> set_object oid (f rec) s)"

definition restore_done :: "store \<Rightarrow> (string \<times> bool) list \<Rightarrow> string list \<Rightarrow> string \<Rightarrow> time \<Rightarrow> store" where
  "restore_done s protections targets snap_id now =
     release_leases
       (fold (update_object (\<lambda>rec. rec\<lparr>st_last_write := Some \<lparr>ws_by = ''restore:'' @ snap_id, ws_t = now\<rparr>\<rparr>)) targets
         (fold (\<lambda>(oid, p). update_object (\<lambda>rec. rec\<lparr>st_protected := p\<rparr>) oid) protections s)) targets"

definition restore_failed :: "store \<Rightarrow> string list \<Rightarrow> string list \<Rightarrow> store" where
  "restore_failed s created targets = release_leases (rollback_created s created) targets"

section \<open>Effects\<close>

lemma update_object_ok:
  assumes inv: "store_inv s out"
    and f: "\<And>rec. st_extent (f rec) = st_extent rec" "\<And>rec. st_size_bytes (f rec) = st_size_bytes rec"
      "\<And>rec. resident_ok oid rec \<Longrightarrow> resident_ok oid (f rec)"
  shows "store_inv (update_object f oid s) out \<and> contents (update_object f oid s) = contents s"
proof (cases "dget (so_objects s) oid")
  case None
  then show ?thesis using inv by (simp add: update_object_def)
next
  case (Some rec)
  from update_record [OF inv Some f(3) [OF resident [OF inv Some]] f(1,2)] Some show ?thesis by (simp add: update_object_def)
qed

lemma fold_keeps:
  assumes "store_inv s out" and "\<And>x s. store_inv s out \<Longrightarrow> store_inv (f x s) out \<and> contents (f x s) = contents s"
  shows "store_inv (fold f xs s) out \<and> contents (fold f xs s) = contents s"
  using assms(1)
proof (induction xs arbitrary: s)
  case (Cons x xs)
  have "store_inv (f x s) out" "contents (f x s) = contents s" using assms(2) Cons.prems by blast+
  then show ?case using Cons.IH [of "f x s"] by simp
qed simp

lemma restore_done_ok:
  assumes "store_inv s out"
  shows "store_inv (restore_done s protections targets snap now) out \<and> contents (restore_done s protections targets snap now) = contents s"
proof -
  let ?s1 = "fold (\<lambda>(oid, p). update_object (\<lambda>rec. rec\<lparr>st_protected := p\<rparr>) oid) protections s"
  let ?s2 = "fold (update_object (\<lambda>rec. rec\<lparr>st_last_write := Some \<lparr>ws_by = ''restore:'' @ snap, ws_t = now\<rparr>\<rparr>)) targets ?s1"
  have 1: "store_inv ?s1 out \<and> contents ?s1 = contents s"
    by (rule fold_keeps [OF assms]) (auto simp: resident_ok_def split: prod.splits intro!: update_object_ok [THEN conjunct1] update_object_ok [THEN conjunct2])
  then have 2: "store_inv ?s2 out \<and> contents ?s2 = contents ?s1"
    by (intro fold_keeps) (auto simp: resident_ok_def intro!: update_object_ok [THEN conjunct1] update_object_ok [THEN conjunct2])
  from 1 2 release_leases_ok [of ?s2 out targets] show ?thesis by (simp add: restore_done_def)
qed

text \<open>Binding and in-place writes of a run.\<close>

definition overlay_map :: "string \<times> int \<times> byte list \<Rightarrow> catalog \<Rightarrow> catalog" where
  "overlay_map w m = (case w of (target, lo, d) \<Rightarrow>
     (case m target of
        None \<Rightarrow> m
      | Some old \<Rightarrow> if 0 \<le> lo \<and> lo + int (length d) \<le> int (length old) then m(target \<mapsto> overlay lo d old) else m))"

lemma bind_residents_ok:
  "store_inv s out \<Longrightarrow> bind_residents rebind specs s = (r, s') \<Longrightarrow> store_inv s' out \<and> contents s' = contents s"
proof (induction rebind specs s rule: bind_residents.induct)
  case (2 rebind spec specs s)
  let ?t = "rebound rebind spec"
  show ?case
  proof (cases "dget (so_objects s) ?t")
    case (Some robj)
    have "resident_ok ?t (robj\<lparr>st_version := st_version robj + 1\<rparr>)" using resident [OF "2.prems"(1) Some] by (simp add: resident_ok_def)
    from update_record [OF "2.prems"(1) Some this] "2.IH" [OF refl Some] "2.prems" Some show ?thesis by (auto split: if_splits)
  qed (use 2 in auto)
qed auto

lemma write_bound_ok:
  assumes inv: "store_inv s out"
  shows "store_inv (write_bound w s) out \<and> contents (write_bound w s) = overlay_map w (contents s)"
proof -
  obtain target lo d where w: "w = (target, lo, d)" by (cases w)
  show ?thesis
  proof (cases "dget (so_objects s) target")
    case None
    then show ?thesis using inv by (simp add: w write_bound_def overlay_map_def contents_def)
  next
    case (Some robj)
    have len: "int (length (view s robj)) = st_size_bytes robj" by (rule view_length [OF inv Some])
    show ?thesis
    proof (cases "0 \<le> lo \<and> lo + int (length d) \<le> st_size_bytes robj")
      case True
      then obtain bs where "fill_extent s (fst (st_extent robj) + lo, snd (st_extent robj)) (int (length d)) d = Inr (s\<lparr>so_bytes := bs\<rparr>)"
        "store_inv (s\<lparr>so_bytes := bs\<rparr>) out" "contents (s\<lparr>so_bytes := bs\<rparr>) = (contents s)(target \<mapsto> overlay lo d (view s robj))"
        using overlay_view_ok [OF inv Some] by metis
      with True Some len contents_get [OF Some] show ?thesis by (simp add: w write_bound_def overlay_map_def)
    next
      case False
      with Some inv len contents_get [OF Some] show ?thesis by (auto simp: w write_bound_def overlay_map_def)
    qed
  qed
qed

lemma write_all_ok:
  "store_inv s out \<Longrightarrow> store_inv (fold write_bound ws s) out \<and> contents (fold write_bound ws s) = fold overlay_map ws (contents s)"
proof (induction ws arbitrary: s)
  case (Cons w ws)
  have "store_inv (write_bound w s) out" "contents (write_bound w s) = overlay_map w (contents s)"
    using write_bound_ok [OF Cons.prems] by blast+
  then show ?case using Cons.IH [of "write_bound w s"] by simp
qed simp

lemma overlay_map_other: "fst w \<noteq> oid \<Longrightarrow> overlay_map w m oid = m oid"
  by (auto simp: overlay_map_def split: prod.splits option.splits)

lemma fold_overlay_other: "\<forall>w \<in> set ws. fst w \<noteq> oid \<Longrightarrow> fold overlay_map ws m oid = m oid"
  by (induction ws arbitrary: m) (auto simp: overlay_map_other)

lemma prepass_unleased:
  assumes "lease_prepass s rebind specs = Inr u" and "spec \<in> set specs" and "dget (so_objects s) (rebound rebind spec) = Some robj"
  shows "st_lease_refs robj = 0"
  using assms(1,2) unfolding lease_prepass_def
proof (induction specs arbitrary: u)
  case (Cons x specs)
  then show ?case using assms(3) by (auto simp: bindE_eq_Inr split: option.splits if_splits)
qed simp

lemma run_residents_ok:
  assumes inv: "store_inv s out" and run: "run_residents s rebind specs writes = (r, s')"
  defines "ws \<equiv> filter (\<lambda>w. fst w \<in> rebound rebind ` set specs) writes"
  shows "store_inv s' out \<and> contents s' = (case r of Inl _ \<Rightarrow> contents s | Inr _ \<Rightarrow> fold overlay_map ws (contents s)) \<and>
    (\<forall>oid rec. dget (so_objects s) oid = Some rec \<longrightarrow> 0 < st_lease_refs rec \<longrightarrow> contents s' oid = contents s oid)"
proof (cases "lease_prepass s rebind specs")
  case (Inl e)
  then have "r = Inl e" "s' = s" using run by (simp_all add: run_residents_def)
  then show ?thesis using inv by simp
next
  case (Inr u)
  obtain r1 s1 where b: "bind_residents rebind specs s = (r1, s1)" by (cases "bind_residents rebind specs s")
  note ok = bind_residents_ok [OF inv b]
  show ?thesis
  proof (cases r1)
    case Inl
    then show ?thesis using run Inr b ok by (auto simp: run_residents_def)
  next
    case (Inr u1)
    then have "r = Inr ()" "s' = fold write_bound ws s1" using run \<open>lease_prepass s rebind specs = Inr u\<close> b by (auto simp: run_residents_def ws_def)
    moreover have "fold overlay_map ws (contents s) oid = contents s oid"
      if "dget (so_objects s) oid = Some rec" "0 < st_lease_refs rec" for oid rec
      using that prepass_unleased [OF \<open>lease_prepass s rebind specs = Inr u\<close>] by (intro fold_overlay_other) (fastforce simp: ws_def)
    ultimately show ?thesis using write_all_ok [of s1 out ws] ok by auto
  qed
qed

text \<open>Admission of a restore: objects are added, none changed.\<close>

definition admitted :: "required \<Rightarrow> catalog \<Rightarrow> catalog \<Rightarrow> bool" where
  "admitted required m m' \<longleftrightarrow> m \<subseteq>\<^sub>m m' \<and>
     (\<forall>oid d. m' oid = Some d \<longrightarrow> m oid = Some d \<or> (\<exists>meta. (oid, int (length d), meta) \<in> set required))"

lemma admitted_refl: "admitted required m m"
  by (simp add: admitted_def)

lemma admitted_trans: "admitted R m m1 \<Longrightarrow> admitted R m1 m2 \<Longrightarrow> admitted R m m2"
  unfolding admitted_def by (blast intro: map_le_trans)

lemma admitted_more: "admitted R m m' \<Longrightarrow> set R \<subseteq> set R' \<Longrightarrow> admitted R' m m'"
  unfolding admitted_def by blast

lemma create_targets_ok:
  assumes "store_inv s out" and "\<forall>(target, sz, meta) \<in> set required. 0 \<le> sz" and "create_targets required now created s = (r, s')"
  shows "store_inv s' out \<and> admitted required (contents s) (contents s') \<and>
    (\<forall>ids. r = Inr ids \<longrightarrow> set ids \<subseteq> set created \<union> - dom (contents s))"
  using assms
proof (induction required now created s rule: create_targets.induct)
  case (1 now created s)
  then show ?case using admitted_refl by auto
next
  case (2 target sz meta required now created s)
  have sz: "0 \<le> sz" and rest: "\<forall>(target, sz, meta) \<in> set required. 0 \<le> sz" using "2.prems"(2) by auto
  have sub: "set required \<subseteq> set ((target, sz, meta) # required)" by auto
  show ?case
  proof (cases "dget (so_objects s) target")
    case (Some rec)
    with 2 rest show ?thesis using admitted_more [OF _ sub] by auto
  next
    case None
    show ?thesis
    proof (cases "put s target None (Some sz) meta ''restore'' now")
      case (Inl e)
      with 2 None show ?thesis using admitted_refl by auto
    next
      case (Inr rs)
      obtain rec s1 where rs: "rs = (rec, s1)" by (cases rs)
      have "store_inv s1 out \<and> stored s target None sz (rec, s1)"
        using outcome_Inr [OF put_ok [OF "2.prems"(1), where data = None and n = sz] Inr] sz by (simp add: rs)
      then have i: "store_inv s1 out" and c: "contents s1 = (contents s)(target \<mapsto> view s1 rec)" and len: "int (length (view s1 rec)) = sz"
        using view_length [of s1 out target rec] by (auto simp: stored_def)
      have gone: "contents s target = None" using None by (simp add: contents_def)
      then have a: "admitted ((target, sz, meta) # required) (contents s) (contents s1)"
        using len by (auto simp: admitted_def c map_le_def)
      from "2.IH"(1) [OF None Inr rs [symmetric] i rest] "2.prems"(3) None Inr rs
      have "store_inv s' out \<and> admitted required (contents s1) (contents s') \<and>
          (\<forall>ids. r = Inr ids \<longrightarrow> set ids \<subseteq> set (created @ [target]) \<union> - dom (contents s1))" by simp
      moreover have "set (created @ [target]) \<union> - dom (contents s1) \<subseteq> set created \<union> - dom (contents s)" using gone by (auto simp: c)
      ultimately show ?thesis using admitted_trans [OF a admitted_more [OF _ sub]] by blast
    qed
  qed
qed

lemma admit_restore_ok:
  assumes inv: "store_inv s out" and sz: "\<forall>(target, sz, meta) \<in> set required. 0 \<le> sz" and ad: "admit_restore s required overwrite now = (r, s')"
  shows "store_inv s' out \<and> admitted required (contents s) (contents s')"
proof (cases "foldE (check_target s overwrite) required ()")
  case (Inl e)
  then show ?thesis using ad inv admitted_refl by (auto simp: admit_restore_def)
next
  case (Inr u)
  obtain r1 s1 where c: "create_targets required now [] s = (r1, s1)" by (cases "create_targets required now [] s")
  note ok = create_targets_ok [OF inv sz c]
  show ?thesis
  proof (cases r1)
    case Inl
    then show ?thesis using ad \<open>foldE (check_target s overwrite) required () = Inr u\<close> c ok by (auto simp: admit_restore_def)
  next
    case (Inr created)
    note run = ad [unfolded admit_restore_def \<open>foldE (check_target s overwrite) required () = Inr u\<close> c Inr sum.case prod.case]
    show ?thesis
    proof (cases "acquire_leases s1 (sort (dkeys required))")
      case (Inl e)
      then have s': "s' = rollback_created s1 created" using run by simp
      have new: "set created \<subseteq> - dom (contents s)" using ok Inr by auto
      have "admitted required (contents s) (contents s1 |` (- set created))"
        using ok new unfolding admitted_def by (auto simp: map_le_def restrict_map_def domIff)
      then show ?thesis using rollback_ok [of s1 out created] ok by (simp add: s')
    next
      case (Inr s2)
      then show ?thesis using run outcome_Inr [OF acquire_leases_ok Inr] ok by auto
    qed
  qed
qed

text \<open>A placement.\<close>

lemma fill_empty: "fill_extent s e 0 [] = Inr s"
  by (simp add: fill_extent_def write_slice_def Let_def)

definition placed_map :: "string \<Rightarrow> nat \<Rightarrow> nat \<Rightarrow> byte list \<Rightarrow> catalog \<Rightarrow> catalog" where
  "placed_map target lo hi content m =
     (case m target of
        None \<Rightarrow> m
      | Some old \<Rightarrow> m(target \<mapsto> overlay (int lo) (take (min hi (length old) - lo) content) old))"

lemma place_bytes_ok:
  assumes inv: "store_inv s out" and pl: "place_bytes s target lo hi content = (r, s')"
  shows "store_inv s' out \<and> contents s' = placed_map target lo hi content (contents s)"
proof (cases "dget (so_objects s) target")
  case None
  then show ?thesis using inv pl by (simp add: place_bytes_def placed_map_def contents_def)
next
  case (Some rec)
  have len: "int (length (view s rec)) = st_size_bytes rec" by (rule view_length [OF inv Some])
  let ?k = "min hi (length (view s rec)) - lo"
  let ?n = "min (length content) ?k"
  have d: "take ?n content = take ?k content" by (simp add: min_def)
  have step: "s' = projr (fill_extent s (fst (st_extent rec) + int lo, snd (st_extent rec)) (int ?n) (take ?n content))"
    if "\<not> isl (fill_extent s (fst (st_extent rec) + int lo, snd (st_extent rec)) (int ?n) (take ?n content))"
    using pl Some that by (auto simp: place_bytes_def Let_def split: sum.splits)
  show ?thesis
  proof (cases "?k = 0")
    case True
    then have "overlay (int lo) (take ?k content) (view s rec) = view s rec" by (simp add: overlay_def)
    moreover have "s' = s" using step True fill_empty by simp
    ultimately show ?thesis using inv contents_get [OF Some] by (simp add: placed_map_def fun_upd_idem)
  next
    case False
    have fits: "int lo + int (length (take ?n content)) \<le> st_size_bytes rec" using len False by auto
    have n: "int ?n = int (length (take ?n content))" by simp
    obtain bs where bs: "fill_extent s (fst (st_extent rec) + int lo, snd (st_extent rec)) (int ?n) (take ?n content) = Inr (s\<lparr>so_bytes := bs\<rparr>)"
      "store_inv (s\<lparr>so_bytes := bs\<rparr>) out" "contents (s\<lparr>so_bytes := bs\<rparr>) = (contents s)(target \<mapsto> overlay (int lo) (take ?n content) (view s rec))"
      unfolding n by (rule overlay_view_ok [OF inv Some _ fits, of "snd (st_extent rec)"]) auto
    have "s' = s\<lparr>so_bytes := bs\<rparr>" using step bs(1) by simp
    then show ?thesis using bs(2,3) contents_get [OF Some] d by (simp add: placed_map_def)
  qed
qed

end
