(* ===== verification/Store_Results.thy ===== *)
theory Store_Results
  imports Store_Clients
begin

text \<open>
  The object store as a state machine: its calls and those of its clients, the discipline the clients keep, the
  abstract store it refines, and the results. Two boundary behaviours of the allocator and the admission of a
  restore that fails half way are stated last.
\<close>

section \<open>Calls of a store\<close>

text \<open>A call that changed the store, with its arguments and answers.\<close>

datatype store_event =
    EvStore string "byte list"
  | EvZeros string int
  | EvFile string nat "byte list"
  | EvCreate string int
  | EvCopy string string
  | EvDrop "string set"
  | EvRun "(string \<times> int \<times> byte list) list"
  | EvAdmit required
  | EvPlace string nat nat "byte list"
  | EvRollback "string list"
  | EvGrant int extent
  | EvGiveBack extent
  | EvFillRaw extent "byte list"
  | EvAdopt string extent int "byte list"
  | EvTransient int
  | EvFillTransient extent "byte list"
  | EvQuiet

text \<open>What a call does to the abstract store, a map from ids to byte strings.\<close>

fun spec_step :: "store_event \<Rightarrow> catalog \<Rightarrow> catalog \<Rightarrow> bool" where
  "spec_step (EvStore oid d) m m' \<longleftrightarrow> m' = m(oid \<mapsto> d)"
| "spec_step (EvZeros oid n) m m' \<longleftrightarrow> m' = m(oid \<mapsto> replicate (nat n) 0)"
| "spec_step (EvFile oid n content) m m' \<longleftrightarrow>
     (\<exists>old. length old = n \<and> m' = m(oid \<mapsto> overlay 0 (take n content) old) \<and> (\<forall>d. m oid = Some d \<longrightarrow> d = old))"
| "spec_step (EvCreate oid n) m m' \<longleftrightarrow>
     (\<exists>d. int (length d) = n \<and> m' = m(oid \<mapsto> d) \<and> (case m oid of None \<Rightarrow> True | Some old \<Rightarrow> d = old))"
| "spec_step (EvCopy src dst) m m' \<longleftrightarrow> (\<exists>d. m src = Some d \<and> m dst = None \<and> m' = m(dst \<mapsto> d))"
| "spec_step (EvDrop ids) m m' \<longleftrightarrow> m' = m |` (- ids)"
| "spec_step (EvRun writes) m m' \<longleftrightarrow> m' = fold overlay_map writes m"
| "spec_step (EvAdmit required) m m' \<longleftrightarrow> admitted required m m'"
| "spec_step (EvPlace target lo hi content) m m' \<longleftrightarrow> m' = placed_map target lo hi content m"
| "spec_step (EvRollback ids) m m' \<longleftrightarrow> m' = m |` (- set ids)"
| "spec_step (EvAdopt oid ext n d) m m' \<longleftrightarrow> m' = m(oid \<mapsto> d)"
| "spec_step _ m m' \<longleftrightarrow> m' = m"

text \<open>The calls, with no condition on the client. A run persists its final objects by \<open>put\<close> (\<open>execution.py\<close>).\<close>

inductive store_step :: "store_event \<Rightarrow> store \<Rightarrow> store \<Rightarrow> bool" where
  put: "put_object s oid None (Some d) meta session now = (Inr rec, s') \<Longrightarrow> store_step (EvStore oid d) s s'"
| tokens: "materialize s oid (FillTokens d) session now = (Inr rec, s') \<Longrightarrow> store_step (EvStore oid d) s s'"
| zeros: "materialize s oid (FillZeros n) session now = (Inr rec, s') \<Longrightarrow> store_step (EvZeros oid n) s s'"
| from_file: "put s oid None (Some (int n)) meta session now = Inr rs \<Longrightarrow>
    put_from_file s oid (Some (n, content)) meta session now = (r, s') \<Longrightarrow> store_step (EvFile oid n content) s s'"
| create: "create_object s oid n meta session now = Inr (rec, s') \<Longrightarrow> store_step (EvCreate oid n) s s'"
| duplicate: "duplicate s src dst now = Inr (rec, s') \<Longrightarrow> store_step (EvCopy src dst) s s'"
| released: "store_release s oid force = Inr (b, s') \<Longrightarrow> store_step (EvDrop {oid}) s s'"
| wiped: "wipe s scope force = (Inr r, s') \<Longrightarrow> store_step (EvDrop (if scope = ''fast'' then {} else droppable s force)) s s'"
| wipe_stopped: "wipe s scope force = (Inl e, s') \<Longrightarrow>
    store_step (EvDrop (dom (dget (so_objects s)) - dom (dget (so_objects s')))) s s'"
| protect: "protect s oid v = Inr s' \<Longrightarrow> store_step EvQuiet s s'"
| run: "run_residents s rebind specs writes = (Inr u, s') \<Longrightarrow>
    store_step (EvRun (filter (\<lambda>w. fst w \<in> rebound rebind ` set specs) writes)) s s'"
| run_refused: "run_residents s rebind specs writes = (Inl e, s') \<Longrightarrow> store_step EvQuiet s s'"
| lease: "acquire_leases s ids = Inr s' \<Longrightarrow> store_step EvQuiet s s'"
| unlease: "store_step EvQuiet s (release_leases s ids)"
| admit: "admit_restore s required overwrite now = (r, s') \<Longrightarrow> store_step (EvAdmit required) s s'"
| place: "place_bytes s target lo hi content = (r, s') \<Longrightarrow> store_step (EvPlace target lo hi content) s s'"
| restored: "store_step EvQuiet s (restore_done s protections targets snap now)"
| failed: "store_step (EvRollback created) s (restore_failed s created targets)"
| reserve: "reserve_inbound s oid n overwrite = Inr (ext, s') \<Longrightarrow> store_step (EvGrant n ext) s s'"
| scratch: "alloc_scratch s n = Inr (ext, s') \<Longrightarrow> store_step (EvGrant n ext) s s'"
| give_back: "store_step (EvGiveBack ext) s (release_raw s ext)"
| fill_raw: "fill_extent s ext (int (length d)) d = Inr s' \<Longrightarrow> store_step (EvFillRaw ext d) s s'"
| adopt: "adopt_inbound s oid ext n meta peer now = Inr (rec, s') \<Longrightarrow> store_step (EvAdopt oid ext n (view_extent s ext n)) s s'"
| transient: "alloc_transient s owner n = Inr (r, s') \<Longrightarrow> store_step (EvTransient n) s s'"
| fill_transient: "dget (so_transients s) tok = Some (owner, ext) \<Longrightarrow> fill_extent s ext (int (length d)) d = Inr s' \<Longrightarrow>
    store_step (EvFillTransient ext d) s s'"
| untransient: "free_transient s tok = Inr s' \<Longrightarrow> store_step EvQuiet s s'"

text \<open>The discipline of the clients, with the extents \<open>out\<close> that were granted and are outstanding: sizes are not
  negative, and those of transients positive; an extent is written, given back or adopted only while it is
  outstanding, and within its size. The service checks none of it: \<open>negative_create_corrupts\<close> breaks the first
  condition through a handler, and the peer protocol breaks the second when a transfer commits twice
  (\<open>done_resend_commits_twice\<close> of \<open>Peer_Link\<close>).\<close>

fun disciplined :: "store_event \<Rightarrow> extent multiset \<Rightarrow> bool" where
  "disciplined (EvZeros oid n) out \<longleftrightarrow> 0 \<le> n"
| "disciplined (EvCreate oid n) out \<longleftrightarrow> 0 \<le> n"
| "disciplined (EvAdmit required) out \<longleftrightarrow> (\<forall>(target, sz, meta) \<in> set required. 0 \<le> sz)"
| "disciplined (EvGrant n ext) out \<longleftrightarrow> 0 \<le> n"
| "disciplined (EvGiveBack ext) out \<longleftrightarrow> ext \<in># out"
| "disciplined (EvFillRaw ext d) out \<longleftrightarrow> ext \<in># out \<and> int (length d) \<le> snd ext"
| "disciplined (EvAdopt oid ext n d) out \<longleftrightarrow> ext \<in># out \<and> 0 \<le> n \<and> n \<le> snd ext"
| "disciplined (EvTransient n) out \<longleftrightarrow> 0 < n"
| "disciplined (EvFillTransient ext d) out \<longleftrightarrow> int (length d) \<le> snd ext"
| "disciplined _ out \<longleftrightarrow> True"

fun outstanding :: "store_event \<Rightarrow> extent multiset \<Rightarrow> extent multiset" where
  "outstanding (EvGrant n ext) out = add_mset ext out"
| "outstanding (EvGiveBack ext) out = out - {#ext#}"
| "outstanding (EvAdopt oid ext n d) out = out - {#ext#}"
| "outstanding _ out = out"

inductive disciplined_reach :: "int \<Rightarrow> store \<Rightarrow> extent multiset \<Rightarrow> bool" for cap where
  boot: "disciplined_reach cap (new_store cap) {#}"
| step: "disciplined_reach cap s out \<Longrightarrow> store_step ev s s' \<Longrightarrow> disciplined ev out \<Longrightarrow> disciplined_reach cap s' (outstanding ev out)"

section \<open>Every step keeps the invariant and refines the abstract store\<close>

text \<open>The calls of a restore in progress, which holds leases itself.\<close>

definition restores :: "store_event \<Rightarrow> string \<Rightarrow> bool" where
  "restores ev oid = (case ev of EvPlace target lo hi content \<Rightarrow> target = oid | EvRollback ids \<Rightarrow> oid \<in> set ids | _ \<Rightarrow> False)"

definition leased :: "store \<Rightarrow> string \<Rightarrow> bool" where
  "leased s oid = (case dget (so_objects s) oid of None \<Rightarrow> False | Some rec \<Rightarrow> 0 < st_lease_refs rec)"

definition step_ok :: "store_event \<Rightarrow> store \<Rightarrow> store \<Rightarrow> extent multiset \<Rightarrow> bool" where
  "step_ok ev s s' out' \<longleftrightarrow> store_inv s' out' \<and> spec_step ev (contents s) (contents s') \<and>
     (\<forall>oid. leased s oid \<longrightarrow> \<not> restores ev oid \<longrightarrow> contents s' oid = contents s oid)"

lemma leased_present: "leased s oid \<Longrightarrow> contents s oid \<noteq> None"
  by (auto simp: leased_def contents_def split: option.splits)

lemma quiet_step: "store_inv s' out \<and> contents s' = contents s \<Longrightarrow> spec_step ev (contents s) (contents s) \<Longrightarrow> step_ok ev s s' out"
  by (simp add: step_ok_def)

lemma write_step:
  "store_inv s' out \<Longrightarrow> spec_step ev (contents s) (contents s') \<Longrightarrow> contents s' = (contents s)(oid \<mapsto> d) \<Longrightarrow>
   \<forall>old. dget (so_objects s) oid = Some old \<longrightarrow> st_lease_refs old = 0 \<Longrightarrow> step_ok ev s s' out"
  by (auto simp: step_ok_def leased_def split: option.splits)

lemma stored_step:
  "store_inv s' out \<and> stored s oid (Some d) n (rec, s') \<Longrightarrow> spec_step ev (contents s) ((contents s)(oid \<mapsto> d)) \<Longrightarrow> step_ok ev s s' out"
  by (rule write_step [where oid = oid and d = d]) (auto simp: stored_def)

lemma created_step:
  assumes "store_inv s' out \<and> stored s oid None n (rec, s')"
  shows "step_ok (EvCreate oid n) s s' out"
proof -
  have "int (length (view s' rec)) = n" using assms view_length [of s' out oid rec] by (simp add: stored_def)
  moreover have "\<not> leased s oid" using assms by (auto simp: stored_def leased_def split: option.splits)
  ultimately show ?thesis using assms by (auto simp: step_ok_def stored_def split: option.splits)
qed

lemma dropped_step: "store_inv s' out \<Longrightarrow> dropped s force gone s' \<Longrightarrow> step_ok (EvDrop gone) s s' out"
proof -
  assume inv: "store_inv s' out" and d: "dropped s force gone s'"
  have c: "contents s' = contents s |` (- gone)" using d by (intro contents_gone) (auto simp: dropped_def)
  have "oid \<notin> gone" if "leased s oid" for oid
    using d that by (auto simp: dropped_def leased_def split: option.splits)
  with inv c show ?thesis by (simp add: step_ok_def)
qed

text \<open>New bytes under which the objects read as before.\<close>

lemma contents_kept:
  assumes inv: "store_inv s out" and sub: "vals st_extent (so_objects s) \<subseteq># H"
    and rest: "\<And>k n. k \<in># H \<Longrightarrow> 0 \<le> n \<Longrightarrow> n \<le> snd k \<Longrightarrow> view_extent (s\<lparr>so_bytes := bs\<rparr>) k n = view_extent s k n"
  shows "contents (s\<lparr>so_bytes := bs\<rparr>) = contents s"
proof -
  have "view (s\<lparr>so_bytes := bs\<rparr>) rec = view s rec" if get: "dget (so_objects s) oid = Some rec" for oid rec
  proof -
    have "st_extent rec \<in># H" using sub vals_member [OF get, of st_extent] mset_subset_eqD by metis
    then show ?thesis using rest resident [OF inv get] by (simp add: view_def resident_ok_def)
  qed
  then have "contents (s\<lparr>so_bytes := bs\<rparr>) k = contents s k" for k by (cases "dget (so_objects s) k") (auto simp: contents_def)
  then show ?thesis by blast
qed

lemma fill_quiet:
  assumes inv: "store_inv s out" and H: "held s + out = add_mset e H" and sub: "vals st_extent (so_objects s) \<subseteq># H"
    and len: "int (length d) \<le> snd e" and fl: "fill_extent s e (int (length d)) d = Inr s'"
  shows "store_inv s' out \<and> contents s' = contents s"
proof -
  obtain bs where bs: "s' = s\<lparr>so_bytes := bs\<rparr>" "length bs = length (so_bytes s)"
    and rest: "\<And>k n. k \<in># H \<Longrightarrow> 0 \<le> n \<Longrightarrow> n \<le> snd k \<Longrightarrow> view_extent (s\<lparr>so_bytes := bs\<rparr>) k n = view_extent s k n"
    using fill_extent_ok [OF inv H len] fl by (metis sum.inject(2))
  show ?thesis using contents_kept [OF inv sub rest] store_inv_bytes [OF inv bs(2)] by (simp add: bs(1))
qed

lemma release_step:
  assumes inv: "store_inv s out" and rel: "store_release s oid force = Inr (b, s')"
  shows "step_ok (EvDrop {oid}) s s' out"
proof (cases "dget (so_objects s) oid")
  case None
  then have "s' = s" "contents s oid = None" using rel by (auto simp: store_release_def contents_def)
  then show ?thesis using inv by (auto simp: step_ok_def restrict_map_def fun_eq_iff)
next
  case (Some rec)
  then have "s' = drop_object oid (st_extent rec) s" "force \<or> \<not> st_protected rec" "st_lease_refs rec = 0"
    using rel by (auto simp: store_release_def split: if_splits)
  then show ?thesis using drop_object_inv(1) [OF inv Some] dropped_one [OF Some _ _ dropped_none] by (blast intro: dropped_step)
qed

lemma wipe_step:
  assumes inv: "store_inv s out" and w: "wipe s scope force = (res, s')"
  shows "step_ok (EvDrop (case res of Inr _ \<Rightarrow> if scope = ''fast'' then {} else droppable s force
      | Inl _ \<Rightarrow> dom (dget (so_objects s)) - dom (dget (so_objects s')))) s s' out"
proof -
  obtain gone where i: "store_inv s' out" and d: "dropped s force gone s'"
    and all: "\<And>r. res = Inr r \<Longrightarrow> gone = (if scope = ''fast'' then {} else droppable s force)"
    using wipe_ok [OF inv w] by blast
  have "gone \<subseteq> dom (dget (so_objects s))" using d by (auto simp: dropped_def droppable_def)
  then have "gone = dom (dget (so_objects s)) - dom (dget (so_objects s'))"
    using d unfolding dropped_def dom_def by (auto split: if_splits)
  then show ?thesis using dropped_step [OF i d] all by (cases res) auto
qed

lemma file_step:
  assumes inv: "store_inv s out" and pt: "put s oid None (Some (int n)) meta session now = Inr rs"
    and pf: "put_from_file s oid (Some (n, content)) meta session now = (r, s')"
  shows "step_ok (EvFile oid n content) s s' out"
proof -
  obtain rec s1 where rs: "rs = (rec, s1)" by (cases rs)
  have st: "store_inv s1 out" "stored s oid None (int n) (rec, s1)"
    using outcome_Inr [OF put_ok [OF inv, where data = None and n = "int n" and sz = "int n"] pt] by (simp_all add: rs)
  have rd: "read_into s1 rec content = (r, s')" using pf pt by (simp add: put_from_file_def rs)
  note ok = read_into_ok [OF st rd]
  have "length (view s1 rec) = n" using view_length [OF st(1), of oid rec] st(2) by (simp add: stored_def)
  moreover have "d = view s1 rec" if "contents s oid = Some d" for d using st(2) that by (simp add: stored_def)
  ultimately show ?thesis using ok st(2)
    by (intro write_step [where oid = oid and d = "overlay 0 (take n content) (view s1 rec)"]) (auto simp: stored_def)
qed

lemma admitted_leased: "admitted R (contents s) (contents s') \<Longrightarrow> leased s oid \<Longrightarrow> contents s' oid = contents s oid"
  using leased_present [of s oid] unfolding admitted_def map_le_def by (metis domIff)

lemma placed_other: "target \<noteq> oid \<Longrightarrow> placed_map target lo hi content m oid = m oid"
  by (simp add: placed_map_def split: option.splits)

lemma store_step_ok:
  assumes "store_step ev s s'" and "disciplined ev out" and inv: "store_inv s out"
  shows "step_ok ev s s' (outstanding ev out)"
  using assms
proof (induction rule: store_step.induct)
  case (put s oid d meta session now rec s')
  then have "put s oid (Some d) None meta session now = Inr (rec, s')" by (auto simp: put_object_def with_store_def split: sum.splits)
  from outcome_Inr [OF put_data_ok [OF put.prems(2)] this] show ?case by (auto intro: stored_step)
next
  case (tokens s oid d session now rec s')
  then have "put s oid (Some d) None None session now = Inr (rec, s')" by (auto simp: materialize_def with_store_def split: sum.splits)
  from outcome_Inr [OF put_data_ok [OF tokens.prems(2)] this] show ?case by (auto intro: stored_step)
next
  case (zeros s oid n session now rec s')
  let ?f = "\<lambda>rec. replicate (nat (st_size_bytes rec)) 0"
  have "bindE (put s oid None (Some n) None session now) (\<lambda>(rec, s). bindE (write_view s rec (?f rec)) (\<lambda>s. Inr (rec, s))) = Inr (rec, s')"
    using zeros by (auto simp: materialize_def bindE_eq_Inr split: sum.splits prod.splits)
  moreover have "0 \<le> n" using zeros by simp
  ultimately have st: "store_inv s' out \<and> stored s oid (Some (?f rec)) n (rec, s')"
    using outcome_Inr [OF put_then_write [OF zeros.prems(2), where f = ?f and n = n]] by fastforce
  then have "st_size_bytes rec = n" by (simp add: stored_def)
  with st stored_step [OF st, of "EvZeros oid n"] show ?case by simp
next
  case (from_file s oid n meta session now rs content r s')
  then show ?case using file_step by simp
next
  case (create s oid n meta session now rec s')
  then show ?case using outcome_Inr [OF put_ok [OF create.prems(2), where data = None and n = n and sz = n]]
    by (fastforce simp: create_object_def intro: created_step)
next
  case (duplicate s src dst now rec s')
  then have "store_inv s' out \<and> (\<exists>d. contents s src = Some d \<and> contents s dst = None \<and> contents s' = (contents s)(dst \<mapsto> d))"
    using outcome_Inr [OF duplicate_ok] by fastforce
  then show ?case using leased_present [of s dst] by (auto simp: step_ok_def)
next
  case (released s oid force b s')
  then show ?case using release_step by simp
next
  case (wiped s scope force r s')
  then show ?case using wipe_step by fastforce
next
  case (wipe_stopped s scope force e s')
  then show ?case using wipe_step by fastforce
next
  case (protect s oid v s')
  then obtain rec where get: "dget (so_objects s) oid = Some rec" and s': "s' = set_object oid (rec\<lparr>st_protected := v\<rparr>) s"
    by (auto simp: protect_def require_def split: option.splits)
  have inv: "store_inv s out" using protect by simp
  have "resident_ok oid (rec\<lparr>st_protected := v\<rparr>)" using resident [OF inv get] by (simp add: resident_ok_def)
  from update_record [OF inv get this] show ?case by (auto simp: s' intro: quiet_step)
next
  case (run s rebind specs writes u s')
  from run_residents_ok [OF run.prems(2) run.hyps] show ?case by (auto simp: step_ok_def leased_def split: option.splits)
next
  case (run_refused s rebind specs writes e s')
  from run_residents_ok [OF run_refused.prems(2) run_refused.hyps] show ?case by (auto intro: quiet_step)
next
  case (lease s ids s')
  then show ?case using outcome_Inr [OF acquire_leases_ok] by (fastforce intro: quiet_step)
next
  case (unlease s ids)
  then show ?case using release_leases_ok by (auto intro: quiet_step)
next
  case (admit s required overwrite now r s')
  then have "store_inv s' out \<and> admitted required (contents s) (contents s')" by (intro admit_restore_ok) auto
  then show ?case using admitted_leased by (auto simp: step_ok_def)
next
  case (place s target lo hi content r s')
  from place_bytes_ok [OF place.prems(2) place.hyps] show ?case by (auto simp: step_ok_def restores_def placed_other)
next
  case (restored s protections targets snap now)
  then show ?case using restore_done_ok by (auto intro: quiet_step)
next
  case (failed created s targets)
  then have "store_inv (restore_failed s created targets) out" "contents (restore_failed s created targets) = contents s |` (- set created)"
    using rollback_ok [of s out created] release_leases_ok [of "rollback_created s created" out targets] by (auto simp: restore_failed_def)
  then show ?case by (auto simp: step_ok_def restores_def)
next
  case (reserve s oid n overwrite ext s')
  then obtain a where "alloc_extent (so_alloc s) n = Inr (ext, a)" "s' = s\<lparr>so_alloc := a\<rparr>"
    by (auto simp: reserve_inbound_def Let_def split: option.splits sum.splits if_splits)
  with alloc_raw_ok [of s out n ext a] reserve show ?case by (intro quiet_step) simp_all
next
  case (scratch s n ext s')
  then obtain a where "alloc_extent (so_alloc s) n = Inr (ext, a)" "s' = s\<lparr>so_alloc := a\<rparr>"
    by (auto simp: alloc_scratch_def bindE_eq_Inr)
  with alloc_raw_ok [of s out n ext a] scratch show ?case by (intro quiet_step) simp_all
next
  case (give_back ext s)
  then obtain K where "out = add_mset ext K" by (auto dest: multi_member_split)
  with give_back release_raw_ok [of s ext K] show ?case by (intro quiet_step) (simp_all add: release_raw_def)
next
  case (fill_raw s ext d s')
  then obtain K where out: "out = add_mset ext K" and len: "int (length d) \<le> snd ext" by (auto dest: multi_member_split)
  have "held s + out = add_mset ext (held s + K)" "vals st_extent (so_objects s) \<subseteq># held s + K" by (simp_all add: out held_def)
  from fill_quiet [OF fill_raw.prems(2) this len fill_raw.hyps] show ?case by (auto intro: quiet_step)
next
  case (adopt s oid ext n meta peer now rec s')
  then obtain K where out: "out = add_mset ext K" and sz: "0 \<le> n" "n \<le> snd ext" by (auto dest: multi_member_split)
  from adopt_ok [OF adopt.prems(2) [unfolded out] sz adopt.hyps]
  show ?case by (intro write_step [where oid = oid and d = "view_extent s ext n"]) (simp_all add: out)
next
  case (transient s owner n r s')
  with alloc_transient_ok [of s out n owner r s'] show ?case by (intro quiet_step) simp_all
next
  case (fill_transient s tok owner ext d s')
  then obtain K where K: "vals snd (so_transients s) = add_mset ext K"
    using vals_member [of "so_transients s" tok "(owner, ext)" snd] by (auto dest!: multi_member_split)
  have "held s + out = add_mset ext (vals st_extent (so_objects s) + K + out)" "vals st_extent (so_objects s) \<subseteq># vals st_extent (so_objects s) + K + out"
    by (simp_all add: K held_def)
  from fill_quiet [OF fill_transient.prems(2) this _ fill_transient.hyps(2)] fill_transient.prems(1) show ?case by (auto intro: quiet_step)
next
  case (untransient s tok s')
  then show ?case using free_transient_ok by (auto intro: quiet_step)
qed

text \<open>No step changes the capacity.\<close>

abbreviation cap_of :: "store \<Rightarrow> int" where
  "cap_of s \<equiv> sa_capacity (so_alloc s)"

lemma alloc_keeps_cap: "alloc_extent a n = Inr (e, a') \<Longrightarrow> sa_capacity a' = sa_capacity a"
  by (auto simp: alloc_extent_def Let_def split: option.splits)

lemma release_keeps_cap [simp]: "sa_capacity (release_extent a e) = sa_capacity a"
  by (simp add: release_extent_def)

lemma fill_capacity: "fill_extent s e n d = Inr s' \<Longrightarrow> cap_of s' = cap_of s" "write_view s rec d = Inr s' \<Longrightarrow> cap_of s' = cap_of s"
  by (auto simp: write_view_def fill_extent_def bindE_eq_Inr)

lemma carve_capacity: "carve_object s oid n meta = Inr (rec, s') \<Longrightarrow> cap_of s' = cap_of s"
  by (auto simp: carve_object_def bindE_eq_Inr Let_def dest: alloc_keeps_cap)

lemma put_capacity: "put s oid data n meta writer now = Inr (rec, s') \<Longrightarrow> cap_of s' = cap_of s"
  by (auto simp: put_def put_target_def bindE_eq_Inr Let_def dest!: fill_capacity carve_capacity split: option.splits if_splits)

lemma wipe_capacity: "wipe_ids ids force r s = (res, s') \<Longrightarrow> cap_of s' = cap_of s"
  by (induction ids force r s rule: wipe_ids.induct) (auto split: option.splits if_splits)

lemma fold_capacity:
  "(\<And>x s. cap_of (f x s) = cap_of s) \<Longrightarrow> cap_of (fold f xs s) = cap_of s"
  by (induction xs arbitrary: s) auto

lemma lease_capacity: "cap_of (release_leases s ids) = cap_of s" "cap_of (rollback_created s ids) = cap_of s"
    "acquire_leases s ids = Inr s' \<Longrightarrow> cap_of s' = cap_of s"
proof -
  show "cap_of (release_leases s ids) = cap_of s" "cap_of (rollback_created s ids) = cap_of s"
    unfolding release_leases_def rollback_created_def
    by (rule fold_capacity, simp add: release_lease_def rollback_one_def split: option.splits)+
  assume "acquire_leases s ids = Inr s'"
  then have "foldE acquire_lease ids s = Inr s'" by (auto simp: acquire_leases_def split: if_splits)
  then show "cap_of s' = cap_of s"
    by (rule foldE_invariant [where P = "\<lambda>t. cap_of t = cap_of s"]) (auto simp: acquire_lease_def split: option.splits)
qed

lemma client_capacity:
  shows "bind_residents rebind specs s = (r, s') \<Longrightarrow> cap_of s' = cap_of s"
    and "create_targets required now created s = (r2, s') \<Longrightarrow> cap_of s' = cap_of s"
    and "cap_of (write_bound w s) = cap_of s" and "cap_of (update_object f oid s) = cap_of s"
proof -
  show "bind_residents rebind specs s = (r, s') \<Longrightarrow> cap_of s' = cap_of s"
    by (induction rebind specs s rule: bind_residents.induct) (auto simp: Let_def split: option.splits if_splits)
  show "create_targets required now created s = (r2, s') \<Longrightarrow> cap_of s' = cap_of s"
    by (induction required now created s rule: create_targets.induct) (auto split: option.splits sum.splits dest: put_capacity)
  show "cap_of (write_bound w s) = cap_of s" "cap_of (update_object f oid s) = cap_of s"
    by (auto simp: write_bound_def update_object_def split: prod.splits option.splits sum.splits dest: fill_capacity)
qed

lemma put_file_capacity: "put_from_file s oid file meta session now = (r, s') \<Longrightarrow> cap_of s' = cap_of s"
  by (auto simp: put_from_file_def read_into_def Let_def split: option.splits prod.splits sum.splits dest!: put_capacity fill_capacity)

lemma store_step_capacity: "store_step ev s s' \<Longrightarrow> cap_of s' = cap_of s"
proof (induction rule: store_step.induct)
  case (run s rebind specs writes u s')
  then obtain s1 where "bind_residents rebind specs s = (Inr (), s1)"
    and s': "s' = fold write_bound (filter (\<lambda>w. fst w \<in> rebound rebind ` set specs) writes) s1"
    by (auto simp: run_residents_def split: sum.splits prod.splits)
  then show ?case using client_capacity(1) fold_capacity [of write_bound, OF client_capacity(3)] by simp
next
  case (run_refused s rebind specs writes e s')
  then show ?case by (auto simp: run_residents_def split: sum.splits prod.splits dest: client_capacity(1))
next
  case (restored s protections targets snap now)
  have "cap_of (fold (\<lambda>(oid, p). update_object (\<lambda>rec. rec\<lparr>st_protected := p\<rparr>) oid) protections s) = cap_of s"
    by (rule fold_capacity) (auto simp: client_capacity split: prod.splits)
  moreover have "cap_of (fold (update_object f) targets t) = cap_of t" for f t
    by (rule fold_capacity) (simp add: client_capacity)
  ultimately show ?case by (simp add: restore_done_def lease_capacity)
next
  case (admit s required overwrite now r s')
  then show ?case by (auto simp: admit_restore_def lease_capacity split: sum.splits prod.splits dest!: client_capacity(2) lease_capacity(3))
next
  case (place s target lo hi content r s')
  then show ?case by (auto simp: place_bytes_def Let_def split: option.splits sum.splits dest: fill_capacity)
qed (auto simp: put_object_def create_object_def materialize_def with_store_def store_release_def protect_def require_def wipe_def
    reset_peak_def reserve_inbound_def alloc_scratch_def release_raw_def adopt_inbound_def duplicate_def alloc_transient_def
    free_transient_def restore_failed_def lease_capacity Let_def bindE_eq_Inr
    dest!: fill_capacity carve_capacity put_capacity wipe_capacity alloc_keeps_cap lease_capacity(3) put_file_capacity
    split: option.splits sum.splits if_splits prod.splits)

lemma disciplined_reach_inv:
  assumes "disciplined_reach cap s out" and "0 \<le> cap"
  shows "store_inv s out \<and> sa_capacity (so_alloc s) = cap"
  using assms(1)
proof induction
  case boot
  have "store_slab.holds (new_alloc cap) {#}" by (rule new_alloc_holds [OF assms(2)])
  then show ?case using assms(2) by (simp add: store_inv_def new_store_def held_def new_alloc_def)
next
  case (step s out ev s')
  then show ?case using store_step_ok [OF step(2,3)] store_step_capacity [OF step(2)] by (simp add: step_ok_def)
qed

section \<open>Results\<close>

text \<open>A store of two pages with one object of two bytes, read by a snapshot.\<close>

definition demo_stored :: store where
  "demo_stored = snd (put_object (new_store 8192) ''a'' None (Some [1, 2]) None ''s'' 0)"

definition demo_leased :: store where
  "demo_leased = (case acquire_leases demo_stored [''a''] of Inr s \<Rightarrow> s | Inl _ \<Rightarrow> new_store 0)"

lemmas demo_defs = put_object_def with_store_def put_def put_target_def carve_object_def alloc_extent_def new_store_def new_alloc_def need_of_def
  STORE_ALIGN_def write_view_def fill_extent_def write_slice_def clip_def new_object_def Let_def

lemma demo_put: "\<exists>rec. put_object (new_store 8192) ''a'' None (Some [1, 2]) None ''s'' 0 = (Inr rec, demo_stored)"
  by (simp add: demo_stored_def demo_defs)

lemma demo_object: "map_option st_lease_refs (dget (so_objects demo_stored) ''a'') = Some 0"
  by (simp add: demo_stored_def demo_defs)

lemma demo_lease: "acquire_leases demo_stored [''a''] = Inr demo_leased" and demo_is_leased: "leased demo_leased ''a''"
  using demo_object by (auto simp: demo_leased_def acquire_leases_def acquire_lease_def leased_def)

lemma demo_store_step: "store_step (EvStore ''a'' [1, 2]) (new_store 8192) demo_stored"
  using demo_put by (auto intro: store_step.put)

lemma demo_store_reach: "disciplined_reach 8192 demo_stored {#}" "disciplined_reach 8192 demo_leased {#}"
proof -
  show 1: "disciplined_reach 8192 demo_stored {#}"
    using disciplined_reach.step [OF disciplined_reach.boot demo_store_step] by simp
  show "disciplined_reach 8192 demo_leased {#}"
    using disciplined_reach.step [OF 1 store_step.lease [OF demo_lease]] by simp
qed

text \<open>C23. The extents of a store tile its slab while its clients keep the discipline (sizes not negative; a
  granted extent written, given back or adopted only while it is outstanding): after any such sequence of calls of
  the dispatcher, the network manager, the payload thread and the engines, every byte of the slab lies in exactly one
  extent, that of an object, of a transient, of a raw client or of the free list, no extent reaches outside, and
  \<open>used_bytes\<close> is the sum of the sizes handed out.\<close>

theorem store_extents_tile:
  assumes "disciplined_reach cap s out" and "0 \<le> cap"
  shows "cover x (free_bag (so_alloc s)) + cover x (held s + out) = (if 0 \<le> x \<and> x < cap then 1 else 0) \<and>
    sa_used_bytes (so_alloc s) = bytes_of (held s + out)"
  using disciplined_reach_inv [OF assms] by (simp add: store_inv_def store_slab.holds_def)

theorem store_extents_tile_witness:
  "cover 4096 (free_bag (so_alloc demo_stored)) + cover 4096 (held demo_stored) = 1 \<and>
   sa_used_bytes (so_alloc demo_stored) = bytes_of (held demo_stored)"
  using store_extents_tile [OF demo_store_reach(1), of 4096] by simp

text \<open>C25. The catalog of a store whose clients keep the discipline is well typed: an object is filed under its own
  id, its counters are not negative, it fits its extent and a view of it has exactly its size; and a payload is
  stored or refused with a \<open>ServiceError\<close>, so the assignment to the view never fails after the object has been
  carved.\<close>

theorem store_catalog_typed:
  assumes "disciplined_reach cap s out" and "0 \<le> cap" and "dget (so_objects s) oid = Some rec"
  shows "st_id rec = oid \<and> 0 \<le> st_lease_refs rec \<and> 0 \<le> st_version rec \<and> st_size_bytes rec \<le> snd (st_extent rec) \<and>
    int (length (view s rec)) = st_size_bytes rec \<and>
    outcome is_service_error (\<lambda>_. True) (fst (put_object s k None (Some d) meta session now))"
proof -
  have inv: "store_inv s out" using disciplined_reach_inv [OF assms(1,2)] by simp
  have "outcome is_service_error (\<lambda>_. True) (put s k (Some d) None meta session now)"
    by (rule outcome_weaken [OF put_data_ok [OF inv]]) auto
  then have "outcome is_service_error (\<lambda>_. True) (fst (put_object s k None (Some d) meta session now))"
    by (auto simp: put_object_def with_store_def split: sum.splits prod.splits)
  with resident [OF inv assms(3)] view_length [OF inv assms(3)] show ?thesis by (simp add: resident_ok_def)
qed

theorem store_catalog_typed_witness:
  "\<exists>rec. dget (so_objects demo_stored) ''a'' = Some rec \<and> st_id rec = ''a'' \<and>
     int (length (view demo_stored rec)) = st_size_bytes rec"
proof -
  obtain rec where get: "dget (so_objects demo_stored) ''a'' = Some rec" using demo_object by blast
  from store_catalog_typed [OF demo_store_reach(1) _ get] get show ?thesis by auto
qed

text \<open>C22. While its clients keep the discipline, the store refines a map from ids to byte strings: a put, token or
  zero fill stores its bytes under the id; a file replaces the first bytes, all of them unless it ends early; an
  adopted reservation stores the bytes the peer wrote; a create keeps the bytes of an existing object; a duplicate
  copies; a release or a wipe, finished or stopped, removes exactly the objects it reports; a run writes over parts
  of the residents it bound, a restore over the range of its placement; the admission of a restore only adds
  objects and its failure only removes those it names; and every other call, writes of raw clients and engines
  included, leaves the map alone. \<open>get_bytes\<close> reads it.\<close>

theorem store_refines_map:
  assumes "disciplined_reach cap s out" and "0 \<le> cap" and "store_step ev s s'" and "disciplined ev out"
  shows "spec_step ev (contents s) (contents s') \<and>
    get_bytes s' oid = (case contents s' oid of None \<Rightarrow> Inl (ServiceError ''UNKNOWN_OBJECT'') | Some d \<Rightarrow> Inr d)"
proof
  show "spec_step ev (contents s) (contents s')"
    using store_step_ok [OF assms(3,4)] disciplined_reach_inv [OF assms(1,2)] by (simp add: step_ok_def)
qed (simp add: get_bytes_def require_def contents_def split: option.split)

theorem store_refines_map_witness: "get_bytes demo_stored ''a'' = Inr [1, 2]"
  using store_refines_map [OF disciplined_reach.boot _ demo_store_step, of "''a''"] by simp

text \<open>C24. A lease protects: while the clients keep the discipline, a call changes the bytes of a leased object or
  removes it only as part of a restore, by placing bytes into it or by a rollback that names it; runs, puts,
  releases, adopted transfers and a wipe that stops half way do not.\<close>

theorem leased_bytes_kept:
  assumes "disciplined_reach cap s out" and "0 \<le> cap" and "store_step ev s s'" and "disciplined ev out"
    and "leased s oid" and "\<not> restores ev oid"
  shows "contents s' oid = contents s oid \<and> contents s' oid \<noteq> None"
  using store_step_ok [OF assms(3,4)] disciplined_reach_inv [OF assms(1,2)] leased_present [OF assms(5)] assms(5,6)
  by (simp add: step_ok_def)

theorem leased_bytes_kept_witness:
  "\<exists>s'. wipe demo_leased ''all'' True = (Inl (ServiceError ''LEASED''), s') \<and> contents s' ''a'' = contents demo_leased ''a''"
proof -
  have w: "wipe demo_leased ''all'' True = (Inl (ServiceError ''LEASED''), demo_leased)"
    using demo_is_leased by (simp add: wipe_def resolve_scope_def demo_leased_def demo_stored_def demo_defs acquire_leases_def acquire_lease_def)
  from leased_bytes_kept [OF demo_store_reach(2) _ store_step.wipe_stopped [OF w] _ demo_is_leased] w show ?thesis
    by (auto simp: restores_def)
qed

text \<open>C38. A restore that is refused for capacity leaves objects behind: when the first of two absent targets fits and
  the second does not, the admission raises, although a refusal is meant to leave the store as it was, and the first
  target stays in the catalog, unleased and with unspecified bytes, so that a second attempt without overwrite is
  refused as a collision.\<close>

theorem refused_restore_leaks:
  assumes "dget (so_objects s) a = None" and "dget (so_objects s) b = None" and "a \<noteq> b"
    and "put s a None (Some n) None ''restore'' now = Inr (rec, s1)"
    and "alloc_extent (so_alloc s1) m = Inl (ServiceError ''CAPACITY'')"
  shows "admit_restore s [(a, n, None), (b, m, None)] overwrite now = (Inl (ServiceError ''CAPACITY''), s1) \<and>
    dget (so_objects s1) a = Some rec \<and> st_lease_refs rec = 0 \<and>
    admit_restore s1 [(a, n, None)] False later = (Inl (ServiceError ''COLLISION''), s1)"
proof -
  obtain ext al where "alloc_extent (so_alloc s) n = Inr (ext, al)"
    and s1: "s1 = set_object a rec (s\<lparr>so_alloc := al, so_objects := dset a (new_object a n [] ext) (so_objects s)\<rparr>)"
    and rec: "rec = (new_object a n [] ext)\<lparr>st_version := 1, st_last_write := Some \<lparr>ws_by = ''restore'', ws_t = now\<rparr>\<rparr>"
    using assms(1,4) by (auto simp: put_def put_target_def carve_object_def bindE_eq_Inr new_object_def Let_def)
  have "dget (so_objects s1) b = None" using assms(2,3) by (simp add: s1)
  then have "put s1 b None (Some m) None ''restore'' now = Inl (ServiceError ''CAPACITY'')"
    using assms(5) by (simp add: put_def put_target_def carve_object_def)
  then have "create_targets [(a, n, None), (b, m, None)] now [] s = (Inl (ServiceError ''CAPACITY''), s1)"
    using assms(1,4) \<open>dget (so_objects s1) b = None\<close> by simp
  moreover have "dget (so_objects s1) a = Some rec" "st_lease_refs rec = 0" "st_size_bytes rec = n"
    by (simp_all add: s1 rec new_object_def)
  ultimately show ?thesis using assms(1,2) by (simp add: admit_restore_def check_target_def)
qed

theorem refused_restore_leaks_witness:
  "\<exists>s1. admit_restore (new_store 8192) [(''a'', 4096, None), (''b'', 8192, None)] False 0 = (Inl (ServiceError ''CAPACITY''), s1) \<and>
     dget (so_objects s1) ''a'' \<noteq> None"
proof -
  obtain rec s1 where p: "put (new_store 8192) ''a'' None (Some 4096) None ''restore'' 0 = Inr (rec, s1)"
    and free: "sa_free (so_alloc s1) = [(4096, 4096)]"
    by (simp add: demo_defs)
  then have "alloc_extent (so_alloc s1) 8192 = Inl (ServiceError ''CAPACITY'')"
    by (simp add: alloc_extent_def need_of_def STORE_ALIGN_def)
  from refused_restore_leaks [OF _ _ _ p this] show ?thesis by (auto simp: new_store_def)
qed

text \<open>C40. An empty object breaks coalescing: when the free list is one extent, allocating and releasing an extent
  of size zero leaves an empty free extent behind it, and a block that is then returned at its end is not
  merged with it. A request that fits the joined bytes is refused for capacity, although it succeeds when the
  empty extent was never allocated.\<close>

theorem empty_extent_fragments:
  assumes "sa_free s = [(off, n)]" and "0 < n" and "0 < m" and "alloc_extent s 0 = Inr (z, s1)"
    and "n < need_of k" and "m < need_of k" and "need_of k \<le> n + m"
  shows "alloc_extent (release_extent (release_extent s1 z) (off + n, m)) k = Inl (ServiceError ''CAPACITY'') \<and>
    map_option fst (first_extent (need_of k) (sa_free (release_extent s (off + n, m)))) = Some (off, need_of k)"
proof
  have s1: "sa_free s1 = [(off, n)]" "z = (off, 0)"
    using assms by (auto simp: alloc_extent_def need_of_def Let_def)
  have "sa_free (release_extent s1 z) = [(off, n), (off, 0)]"
    using s1 assms(2) by (simp add: release_extent_def insert_extent_def merge_extent_def)
  then have "sa_free (release_extent (release_extent s1 z) (off + n, m)) = [(off, n), (off, 0), (off + n, m)]"
    using assms(2) by (simp add: release_extent_def [of _ "(off + n, m)"] insert_extent_def merge_extent_def)
  then show "alloc_extent (release_extent (release_extent s1 z) (off + n, m)) k = Inl (ServiceError ''CAPACITY'')"
    using assms by (simp add: alloc_extent_def)
  have "sa_free (release_extent s (off + n, m)) = [(off, n + m)]"
    using assms by (simp add: release_extent_def insert_extent_def merge_extent_def)
  then show "map_option fst (first_extent (need_of k) (sa_free (release_extent s (off + n, m)))) = Some (off, need_of k)"
    using assms by simp
qed

theorem empty_extent_fragments_witness:
  "\<exists>s1. alloc_extent (new_alloc 4096) 0 = Inr ((0, 0), s1) \<and>
     alloc_extent (release_extent (release_extent s1 (0, 0)) (4096, 4096)) 8192 = Inl (ServiceError ''CAPACITY'')"
proof -
  obtain s1 where s1: "alloc_extent (new_alloc 4096) 0 = Inr ((0, 0), s1)"
    by (simp add: alloc_extent_def new_alloc_def need_of_def STORE_ALIGN_def Let_def)
  have "sa_free (new_alloc 4096) = [(0, 4096)]" by (simp add: new_alloc_def)
  from empty_extent_fragments [OF this _ _ s1, of 4096 8192] s1 show ?thesis by (auto simp: need_of_def STORE_ALIGN_def)
qed

text \<open>C39. A create with a negative size is accepted and corrupts the slab: on a fresh store it moves the free
  extent below address zero, and the next page allocated starts at a negative offset.\<close>

theorem negative_create_corrupts:
  assumes "n \<le> - STORE_ALIGN" and "0 \<le> cap"
  shows "\<exists>rec s s'. create_object (new_store cap) oid n meta session now = Inr (rec, s) \<and> st_size_bytes rec = n \<and>
    alloc_scratch s STORE_ALIGN = Inr ((need_of n, STORE_ALIGN), s') \<and> need_of n < 0"
proof -
  have neg: "need_of n \<le> - STORE_ALIGN"
  proof -
    have "1 \<le> (- n) div STORE_ALIGN" using assms(1) by (simp add: STORE_ALIGN_def)
    then show ?thesis by (simp add: need_of_def STORE_ALIGN_def)
  qed
  have page: "need_of STORE_ALIGN = STORE_ALIGN" by (simp add: need_of_def STORE_ALIGN_def)
  have "STORE_ALIGN \<le> cap - need_of n" "need_of n < 0" "need_of n \<le> cap" "cap \<noteq> need_of n"
    using neg assms(2) by (simp_all add: STORE_ALIGN_def)
  then show ?thesis
    by (auto simp: create_object_def put_def put_target_def carve_object_def alloc_scratch_def alloc_extent_def new_store_def new_alloc_def
        new_object_def Let_def page split: option.splits)
qed

theorem negative_create_corrupts_witness:
  "\<exists>rec s s'. create_object (new_store 8192) ''a'' (- 5000) None ''s'' 0 = Inr (rec, s) \<and>
     alloc_scratch s 4096 = Inr ((- 4096, 4096), s')"
  using negative_create_corrupts [of "- 5000" 8192 "''a''" None "''s''" 0] by (auto simp: need_of_def STORE_ALIGN_def)

end
