(* ===== verification/Peer_Core.thy ===== *)
theory Peer_Core
  imports Store_Results
begin

unbundle bit_operations_syntax

text \<open>
  The rendezvous protocol of peer transfers, \<open>src/dataflow/service/peer/core.py\<close> over the vocabulary of
  \<open>protocol.py\<close>: one side of a link, which sends and receives. The embedder (\<open>ReceiverEnv\<close>) is a record of
  operations on its own state; the buffer of a reservation is reached through it, as a memoryview is. Messages
  sent, calls of the RDMA writer and finished tickets are kept in order. A handler reads the clock once. Every
  handler returns the state it leaves and the exception it raises, if any.
\<close>

section \<open>Protocol vocabulary\<close>

definition EAGER_MAX_BYTES :: int where "EAGER_MAX_BYTES = 64 * 1024"

definition CHUNK_BYTES_DEFAULT :: int where "CHUNK_BYTES_DEFAULT = 128 * 1024 * 1024"

definition NACK_BACKOFF_BASE_S :: time where "NACK_BACKOFF_BASE_S = 1 / 10"

definition NACK_BACKOFF_TRIES :: nat where "NACK_BACKOFF_TRIES = 5"

definition INACTIVITY_TIMEOUT_S :: time where "INACTIVITY_TIMEOUT_S = 60"

definition DEDUP_RING_SIZE :: nat where "DEDUP_RING_SIZE = 256"

definition NACK_CODES :: "string list" where
  "NACK_CODES = [''BUSY'', ''CAPACITY'', ''COLLISION'']"

datatype transfer_state = Negotiating | Moving | Committing | Done | Failed

text \<open>The CRC of \<open>zlib.crc32\<close>: reflected polynomial, initial value and final complement.\<close>

definition crc_bit :: "32 word \<Rightarrow> 32 word" where
  "crc_bit c = (if bit c 0 then drop_bit 1 c XOR 0xEDB88320 else drop_bit 1 c)"

definition crc_byte :: "32 word \<Rightarrow> byte \<Rightarrow> 32 word" where
  "crc_byte c b = (crc_bit ^^ 8) (c XOR ucast b)"

definition payload_checksum :: "byte list \<Rightarrow> int" where
  "payload_checksum data = uint (NOT (foldl crc_byte (NOT 0) data) AND 0xFFFFFFFF)"

datatype peer_msg =
    Rts string string int "(string, json) dict" bool bool
  | Cts string
  | Addr string int int
  | Nack string string
  | Chunk string int bool "int option"
  | DoneMsg string int
  | DoneAck string
  | UnknownMsg

section \<open>State\<close>

record reservation =
  rv_dest_id :: string
  rv_raddr :: int
  rv_rkey :: int
  rv_extent :: extent
  rv_len :: int
  rv_landed_zero_copy :: bool

record sender_ticket =
  tk_send_id :: string
  tk_dest_id :: string
  tk_state :: transfer_state
  tk_error :: "string option"
  tk_bytes_done :: int
  tk_bytes_total :: int

record sender_machine =
  sn_ticket :: sender_ticket
  sn_payload :: "byte list"
  sn_overwrite :: bool
  sn_meta :: "(string, json) dict"
  sn_tries :: nat
  sn_next_rts_at :: time
  sn_awaiting_ack_since :: "time option"
  sn_last_progress :: time
  sn_cleared :: bool
  sn_done_resends :: nat

record receiver_machine =
  rm_send_id :: string
  rm_res :: reservation
  rm_meta :: "(string, json) dict"
  rm_expect_bytes :: int
  rm_next_seq :: int
  rm_received :: int
  rm_last_progress :: time
  rm_committing :: bool

text \<open>The embedder: \<open>try_reserve\<close>, \<open>commit\<close>, \<open>release\<close>, and the assignment to a slice of a reservation's
  buffer (from an offset) and its content.\<close>

record 'e peer_conf =
  pf_try_reserve :: "'e \<Rightarrow> string \<Rightarrow> int \<Rightarrow> bool \<Rightarrow> (string + reservation) \<times> 'e"
  pf_commit :: "'e \<Rightarrow> reservation \<Rightarrow> (string, json) dict \<Rightarrow> string \<Rightarrow> bool \<times> 'e"
  pf_release :: "'e \<Rightarrow> reservation \<Rightarrow> 'e"
  pf_write :: "'e \<Rightarrow> reservation \<Rightarrow> int \<Rightarrow> byte list \<Rightarrow> 'e res"
  pf_read :: "'e \<Rightarrow> reservation \<Rightarrow> byte list"
  pf_chunk_bytes :: int
  pf_inactivity_s :: time
  pf_rdma_writer :: bool

record 'e peer_core =
  pc_env :: 'e
  pc_sent :: "(peer_msg \<times> byte list option) list"
  pc_senders :: "(string, sender_machine) dict"
  pc_receivers :: "(string, receiver_machine) dict"
  pc_dest_queues :: "(string, string list) dict"
  pc_completed :: "string list"
  pc_seq :: nat
  pc_finished :: "sender_ticket list"
  pc_rdma_writes :: "(string \<times> int \<times> int) list"
  pc_last_abort_reason :: "string option"

type_synonym 'e moved = "'e peer_core \<times> err option"

definition new_core :: "'e \<Rightarrow> 'e peer_core" where
  "new_core e =
     \<lparr>pc_env = e, pc_sent = [], pc_senders = [], pc_receivers = [], pc_dest_queues = [], pc_completed = [], pc_seq = 0,
      pc_finished = [], pc_rdma_writes = [], pc_last_abort_reason = None\<rparr>"

definition send_msg :: "peer_msg \<Rightarrow> byte list option \<Rightarrow> 'e peer_core \<Rightarrow> 'e peer_core" where
  "send_msg m payload c = c\<lparr>pc_sent := pc_sent c @ [(m, payload)]\<rparr>"

abbreviation set_sender :: "sender_machine \<Rightarrow> 'e peer_core \<Rightarrow> 'e peer_core" where
  "set_sender mach c \<equiv> c\<lparr>pc_senders := dset (tk_send_id (sn_ticket mach)) mach (pc_senders c)\<rparr>"

abbreviation set_receiver :: "receiver_machine \<Rightarrow> 'e peer_core \<Rightarrow> 'e peer_core" where
  "set_receiver mach c \<equiv> c\<lparr>pc_receivers := dset (rm_send_id mach) mach (pc_receivers c)\<rparr>"

section \<open>Sender side\<close>

definition open_send :: "time \<Rightarrow> sender_machine \<Rightarrow> 'e peer_core \<Rightarrow> 'e peer_core" where
  "open_send now mach c =
     (let t = sn_ticket mach;
          eager = (tk_bytes_total t \<le> EAGER_MAX_BYTES);
          msg = Rts (tk_send_id t) (tk_dest_id t) (tk_bytes_total t) (sn_meta mach) (sn_overwrite mach) eager;
          mach = mach\<lparr>sn_last_progress := now\<rparr>
      in if eager
         then set_sender (mach\<lparr>sn_awaiting_ack_since := Some now\<rparr>) (send_msg msg (Some (sn_payload mach)) c)
         else set_sender mach (send_msg msg None c))"

definition start_send ::
  "time \<Rightarrow> string \<Rightarrow> byte list \<Rightarrow> bool \<Rightarrow> (string, json) dict option \<Rightarrow> 'e peer_core \<Rightarrow> 'e peer_core" where
  "start_send now dest_id payload overwrite meta c =
     (let c = c\<lparr>pc_seq := Suc (pc_seq c)\<rparr>;
          send_id = ''s'' @ show_nat (pc_seq c);
          ticket = \<lparr>tk_send_id = send_id, tk_dest_id = dest_id, tk_state = Negotiating, tk_error = None,
                    tk_bytes_done = 0, tk_bytes_total = int (length payload)\<rparr>;
          mach = \<lparr>sn_ticket = ticket, sn_payload = payload, sn_overwrite = overwrite,
                  sn_meta = (case meta of None \<Rightarrow> [] | Some m \<Rightarrow> m), sn_tries = 0, sn_next_rts_at = 0,
                  sn_awaiting_ack_since = None, sn_last_progress = now, sn_cleared = False, sn_done_resends = 0\<rparr>;
          c = set_sender mach c;
          c = c\<lparr>pc_dest_queues := dappend dest_id send_id (pc_dest_queues c)\<rparr>
      in if length (dget_or (pc_dest_queues c) dest_id []) = 1 then open_send now mach c else c)"

definition finish_sender :: "time \<Rightarrow> sender_machine \<Rightarrow> transfer_state \<Rightarrow> string option \<Rightarrow> 'e peer_core \<Rightarrow> 'e moved" where
  "finish_sender now mach state error c =
     (let t = (sn_ticket mach)\<lparr>tk_state := state, tk_error := error\<rparr>;
          c = c\<lparr>pc_senders := ddel (tk_send_id t) (pc_senders c), pc_finished := pc_finished c @ [t]\<rparr>
      in case dget_or (pc_dest_queues c) (tk_dest_id t) [] of
           [] \<Rightarrow> (c, None)
         | first # rest \<Rightarrow>
             if first \<noteq> tk_send_id t then (c, None)
             else
               let c = c\<lparr>pc_dest_queues := dset (tk_dest_id t) rest (pc_dest_queues c)\<rparr>
               in case rest of
                    [] \<Rightarrow> (c, None)
                  | nxt # _ \<Rightarrow>
                      (case dget (pc_senders c) nxt of
                         None \<Rightarrow> (c, Some (KeyError nxt))
                       | Some m \<Rightarrow> (open_send now m c, None)))"

definition rdma_write_finished :: "time \<Rightarrow> sender_machine \<Rightarrow> 'e peer_core \<Rightarrow> 'e peer_core" where
  "rdma_write_finished now mach c =
     (let t = sn_ticket mach
      in set_sender (mach\<lparr>sn_ticket := t\<lparr>tk_bytes_done := tk_bytes_total t, tk_state := Committing\<rparr>,
                          sn_awaiting_ack_since := Some now, sn_last_progress := now\<rparr>)
           (send_msg (DoneMsg (tk_send_id t) 0) None c))"

text \<open>The slices of the payload, and the messages that carry them.\<close>

function chunks :: "nat \<Rightarrow> byte list \<Rightarrow> byte list list" where
  "chunks k data = (if k = 0 \<or> data = [] then [] else take k data # chunks k (drop k data))"
  by pat_completeness auto

termination
  by (relation "measure (\<lambda>(_, data). length data)") auto

declare chunks.simps [simp del]

definition chunk_msgs :: "string \<Rightarrow> int \<Rightarrow> byte list \<Rightarrow> (peer_msg \<times> byte list option) list" where
  "chunk_msgs send_id k data =
     (let parts = chunks (nat k) data
      in map (\<lambda>(seq, d). (Chunk send_id (int seq) (Suc seq = length parts) None, Some d)) (enumerate 0 parts))"

definition handle_clearance :: "'e peer_conf \<Rightarrow> time \<Rightarrow> sender_machine \<Rightarrow> 'e peer_core \<Rightarrow> 'e moved" where
  "handle_clearance F now mach c =
     (let mach = mach\<lparr>sn_cleared := True\<rparr>; t = sn_ticket mach; data = sn_payload mach
      in if pf_chunk_bytes F = 0 then (set_sender mach c, Some (ValueError ''range() arg 3 must not be zero''))
         else
           let msgs = chunk_msgs (tk_send_id t) (pf_chunk_bytes F) data;
               c = c\<lparr>pc_sent := pc_sent c @ msgs @ (if data = [] then [(Chunk (tk_send_id t) 0 True None, Some [])] else [])\<rparr>;
               c = send_msg (DoneMsg (tk_send_id t) (payload_checksum data)) None c;
               sent = (if msgs = [] then tk_bytes_done t else int (length data))
           in (set_sender (mach\<lparr>sn_ticket := t\<lparr>tk_bytes_done := sent, tk_state := Committing\<rparr>,
                                sn_awaiting_ack_since := Some now, sn_last_progress := now\<rparr>) c, None))"

definition handle_nack :: "time \<Rightarrow> sender_machine \<Rightarrow> string \<Rightarrow> 'e peer_core \<Rightarrow> 'e moved" where
  "handle_nack now mach code c =
     (if code = ''COLLISION'' then finish_sender now mach Failed (Some ''NACK COLLISION'') c
      else
        let mach = mach\<lparr>sn_tries := Suc (sn_tries mach)\<rparr>
        in if NACK_BACKOFF_TRIES \<le> sn_tries mach then finish_sender now mach Failed (Some ''TRANSFER_ABORTED'') c
           else (set_sender (mach\<lparr>sn_next_rts_at := now + NACK_BACKOFF_BASE_S * 2 ^ (sn_tries mach - 1),
                                  sn_last_progress := now\<rparr>) c, None))"

section \<open>Receiver side\<close>

definition remember_completed :: "string \<Rightarrow> 'e peer_core \<Rightarrow> 'e peer_core" where
  "remember_completed send_id c =
     (let ring = (if send_id \<in> set (pc_completed c) then pc_completed c else pc_completed c @ [send_id])
      in c\<lparr>pc_completed := drop (length ring - DEDUP_RING_SIZE) ring\<rparr>)"

definition commit_done :: "string \<Rightarrow> 'e peer_core \<Rightarrow> 'e peer_core" where
  "commit_done send_id c =
     (case dget (pc_receivers c) send_id of
        None \<Rightarrow> c
      | Some _ \<Rightarrow>
          send_msg (DoneAck send_id) None (remember_completed send_id (c\<lparr>pc_receivers := ddel send_id (pc_receivers c)\<rparr>)))"

definition finish_commit :: "'e peer_conf \<Rightarrow> time \<Rightarrow> receiver_machine \<Rightarrow> 'e peer_core \<Rightarrow> 'e peer_core" where
  "finish_commit F now mach c =
     (let mach = mach\<lparr>rm_committing := True, rm_last_progress := now\<rparr>;
          c = set_receiver mach c;
          (landed, e) = pf_commit F (pc_env c) (rm_res mach) (rm_meta mach) (rm_send_id mach);
          c = c\<lparr>pc_env := e\<rparr>
      in if landed then commit_done (rm_send_id mach) c else c)"

definition abort_receiver :: "'e peer_conf \<Rightarrow> receiver_machine \<Rightarrow> string \<Rightarrow> 'e peer_core \<Rightarrow> 'e peer_core" where
  "abort_receiver F mach why c =
     c\<lparr>pc_env := pf_release F (pc_env c) (rm_res mach), pc_receivers := ddel (rm_send_id mach) (pc_receivers c),
       pc_last_abort_reason := Some why\<rparr>"

definition accept_rts ::
  "'e peer_conf \<Rightarrow> time \<Rightarrow> receiver_machine \<Rightarrow> bool \<Rightarrow> byte list option \<Rightarrow> 'e peer_core \<Rightarrow> 'e moved" where
  "accept_rts F now mach eager payload c =
     (if eager
      then let data = (case payload of None \<Rightarrow> [] | Some d \<Rightarrow> d)
           in if int (length data) \<noteq> rv_len (rm_res mach)
              then (c, Some (ValueError ''memoryview assignment: lvalue and rvalue have different structures''))
              else (case pf_write F (pc_env c) (rm_res mach) 0 data of
                      Inl err \<Rightarrow> (c, Some err)
                    | Inr e \<Rightarrow> (finish_commit F now mach (set_receiver mach (c\<lparr>pc_env := e\<rparr>)), None))
      else let c = set_receiver mach c
           in (send_msg (if rv_raddr (rm_res mach) \<noteq> 0
                         then Addr (rm_send_id mach) (rv_raddr (rm_res mach)) (rv_rkey (rm_res mach))
                         else Cts (rm_send_id mach)) None c, None))"

definition handle_rts ::
  "'e peer_conf \<Rightarrow> time \<Rightarrow> string \<Rightarrow> string \<Rightarrow> int \<Rightarrow> (string, json) dict \<Rightarrow> bool \<Rightarrow> bool \<Rightarrow> byte list option \<Rightarrow> 'e peer_core \<Rightarrow> 'e moved" where
  "handle_rts F now send_id dest_id nbytes meta overwrite eager payload c =
     (if send_id \<in> set (pc_completed c) then (send_msg (DoneAck send_id) None c, None)
      else if dget (pc_receivers c) send_id \<noteq> None then (c, None)
      else
        case pf_try_reserve F (pc_env c) dest_id nbytes overwrite of
          (Inl code, e) \<Rightarrow>
            (if code \<in> set NACK_CODES then (send_msg (Nack send_id code) None (c\<lparr>pc_env := e\<rparr>), None)
             else (c\<lparr>pc_env := e\<rparr>, Some (ValueError code)))
        | (Inr res, e) \<Rightarrow>
            accept_rts F now \<lparr>rm_send_id = send_id, rm_res = res, rm_meta = meta, rm_expect_bytes = nbytes, rm_next_seq = 0,
                              rm_received = 0, rm_last_progress = now, rm_committing = False\<rparr>
              eager payload (c\<lparr>pc_env := e\<rparr>))"

definition handle_chunk :: "'e peer_conf \<Rightarrow> time \<Rightarrow> string \<Rightarrow> int \<Rightarrow> int option \<Rightarrow> byte list option \<Rightarrow> 'e peer_core \<Rightarrow> 'e moved" where
  "handle_chunk F now send_id seq landed payload c =
     (case dget (pc_receivers c) send_id of
        None \<Rightarrow> (c, None)
      | Some mach \<Rightarrow>
          if seq \<noteq> rm_next_seq mach then (abort_receiver F mach ''CHUNK seq (ordered-stream violation)'' c, None)
          else
            (case landed of
               Some n \<Rightarrow>
                 (set_receiver (mach\<lparr>rm_res := (rm_res mach)\<lparr>rv_landed_zero_copy := True\<rparr>, rm_received := rm_received mach + n,
                    rm_next_seq := rm_next_seq mach + 1, rm_last_progress := now\<rparr>) c, None)
             | None \<Rightarrow>
                 (let data = (case payload of None \<Rightarrow> [] | Some d \<Rightarrow> d)
                  in case pf_write F (pc_env c) (rm_res mach) (rm_received mach) data of
                       Inl err \<Rightarrow> (c, Some err)
                     | Inr e \<Rightarrow>
                         (set_receiver (mach\<lparr>rm_received := rm_received mach + int (length data), rm_next_seq := rm_next_seq mach + 1,
                            rm_last_progress := now\<rparr>) (c\<lparr>pc_env := e\<rparr>), None))))"

definition handle_done :: "'e peer_conf \<Rightarrow> time \<Rightarrow> string \<Rightarrow> int \<Rightarrow> 'e peer_core \<Rightarrow> 'e peer_core" where
  "handle_done F now send_id checksum c =
     (if send_id \<in> set (pc_completed c) then send_msg (DoneAck send_id) None c
      else
        case dget (pc_receivers c) send_id of
          None \<Rightarrow> c
        | Some mach \<Rightarrow>
            let direct = (rv_raddr (rm_res mach) \<noteq> 0);
                mach = (if direct then mach\<lparr>rm_received := rm_expect_bytes mach\<rparr> else mach)
            in if rm_received mach \<noteq> rm_expect_bytes mach then abort_receiver F mach ''DONE before all bytes'' c
               else if \<not> direct \<and> payload_checksum (pf_read F (pc_env c) (rm_res mach)) \<noteq> checksum
               then abort_receiver F mach ''checksum mismatch'' c
               else finish_commit F now mach c)"

section \<open>Dispatch and time\<close>

definition clear_sender :: "'e peer_conf \<Rightarrow> time \<Rightarrow> string \<Rightarrow> (int \<times> int) option \<Rightarrow> 'e peer_core \<Rightarrow> 'e moved" where
  "clear_sender F now send_id address c =
     (case dget (pc_senders c) send_id of
        None \<Rightarrow> (c, None)
      | Some mach \<Rightarrow>
          if sn_cleared mach then (c, None)
          else
            let mach = mach\<lparr>sn_ticket := (sn_ticket mach)\<lparr>tk_state := Moving\<rparr>\<rparr>
            in case address of
                 Some (raddr, rkey) \<Rightarrow>
                   if pf_rdma_writer F
                   then (set_sender (mach\<lparr>sn_cleared := True, sn_last_progress := now\<rparr>)
                          (c\<lparr>pc_rdma_writes := pc_rdma_writes c @ [(send_id, raddr, rkey)]\<rparr>), None)
                   else handle_clearance F now mach c
               | None \<Rightarrow> handle_clearance F now mach c)"

definition handle_msg :: "'e peer_conf \<Rightarrow> time \<Rightarrow> peer_msg \<times> byte list option \<Rightarrow> 'e peer_core \<Rightarrow> 'e moved" where
  "handle_msg F now mp c = (case mp of (msg, payload) \<Rightarrow>
     (case msg of
        Rts send_id dest_id nbytes meta overwrite eager \<Rightarrow> handle_rts F now send_id dest_id nbytes meta overwrite eager payload c
      | Chunk send_id seq _ landed \<Rightarrow> handle_chunk F now send_id seq landed payload c
      | DoneMsg send_id checksum \<Rightarrow> (handle_done F now send_id checksum c, None)
      | Cts send_id \<Rightarrow> clear_sender F now send_id None c
      | Addr send_id raddr rkey \<Rightarrow> clear_sender F now send_id (Some (raddr, rkey)) c
      | Nack send_id code \<Rightarrow>
          (case dget (pc_senders c) send_id of None \<Rightarrow> (c, None) | Some mach \<Rightarrow> handle_nack now mach code c)
      | DoneAck send_id \<Rightarrow>
          (case dget (pc_senders c) send_id of None \<Rightarrow> (c, None) | Some mach \<Rightarrow> finish_sender now mach Done None c)
      | UnknownMsg \<Rightarrow> (c, Some (ValueError ''unknown peer message kind''))))"

text \<open>One sender and one receiver of a tick; the loops run over the machines there are when they start.\<close>

definition tick_sender :: "'e peer_conf \<Rightarrow> time \<Rightarrow> string \<Rightarrow> 'e peer_core \<Rightarrow> 'e moved" where
  "tick_sender F now send_id c =
     (case dget (pc_senders c) send_id of
        None \<Rightarrow> (c, None)
      | Some mach \<Rightarrow>
          let t = sn_ticket mach;
              silent = (case sn_awaiting_ack_since mach of None \<Rightarrow> False | Some a \<Rightarrow> pf_inactivity_s F \<le> now - a);
              idle = (tk_state t = Negotiating \<and> sn_next_rts_at mach = 0)
          in if sn_next_rts_at mach \<noteq> 0 \<and> sn_next_rts_at mach \<le> now \<and> \<not> sn_cleared mach
             then (open_send now (mach\<lparr>sn_next_rts_at := 0\<rparr>) c, None)
             else if silent \<and> tk_state t = Committing
             then (if 1 \<le> sn_done_resends mach then finish_sender now mach Failed (Some ''TRANSFER_ABORTED no DONE_ACK'') c
                   else (set_sender (mach\<lparr>sn_done_resends := Suc (sn_done_resends mach), sn_awaiting_ack_since := Some now\<rparr>)
                          (send_msg (DoneMsg (tk_send_id t) (payload_checksum (sn_payload mach))) None c), None))
             else if silent \<and> idle then finish_sender now mach Failed (Some ''TRANSFER_ABORTED inactivity'') c
             else if pf_inactivity_s F \<le> now - sn_last_progress mach \<and> idle
             then finish_sender now mach Failed (Some ''TRANSFER_ABORTED inactivity'') c
             else (c, None))"

definition tick_receiver :: "'e peer_conf \<Rightarrow> time \<Rightarrow> string \<Rightarrow> 'e peer_core \<Rightarrow> 'e peer_core" where
  "tick_receiver F now send_id c =
     (case dget (pc_receivers c) send_id of
        None \<Rightarrow> c
      | Some mach \<Rightarrow>
          if rm_committing mach then c
          else if pf_inactivity_s F \<le> now - rm_last_progress mach then abort_receiver F mach ''inactivity'' c
          else c)"

fun tick_senders :: "'e peer_conf \<Rightarrow> time \<Rightarrow> string list \<Rightarrow> 'e peer_core \<Rightarrow> 'e moved" where
  "tick_senders F now [] c = (c, None)"
| "tick_senders F now (send_id # ids) c =
     (case tick_sender F now send_id c of
        (c, Some err) \<Rightarrow> (c, Some err)
      | (c, None) \<Rightarrow> tick_senders F now ids c)"

definition tick :: "'e peer_conf \<Rightarrow> time \<Rightarrow> 'e peer_core \<Rightarrow> 'e moved" where
  "tick F now c =
     (case tick_senders F now (dkeys (pc_senders c)) c of
        (c, Some err) \<Rightarrow> (c, Some err)
      | (c, None) \<Rightarrow> (fold (tick_receiver F now) (dkeys (pc_receivers c)) c, None))"

section \<open>Collective queue\<close>

record 'j collective_queue =
  cq_pending :: "'j list"
  cq_completed :: "'j list"

definition cq_post :: "'j \<Rightarrow> 'j collective_queue \<Rightarrow> 'j collective_queue" where
  "cq_post job q = q\<lparr>cq_pending := cq_pending q @ [job]\<rparr>"

definition cq_take :: "'j collective_queue \<Rightarrow> 'j option \<times> 'j collective_queue" where
  "cq_take q = (case cq_pending q of [] \<Rightarrow> (None, q) | job # rest \<Rightarrow> (Some job, q\<lparr>cq_pending := rest\<rparr>))"

definition cq_complete :: "'j \<Rightarrow> 'j collective_queue \<Rightarrow> 'j collective_queue" where
  "cq_complete job q = q\<lparr>cq_completed := cq_completed q @ [job]\<rparr>"

end
