(* ===== verification/Peer_Link.thy ===== *)
theory Peer_Link
  imports Peer_Core
begin

text \<open>
  A peer link over the store: \<open>StoreReceiverEnv\<close>, the queued commit and its landing of
  \<open>src/dataflow/service/peer/nm.py\<close> around the protocol of \<open>Peer_Core\<close>, without RDMA. A payload sent by one side
  ends as an object of the other; two flaws of the protocol are shown.
\<close>

section \<open>The embedder\<close>

record nm_env =
  nv_store :: store
  nv_quota :: int
  nv_held :: int
  nv_commits :: "(reservation \<times> (string, json) dict \<times> string) list"
  nv_parked :: "(reservation \<times> (string, json) dict \<times> string) list"

definition nm_try_reserve :: "nm_env \<Rightarrow> string \<Rightarrow> int \<Rightarrow> bool \<Rightarrow> (string + reservation) \<times> nm_env" where
  "nm_try_reserve e dest_id nbytes overwrite =
     (if nv_quota e < nv_held e + nbytes then (Inl ''CAPACITY'', e)
      else
        case reserve_inbound (nv_store e) dest_id nbytes overwrite of
          Inl code \<Rightarrow> (Inl code, e)
        | Inr (ext, s) \<Rightarrow>
            (Inr \<lparr>rv_dest_id = dest_id, rv_raddr = 0, rv_rkey = 0, rv_extent = ext,
                  rv_len = int (length (view_extent s ext nbytes)), rv_landed_zero_copy = False\<rparr>,
             e\<lparr>nv_store := s, nv_held := nv_held e + nbytes\<rparr>))"

definition nm_commit :: "nm_env \<Rightarrow> reservation \<Rightarrow> (string, json) dict \<Rightarrow> string \<Rightarrow> bool \<times> nm_env" where
  "nm_commit e res meta send_id = (False, e\<lparr>nv_commits := nv_commits e @ [(res, meta, send_id)]\<rparr>)"

definition nm_release :: "nm_env \<Rightarrow> reservation \<Rightarrow> nm_env" where
  "nm_release e res = e\<lparr>nv_store := release_raw (nv_store e) (rv_extent res), nv_held := max 0 (nv_held e - rv_len res)\<rparr>"

text \<open>Assigning to and reading the memoryview of a reservation.\<close>

definition nm_write :: "nm_env \<Rightarrow> reservation \<Rightarrow> int \<Rightarrow> byte list \<Rightarrow> nm_env res" where
  "nm_write e res lo data =
     (let a = clip (nat (rv_len res)) lo; b = clip (nat (rv_len res)) (lo + int (length data))
      in bindE (guardE (length data = b - a) (ValueError ''memoryview assignment: lvalue and rvalue have different structures'')) (\<lambda>_.
         bindE (fill_extent (nv_store e) (fst (rv_extent res) + int a, snd (rv_extent res)) (int (length data)) data) (\<lambda>s.
         Inr (e\<lparr>nv_store := s\<rparr>))))"

definition nm_read :: "nm_env \<Rightarrow> reservation \<Rightarrow> byte list" where
  "nm_read e res = view_extent (nv_store e) (rv_extent res) (rv_len res)"

definition nm_conf :: "int \<Rightarrow> time \<Rightarrow> nm_env peer_conf" where
  "nm_conf chunk_bytes inactivity_s =
     \<lparr>pf_try_reserve = nm_try_reserve, pf_commit = nm_commit, pf_release = nm_release, pf_write = nm_write, pf_read = nm_read,
      pf_chunk_bytes = chunk_bytes, pf_inactivity_s = inactivity_s, pf_rdma_writer = False\<rparr>"

lemma nm_conf_simps [simp]:
  "pf_try_reserve (nm_conf k t) = nm_try_reserve" "pf_commit (nm_conf k t) = nm_commit" "pf_release (nm_conf k t) = nm_release"
  "pf_write (nm_conf k t) = nm_write" "pf_read (nm_conf k t) = nm_read" "pf_chunk_bytes (nm_conf k t) = k"
  "pf_inactivity_s (nm_conf k t) = t" "pf_rdma_writer (nm_conf k t) = False"
  by (simp_all add: nm_conf_def)

text \<open>The dispatcher takes the first queued commit. One that is refused for a lease is parked, and queued again when a
  lease is released; any other refusal drops the receiver.\<close>

definition commit_refused :: "string \<Rightarrow> 'e peer_core \<Rightarrow> 'e peer_core" where
  "commit_refused send_id c = c\<lparr>pc_receivers := ddel send_id (pc_receivers c)\<rparr>"

definition commit_next :: "string \<Rightarrow> time \<Rightarrow> nm_env peer_core \<Rightarrow> nm_env peer_core" where
  "commit_next peer now c =
     (case nv_commits (pc_env c) of
        [] \<Rightarrow> c
      | (res, meta, send_id) # rest \<Rightarrow>
          let env = (pc_env c)\<lparr>nv_commits := rest\<rparr>
          in case adopt_inbound (nv_store env) (rv_dest_id res) (rv_extent res) (rv_len res) (Some meta) peer now of
               Inl err \<Rightarrow>
                 if err = ServiceError ''LEASED'' then c\<lparr>pc_env := env\<lparr>nv_parked := nv_parked env @ [(res, meta, send_id)]\<rparr>\<rparr>
                 else commit_refused send_id (c\<lparr>pc_env := env\<rparr>)
             | Inr (_, s) \<Rightarrow>
                 commit_done send_id (c\<lparr>pc_env := env\<lparr>nv_store := s, nv_held := max 0 (nv_held env - rv_len res)\<rparr>\<rparr>))"

definition unpark_commits :: "nm_env \<Rightarrow> nm_env" where
  "unpark_commits e = e\<lparr>nv_commits := nv_commits e @ nv_parked e, nv_parked := []\<rparr>"

text \<open>The link reader puts the bytes of a chunk that is due straight into the reservation and hands the core its
  length; of any other chunk the core gets the bare header. An empty payload is none.\<close>

definition land_chunk ::
  "'e peer_conf \<Rightarrow> time \<Rightarrow> string \<Rightarrow> int \<Rightarrow> bool \<Rightarrow> int option \<Rightarrow> byte list \<Rightarrow> 'e peer_core \<Rightarrow> 'e moved" where
  "land_chunk F now send_id seq final landed data c =
     (case dget (pc_receivers c) send_id of
        None \<Rightarrow> handle_msg F now (Chunk send_id seq final landed, Some []) c
      | Some mach \<Rightarrow>
          if seq = rm_next_seq mach \<and> \<not> rm_committing mach \<and> rm_received mach + int (length data) \<le> rm_expect_bytes mach
          then (case pf_write F (pc_env c) (rm_res mach) (rm_received mach) data of
                  Inl err \<Rightarrow> (c, Some err)
                | Inr e \<Rightarrow> handle_msg F now (Chunk send_id seq final (Some (int (length data))), None) (c\<lparr>pc_env := e\<rparr>))
          else handle_msg F now (Chunk send_id seq final landed, Some []) c)"

definition receive_msg :: "'e peer_conf \<Rightarrow> time \<Rightarrow> peer_msg \<times> byte list option \<Rightarrow> 'e peer_core \<Rightarrow> 'e moved" where
  "receive_msg F now m c =
     (case m of
        (Chunk send_id seq final landed, Some (d # ds)) \<Rightarrow> land_chunk F now send_id seq final landed (d # ds) c
      | (msg, Some []) \<Rightarrow> handle_msg F now (msg, None) c
      | _ \<Rightarrow> handle_msg F now m c)"

fun handle_all :: "'e peer_conf \<Rightarrow> time \<Rightarrow> (peer_msg \<times> byte list option) list \<Rightarrow> 'e peer_core \<Rightarrow> 'e moved" where
  "handle_all F now [] c = (c, None)"
| "handle_all F now (m # ms) c =
     (case receive_msg F now m c of
        (c, Some err) \<Rightarrow> (c, Some err)
      | (c, None) \<Rightarrow> handle_all F now ms c)"

lemma accept_rts_empty: "accept_rts F now mach eager (Some []) c = accept_rts F now mach eager None c"
  by (simp add: accept_rts_def)

lemma receive_other [simp]:
  "receive_msg F now (Rts i dest n meta ov eager, pl) c = handle_msg F now (Rts i dest n meta ov eager, pl) c"
  "receive_msg F now (DoneMsg i ck, pl) c = handle_msg F now (DoneMsg i ck, pl) c"
  "receive_msg F now (Cts i, pl) c = handle_msg F now (Cts i, pl) c"
  "receive_msg F now (DoneAck i, pl) c = handle_msg F now (DoneAck i, pl) c"
  by (auto simp: receive_msg_def handle_msg_def handle_rts_def accept_rts_empty split: option.splits list.splits prod.splits sum.splits)

section \<open>Landing of a chunked payload\<close>

locale landing_zone =
  fixes F :: "'e peer_conf"
    and owned :: "'e \<Rightarrow> reservation \<Rightarrow> bool"
    and same :: "'e \<Rightarrow> 'e \<Rightarrow> bool"
  assumes write_ok: "\<lbrakk>owned e r; 0 \<le> lo; lo + int (length d) \<le> int (length (pf_read F e r))\<rbrakk> \<Longrightarrow>
      \<exists>e'. pf_write F e r lo d = Inr e' \<and> owned e' r \<and> same e e' \<and>
        pf_read F e' r = take (nat lo) (pf_read F e r) @ d @ drop (nat lo + length d) (pf_read F e r)"
    and flag_owned: "owned e (r\<lparr>rv_landed_zero_copy := z\<rparr>) = owned e r"
    and flag_read: "pf_read F e (r\<lparr>rv_landed_zero_copy := z\<rparr>) = pf_read F e r"
    and same_refl: "same e e"
    and same_trans: "same e e' \<Longrightarrow> same e' e'' \<Longrightarrow> same e e''"
begin

text \<open>A receiver that has taken \<open>pre\<close>; handling chunks changes the embedder's buffer and the receiver only.\<close>

definition landing :: "string \<Rightarrow> nat \<Rightarrow> byte list \<Rightarrow> byte list \<Rightarrow> receiver_machine \<Rightarrow> 'e peer_core \<Rightarrow> bool" where
  "landing i seq pre rest mach c \<longleftrightarrow> dget (pc_receivers c) i = Some mach \<and> rm_send_id mach = i \<and> owned (pc_env c) (rm_res mach) \<and>
     rm_next_seq mach = int seq \<and> rm_received mach = int (length pre) \<and> pf_read F (pc_env c) (rm_res mach) = pre @ rest \<and>
     \<not> rm_committing mach \<and> rm_expect_bytes mach = int (length (pre @ rest))"

definition landed :: "receiver_machine \<Rightarrow> 'e peer_core \<Rightarrow> receiver_machine \<Rightarrow> 'e peer_core \<Rightarrow> bool" where
  "landed mach c mach' c' \<longleftrightarrow> (\<exists>e d. c' = c\<lparr>pc_env := e, pc_receivers := d\<rparr> \<and> same (pc_env c) e) \<and>
     (\<exists>z. rm_res mach' = (rm_res mach)\<lparr>rv_landed_zero_copy := z\<rparr>) \<and> rm_meta mach' = rm_meta mach"

lemma landed_refl: "landed mach c mach c"
proof -
  have "c = c\<lparr>pc_env := pc_env c, pc_receivers := pc_receivers c\<rparr>" by simp
  moreover have "rm_res mach = (rm_res mach)\<lparr>rv_landed_zero_copy := rv_landed_zero_copy (rm_res mach)\<rparr>" by simp
  ultimately show ?thesis unfolding landed_def using same_refl by blast
qed

lemma landed_trans: "landed m c m1 c1 \<Longrightarrow> landed m1 c1 m2 c2 \<Longrightarrow> landed m c m2 c2"
  unfolding landed_def by (elim conjE exE) (auto intro: same_trans exI)

text \<open>One chunk in sequence that fits.\<close>

lemma chunk_lands:
  assumes "landing i seq pre rest mach c" and "length d \<le> length rest"
  obtains mach' c' where "receive_msg F now (Chunk i (int seq) b None, Some d) c = (c', None)"
    and "landing i (Suc seq) (pre @ d) (drop (length d) rest) mach' c'" and "landed mach c mach' c'"
proof -
  let ?m = "\<lambda>z. mach\<lparr>rm_res := (rm_res mach)\<lparr>rv_landed_zero_copy := z\<rparr>, rm_received := rm_received mach + int (length d),
      rm_next_seq := rm_next_seq mach + 1, rm_last_progress := now\<rparr>"
  have l: "dget (pc_receivers c) i = Some mach" "rm_send_id mach = i" "owned (pc_env c) (rm_res mach)" "rm_next_seq mach = int seq"
      "rm_received mach = int (length pre)" "pf_read F (pc_env c) (rm_res mach) = pre @ rest"
      "\<not> rm_committing mach" "rm_expect_bytes mach = int (length (pre @ rest))"
    using assms(1) by (simp_all add: landing_def)
  obtain e where e: "pf_write F (pc_env c) (rm_res mach) (int (length pre)) d = Inr e" "owned e (rm_res mach)" "same (pc_env c) e"
      "pf_read F e (rm_res mach) = pre @ d @ drop (length d) rest"
    using write_ok [OF l(3), of "int (length pre)" d] l(6) assms(2) by auto
  obtain z where z: "receive_msg F now (Chunk i (int seq) b None, Some d) c = (set_receiver (?m z) (c\<lparr>pc_env := e\<rparr>), None)"
  proof (cases d)
    case Nil
    then show thesis using l e(1) that [of "rv_landed_zero_copy (rm_res mach)"]
      by (simp add: receive_msg_def handle_msg_def handle_chunk_def)
  next
    case (Cons x xs)
    then show thesis using l e(1) assms(2) that [of True]
      by (simp add: receive_msg_def land_chunk_def handle_msg_def handle_chunk_def)
  qed
  show thesis
  proof (rule that [OF z])
    show "landing i (Suc seq) (pre @ d) (drop (length d) rest) (?m z) (set_receiver (?m z) (c\<lparr>pc_env := e\<rparr>))"
      using l e(2,4) assms(2) by (simp add: landing_def flag_owned flag_read)
    show "landed mach c (?m z) (set_receiver (?m z) (c\<lparr>pc_env := e\<rparr>))"
      using e(3) unfolding landed_def by auto
  qed
qed

lemma chunks_land:
  assumes "landing i seq pre rest mach c" and "length (concat parts) \<le> length rest"
  shows "\<exists>mach' c'. handle_all F now (map (\<lambda>(k, d). (Chunk i (int k) (f k) None, Some d)) (enumerate seq parts)) c = (c', None) \<and>
    landing i (seq + length parts) (pre @ concat parts) (drop (length (concat parts)) rest) mach' c' \<and> landed mach c mach' c'"
  using assms
proof (induction parts arbitrary: seq pre rest mach c)
  case Nil
  then show ?case using landed_refl by auto
next
  case (Cons d parts)
  have "length d \<le> length rest" using Cons.prems(2) by simp
  then obtain m1 c1 where one: "receive_msg F now (Chunk i (int seq) (f seq) None, Some d) c = (c1, None)"
    and l1: "landing i (Suc seq) (pre @ d) (drop (length d) rest) m1 c1" and x1: "landed mach c m1 c1"
    using chunk_lands [OF Cons.prems(1)] by metis
  have "length (concat parts) \<le> length (drop (length d) rest)" using Cons.prems(2) by simp
  from Cons.IH [OF l1 this] obtain m2 c2 where "handle_all F now (map (\<lambda>(k, d). (Chunk i (int k) (f k) None, Some d)) (enumerate (Suc seq) parts)) c1 = (c2, None)"
    and "landing i (Suc seq + length parts) ((pre @ d) @ concat parts) (drop (length (concat parts)) (drop (length d) rest)) m2 c2"
    and "landed m1 c1 m2 c2" by blast
  with one landed_trans [OF x1] show ?case by (auto simp: drop_drop add.commute)
qed

text \<open>All bytes are there: the final message commits.\<close>

lemma done_commits:
  assumes "landing i seq p [] mach c" and "rv_raddr (rm_res mach) = 0"
    and "i \<notin> set (pc_completed c)"
  shows "handle_msg F now (DoneMsg i (payload_checksum p), None) c = (finish_commit F now mach c, None)"
  using assms by (simp add: landing_def handle_msg_def handle_done_def Let_def)

end

lemma concat_chunks: "0 < k \<Longrightarrow> concat (chunks k data) = data"
proof (induction k data rule: chunks.induct)
  case (1 k data)
  then show ?case by (subst chunks.simps) auto
qed

text \<open>The embedder's laws: a reservation owns its extent in a store that is well formed.\<close>

definition nm_owned :: "extent multiset \<Rightarrow> nm_env \<Rightarrow> reservation \<Rightarrow> bool" where
  "nm_owned out e r \<longleftrightarrow> store_inv (nv_store e) (add_mset (rv_extent r) out) \<and> 0 \<le> rv_len r \<and> rv_len r \<le> snd (rv_extent r)"

definition nm_same :: "nm_env \<Rightarrow> nm_env \<Rightarrow> bool" where
  "nm_same e e' \<longleftrightarrow> (\<exists>bs. e' = e\<lparr>nv_store := (nv_store e)\<lparr>so_bytes := bs\<rparr>\<rparr>) \<and> contents (nv_store e') = contents (nv_store e)"

lemma nm_read_length: "nm_owned out e r \<Longrightarrow> int (length (nm_read e r)) = rv_len r"
  using view_extent_length [of "nv_store e" "add_mset (rv_extent r) out" "rv_extent r" "rv_len r"]
  by (simp add: nm_owned_def nm_read_def)

lemma nm_write_ok:
  assumes own: "nm_owned out e r" and lo: "0 \<le> lo" and len: "lo + int (length d) \<le> int (length (nm_read e r))"
  shows "\<exists>e'. nm_write e r lo d = Inr e' \<and> nm_owned out e' r \<and> nm_same e e' \<and>
    nm_read e' r = take (nat lo) (nm_read e r) @ d @ drop (nat lo + length d) (nm_read e r)"
proof -
  let ?s = "nv_store e" and ?x = "rv_extent r"
  have inv: "store_inv ?s (add_mset ?x out)" and r: "0 \<le> rv_len r" "rv_len r \<le> snd ?x" using own by (simp_all add: nm_owned_def)
  have fit: "lo + int (length d) \<le> rv_len r" using len nm_read_length [OF own] by simp
  have clips: "clip (nat (rv_len r)) lo = nat lo" "clip (nat (rv_len r)) (lo + int (length d)) = nat lo + length d"
    using lo fit r(1) by (simp_all add: clip_def nat_add_distrib)
  have H: "held ?s + add_mset ?x out = add_mset ?x (held ?s + out)" by simp
  obtain bs where bs: "fill_extent ?s (fst ?x + lo, snd ?x) (int (length d)) d = Inr (?s\<lparr>so_bytes := bs\<rparr>)" "length bs = length (so_bytes ?s)"
      "view_extent (?s\<lparr>so_bytes := bs\<rparr>) ?x (rv_len r) =
        take (nat lo) (view_extent ?s ?x (rv_len r)) @ d @ drop (nat lo + length d) (view_extent ?s ?x (rv_len r))"
    and rest: "\<And>k n. k \<in># held ?s + out \<Longrightarrow> 0 \<le> n \<Longrightarrow> n \<le> snd k \<Longrightarrow> view_extent (?s\<lparr>so_bytes := bs\<rparr>) k n = view_extent ?s k n"
    using fill_part_ok [OF inv H lo fit r(2)] by metis
  have "vals st_extent (so_objects ?s) \<subseteq># held ?s + out" by (simp add: held_def)
  from contents_kept [OF inv this rest] have "contents (?s\<lparr>so_bytes := bs\<rparr>) = contents ?s" by blast
  moreover have "store_inv (?s\<lparr>so_bytes := bs\<rparr>) (add_mset ?x out)" by (rule store_inv_bytes [OF inv bs(2)])
  ultimately show ?thesis using bs lo r by (auto simp: nm_write_def clips Let_def nm_owned_def nm_same_def nm_read_def)
qed

interpretation nm: landing_zone "nm_conf k t" "nm_owned out" nm_same for k t out
proof
  fix e e' e'' :: nm_env
  show "nm_same e e" unfolding nm_same_def by (auto intro: exI [of _ "so_bytes (nv_store e)"])
  show "nm_same e e' \<Longrightarrow> nm_same e' e'' \<Longrightarrow> nm_same e e''" unfolding nm_same_def by (elim conjE exE) auto
qed (use nm_write_ok in \<open>simp_all add: nm_owned_def nm_read_def\<close>)

section \<open>A whole transfer\<close>

text \<open>The messages a side sent since; and the rounds of a transfer from \<open>a\<close> to \<open>b\<close>, the commit run by the
  dispatcher before the last one, with the exceptions raised.\<close>

definition fresh_msgs :: "'e peer_core \<Rightarrow> 'e peer_core \<Rightarrow> (peer_msg \<times> byte list option) list" where
  "fresh_msgs c c' = drop (length (pc_sent c)) (pc_sent c')"

definition rendezvous ::
  "nm_env peer_conf \<Rightarrow> string \<Rightarrow> time \<Rightarrow> string \<Rightarrow> byte list \<Rightarrow> bool \<Rightarrow> (string, json) dict option \<Rightarrow> nm_env peer_core \<Rightarrow> nm_env peer_core \<Rightarrow>
   nm_env peer_core \<times> nm_env peer_core \<times> err option list" where
  "rendezvous F peer now dest payload overwrite meta a b =
     (let a1 = start_send now dest payload overwrite meta a;
          (b1, e1) = handle_all F now (fresh_msgs a a1) b;
          (a2, e2) = handle_all F now (fresh_msgs b b1) a1;
          (b2, e3) = handle_all F now (fresh_msgs a1 a2) b1;
          b3 = commit_next peer now b2;
          (a3, e4) = handle_all F now (fresh_msgs b1 b3) a2
      in (a3, b3, [e1, e2, e3, e4]))"

definition next_id :: "'e peer_core \<Rightarrow> string" where
  "next_id c = ''s'' @ show_nat (Suc (pc_seq c))"

text \<open>A sender that is alone in the queue of its destination.\<close>

definition sending :: "string \<Rightarrow> string \<Rightarrow> byte list \<Rightarrow> sender_machine \<Rightarrow> 'e peer_core \<Rightarrow> bool" where
  "sending i dest p mach c \<longleftrightarrow> dget (pc_senders c) i = Some mach \<and> sn_payload mach = p \<and> tk_send_id (sn_ticket mach) = i \<and>
     tk_dest_id (sn_ticket mach) = dest \<and> dget_or (pc_dest_queues c) dest [] = [i]"

lemma send_starts:
  assumes "dget_or (pc_dest_queues a) dest [] = []"
  obtains mach where "sending (next_id a) dest p mach (start_send now dest p ov meta a)" and "\<not> sn_cleared mach"
    and "fresh_msgs a (start_send now dest p ov meta a) =
      [(Rts (next_id a) dest (int (length p)) (case meta of None \<Rightarrow> [] | Some m \<Rightarrow> m) ov (int (length p) \<le> EAGER_MAX_BYTES),
        if int (length p) \<le> EAGER_MAX_BYTES then Some p else None)]"
    and "pc_finished (start_send now dest p ov meta a) = pc_finished a"
  using assms that by (cases "int (length p) \<le> EAGER_MAX_BYTES")
    (fastforce simp: start_send_def Let_def next_id_def dappend_def open_send_def send_msg_def sending_def fresh_msgs_def)+

lemma clearance_sends:
  assumes "sending i dest p mach a" and "\<not> sn_cleared mach" and "0 < k" and "p \<noteq> []"
  obtains mach' a' where "handle_msg (nm_conf k t) now (Cts i, None) a = (a', None)" and "sending i dest p mach' a'"
    and "fresh_msgs a a' = chunk_msgs i k p @ [(DoneMsg i (payload_checksum p), None)]" and "pc_finished a' = pc_finished a"
  using assms that
  by (fastforce simp: sending_def handle_msg_def clear_sender_def Let_def handle_clearance_def send_msg_def fresh_msgs_def)

lemma ack_finishes:
  assumes "sending i dest p mach a"
  obtains a' where "handle_msg F now (DoneAck i, None) a = (a', None)" and "dget (pc_senders a') i = None"
    and "map tk_state (pc_finished a') = map tk_state (pc_finished a) @ [Done]"
  using assms that by (fastforce simp: sending_def handle_msg_def finish_sender_def Let_def)

text \<open>The receiver: the reservation, the landing, the queued commit.\<close>

definition unleased :: "nm_env \<Rightarrow> string \<Rightarrow> bool" where
  "unleased e dest \<longleftrightarrow> (case dget (so_objects (nv_store e)) dest of None \<Rightarrow> True | Some old \<Rightarrow> st_lease_refs old = 0)"

definition granted :: "extent multiset \<Rightarrow> string \<Rightarrow> int \<Rightarrow> catalog \<Rightarrow> reservation \<Rightarrow> nm_env \<Rightarrow> bool" where
  "granted out dest n M res e \<longleftrightarrow> nm_owned out e res \<and> rv_raddr res = 0 \<and> rv_dest_id res = dest \<and> rv_len res = n \<and>
     contents (nv_store e) = M \<and> unleased e dest"

lemma reserve_grants:
  assumes inv: "store_inv (nv_store e) out" and n: "0 \<le> n" and tr: "nm_try_reserve e dest n ov = (Inr res, e1)"
  shows "granted out dest n (contents (nv_store e)) res e1" and "nv_commits e1 = nv_commits e"
proof -
  obtain ext s where r: "reserve_inbound (nv_store e) dest n ov = Inr (ext, s)"
    and e1: "e1 = e\<lparr>nv_store := s, nv_held := nv_held e + n\<rparr>"
    and res: "res = \<lparr>rv_dest_id = dest, rv_raddr = 0, rv_rkey = 0, rv_extent = ext,
        rv_len = int (length (view_extent s ext n)), rv_landed_zero_copy = False\<rparr>"
    using tr by (auto simp: nm_try_reserve_def split: if_splits sum.splits)
  obtain a where a: "alloc_extent (so_alloc (nv_store e)) n = Inr (ext, a)" "s = (nv_store e)\<lparr>so_alloc := a\<rparr>"
    and free: "unleased e dest"
    using r by (auto simp: reserve_inbound_def Let_def unleased_def split: option.splits sum.splits if_splits)
  have inv': "store_inv s (add_mset ext out)" using alloc_raw_ok [OF inv n a(1)] a(2) by simp
  have "free_ok (so_alloc (nv_store e))" using inv by (simp add: store_inv_def store_slab.holds_def)
  then have fits: "n \<le> snd ext" using alloc_extent_spec [OF a(1) _ n] by blast
  have len: "int (length (view_extent s ext n)) = n" using view_extent_length [OF inv' _ n fits] by simp
  show "granted out dest n (contents (nv_store e)) res e1" "nv_commits e1 = nv_commits e"
    using inv' fits n free unfolding granted_def nm_owned_def res e1 by (simp_all add: len [unfolded a(2)] a(2) unleased_def)
qed

lemma same_granted: "granted out dest n M res e \<Longrightarrow> nm_same e e' \<Longrightarrow> nm_owned out e' res \<Longrightarrow> granted out dest n M res e'"
  by (auto simp: granted_def nm_same_def unleased_def)

definition queued :: "extent multiset \<Rightarrow> string \<Rightarrow> string \<Rightarrow> byte list \<Rightarrow> catalog \<Rightarrow> nm_env peer_core \<Rightarrow> bool" where
  "queued out i dest p M c \<longleftrightarrow> dget (pc_receivers c) i \<noteq> None \<and>
     (\<exists>res meta. nv_commits (pc_env c) = [(res, meta, i)] \<and> nm_read (pc_env c) res = p \<and>
       granted out dest (int (length p)) M res (pc_env c))"

lemma commit_queued:
  assumes "granted out dest (int (length p)) M (rm_res mach) (pc_env c)" and "nm_read (pc_env c) (rm_res mach) = p"
    and "nv_commits (pc_env c) = []" and "rm_send_id mach = i"
  shows "queued out i dest p M (finish_commit (nm_conf k t) now mach c)" and "pc_sent (finish_commit (nm_conf k t) now mach c) = pc_sent c"
  using assms by (simp_all add: finish_commit_def Let_def nm_commit_def queued_def granted_def nm_owned_def nm_read_def unleased_def)

lemma commit_lands:
  assumes q: "queued out i dest p M c"
  obtains c' where "commit_next peer now c = c'" and "contents (nv_store (pc_env c')) = M(dest \<mapsto> p)" and "dget (pc_receivers c') i = None"
    and "pc_sent c' = pc_sent c @ [(DoneAck i, None)]" and "store_inv (nv_store (pc_env c')) out"
proof -
  obtain res meta where com: "nv_commits (pc_env c) = [(res, meta, i)]" and rd: "nm_read (pc_env c) res = p"
    and g: "granted out dest (int (length p)) M res (pc_env c)" and rc: "dget (pc_receivers c) i \<noteq> None"
    using q by (auto simp: queued_def)
  let ?s = "nv_store (pc_env c)"
  have inv: "store_inv ?s (add_mset (rv_extent res) out)" and len: "0 \<le> rv_len res" "rv_len res \<le> snd (rv_extent res)"
    using g by (simp_all add: granted_def nm_owned_def)
  obtain rec s' where ad: "adopt_inbound ?s dest (rv_extent res) (rv_len res) (Some meta) peer now = Inr (rec, s')"
    using g by (auto simp: granted_def unleased_def adopt_inbound_def Let_def split: option.splits)
  from adopt_ok [OF inv len ad] have s': "store_inv s' out" "contents s' = M(dest \<mapsto> p)"
    using g rd by (simp_all add: granted_def nm_read_def)
  show thesis using that ad com rc s' g
    by (auto simp: commit_next_def granted_def commit_done_def remember_completed_def send_msg_def Let_def)
qed

lemma handle_all_append:
  "handle_all F now (ms @ ns) c = (case handle_all F now ms c of (c, None) \<Rightarrow> handle_all F now ns c | (c, Some e) \<Rightarrow> (c, Some e))"
  by (induction ms arbitrary: c) (auto split: prod.splits option.splits)

text \<open>A small payload rides in the request; a large one is cleared first.\<close>

lemma eager_queued:
  assumes inv: "store_inv (nv_store (pc_env b)) out" and tr: "nm_try_reserve (pc_env b) dest (int (length p)) ov = (Inr res, e1)"
    and new: "i \<notin> set (pc_completed b)" "dget (pc_receivers b) i = None" "nv_commits (pc_env b) = []"
  obtains b1 where "handle_msg (nm_conf k t) now (Rts i dest (int (length p)) meta ov True, Some p) b = (b1, None)"
    and "queued out i dest p (contents (nv_store (pc_env b))) b1" and "pc_sent b1 = pc_sent b"
proof -
  let ?M = "contents (nv_store (pc_env b))"
  let ?m = "\<lparr>rm_send_id = i, rm_res = res, rm_meta = meta, rm_expect_bytes = int (length p), rm_next_seq = 0, rm_received = 0,
      rm_last_progress = now, rm_committing = False\<rparr>"
  have g: "granted out dest (int (length p)) ?M res e1" and com: "nv_commits e1 = []"
    using reserve_grants [OF inv _ tr] new(3) by simp_all
  then have own: "nm_owned out e1 res" by (simp add: granted_def)
  have n: "length (nm_read e1 res) = length p" using nm_read_length [OF own] g by (simp add: granted_def)
  obtain e2 where e2: "nm_write e1 res 0 p = Inr e2" "nm_owned out e2 res" "nm_same e1 e2" "nm_read e2 res = p"
    using nm_write_ok [OF own, of 0 p] n by auto
  have "nv_commits e2 = []" using e2(3) com by (auto simp: nm_same_def)
  with same_granted [OF g e2(3,2)] e2(4)
  have "queued out i dest p ?M (finish_commit (nm_conf k t) now ?m (set_receiver ?m (b\<lparr>pc_env := e2\<rparr>)))"
    and "pc_sent (finish_commit (nm_conf k t) now ?m (set_receiver ?m (b\<lparr>pc_env := e2\<rparr>))) = pc_sent b"
    by (simp_all add: commit_queued)
  moreover have "handle_msg (nm_conf k t) now (Rts i dest (int (length p)) meta ov True, Some p) b =
      (finish_commit (nm_conf k t) now ?m (set_receiver ?m (b\<lparr>pc_env := e2\<rparr>)), None)"
    using new tr e2(1) g by (simp add: handle_msg_def handle_rts_def accept_rts_def Let_def granted_def)
  ultimately show thesis using that by blast
qed

lemma large_cleared:
  assumes inv: "store_inv (nv_store (pc_env b)) out" and tr: "nm_try_reserve (pc_env b) dest (int (length p)) ov = (Inr res, e1)"
    and new: "i \<notin> set (pc_completed b)" "dget (pc_receivers b) i = None" "nv_commits (pc_env b) = []" and k: "0 < k"
  obtains b1 b2 where "handle_msg (nm_conf k t) now (Rts i dest (int (length p)) meta ov False, None) b = (b1, None)"
    and "pc_sent b1 = pc_sent b @ [(Cts i, None)]"
    and "handle_all (nm_conf k t) now (chunk_msgs i k p @ [(DoneMsg i (payload_checksum p), None)]) b1 = (b2, None)"
    and "queued out i dest p (contents (nv_store (pc_env b))) b2" and "pc_sent b2 = pc_sent b1"
    and "\<And>later. \<exists>mach. rm_send_id mach = i \<and> fst (hd (nv_commits (pc_env b2))) = rm_res mach \<and>
      handle_msg (nm_conf k t) later (DoneMsg i (payload_checksum p), None) b2 = (finish_commit (nm_conf k t) later mach b2, None)"
proof -
  let ?M = "contents (nv_store (pc_env b))"
  let ?m = "\<lparr>rm_send_id = i, rm_res = res, rm_meta = meta, rm_expect_bytes = int (length p), rm_next_seq = 0, rm_received = 0,
      rm_last_progress = now, rm_committing = False\<rparr>"
  let ?b1 = "send_msg (Cts i) None (set_receiver ?m (b\<lparr>pc_env := e1\<rparr>))"
  have g: "granted out dest (int (length p)) ?M res e1" and com: "nv_commits e1 = []"
    using reserve_grants [OF inv _ tr] new(3) by simp_all
  then have own: "nm_owned out e1 res" by (simp add: granted_def)
  have n: "length (nm_read e1 res) = length p" using nm_read_length [OF own] g by (simp add: granted_def)
  have first: "handle_msg (nm_conf k t) now (Rts i dest (int (length p)) meta ov False, None) b = (?b1, None)"
    using new tr g by (simp add: handle_msg_def handle_rts_def accept_rts_def Let_def granted_def)
  have l0: "landing_zone.landing (nm_conf k t) (nm_owned out) i 0 [] (nm_read e1 res) ?m ?b1"
    using own n by (simp add: nm.landing_def send_msg_def)
  have cat: "concat (chunks (nat k) p) = p" using k by (simp add: concat_chunks)
  from nm.chunks_land [OF l0, of "chunks (nat k) p" now "\<lambda>j. Suc j = length (chunks (nat k) p)"] n cat
  obtain m2 c2 where all: "handle_all (nm_conf k t) now (chunk_msgs i k p) ?b1 = (c2, None)"
    and l2: "landing_zone.landing (nm_conf k t) (nm_owned out) i (length (chunks (nat k) p)) p [] m2 c2"
    and x2: "landing_zone.landed nm_same ?m ?b1 m2 c2"
    by (auto simp: chunk_msgs_def Let_def)
  have c2: "pc_completed c2 = pc_completed b" "pc_sent c2 = pc_sent ?b1" "nm_same e1 (pc_env c2)"
    using x2 by (auto simp: nm.landed_def send_msg_def)
  have g2: "granted out dest (int (length p)) ?M (rm_res m2) e1"
    using x2 g by (auto simp: nm.landed_def granted_def nm_owned_def)
  then have "rv_raddr (rm_res m2) = 0" by (simp add: granted_def)
  from nm.done_commits [OF l2 this] c2 new(1)
  have fin: "handle_msg (nm_conf k t) now (DoneMsg i (payload_checksum p), None) c2 = (finish_commit (nm_conf k t) now m2 c2, None)" by simp
  have "nm_owned out (pc_env c2) (rm_res m2)" "nm_read (pc_env c2) (rm_res m2) = p" "rm_send_id m2 = i"
    using l2 by (auto simp: nm.landing_def)
  moreover have "nv_commits (pc_env c2) = []" using c2(3) com by (auto simp: nm_same_def)
  ultimately have "queued out i dest p ?M (finish_commit (nm_conf k t) now m2 c2)" "pc_sent (finish_commit (nm_conf k t) now m2 c2) = pc_sent ?b1"
    using same_granted [OF g2 c2(3)] c2(2) by (simp_all add: commit_queued)
  moreover have "handle_all (nm_conf k t) now (chunk_msgs i k p @ [(DoneMsg i (payload_checksum p), None)]) ?b1 =
      (finish_commit (nm_conf k t) now m2 c2, None)"
    by (simp only: handle_all_append all prod.case option.case) (simp add: fin)
  moreover have "pc_sent ?b1 = pc_sent b @ [(Cts i, None)]" by (simp add: send_msg_def)
  moreover have "\<exists>mach. rm_send_id mach = i \<and> fst (hd (nv_commits (pc_env (finish_commit (nm_conf k t) now m2 c2)))) = rm_res mach \<and>
      handle_msg (nm_conf k t) later (DoneMsg i (payload_checksum p), None) (finish_commit (nm_conf k t) now m2 c2) =
        (finish_commit (nm_conf k t) later mach (finish_commit (nm_conf k t) now m2 c2), None)" for later
    using l2 c2 new(1) g2 com
    by (intro exI [of _ "m2\<lparr>rm_committing := True, rm_last_progress := now\<rparr>"])
      (auto simp: finish_commit_def Let_def nm_commit_def handle_msg_def handle_done_def nm.landing_def granted_def nm_read_def nm_same_def)
  ultimately show thesis using that first by blast
qed

text \<open>The rounds up to the queued commit.\<close>

lemma transfer_rounds:
  fixes a b :: "nm_env peer_core"
  assumes inv: "store_inv (nv_store (pc_env b)) out" and k: "0 < k" and q: "dget_or (pc_dest_queues a) dest [] = []"
    and new: "next_id a \<notin> set (pc_completed b)" "dget (pc_receivers b) (next_id a) = None" "nv_commits (pc_env b) = []"
    and tr: "nm_try_reserve (pc_env b) dest (int (length p)) ov = (Inr res, e1)"
  obtains b1 a2 b2 m2 where "handle_all (nm_conf k t) now (fresh_msgs a (start_send now dest p ov meta a)) b = (b1, None)"
    and "handle_all (nm_conf k t) now (fresh_msgs b b1) (start_send now dest p ov meta a) = (a2, None)"
    and "handle_all (nm_conf k t) now (fresh_msgs (start_send now dest p ov meta a) a2) b1 = (b2, None)"
    and "queued out (next_id a) dest p (contents (nv_store (pc_env b))) b2" and "pc_sent b2 = pc_sent b1"
    and "sending (next_id a) dest p m2 a2" and "pc_finished a2 = pc_finished a"
proof -
  let ?i = "next_id a" and ?F = "nm_conf k t" and ?M = "contents (nv_store (pc_env b))" and ?a1 = "start_send now dest p ov meta a"
  obtain m1 where s1: "sending ?i dest p m1 ?a1" "\<not> sn_cleared m1" "pc_finished ?a1 = pc_finished a"
    and rts: "fresh_msgs a ?a1 = [(Rts ?i dest (int (length p)) (case meta of None \<Rightarrow> [] | Some m \<Rightarrow> m) ov (int (length p) \<le> EAGER_MAX_BYTES),
        if int (length p) \<le> EAGER_MAX_BYTES then Some p else None)]"
    using send_starts [OF q] by metis
  show thesis
  proof (cases "int (length p) \<le> EAGER_MAX_BYTES")
    case True
    obtain b1 where "handle_msg ?F now (Rts ?i dest (int (length p)) (case meta of None \<Rightarrow> [] | Some m \<Rightarrow> m) ov True, Some p) b = (b1, None)"
      and "queued out ?i dest p ?M b1" and "pc_sent b1 = pc_sent b"
      using eager_queued [OF inv tr new] by metis
    then show ?thesis using True rts s1 by (intro that [of b1 ?a1 b1 m1]) (auto simp: fresh_msgs_def)
  next
    case False
    then have "p \<noteq> []" by (auto simp: EAGER_MAX_BYTES_def)
    obtain m2 a2 where a2: "handle_msg ?F now (Cts ?i, None) ?a1 = (a2, None)" "sending ?i dest p m2 a2"
      "fresh_msgs ?a1 a2 = chunk_msgs ?i k p @ [(DoneMsg ?i (payload_checksum p), None)]" "pc_finished a2 = pc_finished ?a1"
      using clearance_sends [OF s1(1,2) k \<open>p \<noteq> []\<close>] by metis
    obtain b1 b2 where b: "handle_msg ?F now (Rts ?i dest (int (length p)) (case meta of None \<Rightarrow> [] | Some m \<Rightarrow> m) ov False, None) b = (b1, None)"
      "pc_sent b1 = pc_sent b @ [(Cts ?i, None)]"
      "handle_all ?F now (chunk_msgs ?i k p @ [(DoneMsg ?i (payload_checksum p), None)]) b1 = (b2, None)"
      "queued out ?i dest p ?M b2" "pc_sent b2 = pc_sent b1"
      using large_cleared [OF inv tr new k] by metis
    have "fresh_msgs b b1 = [(Cts ?i, None)]" using b(2) by (simp add: fresh_msgs_def)
    then show ?thesis using False rts s1 a2 b by (intro that [of b1 a2 b2 m2]) auto
  qed
qed

section \<open>Bounds\<close>

text \<open>The events of a core: sends, messages of any kind in any order, ticks, and the embedder's callbacks.\<close>

inductive peer_reach :: "'e peer_conf \<Rightarrow> 'e peer_core \<Rightarrow> bool" for F where
  fresh: "peer_reach F (new_core e)"
| start: "peer_reach F c \<Longrightarrow> peer_reach F (start_send now dest p ov meta c)"
| message: "peer_reach F c \<Longrightarrow> peer_reach F (fst (handle_msg F now m c))"
| ticked: "peer_reach F c \<Longrightarrow> peer_reach F (fst (tick F now c))"
| landed: "peer_reach F c \<Longrightarrow> peer_reach F (commit_done i c)"
| written: "peer_reach F c \<Longrightarrow> dget (pc_senders c) i = Some mach \<Longrightarrow> peer_reach F (rdma_write_finished now mach c)"
| environment: "peer_reach F c \<Longrightarrow> peer_reach F (c\<lparr>pc_env := e\<rparr>)"

definition sender_ok :: "sender_machine \<Rightarrow> bool" where
  "sender_ok mach \<longleftrightarrow> sn_tries mach < NACK_BACKOFF_TRIES \<and> sn_done_resends mach \<le> 1"

definition core_ok :: "'e peer_core \<Rightarrow> bool" where
  "core_ok c \<longleftrightarrow> (\<forall>i mach. dget (pc_senders c) i = Some mach \<longrightarrow> sender_ok mach) \<and> length (pc_completed c) \<le> DEDUP_RING_SIZE"

lemma core_ok_frame:
  "core_ok (send_msg m pl c) = core_ok c" "core_ok (c\<lparr>pc_env := e\<rparr>) = core_ok c" "core_ok (c\<lparr>pc_receivers := d\<rparr>) = core_ok c"
  "core_ok (c\<lparr>pc_dest_queues := q\<rparr>) = core_ok c" "core_ok (c\<lparr>pc_seq := n\<rparr>) = core_ok c" "core_ok (c\<lparr>pc_finished := f\<rparr>) = core_ok c"
  "core_ok (c\<lparr>pc_rdma_writes := w\<rparr>) = core_ok c" "core_ok (c\<lparr>pc_last_abort_reason := r\<rparr>) = core_ok c" "core_ok (c\<lparr>pc_sent := x\<rparr>) = core_ok c"
  by (simp_all add: core_ok_def send_msg_def)

lemma core_ok_set: "core_ok c \<Longrightarrow> sender_ok mach \<Longrightarrow> core_ok (c\<lparr>pc_senders := dset i mach (pc_senders c)\<rparr>)"
  by (simp add: core_ok_def)

lemma core_okI_set:
  "core_ok c \<Longrightarrow> pc_senders c' = dset i mach (pc_senders c) \<Longrightarrow> pc_completed c' = pc_completed c \<Longrightarrow> sender_ok mach \<Longrightarrow> core_ok c'"
  by (simp add: core_ok_def)

lemma core_ok_del: "core_ok c \<Longrightarrow> core_ok (c\<lparr>pc_senders := ddel i (pc_senders c)\<rparr>)"
  by (simp add: core_ok_def)

lemma core_ok_get: "core_ok c \<Longrightarrow> dget (pc_senders c) i = Some mach \<Longrightarrow> sender_ok mach"
  unfolding core_ok_def by blast

lemma open_send_ok: "core_ok c \<Longrightarrow> sender_ok mach \<Longrightarrow> core_ok (open_send now mach c)"
  by (auto simp: open_send_def Let_def send_msg_def sender_ok_def core_ok_def)

lemma finish_sender_ok:
  assumes "core_ok c"
  shows "core_ok (fst (finish_sender now mach st er c))"
proof -
  have "core_ok (c\<lparr>pc_senders := ddel i (pc_senders c), pc_finished := f, pc_dest_queues := q\<rparr>)"
    "core_ok (c\<lparr>pc_senders := ddel i (pc_senders c), pc_finished := f\<rparr>)" for i f q
    using assms by (simp_all add: core_ok_def)
  then show ?thesis using core_ok_get [OF assms]
    by (auto simp: finish_sender_def Let_def split: list.splits option.splits intro!: open_send_ok)
qed

lemma commit_done_ok: "core_ok c \<Longrightarrow> core_ok (commit_done i c)"
  by (auto simp: commit_done_def remember_completed_def core_ok_def send_msg_def Let_def split: option.splits)

lemma finish_commit_ok: "core_ok c \<Longrightarrow> core_ok (finish_commit F now mach c)"
  by (auto simp: finish_commit_def Let_def core_ok_frame split: prod.splits intro!: commit_done_ok)

lemma abort_ok: "core_ok c \<Longrightarrow> core_ok (abort_receiver F mach why c)"
  by (simp add: abort_receiver_def core_ok_def)

lemma clearance_ok: "core_ok c \<Longrightarrow> sender_ok mach \<Longrightarrow> core_ok (fst (handle_clearance F now mach c))"
  by (auto simp: handle_clearance_def Let_def send_msg_def sender_ok_def core_ok_def)

lemma nack_ok: "core_ok c \<Longrightarrow> sender_ok mach \<Longrightarrow> core_ok (fst (handle_nack now mach code c))"
  by (auto simp: handle_nack_def Let_def sender_ok_def intro!: finish_sender_ok core_ok_set)

lemma receiver_ok:
  assumes "core_ok c"
  shows "core_ok (fst (handle_rts F now i d n m ov eager pl c))" and "core_ok (fst (handle_chunk F now i sq ld pl c))"
    and "core_ok (handle_done F now i ck c)"
proof -
  show "core_ok (fst (handle_rts F now i d n m ov eager pl c))"
    using assms by (auto simp: handle_rts_def accept_rts_def Let_def core_ok_frame split: prod.splits sum.splits option.splits intro!: finish_commit_ok)
  show "core_ok (fst (handle_chunk F now i sq ld pl c))"
    using assms by (auto simp: handle_chunk_def Let_def core_ok_frame split: sum.splits option.splits intro!: abort_ok)
  show "core_ok (handle_done F now i ck c)"
    using assms by (auto simp: handle_done_def Let_def core_ok_frame split: option.splits intro!: abort_ok finish_commit_ok)
qed

lemma sender_ok_updates [simp]:
  "sender_ok (mach\<lparr>sn_ticket := tk\<rparr>) = sender_ok mach" "sender_ok (mach\<lparr>sn_cleared := b\<rparr>) = sender_ok mach"
  "sender_ok (mach\<lparr>sn_last_progress := now\<rparr>) = sender_ok mach" "sender_ok (mach\<lparr>sn_next_rts_at := now\<rparr>) = sender_ok mach"
  "sender_ok (mach\<lparr>sn_awaiting_ack_since := w\<rparr>) = sender_ok mach"
  by (simp_all add: sender_ok_def)

lemma clear_sender_ok:
  assumes "core_ok c"
  shows "core_ok (fst (clear_sender F now i ad c))"
proof (cases "dget (pc_senders c) i")
  case (Some mach)
  then show ?thesis using assms core_ok_get [OF assms Some]
    by (auto simp: clear_sender_def Let_def split: option.splits intro!: clearance_ok intro: core_okI_set [of c])
qed (use assms in \<open>simp add: clear_sender_def\<close>)

lemma handle_msg_ok:
  assumes "core_ok c"
  shows "core_ok (fst (handle_msg F now m c))"
proof (cases m)
  case (Pair msg payload)
  then show ?thesis using assms core_ok_get [OF assms]
    by (cases msg) (auto simp: handle_msg_def receiver_ok clear_sender_ok finish_sender_ok nack_ok split: option.splits)
qed

lemma tick_sender_ok:
  assumes "core_ok c"
  shows "core_ok (fst (tick_sender F now i c))"
proof (cases "dget (pc_senders c) i")
  case (Some mach)
  have ok: "sender_ok mach" by (rule core_ok_get [OF assms Some])
  have "core_ok (set_sender (mach\<lparr>sn_done_resends := Suc (sn_done_resends mach), sn_awaiting_ack_since := Some now\<rparr>) (send_msg x None c))"
    if "\<not> 1 \<le> sn_done_resends mach" for x
    by (rule core_okI_set [OF assms]) (use ok that in \<open>auto simp: send_msg_def sender_ok_def\<close>)
  then show ?thesis using Some assms ok by (simp add: tick_sender_def Let_def open_send_ok finish_sender_ok)
qed (use assms in \<open>simp add: tick_sender_def\<close>)

lemma tick_ok:
  assumes "core_ok c"
  shows "core_ok (fst (tick F now c))"
proof -
  have snd: "core_ok (fst (tick_senders F now ids c))" if "core_ok c" for ids c
    using that
  proof (induction ids arbitrary: c)
    case (Cons i ids)
    then show ?case using tick_sender_ok [OF Cons.prems, of F now i] by (auto split: prod.splits option.splits)
  qed simp
  have "core_ok (fold (tick_receiver F now) ids c)" if "core_ok c" for ids c
    using that by (induction ids arbitrary: c) (auto simp: tick_receiver_def split: option.splits intro!: abort_ok)
  moreover obtain c1 er where "tick_senders F now (dkeys (pc_senders c)) c = (c1, er)" by fastforce
  moreover have "core_ok c1" using snd [OF assms, of "dkeys (pc_senders c)"] calculation(2) by simp
  ultimately show ?thesis by (cases er) (simp_all add: tick_def)
qed

lemma peer_reach_ok: "peer_reach F c \<Longrightarrow> core_ok c"
proof (induction rule: peer_reach.induct)
  case (fresh e)
  then show ?case by (simp add: core_ok_def new_core_def)
next
  case (start c now dest p ov meta)
  let ?t = "\<lparr>tk_send_id = ''s'' @ show_nat (Suc (pc_seq c)), tk_dest_id = dest, tk_state = Negotiating, tk_error = None,
      tk_bytes_done = 0, tk_bytes_total = int (length p)\<rparr>"
  let ?m = "\<lparr>sn_ticket = ?t, sn_payload = p, sn_overwrite = ov, sn_meta = (case meta of None \<Rightarrow> [] | Some m \<Rightarrow> m), sn_tries = 0,
      sn_next_rts_at = 0, sn_awaiting_ack_since = None, sn_last_progress = now, sn_cleared = False, sn_done_resends = 0\<rparr>"
  have m: "sender_ok ?m" by (simp add: sender_ok_def NACK_BACKOFF_TRIES_def)
  have set: "core_ok (set_sender ?m (c\<lparr>pc_seq := Suc (pc_seq c)\<rparr>)\<lparr>pc_dest_queues := q\<rparr>)" for q
    by (rule core_okI_set [OF start.IH _ _ m]) simp_all
  have "core_ok (open_send now ?m (set_sender ?m (c\<lparr>pc_seq := Suc (pc_seq c)\<rparr>)\<lparr>pc_dest_queues := q\<rparr>))" for q
    by (rule open_send_ok [OF set m])
  with set show ?case by (simp add: start_send_def Let_def)
next
  case (written c i mach now)
  have "sender_ok mach" by (rule core_ok_get [OF written.IH written.hyps(2)])
  then have "sender_ok (mach\<lparr>sn_ticket := (sn_ticket mach)\<lparr>tk_bytes_done := tk_bytes_total (sn_ticket mach), tk_state := Committing\<rparr>,
      sn_awaiting_ack_since := Some now, sn_last_progress := now\<rparr>)" by simp
  then show ?case
    by (rule core_okI_set [OF written.IH, rotated 2]) (simp_all add: rdma_write_finished_def Let_def send_msg_def)
qed (simp_all add: handle_msg_ok tick_ok commit_done_ok core_ok_frame)

section \<open>A commit that is queued twice\<close>

lemma adopt_twice:
  assumes inv: "store_inv s (add_mset ext out)" and n: "0 < n" "n \<le> snd ext" and ad: "adopt_inbound s dest ext n meta peer now = Inr (rec, s1)"
  shows "\<exists>rec2 s2. adopt_inbound s1 dest ext n meta' peer' now' = Inr (rec2, s2) \<and> dget (so_objects s2) dest = Some rec2 \<and>
    st_extent rec2 = ext \<and> cover (fst ext) (free_bag (so_alloc s2)) = 1"
proof -
  have inv1: "store_inv s1 out" using adopt_ok [OF inv _ n(2) ad] n(1) by simp
  have get: "dget (so_objects s1) dest = Some rec" and rec: "st_extent rec = ext" "st_lease_refs rec = 0"
    using ad by (auto simp: adopt_inbound_def Let_def new_object_def release_raw_def split: option.splits if_splits)
  obtain rec2 s2 where ad2: "adopt_inbound s1 dest ext n meta' peer' now' = Inr (rec2, s2)"
    and s2: "so_alloc s2 = release_extent (so_alloc s1) ext" "dget (so_objects s2) dest = Some rec2" "st_extent rec2 = ext"
    using get rec by (auto simp: adopt_inbound_def Let_def new_object_def release_raw_def)
  obtain H where H: "held s1 + out = add_mset ext H" using held_object [OF get] rec(1) by (metis mset_add union_mset_add_mset_left)
  have holds: "store_slab.holds (so_alloc s1) (add_mset ext H)" using inv1 H by (simp add: store_inv_def)
  have one: "hits (fst ext) ext = 1" using n by (simp add: hits_def)
  have "cover (fst ext) (free_bag (so_alloc s1)) + (hits (fst ext) ext + cover (fst ext) H) \<le> 1" "free_ok (so_alloc s1)"
    using holds by (simp_all add: store_slab.holds_def)
  then have zero: "cover (fst ext) (free_bag (so_alloc s1)) = 0"
    using one cover_nonneg [of "fst ext" H] cover_nonneg [of "fst ext" "free_bag (so_alloc s1)"] by linarith
  have "cover (fst ext) (free_bag (so_alloc s2)) = 1"
    using release_extent_spec [of "so_alloc s1" ext "fst ext"] \<open>free_ok (so_alloc s1)\<close> n zero one s2(1) by simp
  with ad2 s2 show ?thesis by blast
qed

lemma commit_next_env:
  assumes "nv_commits (pc_env c) = (res, meta, i) # rest"
    and "adopt_inbound (nv_store (pc_env c)) (rv_dest_id res) (rv_extent res) (rv_len res) (Some meta) peer now = Inr (rec, s)"
  shows "nv_store (pc_env (commit_next peer now c)) = s" and "nv_commits (pc_env (commit_next peer now c)) = rest"
  using assms by (simp_all add: commit_next_def commit_done_def remember_completed_def send_msg_def Let_def split: option.splits)

lemma committed_twice:
  assumes q: "queued out i dest p M b" and p: "p \<noteq> []" and again: "rm_send_id mach = i" "fst (hd (nv_commits (pc_env b))) = rm_res mach"
  shows "\<exists>rec. length (nv_commits (pc_env (finish_commit (nm_conf k t) now mach b))) = 2 \<and>
    dget (so_objects (nv_store (pc_env (commit_next peer now (commit_next peer now (finish_commit (nm_conf k t) now mach b)))))) dest = Some rec \<and>
    hits (fst (st_extent rec)) (st_extent rec) = 1 \<and>
    cover (fst (st_extent rec)) (free_bag (so_alloc (nv_store (pc_env (commit_next peer now (commit_next peer now
      (finish_commit (nm_conf k t) now mach b))))))) = 1"
proof -
  let ?b3 = "finish_commit (nm_conf k t) now mach b"
  obtain r m where com: "nv_commits (pc_env b) = [(r, m, i)]" and g: "granted out dest (int (length p)) M r (pc_env b)"
    using q by (auto simp: queued_def)
  have b3: "nv_store (pc_env ?b3) = nv_store (pc_env b)" "nv_commits (pc_env ?b3) = [(r, m, i), (r, rm_meta mach, i)]"
    using com again by (simp_all add: finish_commit_def Let_def nm_commit_def)
  have own: "store_inv (nv_store (pc_env b)) (add_mset (rv_extent r) out)" "0 < rv_len r" "rv_len r \<le> snd (rv_extent r)" "rv_dest_id r = dest"
    using g p by (auto simp: granted_def nm_owned_def)
  obtain rec s' where ad: "adopt_inbound (nv_store (pc_env b)) dest (rv_extent r) (rv_len r) (Some m) peer now = Inr (rec, s')"
    using g by (auto simp: granted_def unleased_def adopt_inbound_def Let_def split: option.splits)
  from adopt_twice [OF own(1-3) ad] obtain rec2 s2
    where ad2: "adopt_inbound s' dest (rv_extent r) (rv_len r) (Some (rm_meta mach)) peer now = Inr (rec2, s2)"
    and bad: "dget (so_objects s2) dest = Some rec2" "st_extent rec2 = rv_extent r" "cover (fst (rv_extent r)) (free_bag (so_alloc s2)) = 1"
    by blast
  have "nv_store (pc_env (commit_next peer now (commit_next peer now ?b3))) = s2"
    using commit_next_env [of ?b3 r m i] commit_next_env(1) [of "commit_next peer now ?b3" r "rm_meta mach" i "[]"] b3 ad ad2 own(4) by simp
  then show ?thesis using b3(2) bad own(2,3) by (auto simp: hits_def)
qed

text \<open>The sender's clock passes the timeout while the commit is queued, and the receiver gets the final message
  again; then the dispatcher runs both commits. The result is the receiver before and after they run.\<close>

definition resend ::
  "nm_env peer_conf \<Rightarrow> string \<Rightarrow> time \<Rightarrow> time \<Rightarrow> string \<Rightarrow> byte list \<Rightarrow> bool \<Rightarrow> (string, json) dict option \<Rightarrow> nm_env peer_core \<Rightarrow> nm_env peer_core \<Rightarrow>
   nm_env peer_core \<times> nm_env peer_core" where
  "resend F peer now later dest payload overwrite meta a b =
     (let a1 = start_send now dest payload overwrite meta a;
          b1 = fst (handle_all F now (fresh_msgs a a1) b);
          a2 = fst (handle_all F now (fresh_msgs b b1) a1);
          b2 = fst (handle_all F now (fresh_msgs a1 a2) b1);
          a3 = fst (tick F later a2);
          b3 = fst (handle_all F later (fresh_msgs a2 a3) b2)
      in (b3, commit_next peer later (commit_next peer later b3)))"

lemma show_ids: "show_nat (Suc 0) = ''1''" "show_nat (Suc (Suc 0)) = ''2''"
  by code_simp+

lemma resent_done:
  assumes "EAGER_MAX_BYTES < int (length p)" and "0 < k" and "0 \<le> t"
  shows "fresh_msgs (fst (handle_msg (nm_conf k t) now (Cts ''s1'', None) (start_send now dest p ov meta (new_core e))))
      (fst (tick (nm_conf k t) (now + t) (fst (handle_msg (nm_conf k t) now (Cts ''s1'', None) (start_send now dest p ov meta (new_core e)))))) =
    [(DoneMsg ''s1'' (payload_checksum p), None)]"
  using assms
  by (simp add: start_send_def new_core_def Let_def dappend_def open_send_def send_msg_def show_ids handle_msg_def clear_sender_def
      handle_clearance_def fresh_msgs_def tick_def tick_sender_def)

section \<open>Results\<close>

text \<open>A link between a fresh sender and a receiver with a store of 32 pages.\<close>

definition demo_env :: nm_env where
  "demo_env = \<lparr>nv_store = new_store 131072, nv_quota = 131072, nv_held = 0, nv_commits = [], nv_parked = []\<rparr>"

lemma demo_reserve: "\<exists>res e1. nm_try_reserve (pc_env (new_core demo_env)) ''w'' 70000 False = (Inr res, e1)"
  by (simp add: demo_env_def new_core_def nm_try_reserve_def reserve_inbound_def new_store_def new_alloc_def alloc_extent_def
      need_of_def STORE_ALIGN_def Let_def)

text \<open>C26. A transfer delivers: when the receiver grants the reservation, a payload of any length, in the request or
  in chunks of any positive size, ends as the bytes of the destination object, no exception is raised, every
  other object keeps its bytes, the sender's ticket is done, and neither side keeps the transfer.\<close>

theorem rendezvous_delivers:
  assumes "disciplined_reach cap (nv_store (pc_env b)) out" and "0 \<le> cap" and "0 < k" and "dget_or (pc_dest_queues a) dest [] = []"
    and "next_id a \<notin> set (pc_completed b)" and "dget (pc_receivers b) (next_id a) = None" and "nv_commits (pc_env b) = []"
    and "nm_try_reserve (pc_env b) dest (int (length p)) ov = (Inr res, e1)"
  shows "\<exists>a' b'. rendezvous (nm_conf k t) peer now dest p ov meta a b = (a', b', [None, None, None, None]) \<and>
    contents (nv_store (pc_env b')) = (contents (nv_store (pc_env b)))(dest \<mapsto> p) \<and>
    dget (pc_senders a') (next_id a) = None \<and> dget (pc_receivers b') (next_id a) = None \<and>
    map tk_state (pc_finished a') = map tk_state (pc_finished a) @ [Done]"
proof -
  let ?i = "next_id a" and ?F = "nm_conf k t" and ?M = "contents (nv_store (pc_env b))" and ?a1 = "start_send now dest p ov meta a"
  have inv: "store_inv (nv_store (pc_env b)) out" using disciplined_reach_inv [OF assms(1,2)] by simp
  obtain b1 a2 b2 m2 where r: "handle_all ?F now (fresh_msgs a ?a1) b = (b1, None)" "handle_all ?F now (fresh_msgs b b1) ?a1 = (a2, None)"
      "handle_all ?F now (fresh_msgs ?a1 a2) b1 = (b2, None)" "queued out ?i dest p ?M b2" "pc_sent b2 = pc_sent b1"
      "sending ?i dest p m2 a2" "pc_finished a2 = pc_finished a"
    using transfer_rounds [OF inv assms(3-8)] by metis
  obtain b3 where c: "commit_next peer now b2 = b3" "contents (nv_store (pc_env b3)) = ?M(dest \<mapsto> p)" "dget (pc_receivers b3) ?i = None"
      "pc_sent b3 = pc_sent b2 @ [(DoneAck ?i, None)]"
    using commit_lands [OF r(4)] by metis
  obtain a3 where f: "handle_msg ?F now (DoneAck ?i, None) a2 = (a3, None)" "dget (pc_senders a3) ?i = None"
      "map tk_state (pc_finished a3) = map tk_state (pc_finished a2) @ [Done]"
    using ack_finishes [OF r(6)] by metis
  have "fresh_msgs b1 b3 = [(DoneAck ?i, None)]" using c(4) r(5) by (simp add: fresh_msgs_def)
  then have "rendezvous ?F peer now dest p ov meta a b = (a3, b3, [None, None, None, None])"
    using r c f by (simp add: rendezvous_def Let_def)
  then show ?thesis using c f r(7) by auto
qed

theorem rendezvous_delivers_witness:
  "\<exists>a' b'. rendezvous (nm_conf 4096 60) ''p'' 0 ''w'' (replicate 70000 7) False None (new_core demo_env) (new_core demo_env) =
       (a', b', [None, None, None, None]) \<and> contents (nv_store (pc_env b')) ''w'' = Some (replicate 70000 7)"
proof -
  obtain res e1 where "nm_try_reserve (pc_env (new_core demo_env)) ''w'' (int (length (replicate 70000 (7 :: byte)))) False = (Inr res, e1)"
    using demo_reserve by auto
  moreover have "disciplined_reach 131072 (nv_store (pc_env (new_core demo_env))) {#}"
    using disciplined_reach.boot by (simp add: new_core_def demo_env_def)
  ultimately show ?thesis
    using rendezvous_delivers [where b = "new_core demo_env" and a = "new_core demo_env" and cap = 131072 and out = "{#}" and k = 4096
        and t = 60 and peer = "''p''" and now = 0 and meta = None]
    by (fastforce simp: new_core_def demo_env_def)
qed

text \<open>C29. Retries are bounded: whatever messages arrive in whatever order, a live sender has been refused fewer than
  five times and has resent its final message at most once, and the ring of completed transfers holds at most
  256 ids.\<close>

theorem peer_retries_bounded:
  assumes "peer_reach F c" and "dget (pc_senders c) i = Some mach"
  shows "sn_tries mach < 5 \<and> sn_done_resends mach \<le> 1 \<and> length (pc_completed c) \<le> 256"
  using peer_reach_ok [OF assms(1)] assms(2) by (auto simp: core_ok_def sender_ok_def NACK_BACKOFF_TRIES_def DEDUP_RING_SIZE_def)

theorem peer_retries_bounded_witness:
  "\<exists>mach. dget (pc_senders (start_send 0 ''w'' [1, 2] False None (new_core ()))) ''s1'' = Some mach \<and> sn_tries mach < 5"
proof -
  obtain mach where "dget (pc_senders (start_send 0 ''w'' [1, 2] False None (new_core ()))) ''s1'' = Some mach"
    by (simp add: start_send_def new_core_def Let_def dappend_def open_send_def send_msg_def show_ids EAGER_MAX_BYTES_def)
  with peer_retries_bounded [OF peer_reach.start [OF peer_reach.fresh] this] show ?thesis by blast
qed

text \<open>C28. A queued send is lost and blocks its destination: while the first send to a destination backs off, the
  second, which waits behind it, times out; it leaves the table of senders but not the queue, and when the
  first send is acknowledged, opening the next one raises \<open>KeyError\<close>.\<close>

theorem queued_send_lost:
  assumes "int (length p) \<le> EAGER_MAX_BYTES" and "pf_inactivity_s F = INACTIVITY_TIMEOUT_S"
  shows "snd (handle_msg F 61 (DoneAck ''s1'', None)
      (fst (tick F 60 (fst (handle_msg F 59 (Nack ''s1'' ''BUSY'', None)
        (start_send 0 dest q ov m2 (start_send 0 dest p ov m1 (new_core e)))))))) = Some (KeyError ''s2'')"
  using assms
  by (simp add: start_send_def new_core_def open_send_def Let_def dappend_def handle_msg_def handle_nack_def show_ids
     finish_sender_def tick_def tick_sender_def send_msg_def INACTIVITY_TIMEOUT_S_def NACK_BACKOFF_TRIES_def NACK_BACKOFF_BASE_S_def)

theorem queued_send_lost_witness:
  "snd (handle_msg (nm_conf 4096 60) 61 (DoneAck ''s1'', None)
      (fst (tick (nm_conf 4096 60) 60 (fst (handle_msg (nm_conf 4096 60) 59 (Nack ''s1'' ''BUSY'', None)
        (start_send 0 ''w'' [2] False None (start_send 0 ''w'' [1] False None (new_core demo_env)))))))) = Some (KeyError ''s2'')"
  using queued_send_lost [of "[1]" "nm_conf 4096 60" "''w''" "[2]" False None None demo_env]
  by (simp add: EAGER_MAX_BYTES_def INACTIVITY_TIMEOUT_S_def)

text \<open>C27. A queued commit runs twice: when a large transfer's commit is still queued after the sender's timeout, the
  final message that the sender resends makes the receiver queue the same reservation again, and the second
  commit frees the extent that the object holds: its first byte is then in the object and in the free list.\<close>

theorem done_resend_commits_twice:
  assumes "disciplined_reach cap (nv_store (pc_env b)) out" and "0 \<le> cap" and "0 < k" and "0 \<le> t" and "EAGER_MAX_BYTES < int (length p)"
    and "''s1'' \<notin> set (pc_completed b)" and "dget (pc_receivers b) ''s1'' = None" and "nv_commits (pc_env b) = []"
    and "nm_try_reserve (pc_env b) dest (int (length p)) ov = (Inr res, e1)"
  shows "\<exists>b3 b4 rec. resend (nm_conf k t) peer now (now + t) dest p ov meta (new_core e) b = (b3, b4) \<and> length (nv_commits (pc_env b3)) = 2 \<and>
    dget (so_objects (nv_store (pc_env b4))) dest = Some rec \<and> hits (fst (st_extent rec)) (st_extent rec) = 1 \<and>
    cover (fst (st_extent rec)) (free_bag (so_alloc (nv_store (pc_env b4)))) = 1"
proof -
  let ?F = "nm_conf k t" and ?a = "new_core e :: nm_env peer_core" and ?M = "contents (nv_store (pc_env b))"
  let ?a1 = "start_send now dest p ov meta ?a" and ?i = "''s1''"
  have inv: "store_inv (nv_store (pc_env b)) out" using disciplined_reach_inv [OF assms(1,2)] by simp
  have i: "next_id ?a = ?i" by (simp add: next_id_def new_core_def show_ids)
  have q: "dget_or (pc_dest_queues ?a) dest [] = []" by (simp add: new_core_def)
  obtain m1 where s1: "sending ?i dest p m1 ?a1" "\<not> sn_cleared m1"
    and rts: "fresh_msgs ?a ?a1 = [(Rts ?i dest (int (length p)) (case meta of None \<Rightarrow> [] | Some m \<Rightarrow> m) ov False, None)]"
  proof (rule send_starts [OF q, of p now ov meta])
    fix mach assume "sending (next_id ?a) dest p mach ?a1" "\<not> sn_cleared mach"
      "fresh_msgs ?a ?a1 = [(Rts (next_id ?a) dest (int (length p)) (case meta of None \<Rightarrow> [] | Some m \<Rightarrow> m) ov (int (length p) \<le> EAGER_MAX_BYTES),
        if int (length p) \<le> EAGER_MAX_BYTES then Some p else None)]"
    then show thesis using assms(5) by (intro that [of mach]) (simp_all add: i)
  qed
  have "p \<noteq> []" using assms(5) by (auto simp: EAGER_MAX_BYTES_def)
  then obtain m2 a2 where a2: "handle_msg ?F now (Cts ?i, None) ?a1 = (a2, None)"
      "fresh_msgs ?a1 a2 = chunk_msgs ?i k p @ [(DoneMsg ?i (payload_checksum p), None)]"
    using clearance_sends [OF s1 assms(3)] by metis
  obtain b1 b2 mach where b: "handle_msg ?F now (Rts ?i dest (int (length p)) (case meta of None \<Rightarrow> [] | Some m \<Rightarrow> m) ov False, None) b = (b1, None)"
      "pc_sent b1 = pc_sent b @ [(Cts ?i, None)]"
      "handle_all ?F now (chunk_msgs ?i k p @ [(DoneMsg ?i (payload_checksum p), None)]) b1 = (b2, None)"
      "queued out ?i dest p ?M b2"
    and again: "rm_send_id mach = ?i" "fst (hd (nv_commits (pc_env b2))) = rm_res mach"
      "handle_msg ?F (now + t) (DoneMsg ?i (payload_checksum p), None) b2 = (finish_commit ?F (now + t) mach b2, None)"
    using large_cleared [OF inv assms(9,6,7,8,3)] by metis
  let ?b3 = "finish_commit ?F (now + t) mach b2"
  let ?b4 = "commit_next peer (now + t) (commit_next peer (now + t) ?b3)"
  from committed_twice [OF b(4) \<open>p \<noteq> []\<close> again(1,2)] obtain rec
    where bad: "length (nv_commits (pc_env ?b3)) = 2" "dget (so_objects (nv_store (pc_env ?b4))) dest = Some rec"
      "hits (fst (st_extent rec)) (st_extent rec) = 1" "cover (fst (st_extent rec)) (free_bag (so_alloc (nv_store (pc_env ?b4)))) = 1"
    by blast
  have "fresh_msgs b b1 = [(Cts ?i, None)]" using b(2) by (simp add: fresh_msgs_def)
  then have "resend ?F peer now (now + t) dest p ov meta ?a b = (?b3, ?b4)"
    using rts a2 b(1,3) again(3) resent_done [OF assms(5,3,4), of now dest ov meta e] by (simp add: resend_def Let_def)
  with bad show ?thesis by blast
qed

theorem done_resend_commits_twice_witness:
  "\<exists>b3 b4. resend (nm_conf 4096 60) ''p'' 0 60 ''w'' (replicate 70000 7) False None (new_core demo_env) (new_core demo_env) = (b3, b4) \<and>
     length (nv_commits (pc_env b3)) = 2"
proof -
  obtain res e1 where res: "nm_try_reserve (pc_env (new_core demo_env)) ''w'' (int (length (replicate 70000 (7 :: byte)))) False = (Inr res, e1)"
    using demo_reserve by auto
  have reach: "disciplined_reach 131072 (nv_store (pc_env (new_core demo_env))) {#}"
    using disciplined_reach.boot by (simp add: new_core_def demo_env_def)
  have "''s1'' \<notin> set (pc_completed (new_core demo_env))" "dget (pc_receivers (new_core demo_env)) ''s1'' = None"
    "nv_commits (pc_env (new_core demo_env)) = []" "EAGER_MAX_BYTES < int (length (replicate 70000 (7 :: byte)))"
    by (simp_all add: new_core_def demo_env_def EAGER_MAX_BYTES_def)
  from done_resend_commits_twice [OF reach _ _ _ this(4,1,2,3) res, of 4096 60 "''p''" 0 None demo_env] show ?thesis by auto
qed

end
