(* ===== verification/Spec2Isabelle.thy ===== *)
theory Spec2Isabelle
  imports Json_IO Engine_Results Policy_Common Peer_Link
begin

text \<open>
  \<^bold>\<open>A verification of the dataflow runtime and simulator.\<close>

  \<^bold>\<open>The program.\<close> A \<^emph>\<open>program\<close> is a chain of tasks over named objects that live in a small fast memory
  and a large backing memory; after each task, directives release, offload or prefetch objects. The runtime
  (\<open>src/src/dataflow\<close>) validates a program, runs it on a device with one compute stream and two transfer
  streams, and accounts every byte of fast memory in a ledger against a declared capacity. The simulator
  (\<open>src/src/dataflow_sim\<close>) takes the same chain in its own format and predicts the run. A planner writes
  directives into the simulator's format; the converter joins them back onto the program. Above it, the
  recompute planner tries variants of a workload and keeps the one that simulates best. Beside the runtime, a
  service keeps resident objects in one slab between runs, and peers send each other objects by a rendezvous
  protocol whose receiver lands the bytes in the slab and commits them to the catalog.

  \<^bold>\<open>Theories and sources.\<close> Paths are below \<open>src/src\<close>.
  \<^item> \<open>Prelude\<close>: results \<open>err + 'a\<close> with \<open>bindE\<close>, \<open>foldE\<close>, \<open>guardE\<close>; ordered dictionaries as association
    lists; the rule form \<open>outcome E Q m\<close>, "\<open>m\<close> raises an error in \<open>E\<close> or returns a value in \<open>Q\<close>"; binary
    search; the locale \<open>fuelled_loop\<close>, interpreted for every loop of the engine and the simulator that runs on
    one counter of fuel.
  \<^item> \<open>Program_IR\<close>, \<open>Program_Validate\<close>, \<open>Json_IO\<close>: \<open>dataflow/core/types.py\<close>, \<open>program.py\<close>, \<open>validate.py\<close>,
    \<open>jsonio.py\<close>. A dataclass is a record; the validator returns the collected errors as data.
  \<^item> \<open>Ledger\<close>, \<open>Slab\<close>, \<open>Placement\<close>, \<open>Objects\<close>, \<open>Pool\<close>, \<open>Transfers\<close>, \<open>Device_Fake\<close>: the files of these names below
    \<open>dataflow/runtime\<close>. \<open>Ledger\<close> and \<open>Slab\<close> state their contracts as the locales \<open>byte_account\<close> and
    \<open>byte_allocator\<close>, \<open>Device_Fake\<close> as \<open>completion_queue\<close>, each interpreted on the model.
  \<^item> \<open>Engine\<close>: \<open>dataflow/runtime/engine.py\<close>. The fields of the run are the record \<open>run_state\<close>; each handler is a
    function from state to \<open>run_state res\<close>; \<open>step\<close> takes one completion token, or evicts under pressure, or
    raises the deadlock. \<open>launch\<close>, the task body, is a parameter: it may return any duration that is not
    negative, or fail.
  \<^item> \<open>Engine_Frames\<close>, \<open>Engine_Memory\<close>, \<open>Engine_Progress\<close>, \<open>Engine_Safety\<close>, \<open>Engine_Lanes\<close>, \<open>Chain_Index\<close>: what
    each handler leaves alone, the accounting invariant, the potential that bounds the run, ledger errors,
    the tokens of the lanes, and the task index. \<open>Engine_Reach\<close> is the inductive set of states of a run with its
    invariants; \<open>Engine_Results\<close> what a finished run guarantees; \<open>Engine_Demo\<close> a concrete program.
  \<^item> \<open>Sim_Chain\<close>: \<open>dataflow_sim/core/schema.py\<close> and the converters of \<open>dataflow/core/convert.py\<close>.
    \<open>Sim_Validate\<close>: \<open>dataflow_sim/core/validate.py\<close>. \<open>Simulator\<close>: \<open>dataflow_sim/engine/simulator.py\<close> with
    \<open>core/reference_stream.py\<close>; the locals of \<open>_run_impl\<close> are the record \<open>sim_state\<close>, its closures functions on
    it. \<open>Sim_Moves\<close> and \<open>Sim_Safety\<close> prove its invariant per operation and per run.
  \<^item> \<open>Stall_Report\<close>: \<open>dataflow_sim/engine/stall_report.py\<close>, the loops of \<open>build_stall_report\<close> as folds.
    \<open>Recompute_Plan\<close>: \<open>dataflow_sim/planning/recompute.py\<close> over \<open>workloads/common/recompute.py\<close>; the chain
    builder, the policy and the answers of the clock are arguments, the simulator is the one of \<open>Simulator\<close>.
    \<open>Policy_Common\<close>: \<open>dataflow_sim/policies/_common.py\<close>, what the residency planners share, with the two regular
    expressions that read the simulator's error text and a matcher for them.
  \<^item> \<open>Store_Alloc\<close>, \<open>Store\<close>: \<open>dataflow/service/store.py\<close> and the handlers of \<open>handlers_store.py\<close> over the byte
    array of the fake boot. The allocator's contract is the locale \<open>extent_allocator\<close>, interpreted as
    \<open>store_slab\<close>. \<open>Store_Safety\<close> has the invariant and each operation's effect. \<open>Store_Clients\<close>: the runs of
    \<open>handlers_runs.py\<close> and the restores of \<open>handlers_snapshot.py\<close>, which write into catalogued objects in place.
    \<open>Store_Results\<close> has the calls of the store and its clients as an inductive relation, the discipline the clients
    keep as a separate condition (sizes not negative; a granted extent used only while outstanding), and the
    abstract store.
  \<^item> \<open>Peer_Core\<close>: \<open>dataflow/service/peer/core.py\<close> and \<open>protocol.py\<close>, one side of a link as the record \<open>peer_core\<close>,
    its embedder as a record of operations, the checksum as the bitwise CRC of \<open>zlib\<close>. \<open>Peer_Link\<close>: the embedder
    over the store (\<open>peer/nm.py\<close>) with the landing of chunks in place and the queue of commits, which interprets the
    locale \<open>landing_zone\<close>, and whole transfers.
  \<^item> This theory: properties that span the parts.

  \<^bold>\<open>What is proved.\<close>
  \<^item> Memory. Every reachable state of an engine run keeps the resident objects covered by the ledger and the
    ledger within the capacities (\<open>engine_within_budget\<close>); only the initial load can over-commit
    (\<open>run_never_overcommits\<close>); a finished simulation is within the capacities at its peak and in every snapshot
    (\<open>sim_within_capacity\<close>); both hold for one program at once (\<open>simulated_and_executed_within_capacity\<close>).
    Slab blocks and placed instances never overlap.
  \<^item> Progress. Runs of the engine and of the simulator end (\<open>execute_terminates\<close>, \<open>sim_terminates\<close>); pacing never
    deadlocks; a run reports a deadlock only from a state with nothing in flight, where a task waits and no eviction
    is left, or where all tasks were dispatched and a transfer stays queued.
  \<^item> Order. Whatever is registered and taken, completions are delivered by time, priority and registration; tokens match the lanes; the streams of
    a simulation are serial and its tasks run in order (\<open>sim_streams_serial\<close>), so a makespan is at least the sum
    of the runtimes.
  \<^item> Results. A successful run is quiescent and reports its final locations exactly; a pressure eviction drops a
    clean object with the farthest next use.
  \<^item> Planning. A stall report accounts for all compute time of a finished simulation and its backlog windows are
    exact; the recompute planner returns the best plan it saw and reports infeasibility only when its three
    fixed variants are infeasible. A chain that verification returns runs within the capacities; the write-back
    pass and the eviction key of the planners are exact.
  \<^item> Store. While its clients keep the discipline, the extents of a store tile its slab, the store refines a map from
    ids to byte strings, a leased object is changed only by a restore, and catalogued objects are well formed. The
    service itself does not enforce the discipline: a create with a negative size and a transfer that commits twice
    break it. Empty extents keep free space from merging, and a restore refused for capacity leaves objects behind.
  \<^item> Peers. A transfer that is granted delivers its payload into the store of the other side; retries are bounded
    whatever messages arrive; a final message resent during a queued commit binds one extent twice, and a send
    that times out in a queue blocks its destination.
  \<^item> Validation and formats. Both validators decide declarative conditions, and an accepted program resolves as
    a chain; chains and annotations round-trip, and JSON does for programs without empty tensor descriptions.

  \<^bold>\<open>Fuel.\<close> Python loops that wait for events take fuel. For the engine \<open>fuel_bound p\<close> is enough, 30 per task plus the
  outputs and directives of the tasks and one: each directive starts a bounded number of transfers and the source
  caps pressure evictions at ten per task. For the simulator one more than the number of triggers of the chain is
  enough: every round of \<open>advance\<close>, of the wait for inputs, and of the drain completes a transfer. Both termination
  theorems state that a larger amount gives the same result. The batch loop of the recompute planner halves its
  batch and needs none.

  \<^bold>\<open>Representation.\<close> Python integers are \<open>int\<close>; times are \<open>rat\<close>, so floating-point rounding is not modelled;
  exceptions are constructors of \<open>err\<close>, messages shortened but for the one that a caller parses
  (\<open>in_flight_message\<close>). The shuffles of the placement search are a parameter.

  \<^bold>\<open>Not modelled.\<close> The CUDA device, virtual memory arenas, profiler ranges and communication groups (bindings); the
  service daemon around its store and its peer protocol: sockets, worker processes, the files and hashes of snapshots,
  RDMA, and checkpoints (process, network and file I/O); in the store, locks, host pointers and the pinned slab; the residency
  policies and the workload builders (heuristics whose output is a chain that the modelled validator and simulator check); the
  web application; training (torch code). In the engine, the clean-up after a failed run and the statistics; in
  the pool, external allocators.
\<close>

section \<open>Programs, chains, the simulator and the engine\<close>

lemma known_before_chain: "known_ids (to_sim_chain p) i = known_before p i"
  by (auto simp: known_ids_def known_before_def to_sim_chain_def to_sim_object_def to_sim_task_def take_map image_image)

lemma task_ok_ids: "task_ok known t \<Longrightarrow> task_ids_ok known (to_sim_task t)"
proof -
  have "trigger_ids (map to_trigger ts) = set (map td_object_id ts)" for ts
    by (auto simp: trigger_ids_def to_trigger_def)
  then show "task_ok known t \<Longrightarrow> task_ids_ok known (to_sim_task t)"
    by (auto simp: task_ok_def task_ids_ok_def directives_ok_def Let_def to_sim_task_def comp_def image_image)
qed

lemma wf_program_ids:
  assumes "wf_program p"
  shows "ids_ok (to_sim_chain p)"
proof -
  have "distinct (map (\<lambda>ob. (so_id ob, so_location ob)) (tc_initial_memory (to_sim_chain p)))"
    using assms by (simp add: wf_program_def initial_ok_def to_sim_chain_def to_sim_object_def comp_def)
  moreover have "task_ids_ok (known_ids (to_sim_chain p) i) (tc_tasks (to_sim_chain p) ! i)" if "i < length (tc_tasks (to_sim_chain p))" for i
    using assms that task_ok_ids unfolding known_before_chain by (auto simp: wf_program_def to_sim_chain_def)
  moreover have "\<forall>(oid, loc) \<in> set (tc_final_locations (to_sim_chain p)).
      oid \<in> known_ids (to_sim_chain p) (length (tc_tasks (to_sim_chain p))) \<and> loc \<in> {''backing'', ''fast''}"
    using assms unfolding known_before_chain by (auto simp: wf_program_def to_sim_chain_def LOCATIONS_def)
  ultimately show ?thesis by (simp add: ids_ok_def)
qed

lemma wf_program_sane:
  assumes "wf_program p"
  shows "chain_sane (to_sim_chain p)"
proof -
  have "task_sane (to_sim_task t)" if mem: "t \<in> set (pr_tasks p)" for t
  proof -
    obtain i where "i < length (pr_tasks p)" "pr_tasks p ! i = t" using mem unfolding in_set_conv_nth by blast
    then have "task_ok (known_before p i) t" using assms unfolding wf_program_def by blast
    then show ?thesis by (auto simp: task_ok_def object_ok_def task_sane_def to_sim_task_def)
  qed
  moreover have "0 \<le> os_size_bytes ob" if "ob \<in> set (pr_initial_objects p)" for ob
  proof -
    have "initial_ok (pr_initial_objects p)" using assms unfolding wf_program_def by blast
    then have "object_ok (os_size_bytes ob) (os_location ob) (os_role ob) (os_tensor ob)" using that unfolding initial_ok_def by blast
    then show ?thesis by (simp add: object_ok_def)
  qed
  ultimately show ?thesis by (auto simp: chain_sane_def to_sim_chain_def to_sim_object_def)
qed

text \<open>C15. A program the runtime's validator accepts passes the identifier checks of the simulator's chain
  validator once converted: the two validators agree on which references resolve.\<close>

theorem valid_program_resolves:
  assumes "validate_program p = Valid"
  shows "validate_id_resolution (to_sim_chain p) = Inr ()"
  using assms by (simp add: validate_decides validate_ids_iff wf_program_ids)

theorem valid_program_resolves_witness:
  "validate_program demo_program = Valid \<and> validate_id_resolution (to_sim_chain demo_program) = Inr ()"
  using valid_program_resolves [OF demo_valid] demo_valid by blast

text \<open>C10. The simulator and the engine keep one budget: for a validated program with a declared fast capacity,
  neither the peak a finished simulation of its chain reports nor the peak a successful run of the engine
  reports exceeds it, whatever the launch durations of the run.\<close>

theorem simulated_and_executed_within_capacity:
  assumes "validate_program p = Valid" and "pr_fast_memory_capacity p = Some cap"
    and "trigger_total (to_sim_chain p) < fuel" and "sim_run fuel (to_sim_chain p) validate snapshots memory_trace = Inr lg"
    and "launch_ok launch" and "fb_pending b = []" and "en_validate cfg"
    and "run_dispatch n launch cancelled cfg opts p se b = Inr (r, st)"
  shows "el_peak_fast_memory_bytes lg \<le> cap \<and> rr_peak_fast_bytes r \<le> cap"
proof
  have "wf_program p" using assms(1) by (simp add: validate_decides)
  from sim_run_log [OF wf_program_sane [OF this] assms(3,4)] assms(2)
  show "el_peak_fast_memory_bytes lg \<le> cap" by (simp add: log_ok_def to_sim_chain_def)
  from run_dispatch_ok [OF assms(5-7), of p n cancelled opts se] assms(2)
  show "rr_peak_fast_bytes r \<le> cap" by (simp add: assms(8) run_ok_def)
qed

definition demo_log :: "event_log res" where
  "demo_log = sim_run 20 (to_sim_chain demo_program) True False True"

theorem simulated_and_executed_within_capacity_witness:
  "el_peak_fast_memory_bytes (projr demo_log) \<le> 100 \<and> rr_peak_fast_bytes (fst (projr demo_outcome)) \<le> 100"
proof -
  have "\<not> isl demo_log" by code_simp
  then have sim: "sim_run 20 (to_sim_chain demo_program) True False True = Inr (projr demo_log)"
    by (simp add: demo_log_def sum.collapse(2))
  have "\<not> isl demo_outcome" by code_simp
  then have run: "run_dispatch 100 synthetic_launch (\<lambda>_. False) demo_config demo_options demo_program None (new_backend False None) =
      Inr (fst (projr demo_outcome), snd (projr demo_outcome))"
    by (simp add: demo_outcome_def [symmetric] sum.collapse(2))
  have "pr_fast_memory_capacity demo_program = Some 100" "trigger_total (to_sim_chain demo_program) < 20"
    "fb_pending (new_backend False None) = []" "en_validate demo_config"
    by code_simp+
  from simulated_and_executed_within_capacity [OF demo_valid this(1,2) sim synthetic_launch_ok this(3,4) run]
  show ?thesis .
qed

end
